(* ===== verification/Prelude.thy ===== *)
theory Prelude
  imports Main "HOL-Library.Word"
begin

unbundle bit_operations_syntax

text \<open>
  Prelude of the development: the names of the model's machine types, the C idioms every
  component uses (size arithmetic that wraps at 64 bits, copying into a buffer at an offset,
  big-endian and little-endian byte strings), and the generic lemmas on words and lists that
  the component theories share. The targets of the repository are 64-bit (arm64 and x86-64),
  so a \<open>size_t\<close> is a natural number below \<open>2 ^ 64\<close> and its sums are taken modulo \<open>2 ^ 64\<close>.
\<close>

section \<open>Machine types\<close>

type_synonym byte = "8 word"
type_synonym bytes = "byte list"
type_synonym u16 = "16 word"
type_synonym u32 = "32 word"
type_synonym u64 = "64 word"

text \<open>
  A reader consumes a byte string: it returns its result, if it has one, and what is left of
  the input (also when it fails: the C readers move the caller's cursor on some errors).
\<close>

type_synonym 'a reader = "bytes \<Rightarrow> 'a option \<times> bytes"

section \<open>Collections\<close>

named_theorems size_defs \<open>the definitions of the size_t arithmetic\<close>
named_theorems byte_simps \<open>evaluation of byte string operations\<close>
named_theorems reader_eqs \<open>how each reader behaves on an input that holds what it reads\<close>
named_theorems length_simps \<open>lengths of encoded byte strings\<close>

section \<open>size_t arithmetic\<close>

definition size_max :: nat where
  "size_max = 2 ^ 64 - 1"

definition size_add :: "nat \<Rightarrow> nat \<Rightarrow> nat" where
  "size_add a b = (a + b) mod 2 ^ 64"

definition size_mul :: "nat \<Rightarrow> nat \<Rightarrow> nat" where
  "size_mul a b = (a * b) mod 2 ^ 64"

declare size_max_def [size_defs] size_add_def [size_defs] size_mul_def [size_defs]

lemma size_add_no_wrap: "a + b < 2 ^ 64 \<Longrightarrow> size_add a b = a + b"
  by (simp add: size_add_def)

lemma size_add_less_iff:
  assumes "a < 2 ^ 64" and "b < 2 ^ 64"
  shows "size_add a b < a \<longleftrightarrow> 2 ^ 64 \<le> a + b"
proof (cases "a + b < 2 ^ 64")
  case True
  then show ?thesis by (simp add: size_add_no_wrap)
next
  case False
  with assms have "(a + b) mod 2 ^ 64 = a + b - 2 ^ 64"
    by (simp add: mod_if)
  with False assms show ?thesis by (simp add: size_add_def)
qed

section \<open>Buffers\<close>

text \<open>\<open>memcpy(buf + off, xs, length xs)\<close>, and \<open>memmove\<close> within one buffer.\<close>

definition write_at :: "'a list \<Rightarrow> nat \<Rightarrow> 'a list \<Rightarrow> 'a list" where
  "write_at buf off xs = take off buf @ xs @ drop (off + length xs) buf"

definition move_within :: "'a list \<Rightarrow> nat \<Rightarrow> nat \<Rightarrow> nat \<Rightarrow> 'a list" where
  "move_within buf dst src n = write_at buf dst (take n (drop src buf))"

lemma length_write_at [length_simps]:
  "off + length xs \<le> length buf \<Longrightarrow> length (write_at buf off xs) = length buf"
  by (simp add: write_at_def)

lemma take_write_at: "n \<le> off \<Longrightarrow> off \<le> length buf \<Longrightarrow> take n (write_at buf off xs) = take n buf"
  by (simp add: write_at_def min_def)

lemma take_write_at_end:
  "off \<le> length buf \<Longrightarrow> take (off + length xs) (write_at buf off xs) = take off buf @ xs"
  by (simp add: write_at_def)

lemma write_at_Nil [simp]: "write_at buf off [] = buf"
  by (simp add: write_at_def)

lemma nth_write_at:
  assumes "off + length xs \<le> length buf" and "i < length buf"
  shows "write_at buf off xs ! i = (if off \<le> i \<and> i < off + length xs then xs ! (i - off) else buf ! i)"
  using assms by (auto simp: write_at_def nth_append min_def)

lemma length_move_within [length_simps]:
  "dst + n \<le> length buf \<Longrightarrow> src + n \<le> length buf \<Longrightarrow> length (move_within buf dst src n) = length buf"
  by (simp add: move_within_def length_write_at)

section \<open>Big-endian byte strings\<close>

fun be_val :: "bytes \<Rightarrow> nat" where
  "be_val [] = 0"
| "be_val (b # bs) = unat b * 256 ^ length bs + be_val bs"

text \<open>\<open>be_bytes n v\<close> is the value \<open>v mod 256 ^ n\<close> on \<open>n\<close> bytes, most significant first.\<close>

fun be_bytes :: "nat \<Rightarrow> nat \<Rightarrow> bytes" where
  "be_bytes 0 v = []"
| "be_bytes (Suc n) v = of_nat (v div 256 ^ n) # be_bytes n v"

lemma length_be_bytes [simp, length_simps]: "length (be_bytes n v) = n"
  by (induction n) auto

lemma be_bytes_Nil_iff [simp]: "be_bytes n v = [] \<longleftrightarrow> n = 0"
  by (cases n) auto

lemma unat_byte_less [simp]: "unat (b :: byte) < 256"
  using unsigned_less [of b, where 'a = nat] by simp

lemma unat_of_nat_byte [simp]: "unat (of_nat n :: byte) = n mod 256"
  by (simp add: unat_of_nat)

lemma be_val_append: "be_val (xs @ ys) = be_val xs * 256 ^ length ys + be_val ys"
  by (induction xs) (auto simp: algebra_simps power_add)

lemma be_val_snoc: "be_val (xs @ [b]) = be_val xs * 256 + unat b"
  by (simp add: be_val_append)

lemma be_val_less: "be_val bs < 256 ^ length bs"
proof (induction bs)
  case Nil
  then show ?case by simp
next
  case (Cons b bs)
  have "unat b * 256 ^ length bs \<le> 255 * 256 ^ length bs"
    using unat_byte_less [of b] by (intro mult_right_mono) linarith+
  with Cons have "unat b * 256 ^ length bs + be_val bs < 255 * 256 ^ length bs + 256 ^ length bs"
    by linarith
  then show ?case by simp
qed

lemma be_val_be_bytes: "be_val (be_bytes n v) = v mod 256 ^ n"
proof (induction n)
  case 0
  then show ?case by simp
next
  case (Suc n)
  have "v mod (256 ^ n * 256) = 256 ^ n * (v div 256 ^ n mod 256) + v mod 256 ^ n"
    by (rule mod_mult2_eq)
  with Suc show ?case by (simp add: mult.commute)
qed

lemma be_val_be_bytes_small: "v < 256 ^ n \<Longrightarrow> be_val (be_bytes n v) = v"
  by (simp add: be_val_be_bytes)

lemma be_bytes_be_val: "be_bytes (length bs) (be_val bs + k * 256 ^ length bs) = bs"
proof (induction bs arbitrary: k)
  case Nil
  then show ?case by simp
next
  case (Cons b bs)
  have split: "be_val (b # bs) + k * 256 ^ length (b # bs)
      = be_val bs + (unat b + k * 256) * 256 ^ length bs"
    by (simp add: algebra_simps)
  have "(be_val bs + (unat b + k * 256) * 256 ^ length bs) div 256 ^ length bs = unat b + k * 256"
    using be_val_less [of bs] by simp
  moreover have "of_nat (unat b + k * 256) = b"
    by (rule word_unat_eq_iff [THEN iffD2]) (simp only: unat_of_nat_byte, simp)
  ultimately show ?case
    using Cons [of "unat b + k * 256"]
    by (simp only: split [unfolded list.size add_0_right add_Suc_right] list.size be_bytes.simps
        add_0_right add_Suc_right)
qed

lemma be_bytes_unique: "length bs = n \<Longrightarrow> be_val bs = v \<Longrightarrow> be_bytes n v = bs"
  using be_bytes_be_val [of bs 0] by simp

lemma be_bytes_snoc: "be_bytes (Suc n) v = be_bytes n (v div 256) @ [of_nat v]"
proof (induction n)
  case 0
  then show ?case by simp
next
  case (Suc n)
  have "v div 256 ^ Suc n = v div 256 div 256 ^ n"
    by (simp add: div_mult2_eq)
  with Suc show ?case by simp
qed

lemma be_bytes_mod: "be_bytes n (v mod 256 ^ n) = be_bytes n v"
  by (rule be_bytes_unique) (simp_all add: be_val_be_bytes)

text \<open>The value of a little-endian byte string.\<close>

definition le_val :: "bytes \<Rightarrow> nat" where
  "le_val bs = be_val (rev bs)"

section \<open>Words\<close>

lemma nat_push_bit_or:
  assumes "(b :: nat) < 2 ^ n"
  shows "push_bit n a OR b = a * 2 ^ n + b"
proof -
  have b: "take_bit n b = b" using assms by (simp add: take_bit_nat_eq_self)
  have "\<not> bit (push_bit n a) i \<or> \<not> bit b i" for i
  proof (cases "i < n")
    case True
    then show ?thesis by (simp add: bit_push_bit_iff)
  next
    case False
    then have "\<not> bit (take_bit n b) i" by (simp add: bit_take_bit_iff)
    with b show ?thesis by simp
  qed
  then have "push_bit n a + b = push_bit n a OR b" by (rule disjunctive_add)
  then show ?thesis by (simp add: push_bit_eq_mult)
qed

lemma unat_push_bit_or:
  fixes w x :: "'a::len word"
  assumes "unat x < 2 ^ n" and "unat w < 2 ^ (LENGTH('a) - n)" and "n \<le> LENGTH('a)"
  shows "unat (push_bit n w OR x) = unat w * 2 ^ n + unat x"
proof -
  have "unat w * 2 ^ n < 2 ^ (LENGTH('a) - n) * 2 ^ n" using assms(2) by simp
  also have "\<dots> = 2 ^ LENGTH('a)" using assms(3) by (simp flip: power_add)
  finally have "take_bit LENGTH('a) (push_bit n (unat w)) = push_bit n (unat w)"
    by (simp add: take_bit_nat_eq_self push_bit_eq_mult)
  then show ?thesis
    using assms(1) by (simp add: unsigned_or_eq unsigned_push_bit_eq nat_push_bit_or)
qed

lemma unat_drop_bit: "unat (drop_bit n (w :: 'a::len word)) = unat w div 2 ^ n"
  by (rule trans [OF unat_drop_bit_eq drop_bit_eq_div])

lemma drop_bit_eq_0_iff: "drop_bit n (w :: 'a::len word) = 0 \<longleftrightarrow> unat w < 2 ^ n"
  by (simp add: unat_drop_bit word_unat_eq_iff div_eq_0_iff del: drop_bit_eq_div)

lemma unat_take_bit: "unat (take_bit n (w :: 'a::len word)) = unat w mod 2 ^ n"
  by (rule trans [OF unsigned_take_bit_eq take_bit_eq_mod])

lemma unat_and_mask: "unat ((w :: 'a::len word) AND mask n) = unat w mod 2 ^ n"
  using unat_take_bit [of n w] by (simp only: take_bit_eq_mask)

lemma unat_ucast_up:
  assumes "LENGTH('a::len) \<le> LENGTH('b::len)"
  shows "unat (ucast (w :: 'a word) :: 'b word) = unat w"
proof -
  have "unat w < 2 ^ LENGTH('a)" by (rule unsigned_less)
  also have "\<dots> \<le> 2 ^ LENGTH('b)" using assms by simp
  finally show ?thesis by (simp add: unsigned_ucast_eq take_bit_nat_eq_self)
qed

lemma unat_ucast: "unat (ucast (w :: 'a::len word) :: 'b::len word) = unat w mod 2 ^ LENGTH('b)"
  by (simp add: unsigned_ucast_eq take_bit_eq_mod)

lemma ucast_down_up: "LENGTH('a::len) \<le> LENGTH('b::len) \<Longrightarrow> ucast (ucast (w :: 'a word) :: 'b word) = w"
proof -
  assume l: "LENGTH('a) \<le> LENGTH('b)"
  have a: "unat w < 2 ^ LENGTH('a)" by (rule unsigned_less)
  have "unat (ucast (ucast w :: 'b word) :: 'a word) = unat w"
    unfolding unat_ucast [of "ucast w :: 'b word"] unat_ucast_up [OF l] using a by (rule mod_less)
  then show ?thesis by (simp only: word_unat_eq_iff)
qed

lemma ucast_of_nat: "ucast (w :: 'a::len word) = (of_nat (unat w) :: 'b::len word)"
  by (simp add: word_unat_eq_iff unat_ucast unat_of_nat)

lemma word_xor_eq_0_iff: "(a :: 'a::len word) XOR b = 0 \<longleftrightarrow> a = b"
  by (auto simp: bit_eq_iff bit_xor_iff)

lemma and_power_eq_0: "(w :: 'a::len word) AND 2 ^ n = 0 \<longleftrightarrow> even (unat w div 2 ^ n)"
proof -
  have "w AND 2 ^ n = 0 \<longleftrightarrow> \<not> bit w n" by (rule and_exp_eq_0_iff_not_bit)
  also have "bit w n \<longleftrightarrow> bit (unat w) n" by (simp only: bit_unsigned_iff) (auto dest: bit_imp_le_length)
  finally show ?thesis by (simp add: bit_iff_odd)
qed

lemma div_128: "(n :: nat) < 256 \<Longrightarrow> n div 128 = (if n < 128 then 0 else 1)"
  by (auto intro: div_nat_eqI)

lemma mod_128: "128 \<le> (n :: nat) \<Longrightarrow> n < 256 \<Longrightarrow> 128 + n mod 128 = n"
  by (simp add: le_mod_geq)

text \<open>The top bit of a byte, and the seven bits below it.\<close>

lemma high_bit_byte: "(b :: byte) AND 0x80 = 0 \<longleftrightarrow> unat b < 128"
proof -
  have "b AND 0x80 = 0 \<longleftrightarrow> even (unat b div 128)" using and_power_eq_0 [of b 7] by simp
  also have "unat b div 128 = (if unat b < 128 then 0 else 1)"
    by (rule div_128) simp
  finally show ?thesis by simp
qed

lemma high_bit_clear: "(b :: byte) AND 0x80 = 0 \<Longrightarrow> b \<noteq> 0x80"
  by auto

lemma low_bits_byte: "unat ((b :: byte) AND 0x7f) = unat b mod 128"
  using unat_and_mask [of b 7] by (simp add: mask_numeral)

lemma unat_high_bit_or:
  assumes "unat (x :: byte) < 128"
  shows "unat (0x80 OR x) = 128 + unat x"
  using unat_push_bit_or [of x 7 1] assms by (simp add: push_bit_of_1)

text \<open>A statement about every byte can be decided by evaluating it on the 256 bytes.\<close>

lemma byte_exhaust:
  assumes "list_all (\<lambda>k. P (word_of_int k)) [0..255]"
  shows "P (b :: byte)"
proof -
  have "uint b \<in> set [0..255]" using unsigned_less [of b, where 'a = int] by simp
  with assms have "P (word_of_int (uint b))" unfolding list_all_iff by (rule bspec)
  then show ?thesis by simp
qed

end
