(* ===== verification/Codec.thy ===== *)
theory Codec
  imports Prelude
begin

text \<open>
  The interface between the writers and the readers of the program: an encoding of values as
  byte strings, and a reader that undoes it and leaves the rest of the input. The component
  theories interpret these locales on the code's functions; what follows from the laws alone
  (no encoding is a prefix of another, a sequence of encodings has one reading) is proved
  here once.
\<close>

section \<open>A reader that undoes an encoding\<close>

locale codec =
  fixes enc :: "'a \<Rightarrow> bytes" and dec :: "'a reader" and valid :: "'a \<Rightarrow> bool"
  assumes dec_enc: "valid x \<Longrightarrow> dec (enc x @ r) = (Some x, r)"
begin

lemma prefix_free:
  assumes "valid x" and "valid y" and "enc x @ r = enc y @ s"
  shows "x = y \<and> r = s"
proof -
  have "dec (enc y @ s) = (Some x, r)" using dec_enc [OF assms(1), of r] unfolding assms(3) .
  with dec_enc [OF assms(2), of s] show ?thesis by simp
qed

lemma inj: "valid x \<Longrightarrow> valid y \<Longrightarrow> enc x = enc y \<Longrightarrow> x = y"
  using prefix_free [of x y "[]" "[]"] by simp

lemma not_proper_prefix: "valid x \<Longrightarrow> valid y \<Longrightarrow> enc x @ r = enc y \<Longrightarrow> r = []"
  using prefix_free [of x y r "[]"] by simp

end

section \<open>A reader that accepts nothing else\<close>

locale canonical_codec = codec +
  assumes sound: "dec s = (Some x, r) \<Longrightarrow> valid x \<and> s = enc x @ r"
    and nonempty: "valid x \<Longrightarrow> enc x \<noteq> []"
begin

lemma dec_iff: "dec s = (Some x, r) \<longleftrightarrow> valid x \<and> s = enc x @ r"
  using sound dec_enc by blast

lemma dec_shorter: "dec s = (Some x, r) \<Longrightarrow> length r < length s"
  using dec_iff nonempty by fastforce

lemma sequence_unique:
  "\<forall>x \<in> set xs. valid x \<Longrightarrow> \<forall>y \<in> set ys. valid y \<Longrightarrow>
   concat (map enc xs) = concat (map enc ys) \<Longrightarrow> xs = ys"
proof (induction xs arbitrary: ys)
  case Nil
  then show ?case using nonempty by (cases ys) auto
next
  case (Cons x xs)
  have "valid x" using Cons.prems(1) by simp
  with nonempty have "concat (map enc ys) \<noteq> []" using Cons.prems(3) [symmetric] by simp
  then obtain y ys' where ys: "ys = y # ys'" by (cases ys) simp_all
  have e: "enc x @ concat (map enc xs) = enc y @ concat (map enc ys')" using Cons.prems(3) ys by simp
  from Cons.prems(1,2) ys have v: "valid x" "valid y"
    and vs: "\<forall>x \<in> set xs. valid x" "\<forall>y \<in> set ys'. valid y" by simp_all
  from prefix_free [OF v e] have xy: "x = y" and rest: "concat (map enc xs) = concat (map enc ys')"
    by (rule conjunct1, rule conjunct2)
  from Cons.IH [OF vs rest] show ?case unfolding ys xy by (rule arg_cong)
qed

end

end
