(* ===== verification/Cbs.thy ===== *)
theory Cbs
  imports Codec
begin

text \<open>
  The byte string reader of BoringSSL, \<^verbatim>\<open>crypto/bytestring/cbs.c\<close>, with the helpers of
  \<^verbatim>\<open>crypto/mem.c\<close> it calls. A \<^verbatim>\<open>CBS\<close> is a pointer into memory and a length: its model is the
  list of the bytes it spans. Every operation returns the new cursor next to its result, also
  when it fails, because the code moves the cursor before it detects some errors.
\<close>

section \<open>Memory helpers\<close>

text \<open>
  \<open>alloc n\<close> says whether the C library's allocator can provide \<open>n\<close> bytes; \<open>None\<close> is the
  null pointer.
\<close>

fun memcmp_loop :: "byte \<Rightarrow> bytes \<Rightarrow> bytes \<Rightarrow> byte" where
  "memcmp_loop x (a # as) (b # bs) = memcmp_loop (x OR (a XOR b)) as bs"
| "memcmp_loop x as bs = x"

definition CRYPTO_memcmp :: "bytes \<Rightarrow> bytes \<Rightarrow> byte" where
  "CRYPTO_memcmp a b = memcmp_loop 0 a b"

fun OPENSSL_strnlen :: "bytes \<Rightarrow> nat" where
  "OPENSSL_strnlen [] = 0"
| "OPENSSL_strnlen (c # s) = (if c = 0 then 0 else Suc (OPENSSL_strnlen s))"

definition OPENSSL_memdup :: "(nat \<Rightarrow> bool) \<Rightarrow> bytes \<Rightarrow> bytes option" where
  "OPENSSL_memdup alloc data =
     (if length data = 0 then None else if alloc (length data) then Some data else None)"

definition OPENSSL_strndup :: "(nat \<Rightarrow> bool) \<Rightarrow> bytes \<Rightarrow> bytes option" where
  "OPENSSL_strndup alloc str =
     (let size = OPENSSL_strnlen str; alloc_size = size_add size 1
      in if alloc_size < size then None
         else if alloc alloc_size then Some (take size str @ [0]) else None)"

section \<open>Cursor operations\<close>

definition cbs_get :: "nat \<Rightarrow> bytes reader" where
  "cbs_get n cbs =
     (if length cbs < n then (None, cbs) else (Some (take n cbs), drop n cbs))"

definition CBS_skip :: "nat \<Rightarrow> bytes \<Rightarrow> bool \<times> bytes" where
  "CBS_skip n cbs = (case cbs_get n cbs of (None, r) \<Rightarrow> (False, r) | (Some _, r) \<Rightarrow> (True, r))"

definition CBS_stow :: "(nat \<Rightarrow> bool) \<Rightarrow> bytes \<Rightarrow> bool \<times> bytes option" where
  "CBS_stow alloc cbs =
     (if length cbs = 0 then (True, None)
      else case OPENSSL_memdup alloc cbs of
        None \<Rightarrow> (False, None)
      | Some p \<Rightarrow> (True, Some p))"

definition CBS_strdup :: "(nat \<Rightarrow> bool) \<Rightarrow> bytes \<Rightarrow> bool \<times> bytes option" where
  "CBS_strdup alloc cbs = (let out = OPENSSL_strndup alloc cbs in (out \<noteq> None, out))"

definition CBS_contains_zero_byte :: "bytes \<Rightarrow> bool" where
  "CBS_contains_zero_byte cbs = list_ex (\<lambda>b. b = 0) cbs"

definition CBS_mem_equal :: "bytes \<Rightarrow> bytes \<Rightarrow> bool" where
  "CBS_mem_equal cbs data =
     (if length data \<noteq> length cbs then False else CRYPTO_memcmp cbs data = 0)"

text \<open>The loop of \<^verbatim>\<open>cbs_get_u\<close>: \<open>result <<= 8; result |= data[i]\<close>.\<close>

fun cbs_get_u_loop :: "u64 \<Rightarrow> bytes \<Rightarrow> u64" where
  "cbs_get_u_loop result [] = result"
| "cbs_get_u_loop result (b # bs) = cbs_get_u_loop (push_bit 8 result OR ucast b) bs"

definition cbs_get_u :: "nat \<Rightarrow> u64 reader" where
  "cbs_get_u n cbs =
     (case cbs_get n cbs of
        (None, r) \<Rightarrow> (None, r)
      | (Some data, r) \<Rightarrow> (Some (cbs_get_u_loop 0 data), r))"

definition CBS_get_u8 :: "byte reader" where
  "CBS_get_u8 cbs =
     (case cbs_get 1 cbs of
        (None, r) \<Rightarrow> (None, r)
      | (Some v, r) \<Rightarrow> (Some (v ! 0), r))"

definition CBS_get_u16 :: "u16 reader" where
  "CBS_get_u16 cbs =
     (case cbs_get_u 2 cbs of (None, r) \<Rightarrow> (None, r) | (Some v, r) \<Rightarrow> (Some (ucast v), r))"

text \<open>\<^verbatim>\<open>CRYPTO_bswap2\<close>, \<^verbatim>\<open>4\<close> and \<^verbatim>\<open>8\<close>, in the portable form of \<^verbatim>\<open>crypto/internal.h\<close>.\<close>

definition CRYPTO_bswap2 :: "u16 \<Rightarrow> u16" where
  "CRYPTO_bswap2 x = drop_bit 8 x OR push_bit 8 x"

definition CRYPTO_bswap4 :: "u32 \<Rightarrow> u32" where
  "CRYPTO_bswap4 x0 =
     (let x = drop_bit 16 x0 OR push_bit 16 x0
      in drop_bit 8 (x AND 0xff00ff00) OR push_bit 8 (x AND 0x00ff00ff))"

definition CRYPTO_bswap8 :: "u64 \<Rightarrow> u64" where
  "CRYPTO_bswap8 x =
     ucast (CRYPTO_bswap4 (ucast (drop_bit 32 x)))
     OR push_bit 32 (ucast (CRYPTO_bswap4 (ucast x)))"

definition CBS_get_u16le :: "u16 reader" where
  "CBS_get_u16le cbs =
     (case CBS_get_u16 cbs of (None, r) \<Rightarrow> (None, r) | (Some v, r) \<Rightarrow> (Some (CRYPTO_bswap2 v), r))"

definition CBS_get_u24 :: "u32 reader" where
  "CBS_get_u24 cbs =
     (case cbs_get_u 3 cbs of (None, r) \<Rightarrow> (None, r) | (Some v, r) \<Rightarrow> (Some (ucast v), r))"

definition CBS_get_u32 :: "u32 reader" where
  "CBS_get_u32 cbs =
     (case cbs_get_u 4 cbs of (None, r) \<Rightarrow> (None, r) | (Some v, r) \<Rightarrow> (Some (ucast v), r))"

definition CBS_get_u32le :: "u32 reader" where
  "CBS_get_u32le cbs =
     (case CBS_get_u32 cbs of (None, r) \<Rightarrow> (None, r) | (Some v, r) \<Rightarrow> (Some (CRYPTO_bswap4 v), r))"

definition CBS_get_u64 :: "u64 reader" where
  "CBS_get_u64 cbs = cbs_get_u 8 cbs"

definition CBS_get_u64le :: "u64 reader" where
  "CBS_get_u64le cbs =
     (case cbs_get_u 8 cbs of (None, r) \<Rightarrow> (None, r) | (Some v, r) \<Rightarrow> (Some (CRYPTO_bswap8 v), r))"

definition CBS_get_last_u8 :: "byte reader" where
  "CBS_get_last_u8 cbs =
     (if length cbs = 0 then (None, cbs)
      else (Some (cbs ! (length cbs - 1)), take (length cbs - 1) cbs))"

definition CBS_get_bytes :: "nat \<Rightarrow> bytes reader" where
  "CBS_get_bytes n cbs =
     (case cbs_get n cbs of (None, r) \<Rightarrow> (None, r) | (Some v, r) \<Rightarrow> (Some v, r))"

text \<open>
  \<^verbatim>\<open>CBS_copy_bytes\<close> writes the bytes to the start of the caller's buffer \<open>out\<close> (which has
  room for them).
\<close>

definition CBS_copy_bytes :: "bytes \<Rightarrow> nat \<Rightarrow> bytes reader" where
  "CBS_copy_bytes out n cbs =
     (case cbs_get n cbs of (None, r) \<Rightarrow> (None, r) | (Some v, r) \<Rightarrow> (Some (write_at out 0 v), r))"

definition cbs_get_length_prefixed :: "nat \<Rightarrow> bytes reader" where
  "cbs_get_length_prefixed len_len cbs =
     (case cbs_get_u len_len cbs of
        (None, r) \<Rightarrow> (None, r)
      | (Some n, r) \<Rightarrow> CBS_get_bytes (unat n) r)"

definition CBS_get_u8_length_prefixed :: "bytes reader" where
  "CBS_get_u8_length_prefixed = cbs_get_length_prefixed 1"

definition CBS_get_u16_length_prefixed :: "bytes reader" where
  "CBS_get_u16_length_prefixed = cbs_get_length_prefixed 2"

definition CBS_get_u24_length_prefixed :: "bytes reader" where
  "CBS_get_u24_length_prefixed = cbs_get_length_prefixed 3"

section \<open>What the readers return\<close>

lemma memcmp_loop_0: "length a = length b \<Longrightarrow> memcmp_loop x a b = 0 \<longleftrightarrow> x = 0 \<and> a = b"
  by (induction x a b rule: memcmp_loop.induct) (auto simp: or_eq_0_iff word_xor_eq_0_iff)

lemma CRYPTO_memcmp_eq_0: "length a = length b \<Longrightarrow> CRYPTO_memcmp a b = 0 \<longleftrightarrow> a = b"
  by (simp add: CRYPTO_memcmp_def memcmp_loop_0)

lemma CBS_mem_equal_iff: "CBS_mem_equal cbs data \<longleftrightarrow> cbs = data"
  by (auto simp: CBS_mem_equal_def CRYPTO_memcmp_eq_0)

lemma OPENSSL_strnlen_le: "OPENSSL_strnlen s \<le> length s"
  by (induction s) auto

lemma OPENSSL_strnlen_no_zero: "0 \<notin> set s \<Longrightarrow> OPENSSL_strnlen s = length s"
  by (induction s) auto

lemma cbs_get_append [reader_eqs]: "length xs = n \<Longrightarrow> cbs_get n (xs @ r) = (Some xs, r)"
  by (auto simp: cbs_get_def)

lemma cbs_get_Some: "cbs_get n s = (Some xs, r) \<longleftrightarrow> s = xs @ r \<and> length xs = n"
  by (auto simp: cbs_get_def)

lemma cbs_get_None: "cbs_get n s = (None, r) \<longleftrightarrow> length s < n \<and> r = s"
  by (auto simp: cbs_get_def)

lemma CBS_get_u8_Nil [simp]: "CBS_get_u8 [] = (None, [])"
  by (simp add: CBS_get_u8_def cbs_get_def)

lemma CBS_get_u8_Cons [simp, reader_eqs]: "CBS_get_u8 (b # s) = (Some b, s)"
  by (simp add: CBS_get_u8_def cbs_get_def)

lemma CBS_get_u8_Some: "CBS_get_u8 s = (Some b, r) \<longleftrightarrow> s = b # r"
  by (cases s) auto

lemma CBS_get_bytes_eq: "CBS_get_bytes n = cbs_get n"
  by (auto simp: CBS_get_bytes_def split: prod.splits option.splits)

lemma CBS_skip_append [reader_eqs]: "length xs = n \<Longrightarrow> CBS_skip n (xs @ r) = (True, r)"
  by (simp add: CBS_skip_def cbs_get_append)

lemma CBS_skip_eq: "CBS_skip n s = (if length s < n then (False, s) else (True, drop n s))"
  by (simp add: CBS_skip_def cbs_get_def)

text \<open>The loop computes the big-endian value while it fits in 64 bits.\<close>

lemma unat_cbs_get_u_loop:
  "unat r * 256 ^ length bs + be_val bs < 2 ^ 64 \<Longrightarrow>
   unat (cbs_get_u_loop r bs) = unat r * 256 ^ length bs + be_val bs"
proof (induction bs arbitrary: r)
  case Nil
  then show ?case by simp
next
  case (Cons b bs)
  let ?r = "push_bit 8 r OR ucast b :: u64"
  have bound: "unat r * 256 ^ Suc (length bs) < 2 ^ 64"
    using Cons.prems by simp
  have "unat r * 256 * 1 \<le> unat r * 256 * 256 ^ length bs"
    by (intro mult_le_mono2) simp
  also have "\<dots> < 2 ^ 64" using bound by simp
  finally have "unat r < 2 ^ 56" by simp
  then have r: "unat ?r = unat r * 256 + unat b"
    by (subst unat_push_bit_or) (simp_all add: unat_ucast_up)
  then have "unat ?r * 256 ^ length bs + be_val bs = unat r * 256 ^ length (b # bs) + be_val (b # bs)"
    by (simp add: algebra_simps)
  with Cons.IH [of ?r] Cons.prems show ?case by simp
qed

lemma cbs_get_u_append:
  assumes "length xs = n" and "n \<le> 8"
  shows "cbs_get_u n (xs @ r) = (Some (of_nat (be_val xs)), r)"
proof -
  have "be_val xs < 256 ^ n" using be_val_less [of xs] assms(1) by simp
  also have "(256 :: nat) ^ n \<le> 256 ^ 8" using assms(2) by (intro power_increasing) auto
  finally have small: "be_val xs < 2 ^ 64" by simp
  then have "unat (cbs_get_u_loop 0 xs) = be_val xs"
    using unat_cbs_get_u_loop [of 0 xs] by simp
  with small have "cbs_get_u_loop 0 xs = of_nat (be_val xs)"
    by (simp add: word_unat_eq_iff unat_of_nat)
  with assms show ?thesis by (simp add: cbs_get_u_def cbs_get_append)
qed

lemma cbs_get_u_Some:
  assumes "n \<le> 8"
  shows "cbs_get_u n s = (Some v, r) \<longleftrightarrow>
    (\<exists>xs. s = xs @ r \<and> length xs = n \<and> v = of_nat (be_val xs))"
proof
  assume "cbs_get_u n s = (Some v, r)"
  then obtain xs where "cbs_get n s = (Some xs, r)" and v: "v = cbs_get_u_loop 0 xs"
    by (auto simp: cbs_get_u_def split: prod.splits option.splits)
  then have s: "s = xs @ r" "length xs = n" by (simp_all add: cbs_get_Some)
  with v assms cbs_get_u_append [of xs n r]
  show "\<exists>xs. s = xs @ r \<and> length xs = n \<and> v = of_nat (be_val xs)"
    by (auto simp: cbs_get_u_def cbs_get_append)
next
  assume "\<exists>xs. s = xs @ r \<and> length xs = n \<and> v = of_nat (be_val xs)"
  with assms show "cbs_get_u n s = (Some v, r)" by (auto simp: cbs_get_u_append)
qed

lemma be_val_of_length_less: "length xs \<le> n \<Longrightarrow> be_val xs < 256 ^ n"
  by (rule less_le_trans [OF be_val_less]) (simp add: power_increasing)

section \<open>The fixed-width readers as codecs\<close>

lemma cbs_get_u_be_bytes:
  assumes "k \<le> 8" and "v < 256 ^ k"
  shows "cbs_get_u k (be_bytes k v @ r) = (Some (of_nat v), r)"
  using cbs_get_u_append [of "be_bytes k v" k r] assms by (simp add: be_val_be_bytes_small)

lemma unat_word_bytes: "unat (v :: 'a::len word) < 256 ^ k" if "LENGTH('a) \<le> 8 * k"
proof -
  have "unat v < 2 ^ LENGTH('a)" by (rule unsigned_less)
  also have "(2 :: nat) ^ LENGTH('a) \<le> 2 ^ (8 * k)" using that by (intro power_increasing) auto
  finally show ?thesis by (simp add: power_mult)
qed

interpretation u8: canonical_codec "\<lambda>v. [v]" CBS_get_u8 "\<lambda>v. True"
  by unfold_locales (simp_all add: CBS_get_u8_Some)

lemma ucast_of_bytes: "length xs = k \<Longrightarrow> LENGTH('a) = 8 * k \<Longrightarrow> k \<le> 8 \<Longrightarrow>
  be_bytes k (unat (ucast (of_nat (be_val xs) :: u64) :: 'a::len word)) = xs"
proof (rule be_bytes_unique)
  assume xs: "length xs = k" "LENGTH('a) = 8 * k" "k \<le> 8"
  have a: "be_val xs < 2 ^ LENGTH('a)" using be_val_less [of xs] xs by (simp add: power_mult)
  also have "(2 :: nat) ^ LENGTH('a) \<le> 2 ^ 64" using xs by (intro power_increasing) auto
  finally have "unat (of_nat (be_val xs) :: u64) = be_val xs" by (simp add: unat_of_nat)
  with a show "be_val xs = unat (ucast (of_nat (be_val xs) :: u64) :: 'a word)" by (simp add: unat_ucast)
qed

interpretation u16: canonical_codec "\<lambda>v. be_bytes 2 (unat v)" CBS_get_u16 "\<lambda>v. True"
proof
  show "CBS_get_u16 (be_bytes 2 (unat x) @ r) = (Some x, r)" for x r
    using cbs_get_u_be_bytes [of 2 "unat x" r] unat_word_bytes [where k = 2 and v = x]
    by (simp add: CBS_get_u16_def ucast_down_up del: be_bytes.simps)
  show "True \<and> s = be_bytes 2 (unat x) @ r" if "CBS_get_u16 s = (Some x, r)" for s x r
  proof -
    from that obtain v where "cbs_get_u 2 s = (Some v, r)" "x = ucast v"
      by (auto simp: CBS_get_u16_def split: prod.splits option.splits)
    then show ?thesis using ucast_of_bytes [where k = 2 and 'a = 16] by (auto simp: cbs_get_u_Some)
  qed
qed simp

interpretation u32: canonical_codec "\<lambda>v. be_bytes 4 (unat v)" CBS_get_u32 "\<lambda>v. True"
proof
  show "CBS_get_u32 (be_bytes 4 (unat x) @ r) = (Some x, r)" for x r
    using cbs_get_u_be_bytes [of 4 "unat x" r] unat_word_bytes [where k = 4 and v = x]
    by (simp add: CBS_get_u32_def ucast_down_up del: be_bytes.simps)
  show "True \<and> s = be_bytes 4 (unat x) @ r" if "CBS_get_u32 s = (Some x, r)" for s x r
  proof -
    from that obtain v where "cbs_get_u 4 s = (Some v, r)" "x = ucast v"
      by (auto simp: CBS_get_u32_def split: prod.splits option.splits)
    then show ?thesis using ucast_of_bytes [where k = 4 and 'a = 32] by (auto simp: cbs_get_u_Some)
  qed
qed simp

interpretation u64: canonical_codec "\<lambda>v. be_bytes 8 (unat v)" CBS_get_u64 "\<lambda>v. True"
proof
  show "CBS_get_u64 (be_bytes 8 (unat x) @ r) = (Some x, r)" for x r
    using cbs_get_u_be_bytes [of 8 "unat x" r] unat_word_bytes [where k = 8 and v = x]
    by (simp add: CBS_get_u64_def del: be_bytes.simps)
  show "True \<and> s = be_bytes 8 (unat x) @ r" if "CBS_get_u64 s = (Some x, r)" for s x r
    using that ucast_of_bytes [where k = 8 and 'a = 64] by (auto simp: cbs_get_u_Some CBS_get_u64_def)
qed simp

text \<open>Length-prefixed strings.\<close>

lemma length_prefixed_iff:
  assumes "1 \<le> k" and "k \<le> 8"
  shows "cbs_get_length_prefixed k s = (Some x, r) \<longleftrightarrow>
    length x < 256 ^ k \<and> s = be_bytes k (length x) @ x @ r"
proof
  assume "cbs_get_length_prefixed k s = (Some x, r)"
  then obtain n s' where n: "cbs_get_u k s = (Some n, s')" and x: "cbs_get (unat n) s' = (Some x, r)"
    by (auto simp: cbs_get_length_prefixed_def CBS_get_bytes_eq split: prod.splits option.splits)
  from n obtain xs where xs: "s = xs @ s'" "length xs = k" "n = of_nat (be_val xs)"
    using assms by (auto simp: cbs_get_u_Some)
  have less: "be_val xs < 256 ^ k" using be_val_less [of xs] xs(2) by simp
  also have "(256 :: nat) ^ k \<le> 256 ^ 8" using assms by (intro power_increasing) auto
  finally have "unat n = be_val xs" using xs(3) by (simp add: unat_of_nat)
  with x have s': "s' = x @ r" and len: "length x = be_val xs" by (simp_all add: cbs_get_Some)
  have bytes: "be_bytes k (be_val xs) = xs" by (rule be_bytes_unique [OF xs(2) refl])
  show "length x < 256 ^ k \<and> s = be_bytes k (length x) @ x @ r"
    unfolding len xs(1) s' bytes using less by (rule conjI) (rule refl)
next
  assume a: "length x < 256 ^ k \<and> s = be_bytes k (length x) @ x @ r"
  have "(256 :: nat) ^ k \<le> 256 ^ 8" using assms(2) by (rule power_increasing) simp
  with a have "length x < 256 ^ 8" by linarith
  then have "unat (of_nat (length x) :: u64) = length x" by (simp add: unat_of_nat)
  with a assms show "cbs_get_length_prefixed k s = (Some x, r)"
    by (simp add: cbs_get_length_prefixed_def cbs_get_u_be_bytes CBS_get_bytes_eq cbs_get_append)
qed

interpretation u8_prefixed: canonical_codec "\<lambda>x. be_bytes 1 (length x) @ x" CBS_get_u8_length_prefixed "\<lambda>x. length x < 256 ^ 1"
  by unfold_locales (simp_all add: CBS_get_u8_length_prefixed_def length_prefixed_iff del: power_one_right)

interpretation u16_prefixed: canonical_codec "\<lambda>x. be_bytes 2 (length x) @ x" CBS_get_u16_length_prefixed "\<lambda>x. length x < 256 ^ 2"
  by unfold_locales (simp_all add: CBS_get_u16_length_prefixed_def length_prefixed_iff)

interpretation u24_prefixed: canonical_codec "\<lambda>x. be_bytes 3 (length x) @ x" CBS_get_u24_length_prefixed "\<lambda>x. length x < 256 ^ 3"
  by unfold_locales (simp_all add: CBS_get_u24_length_prefixed_def length_prefixed_iff)

section \<open>Comparison\<close>

text \<open>
  \<^verbatim>\<open>CBS_mem_equal\<close>, whose comparison runs in time independent of the data, is true exactly
  when the two byte strings are the same.
\<close>

theorem CBS_mem_equal_spec: "CBS_mem_equal cbs data \<longleftrightarrow> cbs = data"
  by (rule CBS_mem_equal_iff)

end
