(* ===== verification/Cbs_Asn1.thy ===== *)
theory Cbs_Asn1
  imports Cbs
begin

text \<open>
  The ASN.1 half of \<^verbatim>\<open>crypto/bytestring/cbs.c\<close>: tags, DER (and, on request, BER) elements,
  integers, booleans, optional elements and bit strings. Tags are \<^verbatim>\<open>unsigned\<close> values with the
  class and constructed bits on top, as \<^verbatim>\<open>bytestring.h\<close> lays them out.
\<close>

section \<open>Tags\<close>

definition CBS_ASN1_TAG_SHIFT :: nat where "CBS_ASN1_TAG_SHIFT = 24"
definition CBS_ASN1_CONSTRUCTED :: u32 where "CBS_ASN1_CONSTRUCTED = push_bit 24 0x20"
definition CBS_ASN1_TAG_NUMBER_MASK :: u32 where
  "CBS_ASN1_TAG_NUMBER_MASK = push_bit (5 + CBS_ASN1_TAG_SHIFT) 1 - 1"
definition CBS_ASN1_BOOLEAN :: u32 where "CBS_ASN1_BOOLEAN = 0x1"
definition CBS_ASN1_INTEGER :: u32 where "CBS_ASN1_INTEGER = 0x2"
definition CBS_ASN1_OCTETSTRING :: u32 where "CBS_ASN1_OCTETSTRING = 0x4"

text \<open>
  The loop of \<^verbatim>\<open>parse_base128_integer\<close>; its first step, \<^verbatim>\<open>CBS_get_u8\<close>, is the case split on
  the input.
\<close>

fun parse_base128_loop :: "u64 \<Rightarrow> u64 reader" where
  "parse_base128_loop v [] = (None, [])"
| "parse_base128_loop v (b # cbs) =
     (if drop_bit (64 - 7) v \<noteq> 0 then (None, cbs)
      else if v = 0 \<and> b = 0x80 then (None, cbs)
      else let v' = push_bit 7 v OR ucast (b AND 0x7f)
           in if b AND 0x80 \<noteq> 0 then parse_base128_loop v' cbs else (Some v', cbs))"

definition parse_base128_integer :: "u64 reader" where
  "parse_base128_integer cbs = parse_base128_loop 0 cbs"

definition parse_asn1_tag :: "u32 reader" where
  "parse_asn1_tag cbs =
     (case CBS_get_u8 cbs of
        (None, r) \<Rightarrow> (None, r)
      | (Some tag_byte, r) \<Rightarrow>
          let tag = push_bit CBS_ASN1_TAG_SHIFT (ucast tag_byte AND 0xe0 :: u32);
              tag_number = (ucast (tag_byte AND 0x1f) :: u32)
          in if tag_number = 0x1f
             then case parse_base128_integer r of
                    (None, r') \<Rightarrow> (None, r')
                  | (Some v, r') \<Rightarrow>
                      if v > ucast CBS_ASN1_TAG_NUMBER_MASK \<or> v < 0x1f then (None, r')
                      else (Some (tag OR ucast v), r')
             else (Some (tag OR tag_number), r))"

section \<open>Elements\<close>

text \<open>
  The result of \<^verbatim>\<open>cbs_get_any_asn1_element\<close> is the element with its header, the tag and the
  length of the header. The header is parsed on a copy of the cursor, so a failure leaves the
  caller's cursor where it was.
\<close>

definition get_element :: "u32 \<Rightarrow> nat \<Rightarrow> nat \<Rightarrow> (bytes \<times> u32 \<times> nat) reader" where
  "get_element tag header_len n cbs =
     (case CBS_get_bytes n cbs of
        (None, r) \<Rightarrow> (None, r)
      | (Some out, r) \<Rightarrow> (Some (out, tag, header_len), r))"

definition cbs_get_any_asn1_element :: "bool \<Rightarrow> (bytes \<times> u32 \<times> nat) reader" where
  "cbs_get_any_asn1_element ber_ok cbs =
     (case parse_asn1_tag cbs of
        (None, _) \<Rightarrow> (None, cbs)
      | (Some tag, header) \<Rightarrow>
     (case CBS_get_u8 header of
        (None, _) \<Rightarrow> (None, cbs)
      | (Some length_byte, header) \<Rightarrow>
          let header_len = length cbs - length header in
          if length_byte AND 0x80 = 0
          then get_element tag header_len (size_add (unat length_byte) header_len) cbs
          else
            let num_bytes = unat (length_byte AND 0x7f) in
            if ber_ok \<and> tag AND CBS_ASN1_CONSTRUCTED \<noteq> 0 \<and> num_bytes = 0
            then get_element tag header_len header_len cbs
            else if num_bytes = 0 \<or> num_bytes > 4 then (None, cbs)
            else case cbs_get_u num_bytes header of
                   (None, _) \<Rightarrow> (None, cbs)
                 | (Some len64, _) \<Rightarrow>
                     if len64 < 128 then (None, cbs)
                     else if drop_bit ((num_bytes - 1) * 8) len64 = 0 then (None, cbs)
                     else let n = unat len64;
                              total = size_add (size_add n header_len) num_bytes
                          in if total < n then (None, cbs)
                             else get_element tag (size_add header_len num_bytes) total cbs))"

definition CBS_get_any_asn1_element :: "(bytes \<times> u32 \<times> nat) reader" where
  "CBS_get_any_asn1_element = cbs_get_any_asn1_element False"

definition CBS_get_any_ber_asn1_element :: "(bytes \<times> u32 \<times> nat) reader" where
  "CBS_get_any_ber_asn1_element = cbs_get_any_asn1_element True"

definition CBS_get_any_asn1 :: "(bytes \<times> u32) reader" where
  "CBS_get_any_asn1 cbs =
     (case CBS_get_any_asn1_element cbs of
        (None, r) \<Rightarrow> (None, r)
      | (Some (out, tag, header_len), r) \<Rightarrow>
          (case CBS_skip header_len out of
             (False, _) \<Rightarrow> (None, r)
           | (True, body) \<Rightarrow> (Some (body, tag), r)))"

definition cbs_get_asn1 :: "u32 \<Rightarrow> bool \<Rightarrow> bytes reader" where
  "cbs_get_asn1 tag_value skip_header cbs =
     (case CBS_get_any_asn1_element cbs of
        (None, r) \<Rightarrow> (None, r)
      | (Some (out, tag, header_len), r) \<Rightarrow>
          if tag \<noteq> tag_value then (None, r)
          else if skip_header
          then (case CBS_skip header_len out of
                  (False, _) \<Rightarrow> (None, r)
                | (True, body) \<Rightarrow> (Some body, r))
          else (Some out, r))"

definition CBS_get_asn1 :: "u32 \<Rightarrow> bytes reader" where
  "CBS_get_asn1 tag_value = cbs_get_asn1 tag_value True"

definition CBS_get_asn1_element :: "u32 \<Rightarrow> bytes reader" where
  "CBS_get_asn1_element tag_value = cbs_get_asn1 tag_value False"

definition CBS_peek_asn1_tag :: "bytes \<Rightarrow> u32 \<Rightarrow> bool" where
  "CBS_peek_asn1_tag cbs tag_value =
     (if length cbs < 1 then False
      else case parse_asn1_tag cbs of
        (None, _) \<Rightarrow> False
      | (Some actual_tag, _) \<Rightarrow> tag_value = actual_tag)"

section \<open>Integers and booleans\<close>

fun get_uint64_loop :: "u64 \<Rightarrow> bytes \<Rightarrow> u64 option" where
  "get_uint64_loop out [] = Some out"
| "get_uint64_loop out (d # data) =
     (if drop_bit 56 out \<noteq> 0 then None
      else get_uint64_loop (push_bit 8 out OR ucast d) data)"

definition CBS_get_asn1_uint64 :: "u64 reader" where
  "CBS_get_asn1_uint64 cbs =
     (case CBS_get_asn1 CBS_ASN1_INTEGER cbs of
        (None, r) \<Rightarrow> (None, r)
      | (Some data, r) \<Rightarrow>
          if length data = 0 then (None, r)
          else if data ! 0 AND 0x80 \<noteq> 0 then (None, r)
          else if data ! 0 = 0 \<and> length data > 1 \<and> data ! 1 AND 0x80 = 0 then (None, r)
          else (get_uint64_loop 0 data, r))"

text \<open>
  \<^verbatim>\<open>CBS_get_asn1_int64\<close> fills a union of an \<^verbatim>\<open>int64_t\<close> and eight bytes, least significant byte
  first; the result is the 64-bit pattern, which \<open>sint\<close> reads as two's complement.
\<close>

definition int64_union :: "bytes \<Rightarrow> byte \<Rightarrow> bytes" where
  "int64_union data fill =
     foldl (\<lambda>u i. u[i := data ! (length data - i - 1)]) (replicate 8 fill) [0..<length data]"

definition CBS_get_asn1_int64 :: "u64 reader" where
  "CBS_get_asn1_int64 cbs =
     (case CBS_get_asn1 CBS_ASN1_INTEGER cbs of
        (None, r) \<Rightarrow> (None, r)
      | (Some data, r) \<Rightarrow>
          if length data = 0 \<or> length data > 8 then (None, r)
          else if length data > 1 \<and> data ! 0 = 0 \<and> data ! 1 AND 0x80 = 0 then (None, r)
          else if length data > 1 \<and> data ! 0 = 0xff \<and> data ! 1 AND 0x80 \<noteq> 0 then (None, r)
          else let is_negative = (data ! 0 AND 0x80 \<noteq> 0)
               in (Some (of_nat (le_val (int64_union data (if is_negative then 0xff else 0)))), r))"

definition CBS_get_asn1_bool :: "bool reader" where
  "CBS_get_asn1_bool cbs =
     (case CBS_get_asn1 CBS_ASN1_BOOLEAN cbs of
        (None, r) \<Rightarrow> (None, r)
      | (Some data, r) \<Rightarrow>
          if length data \<noteq> 1 then (None, r)
          else let value = data ! 0
               in if value \<noteq> 0 \<and> value \<noteq> 0xff then (None, r) else (Some (value \<noteq> 0), r))"

section \<open>Optional elements\<close>

text \<open>\<open>Some None\<close> is success with \<^verbatim>\<open>*out_present = 0\<close>.\<close>

definition CBS_get_optional_asn1 :: "u32 \<Rightarrow> bytes option reader" where
  "CBS_get_optional_asn1 tag cbs =
     (if CBS_peek_asn1_tag cbs tag
      then case CBS_get_asn1 tag cbs of
             (None, r) \<Rightarrow> (None, r)
           | (Some out, r) \<Rightarrow> (Some (Some out), r)
      else (Some None, cbs))"

definition CBS_get_optional_asn1_octet_string :: "u32 \<Rightarrow> (bytes \<times> bool) reader" where
  "CBS_get_optional_asn1_octet_string tag cbs =
     (case CBS_get_optional_asn1 tag cbs of
        (None, r) \<Rightarrow> (None, r)
      | (Some None, r) \<Rightarrow> (Some ([], False), r)
      | (Some (Some child), r) \<Rightarrow>
          (case CBS_get_asn1 CBS_ASN1_OCTETSTRING child of
             (None, _) \<Rightarrow> (None, r)
           | (Some out, child') \<Rightarrow> if length child' \<noteq> 0 then (None, r) else (Some (out, True), r)))"

definition CBS_get_optional_asn1_uint64 :: "u32 \<Rightarrow> u64 \<Rightarrow> u64 reader" where
  "CBS_get_optional_asn1_uint64 tag default_value cbs =
     (case CBS_get_optional_asn1 tag cbs of
        (None, r) \<Rightarrow> (None, r)
      | (Some None, r) \<Rightarrow> (Some default_value, r)
      | (Some (Some child), r) \<Rightarrow>
          (case CBS_get_asn1_uint64 child of
             (None, _) \<Rightarrow> (None, r)
           | (Some out, child') \<Rightarrow> if length child' \<noteq> 0 then (None, r) else (Some out, r)))"

definition CBS_get_optional_asn1_bool :: "u32 \<Rightarrow> bool \<Rightarrow> bool reader" where
  "CBS_get_optional_asn1_bool tag default_value cbs =
     (case CBS_get_optional_asn1 tag cbs of
        (None, r) \<Rightarrow> (None, r)
      | (Some None, r) \<Rightarrow> (Some default_value, r)
      | (Some (Some child), r) \<Rightarrow>
          (case CBS_get_asn1 CBS_ASN1_BOOLEAN child of
             (None, _) \<Rightarrow> (None, r)
           | (Some child2, child') \<Rightarrow>
               if length child2 \<noteq> 1 \<or> length child' \<noteq> 0 then (None, r)
               else if child2 ! 0 = 0 then (Some False, r)
               else if child2 ! 0 = 0xff then (Some True, r)
               else (None, r)))"

section \<open>Bit strings\<close>

definition CBS_is_valid_asn1_bitstring :: "bytes \<Rightarrow> bool" where
  "CBS_is_valid_asn1_bitstring cbs =
     (case CBS_get_u8 cbs of
        (None, _) \<Rightarrow> False
      | (Some num_unused_bits, r) \<Rightarrow>
          if num_unused_bits > 7 then False
          else if num_unused_bits = 0 then True
          else case CBS_get_last_u8 r of
                 (None, _) \<Rightarrow> False
               | (Some last_byte, _) \<Rightarrow>
                   last_byte AND (push_bit (unat num_unused_bits) 1 - 1) = 0)"

definition CBS_asn1_bitstring_has_bit :: "bytes \<Rightarrow> u32 \<Rightarrow> bool" where
  "CBS_asn1_bitstring_has_bit cbs b =
     (if \<not> CBS_is_valid_asn1_bitstring cbs then False
      else let byte_num = unat (drop_bit 3 b + 1); bit_num = unat (7 - (b AND 7))
           in byte_num < length cbs \<and> cbs ! byte_num AND push_bit bit_num 1 \<noteq> 0)"

end
