(* ===== verification/Cbb.thy ===== *)
theory Cbb
  imports Cbs_Asn1
begin

text \<open>
  The byte string builder of BoringSSL, \<^verbatim>\<open>crypto/bytestring/cbb.c\<close>: one growing (or fixed)
  buffer, and a chain of \<^verbatim>\<open>CBB\<close> objects that share it, each the pending child of the one
  before. The model keeps the chain as a list of frames, first the child of the top-level
  \<^verbatim>\<open>CBB\<close>. A \<^verbatim>\<open>CBB *\<close> argument is its depth in the chain: 0 is the top-level object, \<open>d + 1\<close> the
  child of the object at depth \<open>d\<close>. A depth beyond the chain is an object whose \<^verbatim>\<open>base\<close> has
  been cleared by a flush, so operations on it fail.
\<close>

section \<open>State\<close>

text \<open>
  \<open>bb_buf\<close> is the whole allocation, \<open>bb_cap\<close> bytes of which the first \<open>bb_len\<close> are valid.
  Two fields stand for the C library: \<open>bb_alloc n\<close> says whether \<^verbatim>\<open>OPENSSL_malloc\<close> and
  \<^verbatim>\<open>OPENSSL_realloc\<close> can provide \<open>n\<close> bytes, and \<open>bb_fresh\<close> is the content of bytes nobody has
  written yet.
\<close>

record cbb_buffer =
  bb_buf :: bytes
  bb_len :: nat
  bb_cap :: nat
  bb_can_resize :: bool
  bb_error :: bool
  bb_alloc :: "nat \<Rightarrow> bool"
  bb_fresh :: byte

record cbb_frame =
  fr_offset :: nat
  fr_pending_len_len :: nat
  fr_pending_is_asn1 :: bool

record cbb =
  cbb_base :: "cbb_buffer option"
  cbb_chain :: "cbb_frame list"

section \<open>Initialisation\<close>

definition CBB_zero :: cbb where
  "CBB_zero = \<lparr>cbb_base = None, cbb_chain = []\<rparr>"

definition cbb_init :: "(nat \<Rightarrow> bool) \<Rightarrow> byte \<Rightarrow> bytes \<Rightarrow> bool \<times> cbb" where
  "cbb_init alloc fresh buf =
     (if \<not> alloc 32 then (False, CBB_zero)
      else (True, \<lparr>cbb_base = Some \<lparr>bb_buf = buf, bb_len = 0, bb_cap = length buf,
                      bb_can_resize = True, bb_error = False, bb_alloc = alloc, bb_fresh = fresh\<rparr>,
                   cbb_chain = []\<rparr>))"

definition CBB_init :: "(nat \<Rightarrow> bool) \<Rightarrow> byte \<Rightarrow> nat \<Rightarrow> bool \<times> cbb" where
  "CBB_init alloc fresh initial_capacity =
     (if initial_capacity > 0 \<and> \<not> alloc initial_capacity then (False, CBB_zero)
      else cbb_init alloc fresh (replicate initial_capacity fresh))"

definition CBB_init_fixed :: "(nat \<Rightarrow> bool) \<Rightarrow> byte \<Rightarrow> bytes \<Rightarrow> bool \<times> cbb" where
  "CBB_init_fixed alloc fresh buf =
     (case cbb_init alloc fresh buf of
        (False, c) \<Rightarrow> (False, c)
      | (True, c) \<Rightarrow> (True, c\<lparr>cbb_base := map_option (\<lambda>b. b\<lparr>bb_can_resize := False\<rparr>) (cbb_base c)\<rparr>))"

definition CBB_cleanup :: "cbb \<Rightarrow> cbb" where
  "CBB_cleanup c = c\<lparr>cbb_base := None\<rparr>"

section \<open>The buffer\<close>

definition cbb_buffer_reserve :: "cbb_buffer \<Rightarrow> nat \<Rightarrow> bool \<times> cbb_buffer" where
  "cbb_buffer_reserve base n =
     (let newlen = size_add (bb_len base) n in
      if newlen < bb_len base then (False, base\<lparr>bb_error := True\<rparr>)
      else if newlen > bb_cap base then
        (let newcap0 = size_mul (bb_cap base) 2;
             newcap = (if newcap0 < bb_cap base \<or> newcap0 < newlen then newlen else newcap0)
         in if \<not> bb_can_resize base then (False, base\<lparr>bb_error := True\<rparr>)
            else if \<not> bb_alloc base newcap then (False, base\<lparr>bb_error := True\<rparr>)
            else (True, base\<lparr>bb_buf := bb_buf base @ replicate (newcap - length (bb_buf base)) (bb_fresh base),
                             bb_cap := newcap\<rparr>))
      else (True, base))"

text \<open>
  \<^verbatim>\<open>cbb_buffer_add\<close> hands out the offset of the new bytes, which the caller then fills.
\<close>

definition cbb_buffer_add :: "cbb_buffer \<Rightarrow> nat \<Rightarrow> nat option \<times> cbb_buffer" where
  "cbb_buffer_add base n =
     (case cbb_buffer_reserve base n of
        (False, base') \<Rightarrow> (None, base')
      | (True, base') \<Rightarrow> (Some (bb_len base'), base'\<lparr>bb_len := bb_len base' + n\<rparr>))"

text \<open>The loop \<^verbatim>\<open>for (i = len_len - 1; i < len_len; i--) { buf[i] = v; v >>= 8; }\<close>.\<close>

fun put_u_loop :: "nat \<Rightarrow> nat \<Rightarrow> u64 \<Rightarrow> bytes \<Rightarrow> bytes \<times> u64" where
  "put_u_loop 0 off v buf = (buf, v)"
| "put_u_loop (Suc i) off v buf = put_u_loop i off (drop_bit 8 v) (buf[off + i := ucast v])"

definition cbb_buffer_add_u :: "cbb_buffer \<Rightarrow> u64 \<Rightarrow> nat \<Rightarrow> bool \<times> cbb_buffer" where
  "cbb_buffer_add_u base v len_len =
     (if len_len = 0 then (True, base)
      else case cbb_buffer_add base len_len of
        (None, base') \<Rightarrow> (False, base')
      | (Some off, base') \<Rightarrow>
          (let (buf', v') = put_u_loop len_len off v (bb_buf base');
               base'' = base'\<lparr>bb_buf := buf'\<rparr>
           in if v' \<noteq> 0 then (False, base''\<lparr>bb_error := True\<rparr>) else (True, base'')))"

section \<open>Flushing pending children\<close>

text \<open>
  How \<^verbatim>\<open>CBB_flush\<close> encodes the length of an ASN.1 child: the number of bytes of the length
  field, its first byte, and what is left of the length to write after it.
\<close>

definition asn1_length_form :: "nat \<Rightarrow> (nat \<times> byte \<times> nat) option" where
  "asn1_length_form n =
     (if n > 0xfffffffe then None
      else if n > 0xffffff then Some (5, 0x80 OR 4, n)
      else if n > 0xffff then Some (4, 0x80 OR 3, n)
      else if n > 0xff then Some (3, 0x80 OR 2, n)
      else if n > 0x7f then Some (2, 0x80 OR 1, n)
      else Some (1, of_nat n, 0))"

text \<open>The same loop on a \<^verbatim>\<open>size_t\<close> length.\<close>

fun put_len_loop :: "nat \<Rightarrow> nat \<Rightarrow> nat \<Rightarrow> bytes \<Rightarrow> bytes \<times> nat" where
  "put_len_loop 0 off n buf = (buf, n)"
| "put_len_loop (Suc i) off n buf = put_len_loop i off (n div 256) (buf[off + i := of_nat n])"

definition flush_prefix :: "cbb_buffer \<Rightarrow> nat \<Rightarrow> nat \<Rightarrow> nat \<Rightarrow> bool \<times> cbb_buffer" where
  "flush_prefix base offset len_len n =
     (let (buf', n') = put_len_loop len_len offset n (bb_buf base);
          base' = base\<lparr>bb_buf := buf'\<rparr>
      in if n' \<noteq> 0 then (False, base'\<lparr>bb_error := True\<rparr>) else (True, base'))"

text \<open>
  Writing the length of the child \<open>f\<close>, once everything below it has been flushed.
\<close>

definition flush_child :: "cbb_buffer \<Rightarrow> cbb_frame \<Rightarrow> bool \<times> cbb_buffer" where
  "flush_child base f =
     (let child_start = size_add (fr_offset f) (fr_pending_len_len f);
          n = bb_len base - child_start
      in if fr_pending_is_asn1 f then
           (case asn1_length_form n of
              None \<Rightarrow> (False, base\<lparr>bb_error := True\<rparr>)
            | Some (len_len, initial_length_byte, n') \<Rightarrow>
                (let extra_bytes = len_len - 1;
                     (ok, base1) =
                       (if len_len \<noteq> 1 then
                          (case cbb_buffer_add base extra_bytes of
                             (None, b) \<Rightarrow> (False, b)
                           | (Some _, b) \<Rightarrow>
                               (True, b\<lparr>bb_buf := move_within (bb_buf b) (child_start + extra_bytes) child_start n'\<rparr>))
                        else (True, base))
                 in if \<not> ok then (False, base1\<lparr>bb_error := True\<rparr>)
                    else flush_prefix (base1\<lparr>bb_buf := (bb_buf base1)[fr_offset f := initial_length_byte]\<rparr>)
                           (fr_offset f + 1) (len_len - 1) n'))
         else flush_prefix base (fr_offset f) (fr_pending_len_len f) n)"

fun flush_chain :: "cbb_buffer \<Rightarrow> cbb_frame list \<Rightarrow> bool \<times> cbb_buffer \<times> cbb_frame list" where
  "flush_chain base [] = (\<not> bb_error base, base, [])"
| "flush_chain base (f # fs) =
     (if bb_error base then (False, base, f # fs)
      else if fr_pending_len_len f = 0 then (True, base, f # fs)
      else
        let child_start = size_add (fr_offset f) (fr_pending_len_len f);
            (ok, base1, fs1) = flush_chain base fs
        in if \<not> ok \<or> child_start < fr_offset f \<or> bb_len base1 < child_start
           then (False, base1\<lparr>bb_error := True\<rparr>, f # fs1)
           else case flush_child base1 f of
                  (False, base2) \<Rightarrow> (False, base2, f # fs1)
                | (True, base2) \<Rightarrow> (True, base2, []))"

text \<open>\<^verbatim>\<open>CBB_flush\<close> on the object at depth \<open>d\<close>.\<close>

definition CBB_flush :: "nat \<Rightarrow> cbb \<Rightarrow> bool \<times> cbb" where
  "CBB_flush d c =
     (case cbb_base c of
        None \<Rightarrow> (False, c)
      | Some base \<Rightarrow>
          if d > length (cbb_chain c) then (False, c)
          else let (ok, base', fs) = flush_chain base (drop d (cbb_chain c))
               in (ok, c\<lparr>cbb_base := Some base', cbb_chain := take d (cbb_chain c) @ fs\<rparr>))"

section \<open>Adding to the string\<close>

text \<open>\<^verbatim>\<open>CBB_data\<close> and \<^verbatim>\<open>CBB_len\<close>: what the object at depth \<open>d\<close> holds so far.\<close>

definition frame_start :: "cbb \<Rightarrow> nat \<Rightarrow> nat" where
  "frame_start c d =
     (if d = 0 then 0
      else let f = cbb_chain c ! (d - 1) in fr_offset f + fr_pending_len_len f)"

definition CBB_data :: "nat \<Rightarrow> cbb \<Rightarrow> bytes" where
  "CBB_data d c =
     (case cbb_base c of
        None \<Rightarrow> []
      | Some base \<Rightarrow> drop (frame_start c d) (take (bb_len base) (bb_buf base)))"

definition CBB_len :: "nat \<Rightarrow> cbb \<Rightarrow> nat" where
  "CBB_len d c = (case cbb_base c of None \<Rightarrow> 0 | Some base \<Rightarrow> bb_len base - frame_start c d)"

text \<open>Flush the object, then work on the shared buffer: the shape of every add function.\<close>

definition after_flush :: "nat \<Rightarrow> (cbb_buffer \<Rightarrow> bool \<times> cbb_buffer) \<Rightarrow> cbb \<Rightarrow> bool \<times> cbb" where
  "after_flush d f c =
     (case CBB_flush d c of
        (False, c') \<Rightarrow> (False, c')
      | (True, c') \<Rightarrow>
          (case cbb_base c' of
             None \<Rightarrow> (False, c')
           | Some base \<Rightarrow> (let (ok, base') = f base in (ok, c'\<lparr>cbb_base := Some base'\<rparr>))))"

definition buffer_append :: "bytes \<Rightarrow> cbb_buffer \<Rightarrow> bool \<times> cbb_buffer" where
  "buffer_append data base =
     (case cbb_buffer_add base (length data) of
        (None, base') \<Rightarrow> (False, base')
      | (Some off, base') \<Rightarrow> (True, base'\<lparr>bb_buf := write_at (bb_buf base') off data\<rparr>))"

definition CBB_add_bytes :: "nat \<Rightarrow> bytes \<Rightarrow> cbb \<Rightarrow> bool \<times> cbb" where
  "CBB_add_bytes d data = after_flush d (buffer_append data)"

text \<open>\<^verbatim>\<open>CBB_add_space\<close> leaves the new bytes to the caller; they hold whatever the buffer held.\<close>

definition CBB_add_space :: "nat \<Rightarrow> nat \<Rightarrow> cbb \<Rightarrow> bool \<times> cbb" where
  "CBB_add_space d n = after_flush d (\<lambda>base.
     case cbb_buffer_add base n of (None, base') \<Rightarrow> (False, base') | (Some _, base') \<Rightarrow> (True, base'))"

definition CBB_reserve :: "nat \<Rightarrow> nat \<Rightarrow> cbb \<Rightarrow> bool \<times> cbb" where
  "CBB_reserve d n = after_flush d (\<lambda>base. cbb_buffer_reserve base n)"

definition CBB_did_write :: "nat \<Rightarrow> nat \<Rightarrow> cbb \<Rightarrow> bool \<times> cbb" where
  "CBB_did_write d n c =
     (case cbb_base c of
        None \<Rightarrow> (False, c)
      | Some base \<Rightarrow>
          let newlen = size_add (bb_len base) n in
          if d < length (cbb_chain c) \<or> newlen < bb_len base \<or> newlen > bb_cap base then (False, c)
          else (True, c\<lparr>cbb_base := Some (base\<lparr>bb_len := newlen\<rparr>)\<rparr>))"

definition CBB_add_u8 :: "nat \<Rightarrow> byte \<Rightarrow> cbb \<Rightarrow> bool \<times> cbb" where
  "CBB_add_u8 d value = after_flush d (\<lambda>base. cbb_buffer_add_u base (ucast value) 1)"

definition CBB_add_u16 :: "nat \<Rightarrow> u16 \<Rightarrow> cbb \<Rightarrow> bool \<times> cbb" where
  "CBB_add_u16 d value = after_flush d (\<lambda>base. cbb_buffer_add_u base (ucast value) 2)"

definition CBB_add_u16le :: "nat \<Rightarrow> u16 \<Rightarrow> cbb \<Rightarrow> bool \<times> cbb" where
  "CBB_add_u16le d value = CBB_add_u16 d (CRYPTO_bswap2 value)"

definition CBB_add_u24 :: "nat \<Rightarrow> u32 \<Rightarrow> cbb \<Rightarrow> bool \<times> cbb" where
  "CBB_add_u24 d value = after_flush d (\<lambda>base. cbb_buffer_add_u base (ucast value) 3)"

definition CBB_add_u32 :: "nat \<Rightarrow> u32 \<Rightarrow> cbb \<Rightarrow> bool \<times> cbb" where
  "CBB_add_u32 d value = after_flush d (\<lambda>base. cbb_buffer_add_u base (ucast value) 4)"

definition CBB_add_u32le :: "nat \<Rightarrow> u32 \<Rightarrow> cbb \<Rightarrow> bool \<times> cbb" where
  "CBB_add_u32le d value = CBB_add_u32 d (CRYPTO_bswap4 value)"

definition CBB_add_u64 :: "nat \<Rightarrow> u64 \<Rightarrow> cbb \<Rightarrow> bool \<times> cbb" where
  "CBB_add_u64 d value = after_flush d (\<lambda>base. cbb_buffer_add_u base value 8)"

definition CBB_add_u64le :: "nat \<Rightarrow> u64 \<Rightarrow> cbb \<Rightarrow> bool \<times> cbb" where
  "CBB_add_u64le d value = CBB_add_u64 d (CRYPTO_bswap8 value)"

section \<open>Children\<close>

text \<open>
  Every function that starts a child links a new frame below the object at depth \<open>d\<close>; the
  child is then the object at depth \<open>d + 1\<close>.
\<close>

definition push_frame :: "nat \<Rightarrow> nat \<Rightarrow> nat \<Rightarrow> bool \<Rightarrow> cbb \<Rightarrow> cbb" where
  "push_frame d offset len_len is_asn1 c =
     c\<lparr>cbb_chain := take d (cbb_chain c) @
        [\<lparr>fr_offset = offset, fr_pending_len_len = len_len, fr_pending_is_asn1 = is_asn1\<rparr>]\<rparr>"

definition cbb_add_length_prefixed :: "nat \<Rightarrow> nat \<Rightarrow> cbb \<Rightarrow> bool \<times> cbb" where
  "cbb_add_length_prefixed d len_len c =
     (case CBB_flush d c of
        (False, c') \<Rightarrow> (False, c')
      | (True, c') \<Rightarrow>
          (case cbb_base c' of
             None \<Rightarrow> (False, c')
           | Some base \<Rightarrow>
               (let offset = bb_len base; (ok, base') = buffer_append (replicate len_len 0) base
                in if ok then (True, push_frame d offset len_len False (c'\<lparr>cbb_base := Some base'\<rparr>))
                   else (False, c'\<lparr>cbb_base := Some base'\<rparr>))))"

definition CBB_add_u8_length_prefixed :: "nat \<Rightarrow> cbb \<Rightarrow> bool \<times> cbb" where
  "CBB_add_u8_length_prefixed d = cbb_add_length_prefixed d 1"

definition CBB_add_u16_length_prefixed :: "nat \<Rightarrow> cbb \<Rightarrow> bool \<times> cbb" where
  "CBB_add_u16_length_prefixed d = cbb_add_length_prefixed d 2"

definition CBB_add_u24_length_prefixed :: "nat \<Rightarrow> cbb \<Rightarrow> bool \<times> cbb" where
  "CBB_add_u24_length_prefixed d = cbb_add_length_prefixed d 3"

text \<open>The two loops of \<^verbatim>\<open>add_base128_integer\<close>: counting the digits, then adding them.\<close>

fun base128_digits :: "nat \<Rightarrow> u64 \<Rightarrow> nat" where
  "base128_digits 0 copy = 0"
| "base128_digits (Suc fuel) copy =
     (if copy > 0 then Suc (base128_digits fuel (drop_bit 7 copy)) else 0)"

fun add_base128_loop :: "nat \<Rightarrow> nat \<Rightarrow> u64 \<Rightarrow> cbb \<Rightarrow> bool \<times> cbb" where
  "add_base128_loop d 0 v c = (True, c)"
| "add_base128_loop d (Suc i) v c =
     (let byte0 = (ucast (drop_bit (7 * i) v) :: byte) AND 0x7f;
          b = (if i \<noteq> 0 then byte0 OR 0x80 else byte0)
      in case CBB_add_u8 d b c of
           (False, c') \<Rightarrow> (False, c')
         | (True, c') \<Rightarrow> add_base128_loop d i v c')"

definition add_base128_integer :: "nat \<Rightarrow> u64 \<Rightarrow> cbb \<Rightarrow> bool \<times> cbb" where
  "add_base128_integer d v c =
     (let len_len0 = base128_digits 10 v; len_len = (if len_len0 = 0 then 1 else len_len0)
      in add_base128_loop d len_len v c)"

end
