(* ===== verification/Der.thy ===== *)
theory Der
  imports Cbs_Asn1
begin

text \<open>
  The abstract specification that the reader (\<^verbatim>\<open>cbs.c\<close>) and the builder (\<^verbatim>\<open>cbb.c\<close>) share: the
  DER encodings of base-128 integers, identifiers and lengths. The lemmas show that the reader
  accepts exactly these encodings, so no value has a second accepted form.
\<close>

section \<open>Encodings\<close>

text \<open>The bytes before the last one of a base-128 integer: the continuation bit is set.\<close>

fun base128_cont :: "nat \<Rightarrow> bytes" where
  "base128_cont v =
     (if v = 0 then [] else base128_cont (v div 128) @ [0x80 OR of_nat (v mod 128)])"

declare base128_cont.simps [simp del]

definition base128 :: "nat \<Rightarrow> bytes" where
  "base128 v = base128_cont (v div 128) @ [of_nat (v mod 128)]"

definition der_tag :: "u32 \<Rightarrow> bytes" where
  "der_tag tag =
     (let bits = of_nat (unat tag div 2 ^ 29 * 32); number = unat tag mod 2 ^ 29
      in if number < 31 then [bits OR of_nat number] else (bits OR 31) # base128 number)"

definition der_length :: "nat \<Rightarrow> bytes" where
  "der_length n =
     (if n < 128 then [of_nat n]
      else if n < 2 ^ 8 then 0x81 # be_bytes 1 n
      else if n < 2 ^ 16 then 0x82 # be_bytes 2 n
      else if n < 2 ^ 24 then 0x83 # be_bytes 3 n
      else 0x84 # be_bytes 4 n)"

definition der_header :: "u32 \<Rightarrow> nat \<Rightarrow> bytes" where
  "der_header tag n = der_tag tag @ der_length n"

definition der_element :: "u32 \<Rightarrow> bytes \<Rightarrow> bytes" where
  "der_element tag body = der_header tag (length body) @ body"

section \<open>Base-128 integers\<close>

lemma base128_cont_0 [simp]: "base128_cont 0 = []"
  by (simp add: base128_cont.simps)

lemma base128_cont_pos:
  "0 < v \<Longrightarrow> base128_cont v = base128_cont (v div 128) @ [0x80 OR of_nat (v mod 128)]"
  by (simp add: base128_cont.simps [of v])

lemma unat_cont_byte: "n < 128 \<Longrightarrow> unat (0x80 OR of_nat n :: byte) = 128 + n"
  by (simp add: unat_high_bit_or)

lemma cont_byte:
  assumes "n < 128"
  shows "(0x80 OR of_nat n :: byte) AND 0x80 \<noteq> 0"
    and "unat ((0x80 OR of_nat n :: byte) AND 0x7f) = n"
    and "(0x80 OR of_nat n :: byte) = 0x80 \<longleftrightarrow> n = 0"
proof -
  note u = unat_cont_byte [OF assms]
  show "(0x80 OR of_nat n :: byte) AND 0x80 \<noteq> 0" unfolding high_bit_byte u by simp
  show "unat ((0x80 OR of_nat n :: byte) AND 0x7f) = n" unfolding low_bits_byte u using assms by simp
  show "(0x80 OR of_nat n :: byte) = 0x80 \<longleftrightarrow> n = 0" unfolding word_unat_eq_iff u by simp
qed

lemma cont_byte_of_high:
  assumes "(b :: byte) AND 0x80 \<noteq> 0"
  shows "0x80 OR of_nat (unat b mod 128) = b"
proof -
  from assms have "128 \<le> unat b" unfolding high_bit_byte by simp
  then have "128 + unat b mod 128 = unat b"
    by (rule mod_128) simp
  then show ?thesis by (simp add: word_unat_eq_iff unat_cont_byte)
qed

text \<open>One step of the parser's accumulator, in numbers.\<close>

lemma unat_base128_step:
  assumes "unat (v :: u64) < 2 ^ 57"
  shows "unat (push_bit 7 v OR ucast ((b :: byte) AND 0x7f)) = unat v * 128 + unat b mod 128"
  using assms by (subst unat_push_bit_or) (simp_all add: unat_ucast_up low_bits_byte)

lemma parse_base128_loop_cont:
  "u < 2 ^ 64 \<Longrightarrow> parse_base128_loop 0 (base128_cont u @ s) = parse_base128_loop (of_nat u) s"
proof (induction u arbitrary: s rule: less_induct)
  case (less u)
  show ?case
  proof (cases "u = 0")
    case True
    then show ?thesis by simp
  next
    case False
    let ?b = "0x80 OR of_nat (u mod 128) :: byte" and ?v = "of_nat (u div 128) :: u64"
    have v: "unat ?v = u div 128" using less.prems by (simp add: unat_of_nat)
    have small: "unat ?v < 2 ^ 57" using less.prems v by simp
    have "parse_base128_loop 0 (base128_cont u @ s) = parse_base128_loop ?v (?b # s)"
      using less False by (simp add: base128_cont_pos)
    also have "\<dots> = parse_base128_loop (push_bit 7 ?v OR ucast (?b AND 0x7f)) s"
    proof -
      have "\<not> (?v = 0 \<and> ?b = 0x80)"
        using False v cont_byte(3) [of "u mod 128"] by (auto simp: word_unat_eq_iff)
      then show ?thesis
        using small cont_byte(1) [of "u mod 128"] by (auto simp: drop_bit_eq_0_iff)
    qed
    also have "push_bit 7 ?v OR ucast (?b AND 0x7f) = (of_nat u :: u64)"
      using less.prems unat_base128_step [OF small, of ?b] cont_byte(2) [of "u mod 128"] v
      by (simp add: word_unat_eq_iff low_bits_byte unat_of_nat)
    finally show ?thesis .
  qed
qed

lemma parse_base128_integer_base128 [reader_eqs]:
  assumes "v < 2 ^ 64"
  shows "parse_base128_integer (base128 v @ r) = (Some (of_nat v), r)"
proof -
  let ?b = "of_nat (v mod 128) :: byte" and ?u = "of_nat (v div 128) :: u64"
  have u: "unat ?u = v div 128" using assms by (simp add: unat_of_nat)
  then have small: "unat ?u < 2 ^ 57" using assms by simp
  have b: "unat ?b = v mod 128" by simp
  then have low: "?b AND 0x80 = 0" unfolding high_bit_byte by simp
  then have neq: "?b \<noteq> 0x80" by (rule high_bit_clear)
  have acc: "push_bit 7 ?u OR ucast (?b AND 0x7f) = (of_nat v :: u64)"
    using assms unat_base128_step [OF small, of ?b] u b
    by (simp add: word_unat_eq_iff unat_of_nat)
  show ?thesis
    using assms small low neq acc
    by (simp add: parse_base128_integer_def base128_def parse_base128_loop_cont drop_bit_eq_0_iff
        del: of_nat_mod)
qed

lemma parse_base128_loop_sound:
  "parse_base128_loop v s = (Some w, r) \<Longrightarrow>
   \<exists>bs. s = bs @ r \<and> base128_cont (unat v) @ bs = base128 (unat w)"
proof (induction v s rule: parse_base128_loop.induct)
  case (1 v)
  then show ?case by simp
next
  case (2 v b cbs)
  let ?v = "push_bit 7 v OR ucast (b AND 0x7f) :: u64"
  from "2.prems" have small: "unat v < 2 ^ 57" and min: "\<not> (v = 0 \<and> b = 0x80)"
    by (auto simp: drop_bit_eq_0_iff split: if_splits)
  note v' = unat_base128_step [OF small, of b]
  show ?case
  proof (cases "b AND 0x80 = 0")
    case True
    with "2.prems" small min have w: "w = ?v" "r = cbs"
      by (auto simp: drop_bit_eq_0_iff split: if_splits)
    from True have "unat b < 128" by (simp add: high_bit_byte)
    then have "base128 (unat w) = base128_cont (unat v) @ [b]"
      using v' w by (simp add: base128_def)
    with w show ?thesis by auto
  next
    case False
    with "2.prems" small min have "parse_base128_loop ?v cbs = (Some w, r)"
      by (auto simp: drop_bit_eq_0_iff Let_def split: if_splits)
    from "2.IH" [OF _ min refl False this] small obtain bs
      where bs: "cbs = bs @ r" "base128_cont (unat ?v) @ bs = base128 (unat w)"
      by (auto simp: drop_bit_eq_0_iff)
    have "0 < unat ?v"
    proof (rule ccontr)
      assume "\<not> 0 < unat ?v"
      with v' have "unat v = 0" and b0: "unat b mod 128 = 0" by linarith+
      moreover from False have "128 \<le> unat b" unfolding high_bit_byte by linarith
      with b0 unat_byte_less [of b] have "unat b = 128" by presburger
      ultimately have "v = 0" and "b = 0x80" by (simp_all add: word_unat_eq_iff)
      with min show False by simp
    qed
    then have "base128_cont (unat ?v) = base128_cont (unat v) @ [b]"
      using v' cont_byte_of_high [OF False] by (simp add: base128_cont_pos)
    with bs show ?thesis by (intro exI [of _ "b # bs"]) simp
  qed
qed

lemma parse_base128_integer_sound:
  "parse_base128_integer s = (Some w, r) \<Longrightarrow> s = base128 (unat w) @ r"
  using parse_base128_loop_sound [of 0 s w r] by (auto simp: parse_base128_integer_def)

lemma base128_cont_length: "v < 128 ^ k \<Longrightarrow> length (base128_cont v) \<le> k"
proof (induction k arbitrary: v)
  case 0
  then show ?case by simp
next
  case (Suc k)
  then have "v div 128 < 128 ^ k" by (simp add: less_mult_imp_div_less mult.commute)
  with Suc.IH show ?case by (cases "v = 0") (auto simp: base128_cont_pos)
qed

lemma base128_length: "v < 128 ^ Suc k \<Longrightarrow> length (base128 v) \<le> Suc k"
  using base128_cont_length [of "v div 128" k]
  by (simp add: base128_def less_mult_imp_div_less mult.commute)

section \<open>Identifiers\<close>

lemma unat_CBS_ASN1_TAG_NUMBER_MASK: "unat CBS_ASN1_TAG_NUMBER_MASK = 2 ^ 29 - 1"
  by (simp add: CBS_ASN1_TAG_NUMBER_MASK_def CBS_ASN1_TAG_SHIFT_def push_bit_of_1)

lemma low5_byte: "unat ((b :: byte) AND 0x1f) = unat b mod 32"
  using unat_and_mask [of b 5] by (simp add: mask_numeral)

lemma unat_shift5_or:
  assumes "h < 8" and "n < 32"
  shows "unat (of_nat (h * 32) OR of_nat n :: byte) = h * 32 + n"
proof -
  have "(of_nat (h * 32) :: byte) = push_bit 5 (of_nat h)" by (simp add: push_bit_eq_mult)
  moreover have "unat (push_bit 5 (of_nat h) OR of_nat n :: byte) = h * 32 + n"
    using assms by (subst unat_push_bit_or) simp_all
  ultimately show ?thesis by simp
qed

text \<open>The class and constructed bits of the tag byte, moved to the top of the tag.\<close>

lemma top3_byte: "push_bit 24 (ucast (b :: byte) AND 0xe0 :: u32) = push_bit 29 (of_nat (unat b div 32))"
proof -
  have "(ucast b AND 0xe0 :: u32) = push_bit 5 (of_nat (unat b div 32))"
    by (rule byte_exhaust [of "\<lambda>b. (ucast b AND 0xe0 :: u32) = push_bit 5 (of_nat (unat b div 32))"])
      code_simp
  then show ?thesis by simp
qed

lemma tag_byte_parts:
  assumes "unat (b :: byte) = h * 32 + n" and "n < 32"
  shows "ucast (b AND 0x1f) = (of_nat n :: u32)"
    and "push_bit 24 (ucast b AND 0xe0 :: u32) = push_bit 29 (of_nat h)"
proof -
  have "unat (b AND 0x1f) = n" using assms unfolding low5_byte by simp
  then show "ucast (b AND 0x1f) = (of_nat n :: u32)" unfolding ucast_of_nat by simp
  have "unat b div 32 = h" using assms by simp
  then show "push_bit 24 (ucast b AND 0xe0 :: u32) = push_bit 29 (of_nat h)"
    unfolding top3_byte by simp
qed

lemma unat_tag_or:
  assumes "h < 8" and "unat (n :: u32) < 2 ^ 29"
  shows "unat (push_bit 29 (of_nat h) OR n :: u32) = h * 2 ^ 29 + unat n"
  using assms by (subst unat_push_bit_or) (simp_all add: unat_of_nat)

text \<open>The two branches of the parser, by the five number bits of the first byte.\<close>

lemma parse_asn1_tag_low:
  assumes "unat (b :: byte) = h * 32 + n" and "n < 31"
  shows "parse_asn1_tag (b # s) = (Some (push_bit 29 (of_nat h) OR of_nat n), s)"
proof -
  have n: "n < 32" using assms(2) by simp
  have "(of_nat n :: u32) \<noteq> 0x1f" using assms(2) by (simp add: word_unat_eq_iff unat_of_nat)
  then show ?thesis
    unfolding parse_asn1_tag_def CBS_get_u8_Cons prod.case option.case Let_def
      CBS_ASN1_TAG_SHIFT_def tag_byte_parts [OF assms(1) n]
    by simp
qed

lemma parse_asn1_tag_high:
  assumes "unat (b :: byte) = h * 32 + 31"
  shows "parse_asn1_tag (b # s) =
    (case parse_base128_integer s of
       (None, r) \<Rightarrow> (None, r)
     | (Some v, r) \<Rightarrow>
         if 2 ^ 29 \<le> unat v \<or> unat v < 31 then (None, r)
         else (Some (push_bit 29 (of_nat h) OR ucast v), r))"
proof -
  have n: "(31 :: nat) < 32" by simp
  have mask: "unat (ucast CBS_ASN1_TAG_NUMBER_MASK :: u64) = 2 ^ 29 - 1"
    by (simp add: unat_ucast_up unat_CBS_ASN1_TAG_NUMBER_MASK)
  have "(ucast CBS_ASN1_TAG_NUMBER_MASK < v \<or> v < 0x1f) \<longleftrightarrow> (2 ^ 29 \<le> unat v \<or> unat v < 31)"
    for v :: u64
    unfolding word_less_nat_alt mask by auto
  then show ?thesis
    unfolding parse_asn1_tag_def CBS_get_u8_Cons prod.case option.case Let_def
      CBS_ASN1_TAG_SHIFT_def tag_byte_parts [OF assms n]
    by (auto split: prod.splits option.splits)
qed

lemma tag_split:
  obtains h n where "unat (tag :: u32) = h * 2 ^ 29 + n" and "h < 8" and "n < 2 ^ 29"
    and "unat tag div 2 ^ 29 = h" and "unat tag mod 2 ^ 29 = n"
proof
  have "unat tag < 2 ^ 32" using unsigned_less [of tag, where 'a = nat] by simp
  then show "unat tag div 2 ^ 29 < 8" by (simp add: less_mult_imp_div_less)
qed simp_all

lemma tag_eqI:
  "h < 8 \<Longrightarrow> unat n < 2 ^ 29 \<Longrightarrow> unat tag = h * 2 ^ 29 + unat n \<Longrightarrow>
   push_bit 29 (of_nat h) OR n = (tag :: u32)"
  using unat_tag_or [of h n] by (simp add: word_unat_eq_iff)

lemma parse_asn1_tag_der_tag [reader_eqs]: "parse_asn1_tag (der_tag tag @ r) = (Some tag, r)"
proof -
  obtain h n where tag: "unat tag = h * 2 ^ 29 + n" "h < 8" "n < 2 ^ 29"
    and hn: "unat tag div 2 ^ 29 = h" "unat tag mod 2 ^ 29 = n"
    by (rule tag_split)
  show ?thesis
  proof (cases "n < 31")
    case True
    have b: "unat (of_nat (h * 32) OR of_nat n :: byte) = h * 32 + n"
      using tag(2) True by (intro unat_shift5_or) auto
    have "push_bit 29 (of_nat h) OR of_nat n = tag"
      using tag by (intro tag_eqI) (simp_all add: unat_of_nat)
    then show ?thesis
      using True parse_asn1_tag_low [OF b True, of r] unfolding der_tag_def hn Let_def by simp
  next
    case False
    have b: "unat (of_nat (h * 32) OR 31 :: byte) = h * 32 + 31"
      using unat_shift5_or [OF tag(2), of 31] by simp
    have v: "parse_base128_integer (base128 n @ r) = (Some (of_nat n), r)"
      using tag(3) by (intro parse_base128_integer_base128) simp
    have n: "unat (of_nat n :: u64) = n" using tag(3) by (simp add: unat_of_nat)
    have "push_bit 29 (of_nat h) OR ucast (of_nat n :: u64) = tag"
      using tag n by (intro tag_eqI) (simp_all add: unat_ucast)
    then show ?thesis
      using False tag(3) n v parse_asn1_tag_high [OF b, of "base128 n @ r"]
      unfolding der_tag_def hn Let_def by simp
  qed
qed

lemma der_tag_of_parts:
  assumes "h < 8" and "n < 2 ^ 29" and "unat tag = h * 2 ^ 29 + n"
  shows "der_tag tag = (if n < 31 then [of_nat (h * 32 + n)]
    else of_nat (h * 32 + 31) # base128 n)"
proof -
  have hn: "unat tag div 2 ^ 29 = h" "unat tag mod 2 ^ 29 = n" using assms by simp_all
  have or: "of_nat (h * 32) OR of_nat m = (of_nat (h * 32 + m) :: byte)" if "m < 32" for m
    by (rule word_unat_eq_iff [THEN iffD2])
      (unfold unat_shift5_or [OF assms(1) that] unat_of_nat_byte, use assms(1) that in simp)
  show ?thesis using or [of n] or [of 31] unfolding der_tag_def hn Let_def by simp
qed

lemma parse_asn1_tag_sound:
  assumes "parse_asn1_tag s = (Some tag, r)"
  shows "s = der_tag tag @ r"
proof -
  from assms obtain b s' where s: "s = b # s'"
    by (cases s) (auto simp: parse_asn1_tag_def)
  define h where "h = unat b div 32"
  define n where "n = unat b mod 32"
  have b: "unat b = h * 32 + n" and n: "n < 32" by (simp_all add: h_def n_def)
  have h: "h < 8" using unat_byte_less [of b] by (simp add: h_def less_mult_imp_div_less)
  have byte: "b = of_nat (h * 32 + n)" unfolding b [symmetric] by simp
  show ?thesis
  proof (cases "n < 31")
    case True
    then have "tag = push_bit 29 (of_nat h) OR of_nat n" "r = s'"
      using assms parse_asn1_tag_low [OF b True] s by auto
    moreover from this have "unat tag = h * 2 ^ 29 + n"
      using unat_tag_or [OF h, of "of_nat n"] True by (simp add: unat_of_nat)
    ultimately show ?thesis
      using der_tag_of_parts [OF h, of n tag] True s byte by simp
  next
    case False
    with n have "n = 31" by simp
    with b byte have b31: "unat b = h * 32 + 31" "b = of_nat (h * 32 + 31)" by simp_all
    from assms obtain v where v: "parse_base128_integer s' = (Some v, r)" "31 \<le> unat v" "unat v < 2 ^ 29"
      and tag: "tag = push_bit 29 (of_nat h) OR ucast v"
      unfolding s parse_asn1_tag_high [OF b31(1)]
      by (auto split: prod.splits option.splits if_splits)
    have "unat (ucast v :: u32) = unat v" using v(3) by (simp add: unat_ucast)
    then have "unat tag = h * 2 ^ 29 + unat v"
      using unat_tag_or [OF h, of "ucast v"] v(3) tag by simp
    then have "der_tag tag = b # base128 (unat v)"
      using der_tag_of_parts [OF h v(3)] v(2) b31(2) by simp
    then show ?thesis
      using s parse_base128_integer_sound [OF v(1)] by simp
  qed
qed

lemma der_tag_length: "1 \<le> length (der_tag tag)" "length (der_tag tag) \<le> 6"
proof -
  have "unat tag mod 2 ^ 29 < 128 ^ Suc 4" by (rule less_le_trans [of _ "2 ^ 29"]) simp_all
  then have "length (base128 (unat tag mod 2 ^ 29)) \<le> 5" using base128_length by fastforce
  then show "1 \<le> length (der_tag tag)" "length (der_tag tag) \<le> 6"
    by (simp_all add: der_tag_def Let_def)
qed

section \<open>Lengths\<close>

lemma der_length_short: "n < 128 \<Longrightarrow> der_length n = [of_nat n]"
  by (simp add: der_length_def)

lemma der_length_long:
  assumes "1 \<le> k" and "k \<le> 4" and "128 \<le> n" and "256 ^ (k - 1) \<le> n" and "n < 256 ^ k"
  shows "der_length n = of_nat (128 + k) # be_bytes k n"
proof -
  from assms(1,2) consider "k = 1" | "k = 2" | "k = 3" | "k = 4" by linarith
  then show ?thesis using assms(3,4,5) by cases (auto simp: der_length_def)
qed

lemma der_length_cases:
  assumes "128 \<le> n" and "n < (2 :: nat) ^ 32"
  obtains k where "1 \<le> k" and "k \<le> 4" and "256 ^ (k - 1) \<le> n" and "n < 256 ^ k"
proof -
  have "n < 256 \<or> 256 \<le> n \<and> n < 65536 \<or> 65536 \<le> n \<and> n < 16777216 \<or> 16777216 \<le> n \<and> n < 4294967296"
    using assms(2) by auto
  then show thesis
    using assms(1) that [of 1] that [of 2] that [of 3] that [of 4] by auto
qed

lemma der_length_length: "1 \<le> length (der_length n)" "length (der_length n) \<le> 5"
  by (simp_all add: der_length_def)

lemma der_header_length: "2 \<le> length (der_header tag n)" "length (der_header tag n) \<le> 11"
  using der_tag_length [of tag] der_length_length [of n] by (simp_all add: der_header_def)

section \<open>Elements\<close>

lemma get_element_append:
  "length out = n \<Longrightarrow> get_element tag h n (out @ r) = (Some (out, tag, h), r)"
  by (simp add: get_element_def CBS_get_bytes_eq cbs_get_append)

lemma get_element_Some:
  "get_element tag h n s = (Some (out, tag', h'), r) \<longleftrightarrow>
   s = out @ r \<and> length out = n \<and> tag' = tag \<and> h' = h"
  by (auto simp: get_element_def CBS_get_bytes_eq cbs_get_append cbs_get_Some
      split: prod.splits option.splits)

text \<open>The length octets, past the identifier: short form and long form.\<close>

lemma element_short_form:
  assumes "parse_asn1_tag s = (Some tag, b # s')" and "unat b < 128"
    and "h = length s - length s'" and "h < 2 ^ 63"
  shows "cbs_get_any_asn1_element ber s = get_element tag h (unat b + h) s"
proof -
  have "b AND 0x80 = 0" unfolding high_bit_byte by (rule assms(2))
  moreover have "size_add (unat b) h = unat b + h"
    using assms(2,4) by (intro size_add_no_wrap) simp
  ultimately show ?thesis
    using assms by (simp add: cbs_get_any_asn1_element_def Let_def)
qed

lemma element_long_form:
  assumes "parse_asn1_tag s = (Some tag, b # xs @ s')" and "unat b = 128 + k" and "1 \<le> k" and "k \<le> 4"
    and "length xs = k" and "h = length s - length (xs @ s')" and "h < 2 ^ 62"
  shows "cbs_get_any_asn1_element ber s =
    (if be_val xs < 128 \<or> be_val xs < 256 ^ (k - 1) then (None, s)
     else get_element tag (h + k) (be_val xs + (h + k)) s)"
proof -
  have high: "b AND 0x80 \<noteq> 0" unfolding high_bit_byte using assms(2) by simp
  have k: "unat (b AND 0x7f) = k" unfolding low_bits_byte using assms(2,4) by simp
  have "be_val xs < 256 ^ 4" using assms(4,5) by (intro be_val_of_length_less) simp
  then have n: "be_val xs < 2 ^ 32" by simp
  define v where "v = (of_nat (be_val xs) :: u64)"
  have v: "unat v = be_val xs" using n by (simp add: v_def unat_of_nat)
  have get: "cbs_get_u k (xs @ s') = (Some v, s')"
    unfolding v_def using assms(4,5) by (intro cbs_get_u_append) auto
  have small: "v < 128 \<longleftrightarrow> be_val xs < 128" by (simp add: word_less_nat_alt v)
  have min: "drop_bit ((k - 1) * 8) v = 0 \<longleftrightarrow> be_val xs < 256 ^ (k - 1)"
    unfolding drop_bit_eq_0_iff v by (simp add: mult.commute [of _ 8] power_mult)
  have total: "size_add (size_add (be_val xs) h) k = be_val xs + (h + k)"
    "size_add h k = h + k"
    using n assms(4,7) by (simp_all add: size_add_no_wrap)
  show ?thesis
    using high k get small min total v assms(1,3,4) unfolding assms(6)
    by (simp add: cbs_get_any_asn1_element_def Let_def)
qed

lemma cbs_get_any_asn1_element_der [reader_eqs]:
  assumes "length body < 2 ^ 32"
  shows "cbs_get_any_asn1_element ber (der_element tag body @ r) =
    (Some (der_element tag body, tag, length (der_header tag (length body))), r)"
proof -
  let ?s = "der_element tag body @ r" and ?n = "length body"
  show ?thesis
  proof (cases "?n < 128")
    case True
    let ?b = "of_nat ?n :: byte"
    have s: "?s = der_tag tag @ ?b # body @ r"
      using True by (simp add: der_element_def der_header_def der_length_short)
    have p: "parse_asn1_tag ?s = (Some tag, ?b # body @ r)"
      unfolding s by (rule parse_asn1_tag_der_tag)
    have "cbs_get_any_asn1_element ber ?s = get_element tag (length (der_tag tag) + 1) (unat ?b + (length (der_tag tag) + 1)) ?s"
      using True der_tag_length [of tag] by (intro element_short_form [OF p]) (simp_all add: s)
    also have "\<dots> = (Some (der_element tag body, tag, length (der_tag tag) + 1), r)"
      using True by (intro get_element_append) (simp add: der_element_def der_header_def der_length_short)
    finally show ?thesis using True by (simp add: der_header_def der_length_short)
  next
    case False
    then obtain k where k: "1 \<le> k" "k \<le> 4" "256 ^ (k - 1) \<le> ?n" "?n < 256 ^ k"
      using assms der_length_cases [of ?n] by auto
    let ?b = "of_nat (128 + k) :: byte" and ?xs = "be_bytes k ?n" and ?h = "length (der_tag tag) + 1"
    have len: "der_length ?n = ?b # ?xs" using k False by (intro der_length_long) auto
    have s: "?s = der_tag tag @ ?b # ?xs @ body @ r"
      by (simp add: der_element_def der_header_def len)
    have p: "parse_asn1_tag ?s = (Some tag, ?b # ?xs @ body @ r)"
      unfolding s by (rule parse_asn1_tag_der_tag)
    have n: "be_val ?xs = ?n" using k(4) by (rule be_val_be_bytes_small)
    have b: "unat ?b = 128 + k" unfolding unat_of_nat_byte using k(2) by simp
    have "cbs_get_any_asn1_element ber ?s =
        (if be_val ?xs < 128 \<or> be_val ?xs < 256 ^ (k - 1) then (None, ?s)
         else get_element tag (?h + k) (be_val ?xs + (?h + k)) ?s)"
      using k b der_tag_length [of tag] by (intro element_long_form [OF p]) (simp_all add: s)
    also have "\<dots> = get_element tag (?h + k) (?n + (?h + k)) ?s" using False k(3) n by simp
    also have "\<dots> = (Some (der_element tag body, tag, ?h + k), r)"
      by (intro get_element_append) (simp add: der_element_def der_header_def len)
    finally show ?thesis by (simp add: der_header_def len)
  qed
qed

lemma asn1_element_long_inv:
  assumes "CBS_get_any_asn1_element s = (Some res, r)"
    and "parse_asn1_tag s = (Some tag, b # s1)" and "128 \<le> unat b"
  obtains k xs s2 where "unat b = 128 + k" and "1 \<le> k" and "k \<le> 4" and "s1 = xs @ s2" and "length xs = k"
proof -
  have high: "b AND 0x80 \<noteq> 0" unfolding high_bit_byte using assms(3) by simp
  have k: "unat (b AND 0x7f) = unat b - 128"
    unfolding low_bits_byte using mod_128 [OF assms(3)] by simp
  let ?k = "unat b - 128"
  from assms high have range: "\<not> (?k = 0 \<or> ?k > 4)"
    and "cbs_get_u ?k s1 \<noteq> (None, snd (cbs_get_u ?k s1))"
    by (auto simp: CBS_get_any_asn1_element_def cbs_get_any_asn1_element_def Let_def k
        split: if_splits prod.splits option.splits)
  then obtain v s2 where "cbs_get_u ?k s1 = (Some v, s2)" by (cases "cbs_get_u ?k s1") auto
  with range obtain xs where "s1 = xs @ s2" "length xs = ?k"
    using cbs_get_u_Some [of ?k s1 v s2] by auto
  with range assms(3) show thesis by (intro that [of ?k xs s2]) auto
qed

lemma CBS_get_any_asn1_element_sound:
  assumes "CBS_get_any_asn1_element s = (Some (out, tag, h), r)"
  shows "\<exists>body. length body < 2 ^ 32 \<and> out = der_element tag body \<and> s = out @ r
    \<and> h = length (der_header tag (length body))"
proof -
  from assms obtain tag' b s1 where p: "parse_asn1_tag s = (Some tag', b # s1)"
    by (auto simp: CBS_get_any_asn1_element_def cbs_get_any_asn1_element_def CBS_get_u8_Some
        split: prod.splits option.splits)
  then have s: "s = der_tag tag' @ b # s1" by (rule parse_asn1_tag_sound)
  let ?h = "length (der_tag tag') + 1"
  have h: "?h = length s - length s1" "?h < 2 ^ 62" using s der_tag_length [of tag'] by simp_all
  show ?thesis
  proof (cases "unat b < 128")
    case True
    have "cbs_get_any_asn1_element False s = get_element tag' ?h (unat b + ?h) s"
      using h True by (intro element_short_form [OF p]) simp_all
    with assms have g: "s = out @ r" "length out = unat b + ?h" "tag = tag'" "h = ?h"
      by (simp_all add: CBS_get_any_asn1_element_def get_element_Some)
    let ?body = "drop ?h out"
    have "take ?h out = take ?h (out @ r)" using g(2) by simp
    also have "\<dots> = der_tag tag' @ [b]" unfolding g(1) [symmetric] s by simp
    finally have "out = der_tag tag' @ b # ?body" using append_take_drop_id [of ?h out] by simp
    moreover have "length ?body = unat b" using g(2) by simp
    ultimately show ?thesis using g True
      by (intro exI [of _ ?body]) (simp add: der_element_def der_header_def der_length_short)
  next
    case False
    then have "128 \<le> unat b" by simp
    from asn1_element_long_inv [OF assms p this] obtain k xs s2
      where k: "unat b = 128 + k" "1 \<le> k" "k \<le> 4" and s1: "s1 = xs @ s2" and xs: "length xs = k" .
    note p = p [unfolded s1]
    have "cbs_get_any_asn1_element False s =
        (if be_val xs < 128 \<or> be_val xs < 256 ^ (k - 1) then (None, s)
         else get_element tag' (?h + k) (be_val xs + (?h + k)) s)"
      using h k xs s1 by (intro element_long_form [OF p]) simp_all
    with assms have n: "128 \<le> be_val xs" "256 ^ (k - 1) \<le> be_val xs"
      and g: "s = out @ r" "length out = be_val xs + (?h + k)" "tag = tag'" "h = ?h + k"
      by (auto simp: CBS_get_any_asn1_element_def get_element_Some split: if_splits)
    have n2: "be_val xs < 256 ^ k" using xs by (intro be_val_of_length_less) simp
    also have "(256 :: nat) ^ k \<le> 256 ^ 4" using k(3) by (intro power_increasing) auto
    finally have small: "be_val xs < 2 ^ 32" by simp
    have "b = of_nat (128 + k)" unfolding k(1) [symmetric] by simp
    then have len: "der_length (be_val xs) = b # xs"
      using der_length_long [OF k(2,3) n n2] be_bytes_unique [OF xs refl] by simp
    let ?body = "drop (?h + k) out"
    have "take (?h + k) out = take (?h + k) (out @ r)" using g(2) by simp
    also have "\<dots> = der_tag tag' @ b # xs" unfolding g(1) [symmetric] s s1 using xs by simp
    finally have "out = der_tag tag' @ (b # xs) @ ?body" using append_take_drop_id [of "?h + k" out] by simp
    moreover have "length ?body = be_val xs" using g(2) by simp
    ultimately show ?thesis using g small xs
      by (intro exI [of _ ?body]) (simp add: der_element_def der_header_def len)
  qed
qed

section \<open>Typed elements\<close>

lemma skip_der_header [simp]: "CBS_skip (length (der_header tag (length body))) (der_element tag body) = (True, body)"
  by (simp add: der_element_def CBS_skip_append)

lemma CBS_get_asn1_der [reader_eqs]:
  "length body < 2 ^ 32 \<Longrightarrow> CBS_get_asn1 tag (der_element tag body @ r) = (Some body, r)"
  by (simp add: CBS_get_asn1_def cbs_get_asn1_def CBS_get_any_asn1_element_def
      cbs_get_any_asn1_element_der)

lemma CBS_get_asn1_element_der [reader_eqs]:
  "length body < 2 ^ 32 \<Longrightarrow>
   CBS_get_asn1_element tag (der_element tag body @ r) = (Some (der_element tag body), r)"
  by (simp add: CBS_get_asn1_element_def cbs_get_asn1_def CBS_get_any_asn1_element_def
      cbs_get_any_asn1_element_der)

lemma CBS_get_any_asn1_der [reader_eqs]:
  "length body < 2 ^ 32 \<Longrightarrow> CBS_get_any_asn1 (der_element tag body @ r) = (Some (body, tag), r)"
  by (simp add: CBS_get_any_asn1_def CBS_get_any_asn1_element_def cbs_get_any_asn1_element_der)

lemma CBS_get_asn1_Some:
  "CBS_get_asn1 tag s = (Some body, r) \<longleftrightarrow> s = der_element tag body @ r \<and> length body < 2 ^ 32"
proof
  assume "CBS_get_asn1 tag s = (Some body, r)"
  then obtain out h where e: "CBS_get_any_asn1_element s = (Some (out, tag, h), r)"
    and sk: "CBS_skip h out = (True, body)"
    by (auto simp: CBS_get_asn1_def cbs_get_asn1_def split: prod.splits option.splits if_splits bool.splits)
  from CBS_get_any_asn1_element_sound [OF e] sk
  show "s = der_element tag body @ r \<and> length body < 2 ^ 32" by auto
next
  assume "s = der_element tag body @ r \<and> length body < 2 ^ 32"
  then show "CBS_get_asn1 tag s = (Some body, r)" by (simp add: CBS_get_asn1_der)
qed

lemma CBS_peek_asn1_tag_der [reader_eqs]: "CBS_peek_asn1_tag (der_element tag body @ r) tag' \<longleftrightarrow> tag' = tag"
proof -
  have "parse_asn1_tag (der_element tag body @ r) = (Some tag, der_length (length body) @ body @ r)"
    using parse_asn1_tag_der_tag [of tag] by (simp add: der_element_def der_header_def)
  moreover have "\<not> length (der_element tag body @ r) < 1"
    unfolding der_element_def der_header_def length_append using der_tag_length(1) [of tag] by linarith
  ultimately show ?thesis
    unfolding CBS_peek_asn1_tag_def by (simp only: if_False prod.case option.case)
qed

section \<open>The DER readers as codecs\<close>

lemma CBS_get_any_asn1_Some:
  "CBS_get_any_asn1 s = (Some (body, tag), r) \<longleftrightarrow> s = der_element tag body @ r \<and> length body < 2 ^ 32"
proof
  assume "CBS_get_any_asn1 s = (Some (body, tag), r)"
  then obtain out h where e: "CBS_get_any_asn1_element s = (Some (out, tag, h), r)"
    and sk: "CBS_skip h out = (True, body)"
    by (auto simp: CBS_get_any_asn1_def split: prod.splits option.splits bool.splits)
  from CBS_get_any_asn1_element_sound [OF e] sk
  show "s = der_element tag body @ r \<and> length body < 2 ^ 32" by auto
qed (simp add: CBS_get_any_asn1_der)

lemma der_nonempty [simp]: "der_tag tag \<noteq> []" "der_element tag body \<noteq> []" "base128 v \<noteq> []"
  using der_tag_length(1) [of tag] by (auto simp: der_element_def der_header_def base128_def)

interpretation der: canonical_codec "\<lambda>(body, tag). der_element tag body" CBS_get_any_asn1 "\<lambda>(body, tag). length body < 2 ^ 32"
  by unfold_locales (auto simp: CBS_get_any_asn1_Some split: prod.splits)

interpretation base128: canonical_codec "\<lambda>v. base128 (unat v)" parse_base128_integer "\<lambda>v. True"
proof
  show "parse_base128_integer (base128 (unat x) @ r) = (Some x, r)" for x r
    using parse_base128_integer_base128 [of "unat x" r] unsigned_less [of x, where 'a = nat] by simp
qed (simp_all add: parse_base128_integer_sound)

interpretation tag: canonical_codec der_tag parse_asn1_tag "\<lambda>tag. True"
  by unfold_locales (simp_all add: parse_asn1_tag_der_tag parse_asn1_tag_sound)

section \<open>Properties\<close>

text \<open>
  C2. \<^verbatim>\<open>CBS_get_any_asn1_element\<close> succeeds exactly on an input that starts with the DER
  encoding of an element, and then returns that element, its tag, the length of its header
  and the rest of the input. A tag or length in a longer form, an indefinite length and a
  truncated element are refused.
\<close>

theorem CBS_accepts_exactly_der:
  "CBS_get_any_asn1_element s = (Some (out, tag, h), r) \<longleftrightarrow>
   (\<exists>body. length body < 2 ^ 32 \<and> s = der_element tag body @ r \<and> out = der_element tag body
      \<and> h = length (der_header tag (length body)))"
proof
  assume "CBS_get_any_asn1_element s = (Some (out, tag, h), r)"
  from CBS_get_any_asn1_element_sound [OF this]
  show "\<exists>body. length body < 2 ^ 32 \<and> s = der_element tag body @ r \<and> out = der_element tag body
      \<and> h = length (der_header tag (length body))" by auto
qed (auto simp: CBS_get_any_asn1_element_def cbs_get_any_asn1_element_der)

text \<open>
  C14. \<^verbatim>\<open>parse_base128_integer\<close> accepts exactly the shortest base-128 encoding of a 64-bit
  value: it refuses leading zero digits and values that overflow.
\<close>

theorem parse_base128_integer_canonical:
  "parse_base128_integer s = (Some v, r) \<longleftrightarrow> s = base128 (unat v) @ r"
  using parse_base128_integer_sound [of s v r] parse_base128_integer_base128 [of "unat v" r]
    unsigned_less [of v, where 'a = nat] by auto

end
