(* ===== verification/Sorting.thy ===== *)
theory Sorting
  imports Prelude "HOL-Library.Multiset"
begin

text \<open>
  Sorting through a C comparison function: the contract of a comparison function, the contract
  of the C library's \<^verbatim>\<open>qsort\<close> (which leaves the order of elements that compare equal open), an
  insertion sort that fulfils it, and the search for the first element with a property.
\<close>

section \<open>The code\<close>

text \<open>
  \<^verbatim>\<open>qsort\<close> of the C library, as an insertion sort. Where elements that compare equal need not be
  equal, the components take the sort as an argument that fulfils the contract \<open>sorter\<close> below.
\<close>

fun insert_by :: "('a \<Rightarrow> 'a \<Rightarrow> int) \<Rightarrow> 'a \<Rightarrow> 'a list \<Rightarrow> 'a list" where
  "insert_by cmp x [] = [x]"
| "insert_by cmp x (y # ys) = (if cmp x y \<le> 0 then x # y # ys else y # insert_by cmp x ys)"

definition qsort :: "('a \<Rightarrow> 'a \<Rightarrow> int) \<Rightarrow> 'a list \<Rightarrow> 'a list" where
  "qsort cmp xs = foldr (insert_by cmp) xs []"

text \<open>The index of the first element with a property, counted from \<open>i\<close>.\<close>

fun scan :: "('a \<Rightarrow> bool) \<Rightarrow> nat \<Rightarrow> 'a list \<Rightarrow> nat option" where
  "scan P i [] = None"
| "scan P i (x # xs) = (if P x then Some i else scan P (Suc i) xs)"

section \<open>Contracts\<close>

definition ordered :: "('a \<Rightarrow> 'a \<Rightarrow> int) \<Rightarrow> 'a list \<Rightarrow> bool" where
  "ordered cmp xs = sorted_wrt (\<lambda>x y. cmp x y \<le> 0) xs"

text \<open>A comparison function that \<^verbatim>\<open>qsort\<close> and a binary search may be given.\<close>

locale comparator =
  fixes cmp :: "'a \<Rightarrow> 'a \<Rightarrow> int"
  assumes swap: "sgn (cmp y x) = - sgn (cmp x y)"
    and trans: "cmp x y \<le> 0 \<Longrightarrow> cmp y z \<le> 0 \<Longrightarrow> cmp x z \<le> 0"
begin

lemma swap_iff: "cmp x y \<le> 0 \<longleftrightarrow> 0 \<le> cmp y x" "cmp x y < 0 \<longleftrightarrow> 0 < cmp y x" "cmp x y = 0 \<longleftrightarrow> cmp y x = 0"
  using swap [of y x] by (auto simp: sgn_if split: if_splits)

lemma refl [simp]: "cmp x x = 0"
  using swap [of x x] by (simp add: sgn_if split: if_splits)

lemma total: "cmp x y \<le> 0 \<or> cmp y x \<le> 0"
  using swap_iff(1) [of x y] by linarith

lemma insert_ordered:
  assumes "ordered cmp xs"
  shows "ordered cmp (insert_by cmp x xs)"
proof -
  have mem: "set (insert_by cmp x ys) = insert x (set ys)" for ys by (induction ys) auto
  from assms show ?thesis
  proof (induction xs)
    case Nil
    then show ?case by (simp add: ordered_def)
  next
    case (Cons y ys)
    then have le: "\<forall>z\<in>set ys. cmp y z \<le> 0" and ys: "ordered cmp (insert_by cmp x ys)"
      by (simp_all add: ordered_def)
    show ?case
    proof (cases "cmp x y \<le> 0")
      case True
      with le have "\<forall>z\<in>set ys. cmp x z \<le> 0" using trans by blast
      with True Cons.prems show ?thesis by (simp add: ordered_def)
    next
      case False
      with total have "cmp y x \<le> 0" by blast
      with False le ys show ?thesis by (simp add: ordered_def mem)
    qed
  qed
qed

lemma qsort_ordered: "ordered cmp (qsort cmp xs)"
  unfolding qsort_def by (induction xs) (simp_all add: ordered_def [of cmp "[]"] insert_ordered)

text \<open>In an ordered list, what lies before or after a key is decided by the element in the middle.\<close>

lemma ordered_before:
  assumes "ordered cmp xs" and "cmp p (xs ! m) > 0" and "m < length xs" and "i \<le> m"
  shows "cmp p (xs ! i) > 0"
proof (cases "i = m")
  case False
  with assms have "cmp (xs ! i) (xs ! m) \<le> 0" by (simp add: ordered_def sorted_wrt_iff_nth_less)
  then have "cmp p (xs ! i) \<le> 0 \<Longrightarrow> cmp p (xs ! m) \<le> 0" using trans by blast
  with assms(2) show ?thesis by linarith
qed (use assms in simp)

lemma ordered_after:
  assumes "ordered cmp xs" and "cmp p (xs ! m) < 0" and "i < length xs" and "m \<le> i"
  shows "cmp p (xs ! i) < 0"
proof (cases "i = m")
  case False
  with assms have "cmp (xs ! m) (xs ! i) \<le> 0" by (simp add: ordered_def sorted_wrt_iff_nth_less)
  then have "cmp (xs ! i) p \<le> 0 \<Longrightarrow> cmp (xs ! m) p \<le> 0" using trans by blast
  with assms(2) show ?thesis using swap_iff [of p "xs ! m"] swap_iff [of p "xs ! i"] by linarith
qed (use assms in simp)

end

text \<open>What the C standard promises of \<^verbatim>\<open>qsort\<close>.\<close>

locale sorter =
  fixes sort :: "('a \<Rightarrow> 'a \<Rightarrow> int) \<Rightarrow> 'a list \<Rightarrow> 'a list"
  assumes perm: "mset (sort cmp xs) = mset xs"
    and sorts: "comparator cmp \<Longrightarrow> ordered cmp (sort cmp xs)"
begin

lemma set_sort: "set (sort cmp xs) = set xs"
  using perm [of cmp xs] by (metis set_mset_mset)

lemma length_sort: "length (sort cmp xs) = length xs"
  using perm [of cmp xs] by (metis size_mset)

end

lemma mset_insert_by: "mset (insert_by cmp x xs) = add_mset x (mset xs)"
  by (induction xs) auto

lemma mset_qsort: "mset (qsort cmp xs) = mset xs"
  unfolding qsort_def by (induction xs) (simp_all add: mset_insert_by)

interpretation qsort: sorter qsort
  by unfold_locales (simp_all add: mset_qsort comparator.qsort_ordered)

lemma qsort_set [simp]: "set (qsort cmp xs) = set xs"
  by (rule qsort.set_sort)

section \<open>The first element with a property\<close>

lemma scan_None: "scan P i xs = None \<longleftrightarrow> (\<forall>x\<in>set xs. \<not> P x)"
  by (induction xs arbitrary: i) auto

lemma scan_Some:
  "scan P i xs = Some k \<longleftrightarrow> i \<le> k \<and> k < i + length xs \<and> P (xs ! (k - i)) \<and> (\<forall>j < k - i. \<not> P (xs ! j))"
proof (induction xs arbitrary: i k)
  case Nil
  then show ?case by auto
next
  case (Cons x xs)
  show ?case
  proof (cases "P x")
    case True
    show ?thesis
    proof (cases "k = i")
      case False
      then have "i \<le> k \<Longrightarrow> \<exists>j < k - i. P ((x # xs) ! j)" using True by (intro exI [of _ 0]) simp
      with True False show ?thesis by auto
    qed (use True in simp)
  next
    case False
    show ?thesis
    proof (cases "i < k")
      case True
      then obtain d where k: "k = Suc (i + d)" by (auto dest: less_imp_Suc_add)
      have all: "(\<forall>j < Suc d. \<not> P ((x # xs) ! j)) \<longleftrightarrow> (\<forall>j < d. \<not> P (xs ! j))"
        using False by (auto simp: less_Suc_eq_0_disj)
      show ?thesis using False by (simp add: Cons.IH k all)
    next
      case le: False
      then show ?thesis using False by (auto simp: Cons.IH)
    qed
  qed
qed

end
