(* ===== verification/Cbb_Asn1.thy ===== *)
theory Cbb_Asn1
  imports Cbb Der Sorting
begin

text \<open>
  The ASN.1 half of \<^verbatim>\<open>crypto/bytestring/cbb.c\<close>: finishing a string, elements, integers, octet
  strings, booleans, object identifiers and the sorting of a \<^verbatim>\<open>SET OF\<close>, and
  \<^verbatim>\<open>CBS_asn1_oid_to_text\<close> of \<^verbatim>\<open>cbs.c\<close>, which builds its text with a \<^verbatim>\<open>CBB\<close>.
\<close>

section \<open>Finishing and discarding\<close>

text \<open>
  \<open>out_data\<close> and \<open>out_len\<close> say whether the caller passed the two output pointers. The results
  are what the code stores through them: the first \<open>bb_len\<close> bytes of the buffer and its length.
\<close>

definition CBB_finish :: "nat \<Rightarrow> bool \<Rightarrow> bool \<Rightarrow> cbb \<Rightarrow> bool \<times> bytes option \<times> nat option \<times> cbb" where
  "CBB_finish d out_data out_len c =
     (if d \<noteq> 0 then (False, None, None, c)
      else case CBB_flush 0 c of
        (False, c') \<Rightarrow> (False, None, None, c')
      | (True, c') \<Rightarrow>
          (case cbb_base c' of
             None \<Rightarrow> (False, None, None, c')
           | Some base \<Rightarrow>
               if bb_can_resize base \<and> (\<not> out_data \<or> \<not> out_len) then (False, None, None, c')
               else (True, if out_data then Some (take (bb_len base) (bb_buf base)) else None,
                     if out_len then Some (bb_len base) else None, CBB_cleanup c')))"

definition CBB_discard_child :: "nat \<Rightarrow> cbb \<Rightarrow> cbb" where
  "CBB_discard_child d c =
     (case cbb_base c of
        None \<Rightarrow> c
      | Some base \<Rightarrow>
          if d < length (cbb_chain c)
          then \<lparr>cbb_base = Some (base\<lparr>bb_len := fr_offset (cbb_chain c ! d)\<rparr>),
                cbb_chain = take d (cbb_chain c)\<rparr>
          else c)"

section \<open>Elements\<close>

definition add_asn1_tag :: "nat \<Rightarrow> u32 \<Rightarrow> cbb \<Rightarrow> bool \<times> cbb" where
  "add_asn1_tag d tag c =
     (let tag_bits = (ucast (drop_bit CBS_ASN1_TAG_SHIFT tag AND 0xe0) :: byte);
          tag_number = tag AND CBS_ASN1_TAG_NUMBER_MASK
      in if tag_number \<ge> 0x1f
         then case CBB_add_u8 d (tag_bits OR 0x1f) c of
                (False, c') \<Rightarrow> (False, c')
              | (True, c') \<Rightarrow> add_base128_integer d (ucast tag_number) c'
         else CBB_add_u8 d (tag_bits OR ucast tag_number) c)"

definition CBB_add_asn1 :: "nat \<Rightarrow> u32 \<Rightarrow> cbb \<Rightarrow> bool \<times> cbb" where
  "CBB_add_asn1 d tag c =
     (case CBB_flush d c of
        (False, c1) \<Rightarrow> (False, c1)
      | (True, c1) \<Rightarrow>
     (case add_asn1_tag d tag c1 of
        (False, c2) \<Rightarrow> (False, c2)
      | (True, c2) \<Rightarrow>
     (let offset = (case cbb_base c2 of None \<Rightarrow> 0 | Some base \<Rightarrow> bb_len base)
      in case CBB_add_u8 d 0 c2 of
           (False, c3) \<Rightarrow> (False, c3)
         | (True, c3) \<Rightarrow> (True, push_frame d offset 1 True c3))))"

text \<open>
  Every function that adds a whole element adds its contents to a child at depth \<open>d + 1\<close> and
  flushes the object at depth \<open>d\<close>.
\<close>

definition add_element :: "nat \<Rightarrow> u32 \<Rightarrow> (cbb \<Rightarrow> bool \<times> cbb) \<Rightarrow> cbb \<Rightarrow> bool \<times> cbb" where
  "add_element d tag fill c =
     (case CBB_add_asn1 d tag c of
        (False, c1) \<Rightarrow> (False, c1)
      | (True, c1) \<Rightarrow>
          (case fill c1 of
             (False, c2) \<Rightarrow> (False, c2)
           | (True, c2) \<Rightarrow> CBB_flush d c2))"

text \<open>The loop of \<^verbatim>\<open>CBB_add_asn1_uint64\<close>, from its byte \<open>8 - n\<close> on, and what follows it.\<close>

fun add_uint64_loop :: "nat \<Rightarrow> nat \<Rightarrow> bool \<Rightarrow> u64 \<Rightarrow> cbb \<Rightarrow> bool \<times> cbb" where
  "add_uint64_loop d 0 started value c = (if \<not> started then CBB_add_u8 d 0 c else (True, c))"
| "add_uint64_loop d (Suc n) started value c =
     (let b = (ucast (drop_bit (8 * n) value AND 0xff) :: byte)
      in if \<not> started \<and> b = 0 then add_uint64_loop d n started value c
         else case (if \<not> started \<and> b AND 0x80 \<noteq> 0 then CBB_add_u8 d 0 c else (True, c)) of
                (False, c1) \<Rightarrow> (False, c1)
              | (True, c1) \<Rightarrow>
                  (case CBB_add_u8 d b c1 of
                     (False, c2) \<Rightarrow> (False, c2)
                   | (True, c2) \<Rightarrow> add_uint64_loop d n True value c2))"

definition CBB_add_asn1_uint64 :: "nat \<Rightarrow> u64 \<Rightarrow> cbb \<Rightarrow> bool \<times> cbb" where
  "CBB_add_asn1_uint64 d value =
     add_element d CBS_ASN1_INTEGER (add_uint64_loop (d + 1) 8 False value)"

text \<open>
  \<^verbatim>\<open>CBB_add_asn1_int64\<close> reads the value through a union with eight bytes, least significant
  byte first (the targets are little-endian).
\<close>

definition union_byte :: "u64 \<Rightarrow> nat \<Rightarrow> byte" where
  "union_byte value i = ucast (drop_bit (8 * i) value)"

fun int64_start :: "u64 \<Rightarrow> nat \<Rightarrow> nat" where
  "int64_start value 0 = 0"
| "int64_start value (Suc n) =
     (if union_byte value (Suc n) = 0xff \<and> union_byte value n AND 0x80 \<noteq> 0
      then int64_start value n else Suc n)"

text \<open>The loop adds the bytes \<open>n - 1\<close> down to 0.\<close>

fun add_union_loop :: "nat \<Rightarrow> nat \<Rightarrow> u64 \<Rightarrow> cbb \<Rightarrow> bool \<times> cbb" where
  "add_union_loop d 0 value c = (True, c)"
| "add_union_loop d (Suc i) value c =
     (case CBB_add_u8 d (union_byte value i) c of
        (False, c') \<Rightarrow> (False, c')
      | (True, c') \<Rightarrow> add_union_loop d i value c')"

definition CBB_add_asn1_int64 :: "nat \<Rightarrow> u64 \<Rightarrow> cbb \<Rightarrow> bool \<times> cbb" where
  "CBB_add_asn1_int64 d value =
     (if sint value \<ge> 0 then CBB_add_asn1_uint64 d value
      else add_element d CBS_ASN1_INTEGER (add_union_loop (d + 1) (int64_start value 7 + 1) value))"

definition CBB_add_asn1_octet_string :: "nat \<Rightarrow> bytes \<Rightarrow> cbb \<Rightarrow> bool \<times> cbb" where
  "CBB_add_asn1_octet_string d data =
     add_element d CBS_ASN1_OCTETSTRING (CBB_add_bytes (d + 1) data)"

definition CBB_add_asn1_bool :: "nat \<Rightarrow> bool \<Rightarrow> cbb \<Rightarrow> bool \<times> cbb" where
  "CBB_add_asn1_bool d value =
     add_element d CBS_ASN1_BOOLEAN (CBB_add_u8 (d + 1) (if value then 0xff else 0))"

section \<open>Object identifiers\<close>

text \<open>
  The loop of \<^verbatim>\<open>parse_dotted_decimal\<close>; \<open>out\<close> is \<^verbatim>\<open>*out\<close>. The dot ends a component only when
  something follows it.
\<close>

fun parse_dotted_loop :: "u64 \<Rightarrow> bool \<Rightarrow> u64 reader" where
  "parse_dotted_loop out seen_digit [] = (if seen_digit then Some out else None, [])"
| "parse_dotted_loop out seen_digit (u # cbs) =
     (if u = 0x2e \<and> length cbs > 0 then (if seen_digit then Some out else None, cbs)
      else if u < 0x30 \<or> u > 0x39 \<or> (seen_digit \<and> out = 0) \<or>
              out > 0xffffffffffffffff div 10 \<or> out * 10 > 0xffffffffffffffff - ucast (u - 0x30)
      then (None, cbs)
      else parse_dotted_loop (out * 10 + ucast (u - 0x30)) True cbs)"

definition parse_dotted_decimal :: "u64 reader" where
  "parse_dotted_decimal cbs = parse_dotted_loop 0 False cbs"

lemma parse_dotted_loop_length: "length (snd (parse_dotted_loop out seen cbs)) \<le> length cbs - 1"
  by (induction out seen cbs rule: parse_dotted_loop.induct) (auto simp: Let_def)

lemma parse_dotted_decimal_shorter: "(x, r) = parse_dotted_decimal cbs \<Longrightarrow> cbs \<noteq> [] \<Longrightarrow> length r < length cbs"
  using parse_dotted_loop_length [of 0 False cbs] by (cases cbs) (auto simp: parse_dotted_decimal_def dest: sym)

text \<open>The loop over the components after the first two.\<close>

function add_oid_components :: "nat \<Rightarrow> bytes \<Rightarrow> cbb \<Rightarrow> bool \<times> cbb" where
  "add_oid_components d cbs c =
     (if length cbs = 0 then (True, c)
      else case parse_dotted_decimal cbs of
        (None, _) \<Rightarrow> (False, c)
      | (Some a, cbs') \<Rightarrow>
          (case add_base128_integer d a c of
             (False, c') \<Rightarrow> (False, c')
           | (True, c') \<Rightarrow> add_oid_components d cbs' c'))"
  by pat_completeness auto
termination
  by (relation "measure (\<lambda>(d, cbs, c). length cbs)")
    (use parse_dotted_decimal_shorter in \<open>force+\<close>)

declare add_oid_components.simps [simp del]

definition CBB_add_asn1_oid_from_text :: "nat \<Rightarrow> bytes \<Rightarrow> cbb \<Rightarrow> bool \<times> cbb" where
  "CBB_add_asn1_oid_from_text d txt c =
     (case CBB_flush d c of
        (False, c1) \<Rightarrow> (False, c1)
      | (True, c1) \<Rightarrow>
     (case parse_dotted_decimal txt of
        (None, _) \<Rightarrow> (False, c1)
      | (Some a, cbs) \<Rightarrow>
     (case parse_dotted_decimal cbs of
        (None, _) \<Rightarrow> (False, c1)
      | (Some b, cbs) \<Rightarrow>
          if a > 2 \<or> (a < 2 \<and> b > 39) \<or> b > 0xffffffffffffffff - 80 then (False, c1)
          else case add_base128_integer d (40 * a + b) c1 of
                 (False, c2) \<Rightarrow> (False, c2)
               | (True, c2) \<Rightarrow> add_oid_components d cbs c2)))"

text \<open>The decimal digits that \<^verbatim>\<open>BIO_snprintf\<close> prints for \<^verbatim>\<open>PRIu64\<close>.\<close>

fun decimal :: "nat \<Rightarrow> bytes" where
  "decimal n = (if n < 10 then [] else decimal (n div 10)) @ [of_nat (48 + n mod 10)]"

declare decimal.simps [simp del]

definition add_decimal :: "u64 \<Rightarrow> cbb \<Rightarrow> bool \<times> cbb" where
  "add_decimal v = CBB_add_bytes 0 (decimal (unat v))"

lemma parse_base128_loop_length: "length (snd (parse_base128_loop v cbs)) \<le> length cbs - 1"
  by (induction v cbs rule: parse_base128_loop.induct) (auto simp: Let_def)

lemma parse_base128_integer_shorter: "(x, r) = parse_base128_integer cbs \<Longrightarrow> cbs \<noteq> [] \<Longrightarrow> length r < length cbs"
  using parse_base128_loop_length [of 0 cbs] by (cases cbs) (auto simp: parse_base128_integer_def dest: sym)

function oid_text_components :: "bytes \<Rightarrow> cbb \<Rightarrow> bool \<times> cbb" where
  "oid_text_components copy c =
     (if length copy = 0 then (True, c)
      else case parse_base128_integer copy of
        (None, _) \<Rightarrow> (False, c)
      | (Some v, copy') \<Rightarrow>
          (case CBB_add_u8 0 0x2e c of
             (False, c1) \<Rightarrow> (False, c1)
           | (True, c1) \<Rightarrow>
               (case add_decimal v c1 of
                  (False, c2) \<Rightarrow> (False, c2)
                | (True, c2) \<Rightarrow> oid_text_components copy' c2)))"
  by pat_completeness auto
termination
  by (relation "measure (\<lambda>(copy, c). length copy)")
    (use parse_base128_integer_shorter in \<open>force+\<close>)

declare oid_text_components.simps [simp del]

text \<open>The first component of the text: \<^verbatim>\<open>40 * value1 + value2\<close> taken apart.\<close>

definition oid_text_first :: "u64 \<Rightarrow> cbb \<Rightarrow> bool \<times> cbb" where
  "oid_text_first v c =
     (if v \<ge> 80
      then case CBB_add_bytes 0 [0x32, 0x2e] c of
             (False, c1) \<Rightarrow> (False, c1)
           | (True, c1) \<Rightarrow> add_decimal (v - 80) c1
      else case add_decimal (v div 40) c of
             (False, c1) \<Rightarrow> (False, c1)
           | (True, c1) \<Rightarrow>
               (case CBB_add_u8 0 0x2e c1 of
                  (False, c2) \<Rightarrow> (False, c2)
                | (True, c2) \<Rightarrow> add_decimal (v mod 40) c2))"

definition CBS_asn1_oid_to_text :: "(nat \<Rightarrow> bool) \<Rightarrow> byte \<Rightarrow> bytes \<Rightarrow> bytes option" where
  "CBS_asn1_oid_to_text alloc fresh cbs =
     (case CBB_init alloc fresh 32 of
        (False, _) \<Rightarrow> None
      | (True, c0) \<Rightarrow>
     (case parse_base128_integer cbs of
        (None, _) \<Rightarrow> None
      | (Some v, copy) \<Rightarrow>
     (case oid_text_first v c0 of
        (False, _) \<Rightarrow> None
      | (True, c1) \<Rightarrow>
     (case oid_text_components copy c1 of
        (False, _) \<Rightarrow> None
      | (True, c2) \<Rightarrow>
     (case CBB_add_u8 0 0 c2 of
        (False, _) \<Rightarrow> None
      | (True, c3) \<Rightarrow>
     (case CBB_finish 0 True True c3 of
        (True, txt, _, _) \<Rightarrow> txt
      | (False, _) \<Rightarrow> None))))))"

section \<open>Sorting a SET OF\<close>

text \<open>\<^verbatim>\<open>memcmp\<close> of the C library on the first \<open>n\<close> bytes: the first difference decides.\<close>

fun memcmp :: "bytes \<Rightarrow> bytes \<Rightarrow> nat \<Rightarrow> int" where
  "memcmp (a # as) (b # bs) (Suc n) = (if a = b then memcmp as bs n else uint a - uint b)"
| "memcmp as bs n = 0"

definition compare_set_of_element :: "bytes \<Rightarrow> bytes \<Rightarrow> int" where
  "compare_set_of_element a b =
     (let a_len = length a; b_len = length b; min_len = (if a_len < b_len then a_len else b_len);
          ret = memcmp a b min_len
      in if ret \<noteq> 0 then ret else if a_len = b_len then 0 else if a_len < b_len then -1 else 1)"

text \<open>The two passes over the children: counting them, then collecting them.\<close>

lemma CBS_get_any_asn1_element_shorter:
  assumes "CBS_get_any_asn1_element cbs = (Some res, r)"
  shows "length r < length cbs"
proof -
  obtain out tag h where res: "res = (out, tag, h)" by (cases res)
  from CBS_get_any_asn1_element_sound [OF assms [unfolded res]] obtain body
    where "cbs = out @ r" and "out = der_element tag body" by blast
  moreover have "0 < length (der_element tag body)"
    using der_header_length(1) [of tag "length body"] unfolding der_element_def length_append by linarith
  ultimately show ?thesis by simp
qed

function count_children :: "bytes \<Rightarrow> nat option" where
  "count_children cbs =
     (if length cbs = 0 then Some 0
      else case CBS_get_any_asn1_element cbs of
        (None, _) \<Rightarrow> None
      | (Some _, cbs') \<Rightarrow> map_option Suc (count_children cbs'))"
  by pat_completeness auto
termination
  by (relation "measure length") (auto dest!: sym [of "(Some _, _)"] CBS_get_any_asn1_element_shorter)

declare count_children.simps [simp del]

fun get_children :: "nat \<Rightarrow> bytes \<Rightarrow> bytes list option" where
  "get_children 0 cbs = Some []"
| "get_children (Suc n) cbs =
     (case CBS_get_any_asn1_element cbs of
        (None, _) \<Rightarrow> None
      | (Some (child, _, _), cbs') \<Rightarrow> map_option ((#) child) (get_children n cbs'))"

fun add_children :: "nat \<Rightarrow> bytes list \<Rightarrow> cbb \<Rightarrow> bool \<times> cbb" where
  "add_children d [] c = (True, c)"
| "add_children d (x # xs) c =
     (case CBB_add_bytes d x c of (False, c') \<Rightarrow> (False, c') | (True, c') \<Rightarrow> add_children d xs c')"

text \<open>
  \<^verbatim>\<open>sizeof(CBS)\<close> is 16. \<open>alloc\<close> answers for the copy of the contents and for the array. Elements
  that compare equal are equal byte strings here, so the choice of the sort cannot be seen.
\<close>

definition CBB_flush_asn1_set_of :: "nat \<Rightarrow> cbb \<Rightarrow> bool \<times> cbb" where
  "CBB_flush_asn1_set_of d c =
     (case CBB_flush d c of
        (False, c1) \<Rightarrow> (False, c1)
      | (True, c1) \<Rightarrow>
     (case cbb_base c1 of
        None \<Rightarrow> (False, c1)
      | Some base \<Rightarrow>
     (case count_children (CBB_data d c1) of
        None \<Rightarrow> (False, c1)
      | Some num_children \<Rightarrow>
          if num_children < 2 then (True, c1)
          else if num_children > size_max div 16 then (False, c1)
          else if OPENSSL_memdup (bb_alloc base) (CBB_data d c1) = None \<or>
                  \<not> bb_alloc base (num_children * 16) then (False, c1)
          else case get_children num_children (CBB_data d c1) of
                 None \<Rightarrow> (False, c1)
               | Some children \<Rightarrow>
                   add_children d (qsort compare_set_of_element children)
                     (c1\<lparr>cbb_base := Some (base\<lparr>bb_len := frame_start c1 d\<rparr>)\<rparr>))))"

end
