(* ===== verification/Cbb_Refine.thy ===== *)
theory Cbb_Refine
  imports Cbb_Asn1
begin

text \<open>
  What a \<^verbatim>\<open>CBB\<close> promises. The abstract state is the byte string written so far, cut at the
  pending children; a flush closes the children, innermost first, by putting the length of
  each in front of it. The lemmas show that the buffer code implements this: which bytes the
  buffer holds after each operation, that the buffer is never overrun, and that an error stays.
\<close>

section \<open>The abstract builder\<close>

datatype pending = Prefix nat | Asn1

fun close :: "pending \<Rightarrow> bytes \<Rightarrow> bytes option" where
  "close (Prefix k) body =
     (if length body < 256 ^ k then Some (be_bytes k (length body) @ body) else None)"
| "close Asn1 body =
     (if length body \<le> 0xfffffffe then Some (der_length (length body) @ body) else None)"

text \<open>The contents of an object, when the children below it are closed.\<close>

fun collapse :: "bytes \<Rightarrow> (pending \<times> bytes) list \<Rightarrow> bytes option" where
  "collapse s [] = Some s"
| "collapse s ((k, b) # fs) =
     (case collapse b fs of
        None \<Rightarrow> None
      | Some body \<Rightarrow> map_option (\<lambda>e. s @ e) (close k body))"

section \<open>Abstraction and invariant\<close>

definition contents :: "cbb_buffer \<Rightarrow> bytes" where
  "contents base = take (bb_len base) (bb_buf base)"

definition buffer_ok :: "cbb_buffer \<Rightarrow> bool" where
  "buffer_ok base \<longleftrightarrow>
     length (bb_buf base) = bb_cap base \<and> bb_len base \<le> bb_cap base \<and> bb_cap base < 2 ^ 64"

definition frame_kind :: "cbb_frame \<Rightarrow> pending" where
  "frame_kind f = (if fr_pending_is_asn1 f then Asn1 else Prefix (fr_pending_len_len f))"

definition frame_end :: "cbb_frame \<Rightarrow> nat" where
  "frame_end f = fr_offset f + fr_pending_len_len f"

definition frame_ok :: "cbb_frame \<Rightarrow> bool" where
  "frame_ok f \<longleftrightarrow> 0 < fr_pending_len_len f \<and> (fr_pending_is_asn1 f \<longrightarrow> fr_pending_len_len f = 1)"

text \<open>The frames lie one after the other in the first \<open>n\<close> bytes, from \<open>start\<close> on.\<close>

fun frames_ok :: "nat \<Rightarrow> cbb_frame list \<Rightarrow> nat \<Rightarrow> bool" where
  "frames_ok start [] n \<longleftrightarrow> start \<le> n"
| "frames_ok start (f # fs) n \<longleftrightarrow> start \<le> fr_offset f \<and> frame_ok f \<and> frames_ok (frame_end f) fs n"

definition cbb_ok :: "cbb \<Rightarrow> bool" where
  "cbb_ok c \<longleftrightarrow>
     (case cbb_base c of
        None \<Rightarrow> True
      | Some base \<Rightarrow> buffer_ok base \<and> frames_ok 0 (cbb_chain c) (bb_len base))"

text \<open>The bytes from \<open>start\<close> to the first of the frames, and the parts that the frames cut.\<close>

fun segment :: "bytes \<Rightarrow> nat \<Rightarrow> cbb_frame list \<Rightarrow> bytes" where
  "segment s start [] = drop start s"
| "segment s start (f # fs) = drop start (take (fr_offset f) s)"

fun segments :: "bytes \<Rightarrow> cbb_frame list \<Rightarrow> (pending \<times> bytes) list" where
  "segments s [] = []"
| "segments s (f # fs) = (frame_kind f, segment s (frame_end f) fs) # segments s fs"

section \<open>Buffers\<close>

lemma length_contents [simp]: "buffer_ok base \<Longrightarrow> length (contents base) = bb_len base"
  by (simp add: contents_def buffer_ok_def)

lemma frames_ok_le: "frames_ok start fs n \<Longrightarrow> start \<le> n"
  by (induction start fs n rule: frames_ok.induct) (auto simp: frame_end_def)

lemma frames_ok_mono: "frames_ok start fs n \<Longrightarrow> n \<le> m \<Longrightarrow> frames_ok start fs m"
  by (induction start fs n rule: frames_ok.induct) auto

lemma write_at_middle:
  "length xs = off \<Longrightarrow> length ys' = length ys \<Longrightarrow> write_at (xs @ ys @ zs) off ys' = xs @ ys' @ zs"
  by (simp add: write_at_def)

lemma write_at_update:
  assumes "off + length xs < length buf"
  shows "write_at (buf[off + length xs := b]) off xs = write_at buf off (xs @ [b])"
proof -
  have "drop (off + length xs) (buf[off + length xs := b]) = b # drop (Suc (off + length xs)) buf"
    using assms by (subst Cons_nth_drop_Suc [symmetric]) simp_all
  then show ?thesis by (simp add: write_at_def)
qed

lemma put_len_loop_eq:
  "off + k \<le> length buf \<Longrightarrow> put_len_loop k off n buf = (write_at buf off (be_bytes k n), n div 256 ^ k)"
proof (induction k arbitrary: n buf)
  case 0
  then show ?case by simp
next
  case (Suc k)
  have len: "off + k < length buf" using Suc.prems by simp
  then have "write_at (buf[off + k := of_nat n]) off (be_bytes k (n div 256)) = write_at buf off (be_bytes (Suc k) n)"
    using write_at_update [of off "be_bytes k (n div 256)" buf] by (simp only: be_bytes_snoc length_be_bytes)
  with Suc len show ?case by (simp add: div_mult2_eq del: be_bytes.simps)
qed

lemma put_u_loop_eq:
  "off + k \<le> length buf \<Longrightarrow>
   put_u_loop k off v buf = (write_at buf off (be_bytes k (unat v)), drop_bit (8 * k) v)"
proof (induction k arbitrary: v buf)
  case 0
  then show ?case by simp
next
  case (Suc k)
  have len: "off + k < length buf" using Suc.prems by simp
  then have "write_at (buf[off + k := ucast v]) off (be_bytes k (unat v div 256))
      = write_at buf off (be_bytes (Suc k) (unat v))"
    using write_at_update [of off "be_bytes k (unat v div 256)" buf]
    by (simp only: be_bytes_snoc length_be_bytes ucast_of_nat)
  moreover have "drop_bit (8 * k) (drop_bit 8 v) = drop_bit (8 * Suc k) v" by (simp add: add.commute)
  ultimately show ?case
    using Suc.IH [of "buf[off + k := ucast v]" "drop_bit 8 v"] len
    by (simp only: put_u_loop.simps) (simp add: unat_drop_bit del: be_bytes.simps)
qed

text \<open>The buffer keeps its provenance: whether it may grow, its allocator, its size when fixed;
  it never shrinks.\<close>

definition same_alloc :: "cbb_buffer \<Rightarrow> cbb_buffer \<Rightarrow> bool" where
  "same_alloc base base' \<longleftrightarrow> bb_can_resize base' = bb_can_resize base \<and> bb_alloc base' = bb_alloc base
     \<and> bb_cap base \<le> bb_cap base'
     \<and> (\<not> bb_can_resize base \<longrightarrow> bb_cap base' = bb_cap base)"

lemma same_alloc_refl [simp]: "same_alloc base base"
  by (simp add: same_alloc_def)

lemma same_alloc_trans: "same_alloc a b \<Longrightarrow> same_alloc b c \<Longrightarrow> same_alloc a c"
  by (auto simp: same_alloc_def)

lemma same_alloc_update [simp]:
  "same_alloc base (base'\<lparr>bb_buf := x\<rparr>) = same_alloc base base'"
  "same_alloc base (base'\<lparr>bb_error := e\<rparr>) = same_alloc base base'"
  "same_alloc base (base'\<lparr>bb_len := n\<rparr>) = same_alloc base base'"
  by (simp_all add: same_alloc_def)

lemma cbb_buffer_reserve_ok:
  assumes "buffer_ok base" and "n < 2 ^ 64" and "cbb_buffer_reserve base n = (True, base')"
  obtains junk where "base' = base\<lparr>bb_buf := bb_buf base @ junk, bb_cap := bb_cap base + length junk\<rparr>"
    and "buffer_ok base'" and "bb_len base + n \<le> bb_cap base'"
    and "\<not> bb_can_resize base \<Longrightarrow> junk = []"
proof -
  have len: "bb_len base < 2 ^ 64" using assms(1) by (simp add: buffer_ok_def)
  note newlen = size_add_less_iff [OF len assms(2)]
  have no_wrap: "bb_len base + n < 2 ^ 64"
    using assms(3) newlen by (auto simp: cbb_buffer_reserve_def Let_def not_less split: if_splits)
  note sum = size_add_no_wrap [OF no_wrap]
  show ?thesis
  proof (cases "bb_len base + n > bb_cap base")
    case False
    with assms sum no_wrap have "base' = base" by (simp add: cbb_buffer_reserve_def)
    with False assms(1) that [of "[]"] show ?thesis by simp
  next
    case True
    define cap where "cap = (if size_mul (bb_cap base) 2 < bb_cap base \<or> size_mul (bb_cap base) 2 < bb_len base + n
      then bb_len base + n else size_mul (bb_cap base) 2)"
    have cap: "bb_len base + n \<le> cap" "cap < 2 ^ 64" using no_wrap by (auto simp: cap_def size_mul_def)
    from True assms(3) sum have base': "base' = base\<lparr>bb_buf := bb_buf base @ replicate (cap - length (bb_buf base)) (bb_fresh base),
        bb_cap := cap\<rparr>" and "bb_can_resize base"
      by (auto simp: cbb_buffer_reserve_def Let_def cap_def split: if_splits)
    with True cap assms(1) that [of "replicate (cap - length (bb_buf base)) (bb_fresh base)"]
    show ?thesis by (simp add: buffer_ok_def)
  qed
qed

lemma cbb_buffer_reserve_fail:
  "cbb_buffer_reserve base n = (False, base') \<Longrightarrow> base' = base\<lparr>bb_error := True\<rparr>"
  by (auto simp: cbb_buffer_reserve_def Let_def split: if_splits)

text \<open>Room for \<open>n\<close> more bytes: in the buffer, or in an allocator that never runs out.\<close>

definition has_room :: "cbb_buffer \<Rightarrow> nat \<Rightarrow> bool" where
  "has_room base n \<longleftrightarrow> bb_len base + n < 2 ^ 64 \<and>
     (bb_len base + n \<le> bb_cap base \<or> bb_can_resize base \<and> (\<forall>m. bb_alloc base m))"

lemma cbb_buffer_reserve_room: "has_room base n \<Longrightarrow> fst (cbb_buffer_reserve base n)"
  by (auto simp: cbb_buffer_reserve_def has_room_def size_add_no_wrap Let_def)

lemma cbb_buffer_add_fail:
  "cbb_buffer_add base n = (None, base') \<Longrightarrow> base' = base\<lparr>bb_error := True\<rparr>"
  by (auto simp: cbb_buffer_add_def dest: cbb_buffer_reserve_fail split: prod.splits bool.splits)

text \<open>
  The new bytes start where the string ended, and the buffer reaches past them.
\<close>

lemma cbb_buffer_add_Some:
  assumes "buffer_ok base" and "n < 2 ^ 64" and "cbb_buffer_add base n = (Some off, base')"
  obtains gap rest where "off = bb_len base" and "bb_buf base' = contents base @ gap @ rest"
    and "length gap = n" and "bb_len base' = bb_len base + n" and "buffer_ok base'"
    and "bb_error base' = bb_error base"
    and "same_alloc base base'"
proof -
  from assms(3) obtain b where r: "cbb_buffer_reserve base n = (True, b)"
    and b: "off = bb_len b" "base' = b\<lparr>bb_len := bb_len b + n\<rparr>"
    by (auto simp: cbb_buffer_add_def split: prod.splits bool.splits)
  from cbb_buffer_reserve_ok [OF assms(1,2) r] obtain junk
    where j: "b = base\<lparr>bb_buf := bb_buf base @ junk, bb_cap := bb_cap base + length junk\<rparr>"
      and ok: "buffer_ok b" "bb_len base + n \<le> bb_cap b" and fixed: "\<not> bb_can_resize base \<Longrightarrow> junk = []"
    by blast
  let ?rest = "drop (bb_len base) (bb_buf b)"
  have "take (bb_len base) (bb_buf b) = contents base"
    using assms(1) j by (simp add: contents_def buffer_ok_def)
  then have "bb_buf b = contents base @ take n ?rest @ drop n ?rest"
    by (metis append_take_drop_id)
  moreover have "length (take n ?rest) = n" using ok j by (simp add: buffer_ok_def)
  ultimately obtain gap rest where buf: "bb_buf b = contents base @ gap @ rest" and gap: "length gap = n"
    by blast
  have len: "bb_len b = bb_len base" "bb_error b = bb_error base" "same_alloc base b"
    using j fixed by (simp_all add: same_alloc_def)
  show ?thesis
  proof (rule that [of gap rest])
    show "buffer_ok base'" using ok len b(2) by (simp add: buffer_ok_def)
  qed (simp_all add: b buf gap len)
qed

section \<open>Appending\<close>

text \<open>What a successful append does to the buffer.\<close>

definition appended :: "cbb_buffer \<Rightarrow> bytes \<Rightarrow> cbb_buffer \<Rightarrow> bool" where
  "appended base xs base' \<longleftrightarrow> buffer_ok base' \<and> contents base' = contents base @ xs
     \<and> bb_error base' = bb_error base \<and> same_alloc base base'"

lemma appended_len: "buffer_ok base \<Longrightarrow> appended base xs base' \<Longrightarrow> bb_len base' = bb_len base + length xs"
  by (metis appended_def length_append length_contents)

lemma appended_room:
  assumes "buffer_ok base" and "appended base xs base'" and "has_room base (length xs + n)"
  shows "has_room base' n"
  using assms appended_len [OF assms(1,2)]
  by (cases "bb_can_resize base") (auto simp: has_room_def appended_def same_alloc_def buffer_ok_def)

lemma write_new:
  assumes "buffer_ok base'" and "bb_buf base' = contents base @ gap @ rest" and "length gap = length xs"
    and "bb_len base' = bb_len base + length xs" and "length (contents base) = bb_len base"
  shows "buffer_ok (base'\<lparr>bb_buf := write_at (bb_buf base') (bb_len base) xs\<rparr>)"
    and "contents (base'\<lparr>bb_buf := write_at (bb_buf base') (bb_len base) xs\<rparr>) = contents base @ xs"
proof -
  have w: "write_at (bb_buf base') (bb_len base) xs = contents base @ xs @ rest"
    unfolding assms(2) using assms(3,5) by (intro write_at_middle) simp_all
  have "length (contents base @ xs @ rest) = length (bb_buf base')"
    unfolding assms(2) using assms(3) by simp
  with w assms(1) show "buffer_ok (base'\<lparr>bb_buf := write_at (bb_buf base') (bb_len base) xs\<rparr>)"
    by (simp add: buffer_ok_def)
  show "contents (base'\<lparr>bb_buf := write_at (bb_buf base') (bb_len base) xs\<rparr>) = contents base @ xs"
    unfolding contents_def [of "_\<lparr>bb_buf := _\<rparr>"] using w assms(4,5) by simp
qed

lemma buffer_append_True:
  assumes "buffer_ok base" and "length xs < 2 ^ 64" and "buffer_append xs base = (True, base')"
  shows "appended base xs base'"
proof -
  from assms(3) obtain off b where add: "cbb_buffer_add base (length xs) = (Some off, b)"
    and base': "base' = b\<lparr>bb_buf := write_at (bb_buf b) off xs\<rparr>"
    by (auto simp: buffer_append_def split: prod.splits option.splits)
  from cbb_buffer_add_Some [OF assms(1,2) add] obtain gap rest
    where b: "off = bb_len base" "bb_buf b = contents base @ gap @ rest" "length gap = length xs"
      "bb_len b = bb_len base + length xs" "buffer_ok b" "bb_error b = bb_error base"
      "same_alloc base b"
    by blast
  from write_new [OF b(5,2,3,4)] assms(1) b base' show ?thesis by (simp add: appended_def)
qed

lemma buffer_append_False: "buffer_append xs base = (False, base') \<Longrightarrow> base' = base\<lparr>bb_error := True\<rparr>"
  by (auto simp: buffer_append_def dest: cbb_buffer_add_fail split: prod.splits option.splits)

lemma cbb_buffer_add_room: "has_room base n \<Longrightarrow> fst (cbb_buffer_add base n) \<noteq> None"
  using cbb_buffer_reserve_room [of base n]
  by (auto simp: cbb_buffer_add_def split: prod.splits bool.splits)

lemma buffer_append_room: "has_room base (length xs) \<Longrightarrow> fst (buffer_append xs base)"
  using cbb_buffer_add_room [of base "length xs"]
  by (auto simp: buffer_append_def split: prod.splits option.splits)

text \<open>Integers: the value is written big-endian, and a value that does not fit is an error.\<close>

lemma cbb_buffer_add_u_cases:
  assumes "buffer_ok base" and "0 < k" and "k \<le> 8" and "cbb_buffer_add_u base v k = (ok, base')"
  shows "if ok then appended base (be_bytes k (unat v)) base' \<and> unat v < 256 ^ k
    else bb_error base' \<and> buffer_ok base' \<and> same_alloc base base' \<and>
      take (bb_len base) (contents base') = contents base \<and> bb_len base \<le> bb_len base'"
proof (cases "cbb_buffer_add base k")
  case (Pair r b)
  show ?thesis
  proof (cases r)
    case None
    with assms Pair cbb_buffer_add_fail [of base k b] show ?thesis
      by (auto simp: cbb_buffer_add_u_def contents_def buffer_ok_def)
  next
    case (Some off)
    with cbb_buffer_add_Some [OF assms(1), of k off b] Pair assms(3) obtain gap rest
      where b: "off = bb_len base" "bb_buf b = contents base @ gap @ rest" "length gap = k"
        "bb_len b = bb_len base + k" "buffer_ok b" "bb_error b = bb_error base" "same_alloc base b"
      by auto
    let ?b = "b\<lparr>bb_buf := write_at (bb_buf b) (bb_len base) (be_bytes k (unat v))\<rparr>"
    have loop: "put_u_loop k off v (bb_buf b) = (bb_buf ?b, drop_bit (8 * k) v)"
      unfolding b(1) using put_u_loop_eq [of "bb_len base" k "bb_buf b" v] b assms(1) by simp
    have new: "buffer_ok ?b" "contents ?b = contents base @ be_bytes k (unat v)"
      using write_new [of b base gap rest "be_bytes k (unat v)"] b assms(1) by simp_all
    have "drop_bit (8 * k) v = 0 \<longleftrightarrow> unat v < 256 ^ k"
      by (simp add: drop_bit_eq_0_iff power_mult)
    moreover have "buffer_ok (?b\<lparr>bb_error := True\<rparr>)" "contents (?b\<lparr>bb_error := True\<rparr>) = contents ?b"
      using new(1) by (simp_all add: buffer_ok_def contents_def)
    ultimately show ?thesis
      using assms(1,2,4) Some Pair loop new b(4,6,7)
      by (auto simp: cbb_buffer_add_u_def appended_def split: if_splits)
  qed
qed

section \<open>Flushing\<close>

text \<open>The code's choice of a length form is the DER length.\<close>

lemma asn1_length_form_der:
  assumes "asn1_length_form n = Some (k, b, m)"
  shows "n \<le> 0xfffffffe" and "der_length n = b # be_bytes (k - 1) m" and "1 \<le> k" and "k \<le> 5"
    and "m div 256 ^ (k - 1) = 0" and "m = (if k = 1 then 0 else n)"
  using assms by (auto simp: asn1_length_form_def der_length_def split: if_splits)

lemma asn1_length_form_None: "asn1_length_form n = None \<longleftrightarrow> n > 0xfffffffe"
  by (simp add: asn1_length_form_def)

text \<open>What a flush of the frames from \<open>start\<close> on may do to the buffer when it fails.\<close>

definition failed_after :: "nat \<Rightarrow> cbb_buffer \<Rightarrow> cbb_buffer \<Rightarrow> bool" where
  "failed_after start base base' \<longleftrightarrow> buffer_ok base' \<and> bb_error base' \<and> same_alloc base base'
     \<and> bb_len base \<le> bb_len base' \<and> take start (contents base') = take start (contents base)"

lemma failed_after_error: "buffer_ok base \<Longrightarrow> failed_after start base (base\<lparr>bb_error := True\<rparr>)"
  by (simp add: failed_after_def buffer_ok_def contents_def)

lemma flush_prefix_cases:
  assumes "buffer_ok base" and "contents base = pre @ gap @ body" and "length pre = off" and "length gap = k"
  shows "flush_prefix base off k n =
    (n div 256 ^ k = 0, base\<lparr>bb_buf := write_at (bb_buf base) off (be_bytes k n), bb_error := bb_error base \<or> n div 256 ^ k \<noteq> 0\<rparr>)"
    and "buffer_ok (base\<lparr>bb_buf := write_at (bb_buf base) off (be_bytes k n)\<rparr>)"
    and "contents (base\<lparr>bb_buf := write_at (bb_buf base) off (be_bytes k n)\<rparr>) = pre @ be_bytes k n @ body"
proof -
  let ?rest = "drop (bb_len base) (bb_buf base)"
  have buf: "bb_buf base = pre @ gap @ body @ ?rest"
    using assms(2) by (metis append_assoc append_take_drop_id contents_def)
  have w: "write_at (bb_buf base) off (be_bytes k n) = pre @ be_bytes k n @ body @ ?rest"
    by (subst buf) (rule write_at_middle, simp_all add: assms(3,4))
  have len: "bb_len base = length pre + length gap + length body"
    using assms(1,2) length_contents [of base] by simp
  have "put_len_loop k off n (bb_buf base) = (write_at (bb_buf base) off (be_bytes k n), n div 256 ^ k)"
    using len assms by (intro put_len_loop_eq) (simp add: buffer_ok_def)
  then show "flush_prefix base off k n =
    (n div 256 ^ k = 0, base\<lparr>bb_buf := write_at (bb_buf base) off (be_bytes k n), bb_error := bb_error base \<or> n div 256 ^ k \<noteq> 0\<rparr>)"
    by (cases base) (simp add: flush_prefix_def Let_def)
  have "length (write_at (bb_buf base) off (be_bytes k n)) = length (bb_buf base)"
    using len assms by (intro length_write_at) (simp add: buffer_ok_def)
  with assms(1) show "buffer_ok (base\<lparr>bb_buf := write_at (bb_buf base) off (be_bytes k n)\<rparr>)"
    by (simp add: buffer_ok_def)
  show "contents (base\<lparr>bb_buf := write_at (bb_buf base) off (be_bytes k n)\<rparr>) = pre @ be_bytes k n @ body"
    using w len assms(4) by (simp add: contents_def)
qed

lemma contents_split:
  assumes "buffer_ok base" and "off + k \<le> bb_len base"
  obtains pre gap body where "contents base = pre @ gap @ body" and "length pre = off" and "length gap = k"
    and "pre = take off (contents base)" and "body = drop (off + k) (contents base)"
    and "length body = bb_len base - (off + k)"
proof -
  let ?s = "contents base"
  have "?s = take off ?s @ take k (drop off ?s) @ drop (off + k) ?s"
    by (metis append_take_drop_id drop_drop add.commute)
  then show ?thesis
    using assms that [of "take off ?s" "take k (drop off ?s)" "drop (off + k) ?s"] by simp
qed

text \<open>A child with a fixed-size length prefix.\<close>

lemma flush_child_prefix:
  assumes "buffer_ok base" and "\<not> fr_pending_is_asn1 f" and "frame_end f \<le> bb_len base"
    and "flush_child base f = (ok, base')"
  shows "if ok
    then buffer_ok base' \<and> same_alloc base base' \<and> bb_error base' = bb_error base \<and>
      close (frame_kind f) (drop (frame_end f) (contents base)) = Some (drop (fr_offset f) (contents base')) \<and>
      take (fr_offset f) (contents base') = take (fr_offset f) (contents base) \<and> bb_len base \<le> bb_len base'
    else failed_after (fr_offset f) base base'
      \<and> close (frame_kind f) (drop (frame_end f) (contents base)) = None"
proof -
  let ?k = "fr_pending_len_len f" and ?off = "fr_offset f"
  obtain pre gap body where s: "contents base = pre @ gap @ body" "length pre = ?off" "length gap = ?k"
    and body: "length body = bb_len base - (?off + ?k)"
    using contents_split [OF assms(1), of ?off ?k] assms(3) unfolding frame_end_def by blast
  have "bb_len base < 2 ^ 64" using assms(1) by (simp add: buffer_ok_def)
  with assms(3) have "size_add ?off ?k = ?off + ?k" by (simp add: frame_end_def size_add_no_wrap)
  with assms(2,4) body have p: "flush_prefix base ?off ?k (length body) = (ok, base')"
    by (simp add: flush_child_def Let_def)
  note q = flush_prefix_cases [OF assms(1) s, of "length body"]
  have kind: "close (frame_kind f) (drop (frame_end f) (contents base)) =
      (if length body < 256 ^ ?k then Some (be_bytes ?k (length body) @ body) else None)"
    using assms(2) s by (simp add: frame_kind_def frame_end_def)
  have small: "length body div 256 ^ ?k = 0 \<longleftrightarrow> length body < 256 ^ ?k" by (simp add: div_eq_0_iff)
  from p q(1) small have ok: "ok \<longleftrightarrow> length body < 256 ^ ?k"
    and base': "base' = base\<lparr>bb_buf := write_at (bb_buf base) ?off (be_bytes ?k (length body)),
      bb_error := bb_error base \<or> \<not> ok\<rparr>"
    by auto
  have c: "contents base' = pre @ be_bytes ?k (length body) @ body" "buffer_ok base'"
    using q(2,3) unfolding base' by (simp_all add: contents_def buffer_ok_def)
  have l: "bb_len base' = bb_len base" "same_alloc base base'" "bb_error base' = (bb_error base \<or> \<not> ok)"
    unfolding base' by simp_all
  show ?thesis unfolding failed_after_def kind using ok c l s by simp
qed

lemma move_within_gap:
  assumes "length gap = k" and "length body = n" and "off = length pre"
  shows "move_within (pre @ body @ gap @ rest) (off + k) off n = pre @ take k (body @ gap) @ body @ rest"
proof -
  have "take k (body @ gap @ rest) = take k (body @ gap)" using assms by simp
  moreover have "drop (k + n) (body @ gap @ rest) = rest" using assms by simp
  ultimately show ?thesis using assms by (simp add: move_within_def write_at_def add.assoc)
qed

text \<open>Writing the header of an ASN.1 child whose contents have been moved past it.\<close>

lemma write_header:
  assumes "buffer_ok base" and "bb_buf base = pre @ [p] @ gap @ body @ rest"
    and "bb_len base = length pre + 1 + length gap + length body" and "length pre = off"
    and "length gap = k" and "m div 256 ^ k = 0"
  shows "\<exists>base'. flush_prefix (base\<lparr>bb_buf := (bb_buf base)[off := b]\<rparr>) (off + 1) k m = (True, base')
    \<and> buffer_ok base' \<and> contents base' = pre @ (b # be_bytes k m) @ body
    \<and> same_alloc base base' \<and> bb_error base' = bb_error base \<and> bb_len base' = bb_len base"
proof -
  let ?base = "base\<lparr>bb_buf := (bb_buf base)[off := b]\<rparr>"
  have "(bb_buf base)[off := b] = pre @ [b] @ gap @ body @ rest"
    unfolding assms(2) using assms(4) by (auto simp: list_update_append)
  then have c: "contents ?base = (pre @ [b]) @ gap @ body" and ok: "buffer_ok ?base"
    using assms by (simp_all add: contents_def buffer_ok_def)
  note q = flush_prefix_cases [OF ok c _ assms(5), of "off + 1" m]
  let ?base' = "?base\<lparr>bb_buf := write_at (bb_buf ?base) (off + 1) (be_bytes k m)\<rparr>"
  have "flush_prefix ?base (off + 1) k m = (True, ?base')"
    using q(1) assms(4,6) by (cases base) simp
  moreover have "contents ?base' = pre @ (b # be_bytes k m) @ body" "buffer_ok ?base'"
    using q(2,3) assms(4) by simp_all
  ultimately show ?thesis by (intro exI [of _ ?base']) simp
qed

text \<open>A pending ASN.1 child: its contents move when the length needs more than one byte.\<close>

lemma flush_child_asn1:
  assumes "buffer_ok base" and "fr_pending_is_asn1 f" and "frame_ok f" and "frame_end f \<le> bb_len base"
    and "flush_child base f = (ok, base')"
  shows "if ok
    then buffer_ok base' \<and> same_alloc base base' \<and> bb_error base' = bb_error base \<and>
      close (frame_kind f) (drop (frame_end f) (contents base)) = Some (drop (fr_offset f) (contents base')) \<and>
      take (fr_offset f) (contents base') = take (fr_offset f) (contents base) \<and> bb_len base \<le> bb_len base'
    else failed_after (fr_offset f) base base'
      \<and> (has_room base 4 \<longrightarrow> close (frame_kind f) (drop (frame_end f) (contents base)) = None)"
proof -
  let ?off = "fr_offset f"
  have pll: "fr_pending_len_len f = 1" using assms(2,3) by (simp add: frame_ok_def)
  obtain pre gap body where s: "contents base = pre @ gap @ body" "length pre = ?off" "length gap = 1"
    and body: "length body = bb_len base - (?off + 1)"
    using contents_split [OF assms(1), of ?off 1] assms(4) pll unfolding frame_end_def by metis
  obtain p where gap: "gap = [p]" using s(3) by (cases gap) auto
  have len: "bb_len base = ?off + 1 + length body" using body assms(4) pll by (simp add: frame_end_def)
  have "bb_len base < 2 ^ 64" using assms(1) by (simp add: buffer_ok_def)
  with len have cs: "size_add ?off 1 = ?off + 1" by (simp add: size_add_no_wrap)
  have kind: "close (frame_kind f) (drop (frame_end f) (contents base)) =
      (if length body \<le> 0xfffffffe then Some (der_length (length body) @ body) else None)"
    using assms(2) s pll by (simp add: frame_kind_def frame_end_def)
  have split: "bb_buf base = pre @ [p] @ body @ drop (bb_len base) (bb_buf base)"
    using s(1) gap by (metis append_assoc append_take_drop_id contents_def)
  show ?thesis
  proof (cases "asn1_length_form (length body)")
    case None
    with assms(2,5) pll cs body have "\<not> ok" "base' = base\<lparr>bb_error := True\<rparr>"
      by (simp_all add: flush_child_def Let_def)
    with None failed_after_error [OF assms(1)] show ?thesis
      unfolding kind by (simp add: asn1_length_form_None)
  next
    case (Some form)
    then obtain k b m where form: "asn1_length_form (length body) = Some (k, b, m)" by (cases form) auto
    note d = asn1_length_form_der [OF form]
    have finish: ?thesis
      if "flush_prefix (base1\<lparr>bb_buf := (bb_buf base1)[?off := b]\<rparr>) (?off + 1) (k - 1) m = (ok, base')"
        and "buffer_ok base1" and "bb_buf base1 = pre @ [p] @ X @ body @ rest" and "length X = k - 1"
        and "bb_len base1 = bb_len base + (k - 1)" and "same_alloc base base1"
        and "bb_error base1 = bb_error base" for base1 X rest
    proof -
      have "bb_len base1 = length pre + 1 + length X + length body" using that len s(2) by simp
      from write_header [OF that(2,3) this s(2) that(4) d(5), of b] that(1)
      have r: "ok" "buffer_ok base'" "contents base' = pre @ (b # be_bytes (k - 1) m) @ body"
        "same_alloc base1 base'" "bb_error base' = bb_error base1" "bb_len base' = bb_len base1"
        by auto
      with that same_alloc_trans [of base base1 base'] show ?thesis
        unfolding kind using d(1,2) s(1,2) by simp
    qed
    show ?thesis
    proof (cases "k = 1")
      case True
      with assms(2,5) pll cs body form
      have "flush_prefix (base\<lparr>bb_buf := (bb_buf base)[?off := b]\<rparr>) (?off + 1) (k - 1) m = (ok, base')"
        by (simp add: flush_child_def Let_def)
      then show ?thesis using split True assms(1) by (intro finish [of base "[]"]) simp_all
    next
      case False
      with d(3,4,6) have k: "k \<noteq> 1" "k - 1 < 2 ^ 64" "m = length body" by simp_all
      show ?thesis
      proof (cases "cbb_buffer_add base (k - 1)")
        case (Pair r b1)
        show ?thesis
        proof (cases r)
          case None
          with assms(2,5) pll cs body form k Pair have "\<not> ok" "base' = b1\<lparr>bb_error := True\<rparr>"
            by (simp_all add: flush_child_def Let_def)
          moreover have "b1 = base\<lparr>bb_error := True\<rparr>" using cbb_buffer_add_fail Pair None by simp
          moreover have "\<not> has_room base 4"
          proof
            assume "has_room base 4"
            then have "has_room base (k - 1)" using d(4) by (auto simp: has_room_def)
            with cbb_buffer_add_room Pair None show False by fastforce
          qed
          ultimately show ?thesis using failed_after_error [OF assms(1)] by simp
        next
          case (Some off)
          from cbb_buffer_add_Some [OF assms(1) k(2)] Pair Some obtain new rest
            where b1: "bb_buf b1 = contents base @ new @ rest" "length new = k - 1"
              "bb_len b1 = bb_len base + (k - 1)" "buffer_ok b1" "bb_error b1 = bb_error base" "same_alloc base b1"
            by blast
          let ?X = "take (k - 1) (body @ new)"
          have mv: "move_within (bb_buf b1) (?off + 1 + (k - 1)) (?off + 1) (length body)
              = pre @ [p] @ ?X @ body @ rest"
            using move_within_gap [of new "k - 1" body "length body" "?off + 1" "pre @ [p]" rest] b1(1,2) s(1,2) gap
            by simp
          let ?b = "b1\<lparr>bb_buf := move_within (bb_buf b1) (?off + 1 + (k - 1)) (?off + 1) (length body)\<rparr>"
          have "flush_prefix (?b\<lparr>bb_buf := (bb_buf ?b)[?off := b]\<rparr>) (?off + 1) (k - 1) m = (ok, base')"
            using assms(2,5) pll cs body form k Pair Some by (simp add: flush_child_def Let_def)
          moreover have "length (move_within (bb_buf b1) (?off + 1 + (k - 1)) (?off + 1) (length body)) = length (bb_buf b1)"
            using b1(3,4) len by (intro length_move_within) (simp_all add: buffer_ok_def)
          then have "buffer_ok ?b" using b1(4) by (simp add: buffer_ok_def)
          ultimately show ?thesis using b1 mv by (intro finish [of ?b ?X rest]) simp_all
        qed
      qed
    qed
  qed
qed

lemma close_length:
  assumes "close (frame_kind f) body = Some e" and "frame_ok f"
  shows "length e \<le> fr_pending_len_len f + length body + 4"
proof (cases "fr_pending_is_asn1 f")
  case True
  with assms have "e = der_length (length body) @ body" "fr_pending_len_len f = 1"
    by (auto simp: frame_kind_def frame_ok_def split: if_splits)
  then show ?thesis using der_length_length(2) [of "length body"] by simp
next
  case False
  with assms show ?thesis by (auto simp: frame_kind_def split: if_splits)
qed

lemma flush_child_cases:
  assumes "buffer_ok base" and "frame_ok f" and "frame_end f \<le> bb_len base"
    and "flush_child base f = (ok, base')"
  shows "if ok
    then buffer_ok base' \<and> same_alloc base base' \<and> bb_error base' = bb_error base \<and>
      close (frame_kind f) (drop (frame_end f) (contents base)) = Some (drop (fr_offset f) (contents base')) \<and>
      take (fr_offset f) (contents base') = take (fr_offset f) (contents base) \<and>
      bb_len base \<le> bb_len base' \<and> bb_len base' \<le> bb_len base + 4
    else failed_after (fr_offset f) base base'
      \<and> (has_room base 4 \<longrightarrow> close (frame_kind f) (drop (frame_end f) (contents base)) = None)"
proof -
  let ?e = "drop (fr_offset f) (contents base')"
  have bound: "bb_len base' \<le> bb_len base + 4"
    if ok': "buffer_ok base'" and c: "close (frame_kind f) (drop (frame_end f) (contents base)) = Some ?e"
  proof -
    have "length ?e \<le> fr_pending_len_len f + (bb_len base - frame_end f) + 4"
      using close_length [OF c assms(2)] assms(1) by simp
    then show ?thesis using ok' assms(3) by (simp add: frame_end_def)
  qed
  show ?thesis
    using flush_child_asn1 [OF assms(1) _ assms(2-4)] flush_child_prefix [OF assms(1) _ assms(3,4)] bound
    by (cases "fr_pending_is_asn1 f"; cases ok) simp_all
qed

lemma take_le_eq: "take n xs = take n ys \<Longrightarrow> m \<le> n \<Longrightarrow> take m xs = take m ys"
  by (metis min.absorb1 take_take)

text \<open>The whole chain: a flush collapses it, a failure leaves an error in a well-formed state.\<close>

lemma flush_chain_cases:
  "buffer_ok base \<Longrightarrow> frames_ok start fs (bb_len base) \<Longrightarrow> flush_chain base fs = (ok, base', fs') \<Longrightarrow>
   buffer_ok base' \<and> same_alloc base base' \<and> frames_ok start fs' (bb_len base') \<and>
   take start (contents base') = take start (contents base) \<and> bb_len base \<le> bb_len base' \<and>
   (if ok then fs' = [] \<and> \<not> bb_error base \<and> \<not> bb_error base' \<and> bb_len base' \<le> bb_len base + 4 * length fs \<and>
      collapse (segment (contents base) start fs) (segments (contents base) fs) = Some (drop start (contents base'))
    else bb_error base' \<and> (bb_error base \<or> \<not> has_room base (4 * length fs) \<or>
      collapse (segment (contents base) start fs) (segments (contents base) fs) = None))"
proof (induction fs arbitrary: start ok base' fs')
  case Nil
  then show ?case by auto
next
  case (Cons f fs)
  let ?off = "fr_offset f" and ?s = "contents base"
  from Cons.prems(2) have f: "start \<le> ?off" "frame_ok f" "frames_ok (frame_end f) fs (bb_len base)" by simp_all
  from f(2) have pll: "fr_pending_len_len f \<noteq> 0" by (simp add: frame_ok_def)
  have off: "?off \<le> frame_end f" by (simp add: frame_end_def)
  have fend: "frame_end f \<le> bb_len base" using frames_ok_le f(3) by blast
  have cs: "size_add ?off (fr_pending_len_len f) = frame_end f"
    using fend Cons.prems(1) by (simp add: frame_end_def buffer_ok_def size_add_no_wrap)
  show ?case
  proof (cases "bb_error base")
    case True
    with Cons.prems(3) have "\<not> ok" "base' = base" "fs' = f # fs" by simp_all
    with True Cons.prems(1,2) show ?thesis by simp
  next
    case False
    obtain ok1 base1 fs1 where inner: "flush_chain base fs = (ok1, base1, fs1)" by (cases "flush_chain base fs")
    note ih = Cons.IH [OF Cons.prems(1) f(3) inner]
    have t1: "take (frame_end f) (contents base1) = take (frame_end f) ?s" using ih by blast
    have fits: "\<not> (frame_end f < ?off \<or> bb_len base1 < frame_end f)" using ih off fend by linarith
    show ?thesis
    proof (cases ok1)
      case False': False
      with Cons.prems(3) \<open>\<not> bb_error base\<close> pll inner cs
      have r: "\<not> ok" "base' = base1\<lparr>bb_error := True\<rparr>" "fs' = f # fs1" by (simp_all add: Let_def)
      have "contents base' = contents base1" "bb_len base' = bb_len base1" "buffer_ok base'" "same_alloc base base'"
        using ih by (simp_all add: r contents_def buffer_ok_def)
      moreover have "has_room base (4 * length (f # fs)) \<Longrightarrow> has_room base (4 * length fs)"
        by (auto simp: has_room_def)
      moreover have "take start (contents base1) = take start ?s"
        using take_le_eq [OF t1] f(1) off by simp
      ultimately show ?thesis using ih f False' \<open>\<not> bb_error base\<close> by (auto simp: r)
    next
      case True
      with ih have fs1: "fs1 = []" and e1: "\<not> bb_error base1" and len1: "bb_len base1 \<le> bb_len base + 4 * length fs"
        and ok1: "buffer_ok base1" "same_alloc base base1" "bb_len base \<le> bb_len base1"
        and body: "collapse (segment ?s (frame_end f) fs) (segments ?s fs) = Some (drop (frame_end f) (contents base1))"
        by simp_all
      obtain ok2 base2 where child: "flush_child base1 f = (ok2, base2)" by (cases "flush_child base1 f")
      have fe1: "frame_end f \<le> bb_len base1" using fits by simp
      note fc = flush_child_cases [OF ok1(1) f(2) fe1 child]
      have t2: "take start (contents base1) = take start ?s" "take ?off (contents base1) = take ?off ?s"
        using take_le_eq [OF t1] f(1) off by simp_all
      show ?thesis
      proof (cases ok2)
        case False
        with Cons.prems(3) \<open>\<not> bb_error base\<close> pll inner cs True child fits
        have r: "\<not> ok" "base' = base2" "fs' = [f]" using fs1 by (simp_all add: Let_def)
        have "has_room base (4 * length (f # fs)) \<Longrightarrow> has_room base1 4"
          using len1 ok1 by (auto simp: has_room_def same_alloc_def)
        then show ?thesis
          using fc False f(1,2) fe1 ok1(2,3) body t2 take_le_eq [of ?off "contents base2" "contents base1" start]
            same_alloc_trans [of base base1 base2]
          by (auto simp: r failed_after_def)
      next
        case ok2: True
        with Cons.prems(3) \<open>\<not> bb_error base\<close> pll inner cs True child fits
        have r: "ok" "base' = base2" "fs' = []" by (simp_all add: Let_def)
        from fc ok2 have c: "close (frame_kind f) (drop (frame_end f) (contents base1)) = Some (drop ?off (contents base2))"
          and t3: "take ?off (contents base2) = take ?off (contents base1)"
          and l: "bb_len base1 \<le> bb_len base2" "bb_len base2 \<le> bb_len base1 + 4" "buffer_ok base2"
            "bb_error base2 = bb_error base1" "same_alloc base1 base2"
          by simp_all
        have "drop start (contents base2) = drop start (take ?off (contents base2) @ drop ?off (contents base2))"
          by simp
        also have "\<dots> = drop start (take ?off ?s) @ drop ?off (contents base2)"
          using t3 t2(2) f(1) fend off Cons.prems(1) by (subst drop_append) simp
        finally have "collapse (segment ?s start (f # fs)) (segments ?s (f # fs)) = Some (drop start (contents base2))"
          using body c by simp
        moreover have "take start (contents base2) = take start ?s"
          using take_le_eq [OF t3 f(1)] t2(1) by simp
        ultimately show ?thesis
          using l len1 ok1 e1 \<open>\<not> bb_error base\<close> same_alloc_trans [of base base1 base2] f(1) fe1 off by (simp add: r)
      qed
    qed
  qed
qed

end
