(* ===== verification/Cbb_Ops.thy ===== *)
theory Cbb_Ops
  imports Cbb_Refine
begin

text \<open>
  The operations on a \<^verbatim>\<open>CBB\<close> against the abstract builder of theory \<open>Cbb_Refine\<close>: a flush
  closes the children, an add function closes them and appends its bytes, and both succeed
  when the buffer has room. The contract of an add function is the locale \<open>appender\<close>; its
  interpretations are the functions of \<^verbatim>\<open>cbb.c\<close>.
\<close>

section \<open>The abstract state of a chain of objects\<close>

type_synonym builder = "bytes \<times> (pending \<times> bytes) list"

definition cbb_abs :: "cbb \<Rightarrow> builder" where
  "cbb_abs c =
     (case cbb_base c of
        None \<Rightarrow> ([], [])
      | Some base \<Rightarrow> (segment (contents base) 0 (cbb_chain c), segments (contents base) (cbb_chain c)))"

text \<open>Closing the children below the object at depth \<open>d\<close>; appending to the last object.\<close>

fun collapse_at :: "nat \<Rightarrow> builder \<Rightarrow> builder option" where
  "collapse_at 0 (t, ch) = map_option (\<lambda>t'. (t', [])) (collapse t ch)"
| "collapse_at (Suc d) (t, []) = None"
| "collapse_at (Suc d) (t, (k, b) # ch) =
     map_option (\<lambda>(b', ch'). (t, (k, b') # ch')) (collapse_at d (b, ch))"

fun append_last :: "bytes \<Rightarrow> builder \<Rightarrow> builder" where
  "append_last xs (t, []) = (t @ xs, [])"
| "append_last xs (t, (k, b) # ch) = (case append_last xs (b, ch) of (b', ch') \<Rightarrow> (t, (k, b') # ch'))"

fun push_last :: "pending \<Rightarrow> builder \<Rightarrow> builder" where
  "push_last k (t, ch) = (t, ch @ [(k, [])])"

lemma append_last_append: "append_last ys (append_last xs a) = append_last (xs @ ys) a"
  by (induction xs a rule: append_last.induct) (auto split: prod.splits)

lemma append_last_Nil [simp]: "append_last [] a = a"
  by (induction "[] :: bytes" a rule: append_last.induct) auto

lemma length_append_last [simp]: "length (snd (append_last xs a)) = length (snd a)"
  by (induction xs a rule: append_last.induct) (auto split: prod.splits)

lemma collapse_at_last: "length (snd a) = d \<Longrightarrow> collapse_at d a = Some a"
  by (induction d a rule: collapse_at.induct) auto

lemma collapse_at_length: "collapse_at d a = Some a' \<Longrightarrow> length (snd a') = d \<and> d \<le> length (snd a)"
  by (induction d a arbitrary: a' rule: collapse_at.induct) (fastforce split: prod.splits)+

text \<open>Closing a child that was just pushed and filled puts its length in front of its contents.\<close>

lemma collapse_at_child:
  "close k body = Some e \<Longrightarrow>
   collapse_at (length (snd a)) (append_last body (push_last k a)) = Some (append_last e a)"
proof (induction body a rule: append_last.induct)
  case (1 xs t)
  then show ?case by simp
next
  case (2 xs t k' b ch)
  then show ?case by (auto split: prod.splits)
qed

lemma segment_append: "frames_ok start fs (length s) \<Longrightarrow>
  (segment (s @ xs) start fs, segments (s @ xs) fs) = append_last xs (segment s start fs, segments s fs)"
proof (induction fs arbitrary: start)
  case Nil
  then show ?case by simp
next
  case (Cons f fs)
  from Cons.prems have ok: "frames_ok (frame_end f) fs (length s)" by simp
  then have "frame_end f \<le> length s" by (rule frames_ok_le)
  then have "segment (s @ xs) start (f # fs) = segment s start (f # fs)" by (simp add: frame_end_def)
  then show ?case using Cons.IH [OF ok, symmetric] by (simp del: segment.simps)
qed

lemma segment_push:
  "frames_ok start fs (length s) \<Longrightarrow> fr_offset f = length s \<Longrightarrow> fr_pending_len_len f = length gap \<Longrightarrow>
   (segment (s @ gap) start (fs @ [f]), segments (s @ gap) (fs @ [f]))
     = push_last (frame_kind f) (segment s start fs, segments s fs)"
proof (induction fs arbitrary: start)
  case Nil
  then show ?case by (simp add: frame_end_def)
next
  case (Cons g fs)
  from Cons.prems have ok: "frames_ok (frame_end g) fs (length s)" by simp
  then have "frame_end g \<le> length s" by (rule frames_ok_le)
  then have "segment (s @ gap) start (g # fs @ [f]) = segment s start (g # fs)" by (simp add: frame_end_def)
  then show ?case using Cons.IH [OF ok] Cons.prems by (simp del: segment.simps)
qed

lemma frames_ok_push:
  "frames_ok start fs n \<Longrightarrow> fr_offset f = n \<Longrightarrow> frame_ok f \<Longrightarrow> frame_end f \<le> m \<Longrightarrow> frames_ok start (fs @ [f]) m"
  by (induction start fs n rule: frames_ok.induct) auto

section \<open>Flushing part of a chain\<close>

text \<open>Where the object at depth \<open>d\<close> starts, in a chain whose first object starts at \<open>start\<close>.\<close>

definition start_at :: "nat \<Rightarrow> cbb_frame list \<Rightarrow> nat \<Rightarrow> nat" where
  "start_at start fs d = (if d = 0 then start else frame_end (fs ! (d - 1)))"

lemma start_at_Cons: "start_at start (f # fs) (Suc d) = start_at (frame_end f) fs d"
  by (cases d) (simp_all add: start_at_def)

lemma frame_start_at: "frame_start c d = start_at 0 (cbb_chain c) d"
  by (simp add: frame_start_def start_at_def frame_end_def Let_def)

lemma frames_ok_drop:
  "frames_ok start fs n \<Longrightarrow> d \<le> length fs \<Longrightarrow> start \<le> start_at start fs d \<and> frames_ok (start_at start fs d) (drop d fs) n"
proof (induction d arbitrary: start fs)
  case 0
  then show ?case by (simp add: start_at_def)
next
  case (Suc d)
  then obtain f fs' where fs: "fs = f # fs'" by (cases fs) auto
  with Suc.prems Suc.IH [of "frame_end f" fs'] show ?case
    by (auto simp: start_at_Cons frame_end_def)
qed

lemma frames_ok_replace:
  "frames_ok start fs n \<Longrightarrow> d \<le> length fs \<Longrightarrow> frames_ok (start_at start fs d) gs m \<Longrightarrow>
   frames_ok start (take d fs @ gs) m"
proof (induction d arbitrary: start fs)
  case 0
  then show ?case by (simp add: start_at_def)
next
  case (Suc d)
  then obtain f fs' where fs: "fs = f # fs'" by (cases fs) auto
  with Suc.prems Suc.IH [of "frame_end f" fs'] show ?case by (simp add: start_at_Cons)
qed

lemma collapse_at_None_chain:
  "d \<le> length fs \<Longrightarrow>
   collapse_at d (segment s start fs, segments s fs) = None \<longleftrightarrow>
   collapse (segment s (start_at start fs d) (drop d fs)) (segments s (drop d fs)) = None"
proof (induction d arbitrary: start fs)
  case 0
  then show ?case by (simp add: start_at_def)
next
  case (Suc d)
  then obtain f fs' where fs: "fs = f # fs'" by (cases fs) auto
  with Suc show ?case by (simp add: start_at_Cons)
qed

lemma collapse_at_chain:
  "frames_ok start fs n \<Longrightarrow> d \<le> length fs \<Longrightarrow>
   take (start_at start fs d) s' = take (start_at start fs d) s \<Longrightarrow>
   collapse (segment s (start_at start fs d) (drop d fs)) (segments s (drop d fs))
     = Some (drop (start_at start fs d) s') \<Longrightarrow>
   collapse_at d (segment s start fs, segments s fs)
     = Some (segment s' start (take d fs), segments s' (take d fs))"
proof (induction d arbitrary: start fs)
  case 0
  then show ?case by (simp add: start_at_def)
next
  case (Suc d)
  then obtain f fs' where fs: "fs = f # fs'" by (cases fs) auto
  with Suc.prems have ok: "frames_ok (frame_end f) fs' n" "d \<le> length fs'" by simp_all
  have t: "take (start_at (frame_end f) fs' d) s' = take (start_at (frame_end f) fs' d) s"
    using Suc.prems(3) by (simp add: fs start_at_Cons)
  have "fr_offset f \<le> start_at (frame_end f) fs' d"
    using frames_ok_drop [OF ok] by (simp add: frame_end_def)
  with t have "take (fr_offset f) s' = take (fr_offset f) s" by (rule take_le_eq)
  moreover have "collapse_at d (segment s (frame_end f) fs', segments s fs') =
      Some (segment s' (frame_end f) (take d fs'), segments s' (take d fs'))"
    using Suc.IH [OF ok t] Suc.prems(4) by (simp add: fs start_at_Cons)
  ultimately show ?case by (simp add: fs)
qed

section \<open>Flushing an object\<close>

text \<open>
  An operation on the object at depth \<open>d\<close> has room for \<open>n\<close> bytes: there is no error, the
  object is in the chain, the children below it can be closed, and the buffer has room for
  what closing them may insert (at most four bytes each) and for \<open>n\<close> bytes more.
\<close>

definition room :: "nat \<Rightarrow> nat \<Rightarrow> cbb \<Rightarrow> bool" where
  "room d n c \<longleftrightarrow>
     (\<exists>base. cbb_base c = Some base \<and> \<not> bb_error base \<and> d \<le> length (cbb_chain c) \<and>
        has_room base (4 * (length (cbb_chain c) - d) + n) \<and> collapse_at d (cbb_abs c) \<noteq> None)"

lemma room_mono: "room d n c \<Longrightarrow> m \<le> n \<Longrightarrow> room d m c"
  by (auto simp: room_def has_room_def)

text \<open>An object whose operations have not failed.\<close>

definition healthy :: "cbb \<Rightarrow> bool" where
  "healthy c \<longleftrightarrow> (\<exists>base. cbb_base c = Some base \<and> \<not> bb_error base)"

lemma cbb_abs_Some:
  "cbb_base c = Some base \<Longrightarrow>
   cbb_abs c = (segment (contents base) 0 (cbb_chain c), segments (contents base) (cbb_chain c))"
  by (simp add: cbb_abs_def)

lemma length_segments [simp]: "length (segments s fs) = length fs"
  by (induction fs) auto

lemma CBB_flush_cases:
  assumes "cbb_ok c" and "CBB_flush d c = (ok, c')"
  shows "cbb_ok c' \<and>
    (if ok then collapse_at d (cbb_abs c) = Some (cbb_abs c') \<and> length (cbb_chain c') = d \<and>
       healthy c' \<and> (\<forall>n. room d n c \<longrightarrow> room d n c')
     else \<forall>n. \<not> room d n c)"
proof (cases "cbb_base c")
  case None
  with assms show ?thesis by (auto simp: CBB_flush_def room_def)
next
  case (Some base)
  show ?thesis
  proof (cases "d \<le> length (cbb_chain c)")
    case False
    with assms Some show ?thesis by (auto simp: CBB_flush_def room_def)
  next
    case d: True
    let ?fs = "cbb_chain c" and ?start = "start_at 0 (cbb_chain c) d"
    have ok: "buffer_ok base" "frames_ok 0 ?fs (bb_len base)" using assms(1) Some by (simp_all add: cbb_ok_def)
    obtain r base' gs where fl: "flush_chain base (drop d ?fs) = (r, base', gs)"
      by (cases "flush_chain base (drop d ?fs)")
    with assms(2) Some d have c': "ok = r" "c' = c\<lparr>cbb_base := Some base', cbb_chain := take d ?fs @ gs\<rparr>"
      by (simp_all add: CBB_flush_def)
    note fc = flush_chain_cases [OF ok(1) conjunct2 [OF frames_ok_drop [OF ok(2) d]] fl]
    have "cbb_ok c'"
      using fc frames_ok_replace [OF ok(2) d] by (simp add: c' cbb_ok_def)
    moreover have "collapse_at d (cbb_abs c) = Some (cbb_abs c')"
      and "length (cbb_chain c') = d" and "\<not> bb_error base'" if "ok"
      using that fc d collapse_at_chain [OF ok(2) d] by (simp_all add: c' cbb_abs_def Some)
    moreover have "\<not> room d n c" if "\<not> ok" for n
      using that fc d collapse_at_None_chain [OF d, of "contents base" 0]
      by (auto simp: c' Some room_def cbb_abs_def has_room_def)
    moreover have "room d n c'" if "ok" and "room d n c" for n
    proof -
      have "has_room base' n"
        using that fc d by (auto simp: c' Some room_def has_room_def same_alloc_def)
      then show ?thesis
        using that(1) calculation(2-4) c' d collapse_at_last [of "cbb_abs c'" d]
        by (simp add: room_def cbb_abs_def)
    qed
    ultimately show ?thesis by (auto simp: c' healthy_def)
  qed
qed

text \<open>A flush of the last object does nothing.\<close>

lemma CBB_flush_idle:
  "healthy c \<Longrightarrow> length (cbb_chain c) = d \<Longrightarrow> CBB_flush d c = (True, c)"
  by (cases c) (auto simp: healthy_def CBB_flush_def)

section \<open>The contract of an add function\<close>

locale appender =
  fixes d :: nat and need :: nat and xs :: bytes and op :: "cbb \<Rightarrow> bool \<times> cbb"
  assumes keeps_ok: "cbb_ok c \<Longrightarrow> op c = (ok, c') \<Longrightarrow> cbb_ok c'"
    and effect: "cbb_ok c \<Longrightarrow> op c = (True, c') \<Longrightarrow>
      (\<exists>a. collapse_at d (cbb_abs c) = Some a \<and> cbb_abs c' = append_last xs a)
      \<and> length (cbb_chain c') = d \<and> healthy c'"
    and progress: "cbb_ok c \<Longrightarrow> room d need c \<Longrightarrow> fst (op c)"
    and keeps_room: "cbb_ok c \<Longrightarrow> op c = (True, c') \<Longrightarrow> room d (need + n) c \<Longrightarrow> room d n c'"
begin

lemma succeeds:
  assumes "cbb_ok c" and "room d (need + n) c"
  obtains c' where "op c = (True, c')" and "cbb_ok c'" and "room d n c'"
    and "map_option (append_last xs) (collapse_at d (cbb_abs c)) = Some (cbb_abs c')"
    and "length (cbb_chain c') = d"
proof -
  from progress [OF assms(1) room_mono [OF assms(2)]] obtain c' where c': "op c = (True, c')"
    by (cases "op c") auto
  with assms keeps_ok [OF assms(1) c'] effect [OF assms(1) c'] keeps_room [OF assms(1) c'] that [of c']
  show ?thesis by auto
qed

end

lemmas appenderI = appender.intro

text \<open>One after the other, as the code's \<^verbatim>\<open>||\<close> chains and loops do it.\<close>

definition and_then :: "(cbb \<Rightarrow> bool \<times> cbb) \<Rightarrow> (cbb \<Rightarrow> bool \<times> cbb) \<Rightarrow> cbb \<Rightarrow> bool \<times> cbb" where
  "and_then op1 op2 c = (case op1 c of (False, c') \<Rightarrow> (False, c') | (True, c') \<Rightarrow> op2 c')"

lemma and_then_True: "and_then op1 op2 c = (True, c'') \<longleftrightarrow> (\<exists>c'. op1 c = (True, c') \<and> op2 c' = (True, c''))"
  by (auto simp: and_then_def split: prod.splits bool.splits)

lemma and_then_cases:
  assumes "and_then op1 op2 c = (ok, c'')"
  obtains "op1 c = (False, c'')" and "\<not> ok" | c' where "op1 c = (True, c')" and "op2 c' = (ok, c'')"
  using assms by (auto simp: and_then_def split: prod.splits bool.splits)

lemma appender_and_then:
  assumes a: "appender d m xs op1" and b: "appender d n ys op2"
  shows "appender d (m + n) (xs @ ys) (and_then op1 op2)"
proof
  fix c ok c'' k
  assume c: "cbb_ok c"
  {
    assume "and_then op1 op2 c = (ok, c'')"
    then show "cbb_ok c''"
      by (rule and_then_cases) (use appender.keeps_ok [OF a c] appender.keeps_ok [OF b] in blast)+
  }
  {
    assume "and_then op1 op2 c = (True, c'')"
    then obtain c' where 1: "op1 c = (True, c')" and 2: "op2 c' = (True, c'')"
      by (auto simp: and_then_True)
    have ok: "cbb_ok c'" by (rule appender.keeps_ok [OF a c 1])
    note e1 = appender.effect [OF a c 1] and e2 = appender.effect [OF b ok 2]
    from e1 obtain x where x: "collapse_at d (cbb_abs c) = Some x" "cbb_abs c' = append_last xs x" by blast
    then have "collapse_at d (cbb_abs c') = Some (append_last xs x)"
      using collapse_at_length [OF x(1)] by (simp add: collapse_at_last)
    with e2 have "cbb_abs c'' = append_last ys (append_last xs x)" by auto
    with x(1) e2 show "(\<exists>a. collapse_at d (cbb_abs c) = Some a \<and> cbb_abs c'' = append_last (xs @ ys) a)
        \<and> length (cbb_chain c'') = d \<and> healthy c''"
      by (simp add: append_last_append)
    assume "room d (m + n + k) c"
    then have "room d (n + k) c'" using appender.keeps_room [OF a c 1, of "n + k"] by (simp add: add.assoc)
    then show "room d k c''" by (rule appender.keeps_room [OF b ok 2])
  }
  {
    assume r: "room d (m + n) c"
    from appender.succeeds [OF a c r] obtain c' where "op1 c = (True, c')" "cbb_ok c'" "room d n c'"
      by blast
    with appender.progress [OF b] show "fst (and_then op1 op2 c)" by (simp add: and_then_def)
  }
qed

text \<open>Asking for more room than needed.\<close>

lemma appender_weaken:
  assumes "appender d m xs op" and "m \<le> n"
  shows "appender d n xs op"
proof
  fix c ok c' k
  assume c: "cbb_ok c"
  show "cbb_ok c'" if "op c = (ok, c')" using appender.keeps_ok [OF assms(1) c that] .
  show "(\<exists>a. collapse_at d (cbb_abs c) = Some a \<and> cbb_abs c' = append_last xs a) \<and> length (cbb_chain c') = d \<and> healthy c'"
    if "op c = (True, c')" using appender.effect [OF assms(1) c that] .
  show "fst (op c)" if "room d n c"
    using appender.progress [OF assms(1) c room_mono [OF that assms(2)]] .
  show "room d k c'" if "op c = (True, c')" and "room d (n + k) c"
    using appender.keeps_room [OF assms(1) c that(1) room_mono [OF that(2)]] assms(2) by simp
qed

text \<open>What an add function needs of its work on the buffer, once its object has been flushed.\<close>

definition buffer_appends :: "bytes \<Rightarrow> (cbb_buffer \<Rightarrow> bool \<times> cbb_buffer) \<Rightarrow> bool" where
  "buffer_appends xs g \<longleftrightarrow>
     (\<forall>base ok base'. buffer_ok base \<longrightarrow> g base = (ok, base') \<longrightarrow>
        (if ok then appended base xs base'
         else buffer_ok base' \<and> bb_len base \<le> bb_len base' \<and> \<not> has_room base (length xs)))"

lemma frames_ok_base:
  "cbb_ok c \<Longrightarrow> cbb_base c = Some base \<Longrightarrow> buffer_ok base' \<Longrightarrow> bb_len base \<le> bb_len base' \<Longrightarrow>
   cbb_ok (c\<lparr>cbb_base := Some base'\<rparr>)"
  by (auto simp: cbb_ok_def intro: frames_ok_mono)

lemma appended_abs:
  assumes "cbb_ok c" and "cbb_base c = Some base" and "appended base xs base'"
  shows "cbb_abs (c\<lparr>cbb_base := Some base'\<rparr>) = append_last xs (cbb_abs c)"
proof -
  have "frames_ok 0 (cbb_chain c) (length (contents base))"
    using assms(1,2) by (simp add: cbb_ok_def)
  from segment_append [OF this, of xs] assms(2,3) show ?thesis
    by (simp add: cbb_abs_def appended_def)
qed

lemma after_flush_cases:
  assumes "after_flush d g c = (ok, c'')"
  obtains "CBB_flush d c = (False, c'')" and "\<not> ok"
  | c' where "CBB_flush d c = (True, c')" and "cbb_base c' = None" and "\<not> ok" and "c'' = c'"
  | c' base base' where "CBB_flush d c = (True, c')" and "cbb_base c' = Some base" and "g base = (ok, base')"
      and "c'' = c'\<lparr>cbb_base := Some base'\<rparr>"
  using assms by (auto simp: after_flush_def split: prod.splits bool.splits option.splits)

lemma appender_after_flush:
  assumes "buffer_appends xs g"
  shows "appender d (length xs) xs (after_flush d g)"
proof
  fix c ok c'' n
  assume c: "cbb_ok c"
  have g: "if r then appended base xs base' else buffer_ok base' \<and> bb_len base \<le> bb_len base' \<and> \<not> has_room base (length xs)"
    if "buffer_ok base" and "g base = (r, base')" for base r base'
    using assms that unfolding buffer_appends_def by blast
  {
    assume "after_flush d g c = (ok, c'')"
    then show "cbb_ok c''"
    proof (cases rule: after_flush_cases)
      case (3 c' base base')
      have ok: "cbb_ok c'" using CBB_flush_cases [OF c 3(1)] by simp
      then have base: "buffer_ok base" using 3(2) by (simp add: cbb_ok_def)
      have "buffer_ok base' \<and> bb_len base \<le> bb_len base'"
        using g [OF base 3(3)] appended_len [OF base] by (cases ok) (auto simp: appended_def)
      then show ?thesis using frames_ok_base [OF ok 3(2)] 3(4) by simp
    qed (use CBB_flush_cases [OF c] in auto)
  }
  {
    assume "after_flush d g c = (True, c'')"
    then obtain c' base base' where r: "CBB_flush d c = (True, c')" "cbb_base c' = Some base"
      "g base = (True, base')" "c'' = c'\<lparr>cbb_base := Some base'\<rparr>"
      by (cases rule: after_flush_cases) auto
    note fl = CBB_flush_cases [OF c r(1)]
    then have ok: "cbb_ok c'" by simp
    then have base: "buffer_ok base" using r(2) by (simp add: cbb_ok_def)
    have app: "appended base xs base'" using g [OF base r(3)] by simp
    have abs: "cbb_abs c'' = append_last xs (cbb_abs c')"
      unfolding r(4) by (rule appended_abs [OF ok r(2) app])
    with fl r(4) show eff: "(\<exists>a. collapse_at d (cbb_abs c) = Some a \<and> cbb_abs c'' = append_last xs a)
        \<and> length (cbb_chain c'') = d \<and> healthy c''"
      using app r(2) by (auto simp: healthy_def appended_def)
    assume "room d (length xs + n) c"
    with fl have "room d (length xs + n) c'" by simp
    then have "has_room base (length xs + n)" "\<not> bb_error base"
      using r(2) fl by (auto simp: room_def)
    with appended_room [OF base app, of n] app have "has_room base' n" "\<not> bb_error base'"
      by (simp_all add: appended_def)
    moreover have "length (snd (cbb_abs c'')) = d" using eff r(4) by (simp add: cbb_abs_def)
    then have "collapse_at d (cbb_abs c'') \<noteq> None" by (simp add: collapse_at_last)
    ultimately show "room d n c''" using eff r(4) by (simp add: room_def)
  }
  {
    assume rm: "room d (length xs) c"
    obtain r c' where fl: "CBB_flush d c = (r, c')" by (cases "CBB_flush d c")
    note fc = CBB_flush_cases [OF c fl]
    with rm have r: "r" by (auto split: if_splits)
    with fc rm obtain base where c': "cbb_base c' = Some base" "cbb_ok c'" "room d (length xs) c'" "length (cbb_chain c') = d"
      by (auto simp: healthy_def)
    then have "has_room base (length xs)" "buffer_ok base" by (auto simp: room_def cbb_ok_def)
    with g [of base "fst (g base)" "snd (g base)"] have "fst (g base)" by (auto split: if_splits)
    with fl r c'(1) show "fst (after_flush d g c)" by (cases "g base") (simp add: after_flush_def)
  }
qed

section \<open>The add functions meet the contract\<close>

lemma buffer_appends_append:
  assumes "length xs < 2 ^ 64"
  shows "buffer_appends xs (buffer_append xs)"
  unfolding buffer_appends_def
proof (intro allI impI)
  fix base ok base'
  assume b: "buffer_ok base" and r: "buffer_append xs base = (ok, base')"
  show "if ok then appended base xs base' else buffer_ok base' \<and> bb_len base \<le> bb_len base' \<and> \<not> has_room base (length xs)"
  proof (cases ok)
    case True
    with buffer_append_True [OF b assms] r show ?thesis by simp
  next
    case False
    with buffer_append_False r have "base' = base\<lparr>bb_error := True\<rparr>" by simp
    moreover have "\<not> has_room base (length xs)" using buffer_append_room [of base xs] r False by auto
    ultimately show ?thesis using b False by (simp add: buffer_ok_def)
  qed
qed

lemma cbb_buffer_add_u_room:
  assumes "has_room base k" and "buffer_ok base" and "0 < k" and "k \<le> 8" and "unat v < 256 ^ k"
  shows "fst (cbb_buffer_add_u base v k)"
proof (cases "cbb_buffer_add base k")
  case (Pair r b)
  with cbb_buffer_add_room [OF assms(1)] obtain off where r: "cbb_buffer_add base k = (Some off, b)" by (cases r) auto
  have "k < 2 ^ 64" using assms(4) by simp
  from cbb_buffer_add_Some [OF assms(2) this r] obtain gap rest
    where "off = bb_len base" "length gap = k" "bb_buf b = contents base @ gap @ rest" by blast
  then have "off + k \<le> length (bb_buf b)" using assms(2) by simp
  with assms(3,5) r show ?thesis
    by (simp add: cbb_buffer_add_u_def put_u_loop_eq drop_bit_eq_0_iff power_mult)
qed

lemma buffer_appends_u:
  assumes "0 < k" and "k \<le> 8" and "unat v < 256 ^ k"
  shows "buffer_appends (be_bytes k (unat v)) (\<lambda>base. cbb_buffer_add_u base v k)"
  unfolding buffer_appends_def
proof (intro allI impI)
  fix base ok base'
  assume b: "buffer_ok base" and r: "cbb_buffer_add_u base v k = (ok, base')"
  from cbb_buffer_add_u_cases [OF b assms(1,2) r] cbb_buffer_add_u_room [OF _ b assms] r
  show "if ok then appended base (be_bytes k (unat v)) base'
    else buffer_ok base' \<and> bb_len base \<le> bb_len base' \<and> \<not> has_room base (length (be_bytes k (unat v)))"
    by (cases ok) auto
qed

lemma appender_u:
  "0 < k \<Longrightarrow> k \<le> 8 \<Longrightarrow> unat v < 256 ^ k \<Longrightarrow>
   appender d k (be_bytes k (unat v)) (after_flush d (\<lambda>base. cbb_buffer_add_u base v k))"
  using appender_after_flush [OF buffer_appends_u] by simp

lemma appender_add_bytes:
  "length xs < 2 ^ 64 \<Longrightarrow> appender d (length xs) xs (CBB_add_bytes d xs)"
  unfolding CBB_add_bytes_def by (intro appender_after_flush buffer_appends_append)

interpretation add_u8: appender d 1 "[v]" "CBB_add_u8 d v" for d v
  using appender_u [of 1 "ucast v"] unat_word_bytes [where k = 1 and v = v]
  by (simp add: CBB_add_u8_def unat_ucast_up)

interpretation add_u16: appender d 2 "be_bytes 2 (unat v)" "CBB_add_u16 d v" for d v
  using appender_u [of 2 "ucast v"] unat_word_bytes [where k = 2 and v = v]
  by (simp add: CBB_add_u16_def unat_ucast_up del: be_bytes.simps)

interpretation add_u32: appender d 4 "be_bytes 4 (unat v)" "CBB_add_u32 d v" for d v
  using appender_u [of 4 "ucast v"] unat_word_bytes [where k = 4 and v = v]
  by (simp add: CBB_add_u32_def unat_ucast_up del: be_bytes.simps)

interpretation add_u64: appender d 8 "be_bytes 8 (unat v)" "CBB_add_u64 d v" for d v
  using appender_u [of 8 v] unat_word_bytes [where k = 8 and v = v]
  by (simp add: CBB_add_u64_def del: be_bytes.simps)

lemma appender_add_u24:
  "unat v < 2 ^ 24 \<Longrightarrow> appender d 3 (be_bytes 3 (unat v)) (CBB_add_u24 d v)"
  using appender_u [of 3 "ucast v"] by (simp add: CBB_add_u24_def unat_ucast_up del: be_bytes.simps)

text \<open>
  An element: a child is opened, filled, and closed again by a flush of its parent.
\<close>

definition with_child :: "nat \<Rightarrow> (cbb \<Rightarrow> bool \<times> cbb) \<Rightarrow> (cbb \<Rightarrow> bool \<times> cbb) \<Rightarrow> cbb \<Rightarrow> bool \<times> cbb" where
  "with_child d open_op fill = and_then open_op (and_then fill (CBB_flush d))"

lemma room_parent:
  assumes "room (d + 1) (4 + n) c" and "collapse_at d (cbb_abs c) \<noteq> None"
  shows "room d n c"
proof -
  from assms(1) obtain base where b: "cbb_base c = Some base" "\<not> bb_error base" "d + 1 \<le> length (cbb_chain c)"
    "has_room base (4 * (length (cbb_chain c) - (d + 1)) + (4 + n))"
    by (auto simp: room_def)
  have eq: "4 * (length (cbb_chain c) - (d + 1)) + (4 + n) = 4 * (length (cbb_chain c) - d) + n"
    using b(3) by simp
  have "has_room base (4 * (length (cbb_chain c) - d) + n)" using b(4) unfolding eq .
  then show ?thesis using b assms(2) by (simp add: room_def)
qed

text \<open>
  The contract of a function that starts a child: it appends \<open>header\<close> to the parent and makes
  the child the last object.
\<close>

locale opener =
  fixes d :: nat and need :: nat and header :: bytes and kind :: pending and open_op :: "cbb \<Rightarrow> bool \<times> cbb"
  assumes keeps_ok: "cbb_ok c \<Longrightarrow> open_op c = (ok, c') \<Longrightarrow> cbb_ok c'"
    and effect: "cbb_ok c \<Longrightarrow> open_op c = (True, c') \<Longrightarrow>
      (\<exists>a. collapse_at d (cbb_abs c) = Some a \<and> cbb_abs c' = push_last kind (append_last header a))
      \<and> length (cbb_chain c') = d + 1"
    and progress: "cbb_ok c \<Longrightarrow> room d need c \<Longrightarrow> fst (open_op c)"
    and keeps_room: "cbb_ok c \<Longrightarrow> open_op c = (True, c') \<Longrightarrow> room d (need + n) c \<Longrightarrow> room (d + 1) n c'"
begin

lemma filled_child:
  assumes fill: "appender (d + 1) m body fill" and e: "close kind body = Some e"
    and c: "cbb_ok c" and 1: "open_op c = (True, c1)" and 2: "fill c1 = (True, c2)"
  obtains a where "collapse_at d (cbb_abs c) = Some a"
    and "collapse_at d (cbb_abs c2) = Some (append_last (header @ e) a)" and "cbb_ok c2"
proof -
  have ok1: "cbb_ok c1" by (rule keeps_ok [OF c 1])
  have ok2: "cbb_ok c2" by (rule appender.keeps_ok [OF fill ok1 2])
  from effect [OF c 1] obtain a where a: "collapse_at d (cbb_abs c) = Some a"
    "cbb_abs c1 = push_last kind (append_last header a)" by blast
  from collapse_at_length [OF a(1)] have la: "length (snd (append_last header a)) = d" by simp
  then have "length (snd (cbb_abs c1)) = d + 1"
    unfolding a(2) by (cases "append_last header a") simp
  then have "collapse_at (d + 1) (cbb_abs c1) = Some (cbb_abs c1)" by (rule collapse_at_last)
  with appender.effect [OF fill ok1 2] have e2: "cbb_abs c2 = append_last body (cbb_abs c1)" by auto
  have "collapse_at d (cbb_abs c2) = Some (append_last e (append_last header a))"
    unfolding e2 a(2) using collapse_at_child [OF e, of "append_last header a"] la by simp
  with a(1) ok2 that [of a] show ?thesis by (simp add: append_last_append)
qed

lemma appender_element:
  assumes fill: "appender (d + 1) m body fill" and e: "close kind body = Some e"
  shows "appender d (need + (m + 4)) (header @ e) (with_child d open_op fill)"
proof
  fix c ok c3 n
  assume c: "cbb_ok c"
  {
    assume "with_child d open_op fill c = (ok, c3)"
    then show "cbb_ok c3"
      unfolding with_child_def
      by (elim and_then_cases)
        (use keeps_ok [OF c] appender.keeps_ok [OF fill] CBB_flush_cases in blast)+
  }
  {
    assume "with_child d open_op fill c = (True, c3)"
    then obtain c1 c2 where 1: "open_op c = (True, c1)" and 2: "fill c1 = (True, c2)" and 3: "CBB_flush d c2 = (True, c3)"
      by (auto simp: with_child_def and_then_True)
    from filled_child [OF fill e c 1 2] obtain a where a: "collapse_at d (cbb_abs c) = Some a"
      "collapse_at d (cbb_abs c2) = Some (append_last (header @ e) a)" and ok2: "cbb_ok c2" by blast
    with CBB_flush_cases [OF ok2 3]
    show "(\<exists>a. collapse_at d (cbb_abs c) = Some a \<and> cbb_abs c3 = append_last (header @ e) a)
        \<and> length (cbb_chain c3) = d \<and> healthy c3"
      by auto
    assume "room d (need + (m + 4) + n) c"
    then have "room (d + 1) (m + (4 + n)) c1"
      using keeps_room [OF c 1, of "m + (4 + n)"] by (simp add: ac_simps)
    then have "room (d + 1) (4 + n) c2" by (rule appender.keeps_room [OF fill keeps_ok [OF c 1] 2])
    then have "room d n c2" by (rule room_parent) (simp add: a(2))
    moreover have "\<forall>n. room d n c2 \<longrightarrow> room d n c3" using CBB_flush_cases [OF ok2 3] by simp
    ultimately show "room d n c3" by blast
  }
  {
    assume r: "room d (need + (m + 4)) c"
    obtain c1 where 1: "open_op c = (True, c1)" using progress [OF c room_mono [OF r]] by (cases "open_op c") auto
    have ok1: "cbb_ok c1" by (rule keeps_ok [OF c 1])
    have "room (d + 1) (m + 4) c1" by (rule keeps_room [OF c 1 r])
    from appender.succeeds [OF fill ok1 this] obtain c2 where 2: "fill c1 = (True, c2)" and r2: "room (d + 1) 4 c2"
      by blast
    from filled_child [OF fill e c 1 2] have "collapse_at d (cbb_abs c2) \<noteq> None" "cbb_ok c2" by blast+
    with r2 room_parent [of d 0 c2] have "room d 0 c2" by simp
    obtain r c3 where fl: "CBB_flush d c2 = (r, c3)" by (cases "CBB_flush d c2")
    with CBB_flush_cases [OF \<open>cbb_ok c2\<close> fl] \<open>room d 0 c2\<close> have "fst (CBB_flush d c2)"
      by (cases r) auto
    with 1 2 show "fst (with_child d open_op fill c)" by (simp add: with_child_def and_then_def)
  }
qed

end

section \<open>Starting a child\<close>

lemma appender_flush: "appender d 0 [] (CBB_flush d)"
proof
  fix c ok c' n
  assume c: "cbb_ok c"
  show "cbb_ok c'" if "CBB_flush d c = (ok, c')" using CBB_flush_cases [OF c that] by simp
  {
    assume fl: "CBB_flush d c = (True, c')"
    note f = CBB_flush_cases [OF c fl]
    then show "(\<exists>a. collapse_at d (cbb_abs c) = Some a \<and> cbb_abs c' = append_last [] a)
        \<and> length (cbb_chain c') = d \<and> healthy c'" by simp
    show "room d n c'" if "room d (0 + n) c" using that f by simp
  }
  show "fst (CBB_flush d c)" if "room d 0 c"
  proof -
    obtain r c' where fl: "CBB_flush d c = (r, c')" by (cases "CBB_flush d c")
    from CBB_flush_cases [OF c this] that fl show ?thesis by (cases r) auto
  qed
qed

text \<open>The placeholder of a child, and the frame for it.\<close>

definition place :: "nat \<Rightarrow> (cbb_buffer \<Rightarrow> bool \<times> cbb_buffer) \<Rightarrow> nat \<Rightarrow> bool \<Rightarrow> cbb \<Rightarrow> bool \<times> cbb" where
  "place d g k is_asn1 c =
     (case cbb_base c of
        None \<Rightarrow> (False, c)
      | Some base \<Rightarrow>
          (case g base of
             (False, base') \<Rightarrow> (False, c\<lparr>cbb_base := Some base'\<rparr>)
           | (True, base') \<Rightarrow> (True, push_frame d (bb_len base) k is_asn1 (c\<lparr>cbb_base := Some base'\<rparr>))))"

lemma push_frame_state:
  assumes "cbb_ok c" and "cbb_base c = Some base" and "length (cbb_chain c) = d"
    and "appended base gap base'" and "gap \<noteq> []" and "is_asn1 \<longrightarrow> length gap = 1"
    and "c' = push_frame d (bb_len base) (length gap) is_asn1 (c\<lparr>cbb_base := Some base'\<rparr>)"
  shows "cbb_ok c'" and "length (cbb_chain c') = d + 1"
    and "cbb_abs c' = push_last (if is_asn1 then Asn1 else Prefix (length gap)) (cbb_abs c)"
proof -
  let ?f = "\<lparr>fr_offset = bb_len base, fr_pending_len_len = length gap, fr_pending_is_asn1 = is_asn1\<rparr>"
  have base: "buffer_ok base" and fr: "frames_ok 0 (cbb_chain c) (length (contents base))"
    using assms(1,2) by (simp_all add: cbb_ok_def)
  have c': "cbb_base c' = Some base'" "cbb_chain c' = cbb_chain c @ [?f]"
    using assms(3,7) by (simp_all add: push_frame_def)
  have f: "frame_ok ?f" "frame_end ?f = bb_len base'" "fr_offset ?f = length (contents base)"
    "frame_kind ?f = (if is_asn1 then Asn1 else Prefix (length gap))"
    using assms(5,6) base appended_len [OF base assms(4)] by (simp_all add: frame_ok_def frame_end_def frame_kind_def)
  show "cbb_ok c'"
    using c' f frames_ok_push [OF fr f(3) f(1), of "bb_len base'"] assms(4) by (simp add: cbb_ok_def appended_def)
  show "length (cbb_chain c') = d + 1" using c' assms(3) by simp
  show "cbb_abs c' = push_last (if is_asn1 then Asn1 else Prefix (length gap)) (cbb_abs c)"
    using segment_push [OF fr f(3), of gap] assms(2,4) c' f(4) by (simp add: cbb_abs_def appended_def)
qed

lemma opener_place:
  assumes op: "appender d m header op" and g: "buffer_appends gap g"
    and gap: "gap \<noteq> []" "is_asn1 \<longrightarrow> length gap = 1"
  shows "opener d (m + length gap) header (if is_asn1 then Asn1 else Prefix (length gap))
    (and_then op (place d g (length gap) is_asn1))"
proof
  fix c ok c'' n
  assume c: "cbb_ok c"
  let ?op = "and_then op (place d g (length gap) is_asn1)"
  have g': "if r then appended base gap base' else buffer_ok base' \<and> bb_len base \<le> bb_len base' \<and> \<not> has_room base (length gap)"
    if "buffer_ok base" and "g base = (r, base')" for base r base'
    using g that unfolding buffer_appends_def by blast
  {
    assume "?op c = (True, c'')"
    then obtain c' where 1: "op c = (True, c')" and 2: "place d g (length gap) is_asn1 c' = (True, c'')"
      by (auto simp: and_then_True)
    have ok: "cbb_ok c'" by (rule appender.keeps_ok [OF op c 1])
    note e = appender.effect [OF op c 1]
    from 2 obtain base base' where b: "cbb_base c' = Some base" "g base = (True, base')"
      "c'' = push_frame d (bb_len base) (length gap) is_asn1 (c'\<lparr>cbb_base := Some base'\<rparr>)"
      by (auto simp: place_def split: option.splits prod.splits bool.splits)
    have base: "buffer_ok base" using ok b(1) by (simp add: cbb_ok_def)
    have app: "appended base gap base'" using g' [OF base b(2)] by simp
    have d: "length (cbb_chain c') = d" using e by simp
    note p = push_frame_state [OF ok b(1) d app gap b(3)]
    show "(\<exists>a. collapse_at d (cbb_abs c) = Some a
          \<and> cbb_abs c'' = push_last (if is_asn1 then Asn1 else Prefix (length gap)) (append_last header a))
        \<and> length (cbb_chain c'') = d + 1"
      using e p(2,3) by auto
    assume "room d (m + length gap + n) c"
    then have "room d (length gap + n) c'"
      using appender.keeps_room [OF op c 1, of "length gap + n"] by (simp add: add.assoc)
    then have "has_room base (length gap + n)" "\<not> bb_error base" using b(1) d by (auto simp: room_def)
    with appended_room [OF base app, of n] app have "has_room base' n" "\<not> bb_error base'"
      by (simp_all add: appended_def)
    moreover have "cbb_base c'' = Some base'" using b(3) by (simp add: push_frame_def)
    moreover have "length (snd (cbb_abs c'')) = d + 1" using p(2) \<open>cbb_base c'' = Some base'\<close> by (simp add: cbb_abs_def)
    then have "collapse_at (d + 1) (cbb_abs c'') \<noteq> None" by (simp add: collapse_at_last)
    ultimately show "room (d + 1) n c''" using p(2) by (simp add: room_def)
  }
  {
    assume "?op c = (ok, c'')"
    then show "cbb_ok c''"
    proof (cases rule: and_then_cases)
      case 1
      with appender.keeps_ok [OF op c] show ?thesis by blast
    next
      case (2 c')
      have ok: "cbb_ok c'" by (rule appender.keeps_ok [OF op c 2(1)])
      have d: "length (cbb_chain c') = d" using appender.effect [OF op c 2(1)] by simp
      show ?thesis
      proof (cases "cbb_base c'")
        case None
        with 2(2) ok show ?thesis by (simp add: place_def)
      next
        case (Some base)
        have base: "buffer_ok base" using ok Some by (simp add: cbb_ok_def)
        obtain r base' where gb: "g base = (r, base')" by (cases "g base")
        show ?thesis
        proof (cases r)
          case True
          have app: "appended base gap base'" using g' [OF base gb] True by simp
          have "c'' = push_frame d (bb_len base) (length gap) is_asn1 (c'\<lparr>cbb_base := Some base'\<rparr>)"
            using 2(2) Some gb True by (simp add: place_def)
          then show ?thesis by (rule push_frame_state(1) [OF ok Some d app gap])
        next
          case False
          with 2(2) Some gb have "c'' = c'\<lparr>cbb_base := Some base'\<rparr>" by (simp add: place_def)
          with frames_ok_base [OF ok Some, of base'] g' [OF base gb] False show ?thesis by simp
        qed
      qed
    qed
  }
  {
    assume r: "room d (m + length gap) c"
    from appender.succeeds [OF op c r] obtain c' where c': "op c = (True, c')" "cbb_ok c'" "room d (length gap) c'"
      "length (cbb_chain c') = d" by blast
    then obtain base where b: "cbb_base c' = Some base" "has_room base (length gap)" "buffer_ok base"
      by (auto simp: room_def cbb_ok_def)
    obtain r base' where gb: "g base = (r, base')" by (cases "g base")
    with g' [OF b(3) gb] b(2) have "r" by (cases r) auto
    with c'(1) b(1) gb show "fst (?op c)" by (simp add: and_then_def place_def)
  }
qed

end
