(* ===== verification/Der_Builder.thy ===== *)
theory Der_Builder
  imports Cbb_Ops
begin

text \<open>
  The ASN.1 functions of \<^verbatim>\<open>cbb.c\<close> against the contracts of theory \<open>Cbb_Ops\<close>: each appends
  exactly the DER encoding of its argument, which the readers of theory \<open>Der\<close> accept.
\<close>

section \<open>Length-prefixed children\<close>

lemma cbb_add_length_prefixed_eq:
  "cbb_add_length_prefixed d k = and_then (CBB_flush d) (place d (buffer_append (replicate k 0)) k False)"
  by (rule ext) (auto simp: cbb_add_length_prefixed_def and_then_def place_def Let_def
      split: prod.splits bool.splits option.splits)

lemma opener_length_prefixed:
  assumes "0 < k" and "k < 2 ^ 64"
  shows "opener d k [] (Prefix k) (cbb_add_length_prefixed d k)"
proof -
  have "buffer_appends (replicate k 0) (buffer_append (replicate k 0))"
    using assms by (intro buffer_appends_append) simp
  from opener_place [OF appender_flush [of d] this, of False] assms show ?thesis
    by (simp add: cbb_add_length_prefixed_eq)
qed

interpretation u8_child: opener d 1 "[]" "Prefix 1" "CBB_add_u8_length_prefixed d" for d
  unfolding CBB_add_u8_length_prefixed_def by (rule opener_length_prefixed) simp_all

interpretation u16_child: opener d 2 "[]" "Prefix 2" "CBB_add_u16_length_prefixed d" for d
  unfolding CBB_add_u16_length_prefixed_def by (rule opener_length_prefixed) simp_all

interpretation u24_child: opener d 3 "[]" "Prefix 3" "CBB_add_u24_length_prefixed d" for d
  unfolding CBB_add_u24_length_prefixed_def by (rule opener_length_prefixed) simp_all

section \<open>Base-128 integers\<close>

text \<open>The \<open>k\<close> low digits of a number, all with the continuation bit.\<close>

fun cont_digits :: "nat \<Rightarrow> nat \<Rightarrow> bytes" where
  "cont_digits 0 n = []"
| "cont_digits (Suc k) n = (0x80 OR of_nat (n div 128 ^ k mod 128)) # cont_digits k n"

lemma cont_digits_snoc: "cont_digits (Suc k) n = cont_digits k (n div 128) @ [0x80 OR of_nat (n mod 128)]"
proof (induction k)
  case 0
  then show ?case by simp
next
  case (Suc k)
  have "n div 128 ^ Suc k = n div 128 div 128 ^ k" by (simp add: div_mult2_eq)
  with Suc show ?case by simp
qed

lemma length_cont_digits [simp]: "length (cont_digits k n) = k"
  by (induction k) auto

lemma base128_digits_cont:
  "unat v < 128 ^ fuel \<Longrightarrow> base128_cont (unat v) = cont_digits (base128_digits fuel v) (unat v)"
proof (induction fuel arbitrary: v)
  case 0
  then show ?case by simp
next
  case (Suc fuel)
  show ?case
  proof (cases "v = 0")
    case False
    then have pos: "0 < unat v" by (simp add: unat_gt_0)
    have v: "unat (drop_bit 7 v) = unat v div 128" by (simp add: unat_drop_bit)
    have "unat (drop_bit 7 v) < 128 ^ fuel" using Suc.prems v by (simp add: less_mult_imp_div_less mult.commute)
    from Suc.IH [OF this] v False show ?thesis
      using base128_cont_pos [OF pos] by (simp add: word_neq_0_conv cont_digits_snoc del: cont_digits.simps(2))
  qed simp
qed

text \<open>How many bytes \<^verbatim>\<open>add_base128_integer\<close> writes, and that they are the shortest encoding.\<close>

lemma base128_digits_base128:
  assumes "k = (if base128_digits 10 v = 0 then 1 else base128_digits 10 v)"
  shows "base128 (unat v) = cont_digits (k - 1) (unat v div 128) @ [of_nat (unat v mod 128)]" and "1 \<le> k"
proof -
  have v: "unat v < 128 ^ 10" using unsigned_less [of v, where 'a = nat] by simp
  note c = base128_digits_cont [OF v]
  show "1 \<le> k" using assms by (simp split: if_splits)
  show "base128 (unat v) = cont_digits (k - 1) (unat v div 128) @ [of_nat (unat v mod 128)]"
  proof (cases "v = 0")
    case True
    then have "k = 1" using assms base128_digits.simps(2) [of 9 v] by simp
    with True show ?thesis by (simp add: base128_def)
  next
    case False
    then have pos: "0 < unat v" by (simp add: unat_gt_0)
    from False have "base128_digits 10 v \<noteq> 0" using base128_digits.simps(2) [of 9 v] by (simp add: word_neq_0_conv)
    then obtain j where "base128_digits 10 v = Suc j" using not0_implies_Suc by blast
    with assms have j: "k = Suc j" "base128_digits 10 v = Suc j" by simp_all
    have "base128_cont (unat v div 128) = cont_digits j (unat v div 128)"
      using c base128_cont_pos [OF pos] unfolding j(2) cont_digits_snoc by simp
    with j(1) show ?thesis by (simp add: base128_def)
  qed
qed

lemma low7_digit: "(ucast (drop_bit (7 * i) (v :: u64)) :: byte) AND 0x7f = of_nat (unat v div 128 ^ i mod 128)"
proof -
  have "unat v div 2 ^ (7 * i) mod 256 mod 128 = unat v div 2 ^ (7 * i) mod 128"
    by (rule mod_mod_cancel) simp
  moreover have "(2 :: nat) ^ (7 * i) = 128 ^ i" by (simp add: power_mult)
  ultimately show ?thesis
    by (simp add: word_unat_eq_iff low_bits_byte unat_ucast unat_drop_bit)
qed

lemma appender_base128_loop:
  "appender d (Suc j) (cont_digits j (unat v div 128) @ [of_nat (unat v mod 128)]) (add_base128_loop d (Suc j) v)"
proof (induction j)
  case 0
  have "add_base128_loop d (Suc 0) v = CBB_add_u8 d (of_nat (unat v mod 128))"
    using low7_digit [of 0 v] by (auto simp: fun_eq_iff split: prod.splits bool.splits)
  with add_u8.appender_axioms [of d] show ?case by simp
next
  case (Suc j)
  have digit: "unat v div 128 div 128 ^ j = unat v div 128 ^ Suc j" by (simp add: div_mult2_eq)
  have "add_base128_loop d (Suc (Suc j)) v =
      and_then (CBB_add_u8 d (0x80 OR of_nat (unat v div 128 div 128 ^ j mod 128))) (add_base128_loop d (Suc j) v)"
    unfolding digit and_then_def
    by (rule ext, subst add_base128_loop.simps) (simp only: Let_def low7_digit or.commute [of "0x80"] nat.simps not_False_eq_True if_True)
  with appender_and_then [OF add_u8.appender_axioms [of d "0x80 OR of_nat (unat v div 128 div 128 ^ j mod 128)"] Suc.IH]
  show ?case by (simp del: add_base128_loop.simps)
qed

lemma appender_base128:
  "appender d (length (base128 (unat v))) (base128 (unat v)) (add_base128_integer d v)"
proof -
  define k where "k = (if base128_digits 10 v = 0 then 1 else base128_digits 10 v)"
  from base128_digits_base128 [OF k_def] obtain j where j: "k = Suc j"
    "base128 (unat v) = cont_digits j (unat v div 128) @ [of_nat (unat v mod 128)]"
    by (cases k) simp_all
  have "add_base128_integer d v = add_base128_loop d k v"
    by (rule ext) (simp add: add_base128_integer_def k_def Let_def)
  with appender_base128_loop [of d j v] j show ?thesis by simp
qed

interpretation add_base128: appender d "length (base128 (unat v))" "base128 (unat v)" "add_base128_integer d v" for d v
  by (rule appender_base128)

section \<open>Identifiers and elements\<close>

lemma tag_bits_byte:
  "(ucast (drop_bit 24 tag AND 0xe0) :: byte) = of_nat (unat (tag :: u32) div 2 ^ 29 * 32)"
proof -
  have top: "unat tag div 2 ^ 29 * 32 < 256"
  proof -
    have "unat tag < 2 ^ 32" using unsigned_less [of tag, where 'a = nat] by simp
    then have "unat tag div 2 ^ 29 < 8" by (simp add: less_mult_imp_div_less)
    then show ?thesis by simp
  qed
  have "bit ((ucast (drop_bit 24 tag AND 0xe0) :: byte)) i = bit (of_nat (unat tag div 2 ^ 29 * 32) :: byte) i"
    if "i < 8" for i
  proof -
    have "unat tag div 2 ^ 29 * 32 = push_bit 5 (drop_bit 29 (unat tag))"
      by (simp add: push_bit_eq_mult drop_bit_eq_div)
    then have "bit (of_nat (unat tag div 2 ^ 29 * 32) :: byte) i \<longleftrightarrow> 5 \<le> i \<and> bit (unat tag) (24 + i)"
      using that by (auto simp: bit_of_nat_iff bit_push_bit_iff bit_drop_bit_eq)
    moreover have "bit (0xe0 :: u32) i \<longleftrightarrow> 5 \<le> i"
    proof -
      have "i \<in> {0,1,2,3,4,5,6,7}" using that by auto
      then show ?thesis by (auto simp: bit_numeral_rec)
    qed
    moreover have "bit tag (24 + i) = bit (unat tag) (24 + i)"
      using that by (simp add: bit_unsigned_iff)
    ultimately show ?thesis
      using that by (auto simp: bit_ucast_iff bit_and_iff bit_drop_bit_eq)
  qed
  then show ?thesis by (intro bit_word_eqI) simp
qed

lemma appender_tag: "appender d (length (der_tag tag)) (der_tag tag) (add_asn1_tag d tag)"
proof -
  let ?n = "tag AND CBS_ASN1_TAG_NUMBER_MASK" and ?bits = "of_nat (unat tag div 2 ^ 29 * 32) :: byte"
  have mask: "CBS_ASN1_TAG_NUMBER_MASK = mask 29"
    by (simp add: CBS_ASN1_TAG_NUMBER_MASK_def CBS_ASN1_TAG_SHIFT_def mask_eq_exp_minus_1 push_bit_of_1)
  have n: "unat ?n = unat tag mod 2 ^ 29" unfolding mask by (rule unat_and_mask)
  have le: "?n \<ge> 0x1f \<longleftrightarrow> \<not> unat tag mod 2 ^ 29 < 31"
    unfolding word_le_nat_alt n by (simp add: not_less)
  have bits: "(ucast (drop_bit CBS_ASN1_TAG_SHIFT tag AND 0xe0) :: byte) = ?bits"
    unfolding CBS_ASN1_TAG_SHIFT_def by (rule tag_bits_byte)
  have low: "(ucast ?n :: byte) = of_nat (unat tag mod 2 ^ 29)" unfolding ucast_of_nat n ..
  show ?thesis
  proof (cases "unat tag mod 2 ^ 29 < 31")
    case True
    then have "add_asn1_tag d tag = CBB_add_u8 d (?bits OR of_nat (unat tag mod 2 ^ 29))"
      unfolding add_asn1_tag_def bits low Let_def using le by (auto simp: fun_eq_iff)
    moreover have "der_tag tag = [?bits OR of_nat (unat tag mod 2 ^ 29)]"
      using True by (simp add: der_tag_def)
    ultimately show ?thesis using add_u8.appender_axioms [of d] by simp
  next
    case False
    then have "add_asn1_tag d tag = and_then (CBB_add_u8 d (?bits OR 0x1f)) (add_base128_integer d (ucast ?n))"
      unfolding add_asn1_tag_def bits Let_def and_then_def using le by (auto simp: fun_eq_iff)
    moreover have "der_tag tag = (?bits OR 0x1f) # base128 (unat (ucast ?n :: u64))"
      using False n by (simp add: der_tag_def unat_ucast_up)
    ultimately show ?thesis
      using appender_and_then [OF add_u8.appender_axioms [of d] add_base128.appender_axioms [of d "ucast ?n"]]
      by simp
  qed
qed

lemma opener_cong:
  assumes "opener d m h k op" and "\<And>c. cbb_ok c \<Longrightarrow> op' c = op c"
  shows "opener d m h k op'"
  using assms by (auto simp: opener_def)

lemma CBB_add_asn1_eq:
  assumes "cbb_ok c"
  shows "CBB_add_asn1 d tag c = and_then (and_then (CBB_flush d) (add_asn1_tag d tag))
    (place d (\<lambda>base. cbb_buffer_add_u base 0 1) 1 True) c"
proof (cases "and_then (CBB_flush d) (add_asn1_tag d tag) c")
  case (Pair r c2)
  show ?thesis
  proof (cases r)
    case False
    with Pair show ?thesis
      by (auto simp: CBB_add_asn1_def and_then_def split: prod.splits bool.splits)
  next
    case True
    with appender.effect [OF appender_and_then [OF appender_flush appender_tag] assms] Pair
    have h: "healthy c2" and d: "length (cbb_chain c2) = d" by auto
    then obtain base where base: "cbb_base c2 = Some base" by (auto simp: healthy_def)
    obtain ok base' where g: "cbb_buffer_add_u base 0 1 = (ok, base')" by (cases "cbb_buffer_add_u base 0 1")
    have "CBB_add_u8 d 0 c2 = (ok, c2\<lparr>cbb_base := Some base'\<rparr>)"
      using CBB_flush_idle [OF h d] base g by (simp add: CBB_add_u8_def after_flush_def)
    with Pair True base g show ?thesis
      by (auto simp: CBB_add_asn1_def and_then_def place_def Let_def split: prod.splits bool.splits)
  qed
qed

lemma opener_asn1: "opener d (length (der_tag tag) + 1) (der_tag tag) Asn1 (CBB_add_asn1 d tag)"
proof (rule opener_cong)
  have g: "buffer_appends [0] (\<lambda>base. cbb_buffer_add_u base 0 1)"
    using buffer_appends_u [of 1 0] by simp
  from opener_place [OF appender_and_then [OF appender_flush appender_tag] g, of True d tag]
  show "opener d (length (der_tag tag) + 1) (der_tag tag) Asn1
    (and_then (and_then (CBB_flush d) (add_asn1_tag d tag)) (place d (\<lambda>base. cbb_buffer_add_u base 0 1) 1 True))"
    by simp
qed (rule CBB_add_asn1_eq)

interpretation asn1_child: opener d "length (der_tag tag) + 1" "der_tag tag" Asn1 "CBB_add_asn1 d tag" for d tag
  by (rule opener_asn1)

lemma add_element_eq: "add_element d tag fill = with_child d (CBB_add_asn1 d tag) fill"
  by (auto simp: fun_eq_iff add_element_def with_child_def and_then_def split: prod.splits bool.splits)

text \<open>The room an element needs: its identifier, a five-byte length and what its contents need.\<close>

lemma appender_add_element:
  assumes "appender (d + 1) m body fill" and "length body \<le> 0xfffffffe"
  shows "appender d (length (der_tag tag) + m + 5) (der_element tag body) (add_element d tag fill)"
  using asn1_child.appender_element [OF assms(1), of "der_length (length body) @ body" tag] assms(2)
  by (simp add: add_element_eq der_element_def der_header_def ac_simps)

lemma der_tag_universal [simp]:
  "der_tag CBS_ASN1_BOOLEAN = [1]" "der_tag CBS_ASN1_INTEGER = [2]" "der_tag CBS_ASN1_OCTETSTRING = [4]"
  by (simp_all add: der_tag_def CBS_ASN1_BOOLEAN_def CBS_ASN1_INTEGER_def CBS_ASN1_OCTETSTRING_def)

lemma appender_octet_string:
  "length data \<le> 0xfffffffe \<Longrightarrow>
   appender d (length data + 6) (der_element CBS_ASN1_OCTETSTRING data) (CBB_add_asn1_octet_string d data)"
  using appender_add_element [OF appender_add_bytes, of data d CBS_ASN1_OCTETSTRING]
  by (simp add: CBB_add_asn1_octet_string_def add.commute)

lemma appender_bool:
  "appender d 7 (der_element CBS_ASN1_BOOLEAN [if v then 0xff else 0]) (CBB_add_asn1_bool d v)"
  using appender_add_element [OF add_u8.appender_axioms [of "d + 1" "if v then 0xff else 0"], of CBS_ASN1_BOOLEAN]
  by (simp add: CBB_add_asn1_bool_def)

end
