(* ===== verification/Der_Integers.thy ===== *)
theory Der_Integers
  imports Der_Builder
begin

text \<open>
  The ASN.1 integers of \<^verbatim>\<open>cbs.c\<close> and \<^verbatim>\<open>cbb.c\<close>. The specification of both directions is the
  shortest two's-complement byte string of a value: the readers accept exactly these strings,
  the add functions write them.
\<close>

section \<open>Two's complement\<close>

definition tc_val :: "bytes \<Rightarrow> int" where
  "tc_val bs = int (be_val bs) - (if bs \<noteq> [] \<and> 128 \<le> unat (hd bs) then 256 ^ length bs else 0)"

text \<open>No shorter byte string has the same value.\<close>

fun minimal_tc :: "bytes \<Rightarrow> bool" where
  "minimal_tc [] = False"
| "minimal_tc [b] = True"
| "minimal_tc (b # c # bs) = (\<not> (b = 0 \<and> unat c < 128) \<and> \<not> (b = 0xff \<and> 128 \<le> unat c))"

lemma tc_val_neg_iff: "tc_val bs < 0 \<longleftrightarrow> bs \<noteq> [] \<and> 128 \<le> unat (hd bs)"
proof -
  have "int (be_val bs) < 256 ^ length bs"
    using be_val_less [of bs] by (metis of_nat_less_iff of_nat_numeral of_nat_power)
  then show ?thesis unfolding tc_val_def by auto
qed

lemma tc_val_nonneg: "\<not> 128 \<le> unat (hd bs) \<Longrightarrow> tc_val bs = int (be_val bs)"
  by (simp add: tc_val_def)

text \<open>Sign extension does not change the value.\<close>

lemma tc_val_extend: "bs \<noteq> [] \<Longrightarrow> tc_val ((if 128 \<le> unat (hd bs) then 0xff else 0) # bs) = tc_val bs"
  by (auto simp: tc_val_def)

lemma tc_val_extends:
  assumes "bs \<noteq> []" and "f = (if 128 \<le> unat (hd bs) then 0xff else (0 :: byte))"
  shows "tc_val (replicate k f @ bs) = tc_val bs"
proof (induction k)
  case 0
  then show ?case by simp
next
  case (Suc k)
  have "hd (replicate k f @ bs) = (if k = 0 then hd bs else f)" using assms(1) by (cases k) auto
  then have f: "f = (if 128 \<le> unat (hd (replicate k f @ bs)) then 0xff else 0)" using assms(2) by auto
  have "replicate k f @ bs \<noteq> []" using assms(1) by simp
  from tc_val_extend [OF this] have "tc_val (f # replicate k f @ bs) = tc_val (replicate k f @ bs)"
    unfolding f [symmetric] .
  with Suc show ?case by simp
qed

lemma sint_u64: "sint (v :: u64) = int (unat v) - (if 2 ^ 63 \<le> unat v then 2 ^ 64 else 0)"
proof -
  have u: "uint v = int (unat v)" by simp
  have b: "bit (uint v) 63 \<longleftrightarrow> 2 ^ 63 \<le> unat v"
  proof -
    have "unat v < 2 ^ 64" using unsigned_less [of v, where 'a = nat] by simp
    then have "unat v div 2 ^ 63 = (if 2 ^ 63 \<le> unat v then 1 else 0)"
      by (auto intro: div_nat_eqI)
    moreover have "bit (uint v) 63 = bit (unat v) 63" unfolding bit_unsigned_iff by simp
    ultimately show ?thesis by (simp add: bit_iff_odd)
  qed
  have "sint v = signed_take_bit 63 (uint v)" by (simp add: sint_uint)
  also have "\<dots> = take_bit (Suc 63) (uint v) - 2 ^ Suc 63 * of_bool (bit (uint v) 63)"
    by (rule signed_take_bit_eq_take_bit_minus)
  also have "take_bit (Suc 63) (uint v) = uint v"
    using unsigned_less [of v, where 'a = int] by (intro take_bit_int_eq_self) simp_all
  finally show ?thesis using b by simp
qed

lemma sint_of_bytes:
  assumes "length bs = 8"
  shows "sint (of_nat (be_val bs) :: u64) = tc_val bs"
proof -
  obtain b rest where bs: "bs = b # rest" "length rest = 7" using assms by (cases bs) auto
  have less: "be_val bs < 2 ^ 64" using be_val_less [of bs] assms by simp
  then have "unat (of_nat (be_val bs) :: u64) = be_val bs" by (simp add: unat_of_nat)
  moreover have "2 ^ 63 \<le> be_val bs \<longleftrightarrow> 128 \<le> unat b"
  proof -
    have "be_val rest < 256 ^ 7" using be_val_less [of rest] bs(2) by simp
    then show ?thesis unfolding bs(1) using bs(2) by (simp; linarith)
  qed
  ultimately show ?thesis using bs by (simp add: sint_u64 tc_val_def)
qed

section \<open>Reading unsigned integers\<close>

lemma get_uint64_loop_eq:
  "get_uint64_loop out data =
    (if unat out * 256 ^ length data + be_val data < 2 ^ 64
     then Some (of_nat (unat out * 256 ^ length data + be_val data)) else None)"
proof (induction out data rule: get_uint64_loop.induct)
  case (1 out)
  have "unat out < 2 ^ 64" using unsigned_less [of out, where 'a = nat] by simp
  then show ?case by simp
next
  case (2 out d data)
  show ?case
  proof (cases "unat out < 2 ^ 56")
    case True
    let ?out = "push_bit 8 out OR ucast d :: u64"
    have o: "unat ?out = unat out * 256 + unat d"
      using True by (subst unat_push_bit_or) (simp_all add: unat_ucast_up)
    have e: "unat out * 256 ^ length (d # data) + be_val (d # data)
        = unat ?out * 256 ^ length data + be_val data"
      unfolding o by (simp add: algebra_simps)
    have "drop_bit 56 out = 0" using True by (simp add: drop_bit_eq_0_iff)
    with 2 show ?thesis unfolding e by simp
  next
    case False
    then have "2 ^ 56 * 256 ^ 1 \<le> unat out * 256 ^ length (d # data)"
      by (intro mult_le_mono power_increasing) simp_all
    then have "\<not> unat out * 256 ^ length (d # data) + be_val (d # data) < 2 ^ 64" by simp
    moreover have "drop_bit 56 out \<noteq> 0" using False by (simp add: drop_bit_eq_0_iff)
    ultimately show ?thesis by simp
  qed
qed

text \<open>The two checks of the readers against longer forms.\<close>

lemma minimal_tc_checks:
  "minimal_tc bs \<longleftrightarrow> bs \<noteq> [] \<and> \<not> (length bs > 1 \<and> bs ! 0 = 0 \<and> bs ! 1 AND 0x80 = 0)
     \<and> \<not> (length bs > 1 \<and> bs ! 0 = 0xff \<and> bs ! 1 AND 0x80 \<noteq> 0)"
  unfolding high_bit_byte by (cases bs rule: minimal_tc.cases) auto

lemma CBS_get_asn1_uint64_iff:
  "CBS_get_asn1_uint64 s = (Some v, r) \<longleftrightarrow>
   (\<exists>body. s = der_element CBS_ASN1_INTEGER body @ r \<and> length body < 2 ^ 32 \<and> minimal_tc body
      \<and> tc_val body = int (unat v))"
proof -
  have body: "CBS_get_asn1_uint64 s = (Some v, r) \<longleftrightarrow>
      (\<exists>body. CBS_get_asn1 CBS_ASN1_INTEGER s = (Some body, r) \<and> body \<noteq> [] \<and> body ! 0 AND 0x80 = 0
        \<and> \<not> (body ! 0 = 0 \<and> length body > 1 \<and> body ! 1 AND 0x80 = 0) \<and> get_uint64_loop 0 body = Some v)"
    unfolding CBS_get_asn1_uint64_def by (auto split: prod.splits option.splits)
  have val: "body \<noteq> [] \<and> body ! 0 AND 0x80 = 0 \<and> \<not> (body ! 0 = 0 \<and> length body > 1 \<and> body ! 1 AND 0x80 = 0)
      \<and> get_uint64_loop 0 body = Some v \<longleftrightarrow> minimal_tc body \<and> tc_val body = int (unat v)" for body
  proof (cases body)
    case Nil
    then show ?thesis by simp
  next
    case (Cons b bs)
    have small: "unat v < 2 ^ 64" using unsigned_less [of v, where 'a = nat] by simp
    show ?thesis
    proof (cases "128 \<le> unat b")
      case True
      then have "tc_val body < 0" using Cons by (simp add: tc_val_neg_iff)
      moreover have "b AND 0x80 \<noteq> 0" using True unfolding high_bit_byte by simp
      ultimately show ?thesis using Cons by auto
    next
      case False
      then have hb: "b AND 0x80 = 0" and ff: "b \<noteq> 0xff" unfolding high_bit_byte by auto
      have "get_uint64_loop 0 body = Some v \<longleftrightarrow> be_val body = unat v"
        using small by (auto simp: get_uint64_loop_eq unat_of_nat simp flip: word_unat_eq_iff)
      moreover have "tc_val body = int (unat v) \<longleftrightarrow> be_val body = unat v"
        using False Cons by (subst tc_val_nonneg) (simp_all only: list.sel of_nat_eq_iff not_False_eq_True)
      moreover have "body \<noteq> []" "body ! 0 = b" using Cons by simp_all
      ultimately show ?thesis
        unfolding minimal_tc_checks using hb ff by auto
    qed
  qed
  show ?thesis unfolding body CBS_get_asn1_Some using val by auto
qed

section \<open>Reading signed integers\<close>

lemma int64_union_eq:
  assumes "length data \<le> 8"
  shows "int64_union data f = rev data @ replicate (8 - length data) f"
proof -
  have "foldl (\<lambda>u i. u[i := data ! (length data - i - 1)]) (replicate 8 f) [0..<n]
      = take n (rev data) @ replicate (8 - n) f" if "n \<le> length data" for n
    using that
  proof (induction n)
    case 0
    then show ?case by simp
  next
    case (Suc n)
    have n: "n < length data" "n < 8" using Suc.prems assms by simp_all
    have r: "replicate (8 - n) f = f # replicate (8 - Suc n) f"
      using n(2) by (metis Suc_diff_Suc replicate_Suc)
    have t: "take (Suc n) (rev data) = take n (rev data) @ [data ! (length data - n - 1)]"
      using n(1) by (simp add: take_Suc_conv_app_nth rev_nth)
    have "length (take n (rev data)) = n" using n(1) by simp
    then show ?case using Suc n by (simp add: r t list_update_append)
  qed
  from this [of "length data"] show ?thesis by (simp add: int64_union_def)
qed

lemma CBS_get_asn1_int64_iff:
  "CBS_get_asn1_int64 s = (Some v, r) \<longleftrightarrow>
   (\<exists>body. s = der_element CBS_ASN1_INTEGER body @ r \<and> minimal_tc body \<and> length body \<le> 8
      \<and> tc_val body = sint v)"
proof -
  have body: "CBS_get_asn1_int64 s = (Some v, r) \<longleftrightarrow>
      (\<exists>body. CBS_get_asn1 CBS_ASN1_INTEGER s = (Some body, r) \<and> length body \<le> 8 \<and> minimal_tc body
        \<and> of_nat (le_val (int64_union body (if body ! 0 AND 0x80 \<noteq> 0 then 0xff else 0))) = v)"
  proof (cases "CBS_get_asn1 CBS_ASN1_INTEGER s")
    case (Pair res r')
    have step: "(if length bs = 0 \<or> length bs > 8 then (None, r') else if A then (None, r')
        else if B then (None, r') else (Some x, r')) = (Some v, r) \<longleftrightarrow>
        r' = r \<and> length bs \<le> 8 \<and> (bs \<noteq> [] \<and> \<not> A \<and> \<not> B) \<and> x = v" for A B x and bs :: bytes
      by auto
    show ?thesis
    proof (cases res)
      case None
      with Pair show ?thesis by (simp add: CBS_get_asn1_int64_def)
    next
      case (Some bs)
      show ?thesis
        unfolding CBS_get_asn1_int64_def Pair Some prod.case option.case Let_def minimal_tc_checks step
        by blast
    qed
  qed
  have val: "of_nat (le_val (int64_union bs (if bs ! 0 AND 0x80 \<noteq> 0 then 0xff else 0))) = v \<longleftrightarrow> tc_val bs = sint v"
    if "length bs \<le> 8" and "minimal_tc bs" for bs
  proof -
    let ?f = "if 128 \<le> unat (hd bs) then 0xff else (0 :: byte)"
    have ne: "bs \<noteq> []" using that(2) by auto
    then have f: "(if bs ! 0 AND 0x80 \<noteq> 0 then 0xff else 0) = ?f"
      unfolding high_bit_byte by (simp add: hd_conv_nth)
    have "le_val (int64_union bs ?f) = be_val (replicate (8 - length bs) ?f @ bs)"
      using that(1) by (simp add: int64_union_eq le_val_def)
    moreover have "sint (of_nat (be_val (replicate (8 - length bs) ?f @ bs)) :: u64) = tc_val bs"
      using that(1) ne by (subst sint_of_bytes) (simp_all add: tc_val_extends)
    ultimately show ?thesis unfolding f by (metis word_eq_iff_signed)
  qed
  have "(s = der_element CBS_ASN1_INTEGER bs @ r \<and> length bs < 2 ^ 32) \<and> length bs \<le> 8 \<and> minimal_tc bs
      \<and> of_nat (le_val (int64_union bs (if bs ! 0 AND 0x80 \<noteq> 0 then 0xff else 0))) = v \<longleftrightarrow>
      s = der_element CBS_ASN1_INTEGER bs @ r \<and> minimal_tc bs \<and> length bs \<le> 8 \<and> tc_val bs = sint v" for bs
  proof -
    have taut: "((A \<and> B) \<and> C \<and> D \<and> E) = (A \<and> D \<and> C \<and> F)" if "C \<Longrightarrow> D \<Longrightarrow> E = F" and "C \<Longrightarrow> B" for A B C D E F
      using that by blast
    show ?thesis by (rule taut [OF val]) simp_all
  qed
  then show ?thesis unfolding body CBS_get_asn1_Some by (rule iff_exI)
qed

section \<open>One encoding per value\<close>

text \<open>The value of the first byte, and what it contributes.\<close>

definition tc_head :: "byte \<Rightarrow> int" where
  "tc_head b = (if 128 \<le> unat b then int (unat b) - 256 else int (unat b))"

lemma tc_head_range: "-128 \<le> tc_head b" "tc_head b \<le> 127"
  unfolding tc_head_def using unat_byte_less [of b] by (cases "128 \<le> unat b", simp_all only: if_True if_False; linarith)+

lemma tc_head_0: "tc_head b = 0 \<longleftrightarrow> b = 0"
proof -
  have "tc_head b = 0 \<longleftrightarrow> unat b = 0"
    unfolding tc_head_def using unat_byte_less [of b]
    by (cases "128 \<le> unat b", simp_all only: if_True if_False; linarith)
  then show ?thesis by (simp add: word_unat_eq_iff)
qed

lemma tc_head_m1: "tc_head b = -1 \<longleftrightarrow> b = 0xff"
proof -
  have "tc_head b = -1 \<longleftrightarrow> unat b = 255"
    unfolding tc_head_def using unat_byte_less [of b]
    by (cases "128 \<le> unat b", simp_all only: if_True if_False; linarith)
  then show ?thesis by (simp add: word_unat_eq_iff)
qed

lemma tc_val_Cons: "tc_val (b # bs) = tc_head b * 256 ^ length bs + int (be_val bs)"
  by (simp add: tc_val_def tc_head_def algebra_simps)

lemma int_be_val_less: "int (be_val bs) < 256 ^ length bs"
  using be_val_less [of bs] by (metis of_nat_less_iff of_nat_numeral of_nat_power)

lemma tc_val_range:
  assumes "bs \<noteq> []"
  shows "2 * tc_val bs < 256 ^ length bs" and "- (256 ^ length bs) \<le> 2 * tc_val bs"
proof -
  obtain b r where bs: "bs = b # r" using assms by (cases bs) auto
  let ?P = "256 ^ length r :: int"
  have "tc_head b * ?P \<le> 127 * ?P" "-128 * ?P \<le> tc_head b * ?P"
    using tc_head_range [of b] by (intro mult_right_mono; simp)+
  then show "2 * tc_val bs < 256 ^ length bs" and "- (256 ^ length bs) \<le> 2 * tc_val bs"
    unfolding bs tc_val_Cons list.size add_Suc_right add_0_right power_Suc distrib_left
    using int_be_val_less [of r] of_nat_0_le_iff [of "be_val r", where 'a = int] by - linarith+
qed

text \<open>The value of a minimal string does not fit in one byte less.\<close>

lemma minimal_tc_range:
  assumes "minimal_tc (b # c # bs)"
  shows "256 ^ length (c # bs) \<le> 2 * tc_val (b # c # bs) \<or> 2 * tc_val (b # c # bs) < - (256 ^ length (c # bs))"
proof -
  let ?h = "tc_head b"
  define P where "P = (256 ^ length (c # bs) :: int)"
  define Q where "Q = (256 ^ length bs :: int)"
  define r where "r = int (be_val (c # bs))"
  have PQ: "P = 256 * Q" "0 < Q" by (simp_all add: P_def Q_def)
  have val: "tc_val (b # c # bs) = ?h * P + r" unfolding P_def r_def by (rule tc_val_Cons)
  have r: "r = int (unat c) * Q + int (be_val bs)" "r < P" "int (be_val bs) < Q"
    using int_be_val_less [of "c # bs"] int_be_val_less [of bs] by (simp_all add: r_def Q_def P_def)
  have pos: "0 \<le> r" "0 \<le> int (be_val bs)" by (simp_all add: r_def)
  consider "1 \<le> ?h" | "?h \<le> -2" | "?h = 0" | "?h = -1" by linarith
  then show ?thesis
    unfolding val P_def [symmetric]
  proof cases
    case 1
    then have "1 * P \<le> ?h * P" using PQ by (intro mult_right_mono) simp_all
    then have "P \<le> 2 * (?h * P + r)" using pos(1) PQ unfolding distrib_left by linarith
    then show "P \<le> 2 * (?h * P + r) \<or> 2 * (?h * P + r) < - P" ..
  next
    case 2
    then have "?h * P \<le> -2 * P" using PQ by (intro mult_right_mono) simp_all
    then have "2 * (?h * P + r) < - P" using r(2) PQ unfolding distrib_left by linarith
    then show "P \<le> 2 * (?h * P + r) \<or> 2 * (?h * P + r) < - P" ..
  next
    case 3
    with assms have "\<not> unat c < 128" by (simp add: tc_head_0)
    then have "128 \<le> int (unat c)" by linarith
    then have "128 * Q \<le> int (unat c) * Q" using PQ by (intro mult_right_mono) simp_all
    then have "P \<le> 2 * r" unfolding r(1) PQ(1) distrib_left using pos by linarith
    with 3 show "P \<le> 2 * (?h * P + r) \<or> 2 * (?h * P + r) < - P" by simp
  next
    case 4
    with assms have "\<not> 128 \<le> unat c" by (simp add: tc_head_m1)
    then have "int (unat c) \<le> 127" by linarith
    then have "int (unat c) * Q \<le> 127 * Q" using PQ by (intro mult_right_mono) simp_all
    then have "2 * r < P" unfolding r(1) PQ(1) distrib_left using r(3) PQ(2) by linarith
    with 4 show "P \<le> 2 * (?h * P + r) \<or> 2 * (?h * P + r) < - P" by simp
  qed
qed

lemma minimal_tc_length:
  assumes "minimal_tc a" and "minimal_tc b" and "tc_val a = tc_val b"
  shows "length b \<le> length a"
proof (rule ccontr)
  assume "\<not> length b \<le> length a"
  moreover have ne: "a \<noteq> []" using assms(1) by auto
  ultimately obtain x y r where b: "b = x # y # r" "length a \<le> length (y # r)"
    by (cases b rule: minimal_tc.cases) (auto simp: Suc_le_eq)
  have "(256 :: int) ^ length a \<le> 256 ^ length (y # r)" by (rule power_increasing [OF b(2)]) simp
  with minimal_tc_range [of x y r] tc_val_range [OF ne] assms(2,3) b(1) show False by auto
qed

theorem minimal_tc_unique:
  assumes "minimal_tc a" and "minimal_tc b" and "tc_val a = tc_val b"
  shows "a = b"
proof -
  have len: "length a = length b"
    using minimal_tc_length [OF assms] minimal_tc_length [OF assms(2,1) assms(3) [symmetric]] by simp
  have ne: "a \<noteq> []" "b \<noteq> []" using assms by auto
  have "tc_val a < 0 \<longleftrightarrow> tc_val b < 0" using assms(3) by simp
  then have "128 \<le> unat (hd a) \<longleftrightarrow> 128 \<le> unat (hd b)" unfolding tc_val_neg_iff using ne by blast
  with assms(3) len ne have "int (be_val a) = int (be_val b)" unfolding tc_val_def by (auto split: if_splits)
  then have "be_val a = be_val b" by (simp only: of_nat_eq_iff)
  with len show ?thesis using be_bytes_unique [of a "length a" "be_val a"] be_bytes_unique [of b "length a" "be_val a"] by simp
qed

section \<open>Writing integers\<close>

text \<open>What \<^verbatim>\<open>CBB_add_asn1_uint64\<close> writes for the \<open>n\<close> low bytes of a value.\<close>

fun uint_body :: "nat \<Rightarrow> nat \<Rightarrow> bytes" where
  "uint_body 0 v = [0]"
| "uint_body (Suc n) v =
     (if v < 256 ^ n then uint_body n v
      else if v < 128 * 256 ^ n then be_bytes (Suc n) v else 0 # be_bytes (Suc n) v)"

lemma uint_body_spec:
  "v < 256 ^ n \<Longrightarrow> minimal_tc (uint_body n v) \<and> tc_val (uint_body n v) = int v \<and> length (uint_body n v) \<le> n + 1"
proof (induction n)
  case 0
  then show ?case by (simp add: tc_val_def)
next
  case (Suc n)
  let ?b = "of_nat (v div 256 ^ n) :: byte"
  have "v div 256 ^ n < 256" using Suc.prems by (simp add: less_mult_imp_div_less)
  then have b: "unat ?b = v div 256 ^ n" by simp
  have val: "be_val (be_bytes (Suc n) v) = v" using Suc.prems by (rule be_val_be_bytes_small)
  show ?case
  proof (cases "v < 256 ^ n")
    case True
    with Suc show ?thesis by simp
  next
    case False
    then have pos: "0 < v div 256 ^ n" by (simp add: div_greater_zero_iff)
    have high: "128 \<le> v div 256 ^ n \<longleftrightarrow> \<not> v < 128 * 256 ^ n"
      by (simp add: not_less less_eq_div_iff_mult_less_eq mult.commute)
    show ?thesis
    proof (cases "v < 128 * 256 ^ n")
      case True
      with False have u: "uint_body (Suc n) v = be_bytes (Suc n) v" by simp
      have "unat ?b < 128" using True high b by simp
      moreover have "?b \<noteq> 0" "?b \<noteq> 0xff" using b pos \<open>unat ?b < 128\<close> by (auto simp: word_unat_eq_iff)
      ultimately have "minimal_tc (?b # be_bytes n v)" "hd (be_bytes (Suc n) v) = ?b"
        by (cases "be_bytes n v") simp_all
      then show ?thesis unfolding u using val \<open>unat ?b < 128\<close>
        by (subst tc_val_nonneg) (simp_all del: unat_of_nat_byte)
    next
      case False': False
      with False have u: "uint_body (Suc n) v = 0 # be_bytes (Suc n) v" by simp
      have "128 \<le> unat ?b" using False' high b by simp
      then have "minimal_tc (0 # ?b # be_bytes n v)" by simp
      then show ?thesis unfolding u using val
        by (subst tc_val_nonneg) (simp_all del: unat_of_nat_byte)
    qed
  qed
qed

lemma low_byte_shift: "(ucast (drop_bit (8 * n) (value :: u64) AND 0xff) :: byte) = of_nat (unat value div 256 ^ n)"
proof -
  have "unat (drop_bit (8 * n) value AND 0xff) = unat (drop_bit (8 * n) value) mod 256"
    using unat_and_mask [of "drop_bit (8 * n) value" 8] by (simp add: mask_numeral)
  then show ?thesis
    by (simp add: word_unat_eq_iff unat_ucast unat_drop_bit power_mult)
qed

lemma appender_uint64_started:
  "appender d (Suc n) (be_bytes (Suc n) (unat value)) (add_uint64_loop d (Suc n) True value)"
proof (induction n)
  case 0
  have "add_uint64_loop d (Suc 0) True value = CBB_add_u8 d (of_nat (unat value))"
    using low_byte_shift [of 0 "value"] by (auto simp: fun_eq_iff Let_def split: prod.splits bool.splits)
  with add_u8.appender_axioms [of d "of_nat (unat value)"] show ?case by simp
next
  case (Suc n)
  have "add_uint64_loop d (Suc (Suc n)) True value =
      and_then (CBB_add_u8 d (of_nat (unat value div 256 ^ Suc n))) (add_uint64_loop d (Suc n) True value)"
    by (rule ext, subst add_uint64_loop.simps) (simp only: and_then_def Let_def low_byte_shift simp_thms if_False prod.case bool.case)
  with appender_and_then [OF add_u8.appender_axioms [of d "of_nat (unat value div 256 ^ Suc n)"] Suc.IH]
  show ?case by (simp del: add_uint64_loop.simps)
qed

lemma uint64_started_step:
  "add_uint64_loop d (Suc n) True v c = and_then (CBB_add_u8 d (of_nat (unat v div 256 ^ n))) (add_uint64_loop d n True v) c"
  by (subst add_uint64_loop.simps) (simp only: and_then_def Let_def low_byte_shift simp_thms if_False prod.case bool.case)

lemma uint64_first_step:
  assumes "(b :: byte) = of_nat (unat v div 256 ^ n)"
  shows "add_uint64_loop d (Suc n) False v =
    (if b = 0 then add_uint64_loop d n False v
     else if b AND 0x80 \<noteq> 0 then and_then (CBB_add_u8 d 0) (add_uint64_loop d (Suc n) True v)
     else add_uint64_loop d (Suc n) True v)"
proof
  fix c
  show "add_uint64_loop d (Suc n) False v c =
    (if b = 0 then add_uint64_loop d n False v
     else if b AND 0x80 \<noteq> 0 then and_then (CBB_add_u8 d 0) (add_uint64_loop d (Suc n) True v)
     else add_uint64_loop d (Suc n) True v) c"
    by (subst add_uint64_loop.simps)
      (simp add: Let_def low_byte_shift assms [symmetric] uint64_started_step and_then_def del: add_uint64_loop.simps(2)
        split: prod.splits bool.splits)
qed

lemma appender_uint64_loop:
  "unat v < 256 ^ n \<Longrightarrow>
   appender d (length (uint_body n (unat v))) (uint_body n (unat v)) (add_uint64_loop d n False v)"
proof (induction n)
  case 0
  have "add_uint64_loop d 0 False v = CBB_add_u8 d 0" by (auto simp: fun_eq_iff)
  with add_u8.appender_axioms [of d 0] show ?case by simp
next
  case (Suc n)
  let ?q = "unat v div 256 ^ n" and ?b = "of_nat (unat v div 256 ^ n) :: byte"
  have "?q < 256" using Suc.prems by (simp add: less_mult_imp_div_less)
  then have b: "unat ?b = ?q" by simp
  have zero: "?b = 0 \<longleftrightarrow> unat v < 256 ^ n" unfolding word_unat_eq_iff b by (simp add: div_eq_0_iff)
  have high: "?b AND 0x80 \<noteq> 0 \<longleftrightarrow> \<not> unat v < 128 * 256 ^ n"
    unfolding high_bit_byte b by (simp add: not_less less_eq_div_iff_mult_less_eq mult.commute)
  note step = uint64_first_step [OF refl, of d n v, unfolded zero high]
  note started = appender_uint64_started [of d n v]
  show ?case
  proof (cases "unat v < 256 ^ n")
    case True
    with Suc.IH Suc.prems show ?thesis unfolding step by (simp del: add_uint64_loop.simps)
  next
    case False
    show ?thesis
    proof (cases "unat v < 128 * 256 ^ n")
      case True
      with False started show ?thesis unfolding step by (simp del: be_bytes.simps add_uint64_loop.simps)
    next
      case False': False
      with False appender_and_then [OF add_u8.appender_axioms [of d 0] started] show ?thesis
        unfolding step by (simp del: be_bytes.simps add_uint64_loop.simps)
    qed
  qed
qed

text \<open>The contents octets of an unsigned and of a signed value.\<close>

definition uint64_body :: "u64 \<Rightarrow> bytes" where
  "uint64_body v = uint_body 8 (unat v)"

lemma uint64_body_spec:
  "minimal_tc (uint64_body v)" "tc_val (uint64_body v) = int (unat v)" "length (uint64_body v) \<le> 9"
  using uint_body_spec [of "unat v" 8] unat_word_bytes [where k = 8 and v = v]
  by (simp_all add: uint64_body_def)

lemma appender_uint64:
  "appender d 15 (der_element CBS_ASN1_INTEGER (uint64_body v)) (CBB_add_asn1_uint64 d v)"
proof -
  have "unat v < 256 ^ 8" using unat_word_bytes [where k = 8 and v = v] by simp
  from appender_add_element [OF appender_uint64_loop [OF this, of "d + 1"], where tag = CBS_ASN1_INTEGER]
  have "appender d (length (uint64_body v) + 6) (der_element CBS_ASN1_INTEGER (uint64_body v)) (CBB_add_asn1_uint64 d v)"
    using uint64_body_spec(3) [of v] by (simp add: uint64_body_def CBB_add_asn1_uint64_def add.commute)
  then show ?thesis by (rule appender_weaken) (use uint64_body_spec(3) [of v] in simp)
qed

text \<open>Negative values: the leading bytes that only extend the sign are left out.\<close>

lemma union_byte_eq: "union_byte v i = of_nat (unat v div 256 ^ i)"
  by (simp add: union_byte_def word_unat_eq_iff unat_ucast unat_drop_bit power_mult)

lemma int64_start_le: "int64_start v n \<le> n"
  by (induction n) auto

lemma int64_start_spec:
  assumes "union_byte v n AND 0x80 \<noteq> 0" and "k = int64_start v n"
  shows "union_byte v k AND 0x80 \<noteq> 0"
    and "be_bytes (Suc n) (unat v) = replicate (n - k) 0xff @ be_bytes (Suc k) (unat v)"
    and "minimal_tc (be_bytes (Suc k) (unat v))"
  using assms
proof (induction n arbitrary: k)
  case 0
  { case 1 then show ?case by simp }
  { case 2 then show ?case by simp }
  { case 3 then show ?case by simp }
next
  case (Suc n)
  show "union_byte v k AND 0x80 \<noteq> 0" if "union_byte v (Suc n) AND 0x80 \<noteq> 0" "k = int64_start v (Suc n)" for k
    using Suc.IH(1) that by (auto split: if_splits)
  show "be_bytes (Suc (Suc n)) (unat v) = replicate (Suc n - k) 0xff @ be_bytes (Suc k) (unat v)"
    if "union_byte v (Suc n) AND 0x80 \<noteq> 0" "k = int64_start v (Suc n)" for k
  proof (cases "union_byte v (Suc n) = 0xff \<and> union_byte v n AND 0x80 \<noteq> 0")
    case True
    then have k: "k = int64_start v n" using that by simp
    have "be_bytes (Suc (Suc n)) (unat v) = 0xff # be_bytes (Suc n) (unat v)"
      using True union_byte_eq [of v "Suc n"] by simp
    moreover have "Suc n - k = Suc (n - k)" using int64_start_le [of v n] k by simp
    ultimately show ?thesis using Suc.IH(2) True k by simp
  next
    case False
    then have "k = Suc n" using that(2) by (simp only: int64_start.simps if_False)
    then show ?thesis by simp
  qed
  show "minimal_tc (be_bytes (Suc k) (unat v))"
    if "union_byte v (Suc n) AND 0x80 \<noteq> 0" "k = int64_start v (Suc n)" for k
  proof (cases "union_byte v (Suc n) = 0xff \<and> union_byte v n AND 0x80 \<noteq> 0")
    case True
    then show ?thesis using Suc.IH(3) that by simp
  next
    case False
    then have k: "k = Suc n" using that(2) by (simp only: int64_start.simps if_False)
    have "\<not> (union_byte v (Suc n) = 0xff \<and> 128 \<le> unat (union_byte v n))" "union_byte v (Suc n) \<noteq> 0"
      using False that(1) unfolding high_bit_byte by auto
    then show ?thesis unfolding k union_byte_eq by simp
  qed
qed

definition int64_body :: "u64 \<Rightarrow> bytes" where
  "int64_body v = (if sint v \<ge> 0 then uint64_body v else be_bytes (int64_start v 7 + 1) (unat v))"

lemma int64_body_spec: "minimal_tc (int64_body v)" "tc_val (int64_body v) = sint v" "length (int64_body v) \<le> 9"
proof -
  have "minimal_tc (int64_body v) \<and> tc_val (int64_body v) = sint v \<and> length (int64_body v) \<le> 9"
  proof (cases "sint v \<ge> 0")
    case True
    have "unat v < 2 ^ 64" using unsigned_less [of v, where 'a = nat] by simp
    then have "int (unat v) < 2 ^ 64" by (metis of_nat_less_iff of_nat_numeral of_nat_power)
    with True have "sint v = int (unat v)" unfolding sint_u64 by (auto split: if_splits)
    with True show ?thesis using uint64_body_spec [of v] by (simp add: int64_body_def)
  next
    case False
    have neg: "2 ^ 63 \<le> unat v" using False unfolding sint_u64 by (auto split: if_splits)
    then have "128 \<le> unat v div 256 ^ 7" by (simp add: less_eq_div_iff_mult_less_eq)
    moreover have "unat v div 256 ^ 7 < 256" using unat_word_bytes [where k = 8 and v = v] by (simp add: less_mult_imp_div_less)
    ultimately have top: "union_byte v 7 AND 0x80 \<noteq> 0"
      unfolding high_bit_byte union_byte_eq by simp
    define k where "k = int64_start v 7"
    let ?b = "be_bytes (Suc k) (unat v)"
    note s = int64_start_spec [OF top k_def]
    have k7: "k \<le> 7" unfolding k_def by (rule int64_start_le)
    have hd: "128 \<le> unat (hd ?b)" using s(1) unfolding high_bit_byte union_byte_eq by simp
    have "tc_val ?b = tc_val (replicate (7 - k) 0xff @ ?b)"
      using hd by (intro tc_val_extends [symmetric]) simp_all
    also have "\<dots> = tc_val (be_bytes 8 (unat v))" using s(2) by simp
    also have "\<dots> = sint (of_nat (be_val (be_bytes 8 (unat v))) :: u64)"
      by (rule sint_of_bytes [symmetric]) simp
    also have "be_val (be_bytes 8 (unat v)) = unat v"
      using unat_word_bytes [where k = 8 and v = v] by (intro be_val_be_bytes_small) simp
    finally show ?thesis using False s(3) k7 by (simp add: int64_body_def k_def del: be_bytes.simps)
  qed
  then show "minimal_tc (int64_body v)" "tc_val (int64_body v) = sint v" "length (int64_body v) \<le> 9" by simp_all
qed

lemma appender_union_loop:
  "appender d (Suc n) (be_bytes (Suc n) (unat v)) (add_union_loop d (Suc n) v)"
proof (induction n)
  case 0
  have "add_union_loop d (Suc 0) v = CBB_add_u8 d (of_nat (unat v))"
    using union_byte_eq [of v 0] by (auto simp: fun_eq_iff split: prod.splits bool.splits)
  with add_u8.appender_axioms [of d "of_nat (unat v)"] show ?case by simp
next
  case (Suc n)
  have "add_union_loop d (Suc (Suc n)) v =
      and_then (CBB_add_u8 d (of_nat (unat v div 256 ^ Suc n))) (add_union_loop d (Suc n) v)"
    by (rule ext, subst add_union_loop.simps) (simp only: and_then_def union_byte_eq)
  with appender_and_then [OF add_u8.appender_axioms [of d "of_nat (unat v div 256 ^ Suc n)"] Suc.IH]
  show ?case by (simp del: add_union_loop.simps)
qed

lemma appender_int64:
  "appender d 15 (der_element CBS_ASN1_INTEGER (int64_body v)) (CBB_add_asn1_int64 d v)"
proof (cases "sint v \<ge> 0")
  case True
  then have "CBB_add_asn1_int64 d v = CBB_add_asn1_uint64 d v" by (simp add: CBB_add_asn1_int64_def)
  with True appender_uint64 [of d v] show ?thesis by (simp add: int64_body_def)
next
  case False
  let ?n = "int64_start v 7"
  have "appender d (length (der_tag CBS_ASN1_INTEGER) + Suc ?n + 5)
      (der_element CBS_ASN1_INTEGER (be_bytes (Suc ?n) (unat v)))
      (add_element d CBS_ASN1_INTEGER (add_union_loop (d + 1) (Suc ?n) v))"
    by (rule appender_add_element [OF appender_union_loop]) (use int64_start_le [of v 7] in simp)
  then have "appender d (length (der_tag CBS_ASN1_INTEGER) + Suc ?n + 5)
      (der_element CBS_ASN1_INTEGER (int64_body v)) (CBB_add_asn1_int64 d v)"
    using False by (simp add: int64_body_def CBB_add_asn1_int64_def del: be_bytes.simps add_union_loop.simps)
  then show ?thesis by (rule appender_weaken) (use int64_start_le [of v 7] in simp)
qed

lemma int64_body_length: "length (int64_body v) \<le> 8"
proof (rule ccontr)
  assume "\<not> length (int64_body v) \<le> 8"
  then have len: "length (int64_body v) = 9" using int64_body_spec(3) [of v] by simp
  then obtain b c bs where body: "int64_body v = b # c # bs" "length bs = 7"
    by (cases "int64_body v" rule: minimal_tc.cases) auto
  have "unat v < 2 ^ 64" using unsigned_less [of v, where 'a = nat] by simp
  then have "int (unat v) < 2 ^ 64" by (metis of_nat_less_iff of_nat_numeral of_nat_power)
  moreover have "2 * (int n - (if 2 ^ 63 \<le> n then 2 ^ 64 else 0)) < 2 ^ 64 \<and>
      - (2 ^ 64) \<le> 2 * (int n - (if 2 ^ 63 \<le> n then 2 ^ 64 else 0))" if "int n < 2 ^ 64" for n :: nat
    using that by auto
  ultimately have "2 * sint v < 2 ^ 64" "- (2 ^ 64) \<le> 2 * sint v" unfolding sint_u64 by blast+
  moreover have "(256 :: int) ^ length (c # bs) = 2 ^ 64" using body(2) by simp
  ultimately show False
    using minimal_tc_range [of b c bs] int64_body_spec(1,2) [of v] unfolding body(1) by auto
qed

end
