(* ===== verification/Cbb_Steps.thy ===== *)
theory Cbb_Steps
  imports Der_Integers
begin

text \<open>
  A \<^verbatim>\<open>CBB\<close> as a state machine: one step per call of an operation of \<^verbatim>\<open>cbb.c\<close>, in any order, on
  any object of the chain, whether the call succeeds or fails. The invariant \<open>cbb_ok\<close> and the
  size of a fixed buffer are kept by every step. The theory ends with the properties of the
  builder.
\<close>

section \<open>What every operation keeps\<close>

text \<open>
  The state is well formed and, when \<open>fixed\<close> says so, the buffer is the caller's, of \<open>cap\<close>
  bytes.
\<close>

definition cbb_inv :: "nat option \<Rightarrow> cbb \<Rightarrow> bool" where
  "cbb_inv fixed c \<longleftrightarrow> cbb_ok c \<and>
     (case cbb_base c of
        None \<Rightarrow> True
      | Some base \<Rightarrow> (case fixed of None \<Rightarrow> True | Some cap \<Rightarrow> \<not> bb_can_resize base \<and> bb_cap base = cap))"

definition keeps :: "(cbb \<Rightarrow> bool \<times> cbb) \<Rightarrow> bool" where
  "keeps op \<longleftrightarrow> (\<forall>fixed c. cbb_inv fixed c \<longrightarrow> cbb_inv fixed (snd (op c)))"

named_theorems keeps_intros \<open>operations that keep the invariant\<close>

lemma keepsI: "(\<And>fixed c ok c'. cbb_inv fixed c \<Longrightarrow> op c = (ok, c') \<Longrightarrow> cbb_inv fixed c') \<Longrightarrow> keeps op"
  by (simp add: keeps_def) (metis prod.collapse)

lemma keepsD: "keeps op \<Longrightarrow> cbb_inv fixed c \<Longrightarrow> op c = (ok, c') \<Longrightarrow> cbb_inv fixed c'"
  unfolding keeps_def by (metis snd_conv)

lemma cbb_inv_base:
  assumes "cbb_inv fixed c" and "cbb_base c = Some base" and "buffer_ok base'" and "same_alloc base base'"
    and "bb_len base \<le> bb_len base'"
  shows "cbb_inv fixed (c\<lparr>cbb_base := Some base'\<rparr>)"
  using assms frames_ok_base [of c base base']
  by (auto simp: cbb_inv_def same_alloc_def split: option.splits)

lemma keeps_and_then: "keeps op1 \<Longrightarrow> keeps op2 \<Longrightarrow> keeps (and_then op1 op2)"
  by (rule keepsI) (auto elim!: and_then_cases dest: keepsD)

lemma keeps_flush [keeps_intros]: "keeps (CBB_flush d)"
proof (rule keepsI)
  fix fixed c ok c'
  assume c: "cbb_inv fixed c" and fl: "CBB_flush d c = (ok, c')"
  show "cbb_inv fixed c'"
  proof (cases "cbb_base c")
    case None
    with c fl show ?thesis by (simp add: CBB_flush_def)
  next
    case (Some base)
    show ?thesis
    proof (cases "d \<le> length (cbb_chain c)")
      case False
      with Some c fl show ?thesis by (simp add: CBB_flush_def)
    next
      case d: True
      obtain r base' gs where f: "flush_chain base (drop d (cbb_chain c)) = (r, base', gs)"
        by (cases "flush_chain base (drop d (cbb_chain c))")
      have ok: "cbb_ok c" "buffer_ok base" "frames_ok 0 (cbb_chain c) (bb_len base)"
        using c Some by (simp_all add: cbb_inv_def cbb_ok_def)
      from flush_chain_cases [OF ok(2) conjunct2 [OF frames_ok_drop [OF ok(3) d]] f]
      have "same_alloc base base'" by simp
      moreover have "cbb_base c' = Some base'" using fl Some d f by (auto simp: CBB_flush_def)
      moreover have "cbb_ok c'" using CBB_flush_cases [OF ok(1) fl] by simp
      ultimately show ?thesis using c Some
        by (auto simp: cbb_inv_def same_alloc_def split: option.splits)
    qed
  qed
qed

text \<open>Work on the buffer, after a flush.\<close>

definition buffer_keeps :: "(cbb_buffer \<Rightarrow> bool \<times> cbb_buffer) \<Rightarrow> bool" where
  "buffer_keeps g \<longleftrightarrow> (\<forall>base ok base'. buffer_ok base \<longrightarrow> g base = (ok, base') \<longrightarrow>
     buffer_ok base' \<and> same_alloc base base' \<and> bb_len base \<le> bb_len base')"

lemma buffer_keepsD:
  "buffer_keeps g \<Longrightarrow> buffer_ok base \<Longrightarrow> g base = (ok, base') \<Longrightarrow>
   buffer_ok base' \<and> same_alloc base base' \<and> bb_len base \<le> bb_len base'"
  unfolding buffer_keeps_def by blast

lemma keeps_after_flush:
  assumes "buffer_keeps g"
  shows "keeps (after_flush d g)"
proof (rule keepsI)
  fix fixed c ok c''
  assume c: "cbb_inv fixed c" and op: "after_flush d g c = (ok, c'')"
  from op show "cbb_inv fixed c''"
  proof (cases rule: after_flush_cases)
    case (3 c' base base')
    have c': "cbb_inv fixed c'" by (rule keepsD [OF keeps_flush c 3(1)])
    then have "buffer_ok base" using 3(2) by (simp add: cbb_inv_def cbb_ok_def)
    with buffer_keepsD [OF assms _ 3(3)] cbb_inv_base [OF c' 3(2)] show ?thesis unfolding 3(4) by blast
  qed (use keepsD [OF keeps_flush c] in auto)
qed

lemma buffer_keeps_error: "buffer_ok base \<Longrightarrow> buffer_ok (base\<lparr>bb_error := True\<rparr>)"
  by (simp add: buffer_ok_def)

lemma buffer_keeps_add:
  assumes "n < 2 ^ 64" and "buffer_ok base" and "cbb_buffer_add base n = (r, base')"
  shows "buffer_ok base' \<and> same_alloc base base' \<and> bb_len base \<le> bb_len base'"
proof (cases r)
  case None
  with assms(3) cbb_buffer_add_fail have "base' = base\<lparr>bb_error := True\<rparr>" by blast
  with assms(2) show ?thesis by (simp add: buffer_keeps_error)
next
  case (Some off)
  from cbb_buffer_add_Some [OF assms(2,1)] assms(3) Some show ?thesis by (metis le_add1)
qed

lemma buffer_keeps_append:
  assumes "length xs < 2 ^ 64"
  shows "buffer_keeps (buffer_append xs)"
  unfolding buffer_keeps_def
proof (intro allI impI)
  fix base ok base'
  assume b: "buffer_ok base" and r: "buffer_append xs base = (ok, base')"
  show "buffer_ok base' \<and> same_alloc base base' \<and> bb_len base \<le> bb_len base'"
  proof (cases ok)
    case True
    with buffer_append_True [OF b assms] r appended_len [OF b] show ?thesis by (auto simp: appended_def)
  next
    case False
    with r buffer_append_False [of xs base base'] have "base' = base\<lparr>bb_error := True\<rparr>" by simp
    with b show ?thesis by (simp add: buffer_keeps_error)
  qed
qed

lemma buffer_keeps_u: "0 < k \<Longrightarrow> k \<le> 8 \<Longrightarrow> buffer_keeps (\<lambda>base. cbb_buffer_add_u base v k)"
  unfolding buffer_keeps_def
proof (intro allI impI)
  fix base ok base'
  assume "0 < k" "k \<le> 8" and b: "buffer_ok base" and r: "cbb_buffer_add_u base v k = (ok, base')"
  from cbb_buffer_add_u_cases [OF b \<open>0 < k\<close> \<open>k \<le> 8\<close> r] appended_len [OF b]
  show "buffer_ok base' \<and> same_alloc base base' \<and> bb_len base \<le> bb_len base'"
    by (cases ok) (auto simp: appended_def)
qed

section \<open>Each operation\<close>

lemma keeps_add_bytes [keeps_intros]: "length xs < 2 ^ 64 \<Longrightarrow> keeps (CBB_add_bytes d xs)"
  unfolding CBB_add_bytes_def by (intro keeps_after_flush buffer_keeps_append)

lemma keeps_add_u [keeps_intros]:
  "keeps (CBB_add_u8 d a)" "keeps (CBB_add_u16 d b)" "keeps (CBB_add_u24 d e)" "keeps (CBB_add_u32 d e)"
  "keeps (CBB_add_u64 d f)" "keeps (CBB_add_u16le d b)" "keeps (CBB_add_u32le d e)" "keeps (CBB_add_u64le d f)"
  unfolding CBB_add_u8_def CBB_add_u16_def CBB_add_u24_def CBB_add_u32_def CBB_add_u64_def
    CBB_add_u16le_def CBB_add_u32le_def CBB_add_u64le_def
  by (intro keeps_after_flush buffer_keeps_u; simp)+

lemma keeps_add_space [keeps_intros]: "n < 2 ^ 64 \<Longrightarrow> keeps (CBB_add_space d n)"
  unfolding CBB_add_space_def
proof (rule keeps_after_flush, unfold buffer_keeps_def, intro allI impI)
  fix base ok base'
  assume n: "n < 2 ^ 64" and b: "buffer_ok base"
    and r: "(case cbb_buffer_add base n of (None, b) \<Rightarrow> (False, b) | (Some _, b) \<Rightarrow> (True, b)) = (ok, base')"
  then have "cbb_buffer_add base n = (fst (cbb_buffer_add base n), base')"
    by (cases "cbb_buffer_add base n") (auto split: option.splits)
  from buffer_keeps_add [OF n b this] show "buffer_ok base' \<and> same_alloc base base' \<and> bb_len base \<le> bb_len base'" .
qed

lemma keeps_reserve [keeps_intros]:
  assumes "n < 2 ^ 64"
  shows "keeps (CBB_reserve d n)"
proof -
  have "buffer_keeps (\<lambda>base. cbb_buffer_reserve base n)"
    unfolding buffer_keeps_def
  proof (intro allI impI)
    fix base ok base'
    assume b: "buffer_ok base" and r: "cbb_buffer_reserve base n = (ok, base')"
    show "buffer_ok base' \<and> same_alloc base base' \<and> bb_len base \<le> bb_len base'"
    proof (cases ok)
      case True
      with r have "cbb_buffer_reserve base n = (True, base')" by simp
      from cbb_buffer_reserve_ok [OF b assms this] obtain junk
        where "base' = base\<lparr>bb_buf := bb_buf base @ junk, bb_cap := bb_cap base + length junk\<rparr>"
          and "buffer_ok base'" and "\<not> bb_can_resize base \<Longrightarrow> junk = []" by blast
      then show ?thesis by (simp add: same_alloc_def)
    next
      case False
      with r have "cbb_buffer_reserve base n = (False, base')" by simp
      with cbb_buffer_reserve_fail have "base' = base\<lparr>bb_error := True\<rparr>" by blast
      with b show ?thesis by (simp add: buffer_keeps_error)
    qed
  qed
  then show ?thesis unfolding CBB_reserve_def by (rule keeps_after_flush)
qed

lemma keeps_did_write [keeps_intros]: "n < 2 ^ 64 \<Longrightarrow> keeps (CBB_did_write d n)"
proof (rule keepsI)
  fix fixed c ok c'
  assume n: "n < 2 ^ 64" and c: "cbb_inv fixed c" and op: "CBB_did_write d n c = (ok, c')"
  show "cbb_inv fixed c'"
  proof (cases "cbb_base c")
    case None
    with op c show ?thesis by (simp add: CBB_did_write_def)
  next
    case (Some base)
    show ?thesis
    proof (cases "c' = c")
      case False
      with op Some have c': "c' = c\<lparr>cbb_base := Some (base\<lparr>bb_len := size_add (bb_len base) n\<rparr>)\<rparr>"
        and le: "bb_len base \<le> size_add (bb_len base) n" "size_add (bb_len base) n \<le> bb_cap base"
        by (auto simp: CBB_did_write_def Let_def split: if_splits)
      have "buffer_ok base" using c Some by (simp add: cbb_inv_def cbb_ok_def)
      with le show ?thesis unfolding c'
        by (intro cbb_inv_base [OF c Some]) (simp_all add: buffer_ok_def)
    qed (use c in simp)
  qed
qed

lemma keeps_discard_child: "cbb_inv fixed c \<Longrightarrow> cbb_inv fixed (CBB_discard_child d c)"
proof (cases "cbb_base c")
  case None
  then show "cbb_inv fixed c \<Longrightarrow> ?thesis" by (simp add: CBB_discard_child_def)
next
  case (Some base)
  assume c: "cbb_inv fixed c"
  show ?thesis
  proof (cases "d < length (cbb_chain c)")
    case False
    with c Some show ?thesis by (simp add: CBB_discard_child_def)
  next
    case True
    have ok: "buffer_ok base" "frames_ok 0 (cbb_chain c) (bb_len base)"
      using c Some by (simp_all add: cbb_inv_def cbb_ok_def)
    let ?f = "cbb_chain c ! d"
    have "drop d (cbb_chain c) = ?f # drop (Suc d) (cbb_chain c)" using True by (simp add: Cons_nth_drop_Suc)
    with frames_ok_drop [OF ok(2), of d] True
    have f: "start_at 0 (cbb_chain c) d \<le> fr_offset ?f" "frames_ok (frame_end ?f) (drop (Suc d) (cbb_chain c)) (bb_len base)"
      by simp_all
    from frames_ok_le [OF f(2)] have "fr_offset ?f \<le> bb_len base" by (simp add: frame_end_def)
    moreover have "frames_ok 0 (take d (cbb_chain c)) (fr_offset ?f)"
      using frames_ok_replace [OF ok(2), of d "[]" "fr_offset ?f"] f(1) True by simp
    ultimately show ?thesis
      using c Some True ok(1) by (auto simp: CBB_discard_child_def cbb_inv_def cbb_ok_def buffer_ok_def split: option.splits)
  qed
qed

text \<open>Starting a child keeps the invariant: it is a flush, an append and a new frame.\<close>

lemma keeps_place:
  assumes op: "keeps op" and len: "\<And>c c'. cbb_ok c \<Longrightarrow> op c = (True, c') \<Longrightarrow> length (cbb_chain c') = d"
    and g: "buffer_appends gap g" "buffer_keeps g" and gap: "gap \<noteq> []" "is_asn1 \<longrightarrow> length gap = 1"
  shows "keeps (and_then op (place d g (length gap) is_asn1))"
proof (rule keepsI)
  fix fixed c ok c''
  assume c: "cbb_inv fixed c" and r: "and_then op (place d g (length gap) is_asn1) c = (ok, c'')"
  from r show "cbb_inv fixed c''"
  proof (cases rule: and_then_cases)
    case 1
    from keepsD [OF op c 1(1)] show ?thesis .
  next
    case (2 c')
    have c': "cbb_inv fixed c'" by (rule keepsD [OF op c 2(1)])
    have d: "length (cbb_chain c') = d" using len [OF _ 2(1)] c by (simp add: cbb_inv_def)
    show ?thesis
    proof (cases "cbb_base c'")
      case None
      with 2(2) c' show ?thesis by (simp add: place_def)
    next
      case (Some base)
      have ok: "cbb_ok c'" "buffer_ok base" using c' Some by (simp_all add: cbb_inv_def cbb_ok_def)
      obtain q base' where gb: "g base = (q, base')" by (cases "g base")
      have k: "buffer_ok base'" "same_alloc base base'" "bb_len base \<le> bb_len base'"
        using buffer_keepsD [OF g(2) ok(2) gb] by simp_all
      have inv: "cbb_inv fixed (c'\<lparr>cbb_base := Some base'\<rparr>)" by (rule cbb_inv_base [OF c' Some k])
      show ?thesis
      proof (cases q)
        case False
        with 2(2) Some gb inv show ?thesis by (simp add: place_def)
      next
        case True
        with 2(2) Some gb have c'': "c'' = push_frame d (bb_len base) (length gap) is_asn1 (c'\<lparr>cbb_base := Some base'\<rparr>)"
          by (simp add: place_def)
        have "appended base gap base'" using g(1) ok(2) gb True unfolding buffer_appends_def by fastforce
        from push_frame_state(1) [OF ok(1) Some d this gap c''] have "cbb_ok c''" .
        with inv show ?thesis by (simp add: cbb_inv_def c'' push_frame_def)
      qed
    qed
  qed
qed

lemma keeps_length_prefixed [keeps_intros]:
  "keeps (CBB_add_u8_length_prefixed d)" "keeps (CBB_add_u16_length_prefixed d)" "keeps (CBB_add_u24_length_prefixed d)"
proof -
  have "keeps (cbb_add_length_prefixed d k)" if "0 < k" "k < 2 ^ 64" for k
  proof -
    have "keeps (and_then (CBB_flush d) (place d (buffer_append (replicate k 0)) (length (replicate k (0 :: byte))) False))"
      using that appender.effect [OF appender_flush]
      by (intro keeps_place keeps_flush buffer_appends_append buffer_keeps_append) auto
    then show ?thesis unfolding cbb_add_length_prefixed_eq by simp
  qed
  then show "keeps (CBB_add_u8_length_prefixed d)" "keeps (CBB_add_u16_length_prefixed d)" "keeps (CBB_add_u24_length_prefixed d)"
    by (simp_all add: CBB_add_u8_length_prefixed_def CBB_add_u16_length_prefixed_def CBB_add_u24_length_prefixed_def)
qed

lemma keeps_skip: "keeps (\<lambda>c. (True, c))"
  by (simp add: keeps_def)

lemma keeps_base128_loop: "keeps (add_base128_loop d k v)"
proof (induction k)
  case 0
  have "add_base128_loop d 0 v = (\<lambda>c. (True, c))" by auto
  then show ?case using keeps_skip by simp
next
  case (Suc k)
  have "add_base128_loop d (Suc k) v = and_then (CBB_add_u8 d
      (if k \<noteq> 0 then (ucast (drop_bit (7 * k) v) AND 0x7f) OR 0x80 else ucast (drop_bit (7 * k) v) AND 0x7f))
      (add_base128_loop d k v)"
    by (rule ext) (simp add: and_then_def Let_def)
  then show ?case using keeps_and_then [OF keeps_add_u(1) Suc] by simp
qed

lemma keeps_base128: "keeps (add_base128_integer d v)"
  using keeps_base128_loop unfolding keeps_def by (simp add: add_base128_integer_def Let_def)

lemma keeps_tag: "keeps (add_asn1_tag d tag)"
proof -
  let ?bits = "ucast (drop_bit CBS_ASN1_TAG_SHIFT tag AND 0xe0) :: byte" and ?n = "tag AND CBS_ASN1_TAG_NUMBER_MASK"
  have "add_asn1_tag d tag = (if ?n \<ge> 0x1f
      then and_then (CBB_add_u8 d (?bits OR 0x1f)) (add_base128_integer d (ucast ?n))
      else CBB_add_u8 d (?bits OR ucast ?n))"
    by (rule ext) (simp add: add_asn1_tag_def and_then_def Let_def)
  then show ?thesis using keeps_and_then [OF keeps_add_u(1) keeps_base128] keeps_add_u(1) by simp
qed

lemma keeps_add_asn1 [keeps_intros]: "keeps (CBB_add_asn1 d tag)"
proof -
  let ?op = "and_then (CBB_flush d) (add_asn1_tag d tag)"
  have g: "buffer_appends [0] (\<lambda>base. cbb_buffer_add_u base 0 1)" using buffer_appends_u [of 1 0] by simp
  have "keeps (and_then ?op (place d (\<lambda>base. cbb_buffer_add_u base 0 1) (length [0 :: byte]) True))"
    using appender.effect [OF appender_and_then [OF appender_flush appender_tag]]
    by (intro keeps_place keeps_and_then keeps_flush keeps_tag g buffer_keeps_u) auto
  moreover have "CBB_add_asn1 d tag c = and_then ?op (place d (\<lambda>base. cbb_buffer_add_u base 0 1) 1 True) c"
    if "cbb_inv fixed c" for fixed c
    using CBB_add_asn1_eq that by (simp add: cbb_inv_def)
  ultimately show ?thesis unfolding keeps_def by fastforce
qed

lemma keeps_add_element:
  "keeps fill \<Longrightarrow> keeps (add_element d tag fill)"
  unfolding add_element_eq with_child_def by (intro keeps_and_then keeps_add_asn1 keeps_flush)

lemma keeps_uint64_loop: "keeps (add_uint64_loop d n started v)"
proof (induction n arbitrary: started)
  case 0
  have "add_uint64_loop d 0 started v = (if started then (\<lambda>c. (True, c)) else CBB_add_u8 d 0)" by auto
  then show ?case using keeps_skip keeps_add_u(1) by simp
next
  case (Suc n)
  have step: "add_uint64_loop d (Suc n) True v = and_then (CBB_add_u8 d (of_nat (unat v div 256 ^ n))) (add_uint64_loop d n True v)"
    by (rule ext) (rule uint64_started_step)
  have "keeps (add_uint64_loop d (Suc n) True v)"
    unfolding step by (rule keeps_and_then [OF keeps_add_u(1) Suc])
  moreover have "keeps (add_uint64_loop d (Suc n) False v)"
    unfolding uint64_first_step [OF refl]
    using Suc keeps_and_then [OF keeps_add_u(1) calculation] calculation by (simp del: add_uint64_loop.simps)
  ultimately show ?case by (cases started) (simp_all del: add_uint64_loop.simps)
qed

lemma keeps_union_loop: "keeps (add_union_loop d n v)"
proof (induction n)
  case 0
  have "add_union_loop d 0 v = (\<lambda>c. (True, c))" by auto
  then show ?case using keeps_skip by simp
next
  case (Suc n)
  have "add_union_loop d (Suc n) v = and_then (CBB_add_u8 d (union_byte v n)) (add_union_loop d n v)"
    by (rule ext) (simp add: and_then_def)
  then show ?case using keeps_and_then [OF keeps_add_u(1) Suc] by simp
qed

lemma keeps_asn1_values [keeps_intros]:
  "keeps (CBB_add_asn1_uint64 d v)" "keeps (CBB_add_asn1_int64 d v)" "keeps (CBB_add_asn1_bool d b)"
  "length data < 2 ^ 64 \<Longrightarrow> keeps (CBB_add_asn1_octet_string d data)"
  unfolding CBB_add_asn1_uint64_def CBB_add_asn1_int64_def CBB_add_asn1_bool_def CBB_add_asn1_octet_string_def
  by (simp_all add: keeps_add_element keeps_uint64_loop keeps_union_loop keeps_add_u keeps_add_bytes)

lemma keeps_oid_components: "cbb_inv fixed c \<Longrightarrow> cbb_inv fixed (snd (add_oid_components d cbs c))"
proof (induction d cbs c rule: add_oid_components.induct)
  case (1 d cbs c)
  show ?case
  proof (cases "length cbs = 0")
    case True
    then show ?thesis using "1.prems" by (simp add: add_oid_components.simps)
  next
    case False
    obtain r cbs' where p: "parse_dotted_decimal cbs = (r, cbs')" by (cases "parse_dotted_decimal cbs")
    show ?thesis
    proof (cases r)
      case None
      then show ?thesis using "1.prems" False p by (simp add: add_oid_components.simps)
    next
      case (Some a)
      obtain ok c' where b: "add_base128_integer d a c = (ok, c')" by (cases "add_base128_integer d a c")
      have c': "cbb_inv fixed c'" by (rule keepsD [OF keeps_base128 "1.prems" b])
      show ?thesis
        using "1.IH" [OF False p [symmetric] Some b [symmetric] _ c'] False p Some b c'
        by (cases ok) (simp_all add: add_oid_components.simps [of d cbs])
    qed
  qed
qed

lemma keeps_oid_from_text [keeps_intros]: "keeps (CBB_add_asn1_oid_from_text d txt)"
proof -
  have "keeps (\<lambda>c1. case parse_dotted_decimal txt of
        (None, _) \<Rightarrow> (False, c1)
      | (Some a, cbs) \<Rightarrow>
     (case parse_dotted_decimal cbs of
        (None, _) \<Rightarrow> (False, c1)
      | (Some b, cbs) \<Rightarrow>
          if a > 2 \<or> (a < 2 \<and> b > 39) \<or> b > 0xffffffffffffffff - 80 then (False, c1)
          else case add_base128_integer d (40 * a + b) c1 of
                 (False, c2) \<Rightarrow> (False, c2)
               | (True, c2) \<Rightarrow> add_oid_components d cbs c2))" (is "keeps ?rest")
  proof (rule keepsI)
    fix fixed c ok c'
    assume c: "cbb_inv fixed c" and r: "?rest c = (ok, c')"
    obtain q1 cbs1 where p1: "parse_dotted_decimal txt = (q1, cbs1)" by (cases "parse_dotted_decimal txt")
    show "cbb_inv fixed c'"
    proof (cases q1)
      case None
      then show ?thesis using r c p1 by simp
    next
      case (Some a)
      obtain q2 cbs2 where p2: "parse_dotted_decimal cbs1 = (q2, cbs2)" by (cases "parse_dotted_decimal cbs1")
      show ?thesis
      proof (cases "q2 = None \<or> a > 2 \<or> (a < 2 \<and> the q2 > 39) \<or> the q2 > 0xffffffffffffffff - 80")
        case True
        then show ?thesis using r c p1 p2 Some by (auto split: option.splits)
      next
        case False
        then obtain b where b: "q2 = Some b" by auto
        obtain ok2 c2 where ab: "add_base128_integer d (40 * a + b) c = (ok2, c2)"
          by (cases "add_base128_integer d (40 * a + b) c")
        have c2: "cbb_inv fixed c2" by (rule keepsD [OF keeps_base128 c ab])
        have "(ok, c') = (if ok2 then add_oid_components d cbs2 c2 else (False, c2))"
          using r False b p1 p2 Some ab by (cases ok2) auto
        then show ?thesis using c2 keeps_oid_components [OF c2, of d cbs2]
          by (cases ok2) (auto dest: sym)
      qed
    qed
  qed
  from keeps_and_then [OF keeps_flush [of d] this] show ?thesis
    by (simp add: keeps_def and_then_def CBB_add_asn1_oid_from_text_def)
qed

lemma get_children_length: "get_children n cbs = Some xs \<Longrightarrow> x \<in> set xs \<Longrightarrow> length x \<le> length cbs"
proof (induction n arbitrary: cbs xs)
  case 0
  then show ?case by simp
next
  case (Suc n)
  from Suc.prems(1) obtain child tag h cbs' ys where e: "CBS_get_any_asn1_element cbs = (Some (child, tag, h), cbs')"
    and ys: "get_children n cbs' = Some ys" "xs = child # ys"
    by (auto split: prod.splits option.splits)
  from CBS_get_any_asn1_element_sound [OF e] have "cbs = child @ cbs'" by blast
  with Suc.IH [OF ys(1)] Suc.prems(2) ys(2) show ?case by auto
qed

lemma keeps_add_children: "\<forall>x \<in> set xs. length x < 2 ^ 64 \<Longrightarrow> keeps (add_children d xs)"
proof (induction xs)
  case Nil
  have "add_children d [] = (\<lambda>c. (True, c))" by auto
  then show ?case using keeps_skip by simp
next
  case (Cons x xs)
  have "add_children d (x # xs) = and_then (CBB_add_bytes d x) (add_children d xs)"
    by (rule ext) (simp add: and_then_def)
  then show ?case using keeps_and_then [OF keeps_add_bytes] Cons by simp
qed

lemma keeps_rewind:
  assumes "cbb_inv fixed c" and "cbb_base c = Some base" and "length (cbb_chain c) = d"
  shows "cbb_inv fixed (c\<lparr>cbb_base := Some (base\<lparr>bb_len := frame_start c d\<rparr>)\<rparr>)"
proof -
  have ok: "buffer_ok base" "frames_ok 0 (cbb_chain c) (bb_len base)"
    using assms(1,2) by (simp_all add: cbb_inv_def cbb_ok_def)
  have "frame_start c d \<le> bb_len base"
    using frames_ok_drop [OF ok(2), of d] assms(3) by (simp add: frame_start_at)
  moreover have "frames_ok 0 (cbb_chain c) (frame_start c d)"
    using frames_ok_replace [OF ok(2), of d "[]" "frame_start c d"] assms(3) by (simp add: frame_start_at)
  ultimately show ?thesis
    using assms(1,2) ok(1) by (auto simp: cbb_inv_def cbb_ok_def buffer_ok_def split: option.splits)
qed

lemma CBB_data_short: "cbb_inv fixed c \<Longrightarrow> length (CBB_data d c) < 2 ^ 64"
  by (auto simp: cbb_inv_def cbb_ok_def buffer_ok_def CBB_data_def split: option.splits)

lemma keeps_set_of [keeps_intros]: "keeps (CBB_flush_asn1_set_of d)"
proof (rule keepsI)
  fix fixed c ok c'
  assume c: "cbb_inv fixed c" and op: "CBB_flush_asn1_set_of d c = (ok, c')"
  obtain ok1 c1 where fl: "CBB_flush d c = (ok1, c1)" by (cases "CBB_flush d c")
  have c1: "cbb_inv fixed c1" by (rule keepsD [OF keeps_flush c fl])
  show "cbb_inv fixed c'"
  proof (cases "c' = c1")
    case False
    with op fl obtain base n children where r: "ok1" "cbb_base c1 = Some base"
      "get_children n (CBB_data d c1) = Some children"
      "add_children d (qsort compare_set_of_element children)
        (c1\<lparr>cbb_base := Some (base\<lparr>bb_len := frame_start c1 d\<rparr>)\<rparr>) = (ok, c')"
      by (auto simp: CBB_flush_asn1_set_of_def split: bool.splits option.splits if_splits)
    have "length (cbb_chain c1) = d"
      using CBB_flush_cases [of c d ok1 c1] c fl r(1) by (simp add: cbb_inv_def)
    from keeps_rewind [OF c1 r(2) this]
    have "cbb_inv fixed (c1\<lparr>cbb_base := Some (base\<lparr>bb_len := frame_start c1 d\<rparr>)\<rparr>)" .
    moreover have "keeps (add_children d (qsort compare_set_of_element children))"
      using get_children_length [OF r(3)] CBB_data_short [OF c1, of d]
      by (intro keeps_add_children) (auto intro: le_less_trans)
    ultimately show ?thesis using r(4) keepsD by blast
  qed (use c1 in simp)
qed

section \<open>The state machine\<close>

text \<open>
  One step is one call. The byte strings that a caller passes lie in memory, so they are
  shorter than \<open>2 ^ 64\<close>.
\<close>

inductive cbb_call :: "(cbb \<Rightarrow> bool \<times> cbb) \<Rightarrow> bool" where
  flush: "cbb_call (CBB_flush d)"
| add_bytes: "length xs < 2 ^ 64 \<Longrightarrow> cbb_call (CBB_add_bytes d xs)"
| add_space: "n < 2 ^ 64 \<Longrightarrow> cbb_call (CBB_add_space d n)"
| reserve: "n < 2 ^ 64 \<Longrightarrow> cbb_call (CBB_reserve d n)"
| did_write: "n < 2 ^ 64 \<Longrightarrow> cbb_call (CBB_did_write d n)"
| add_u8: "cbb_call (CBB_add_u8 d a)"
| add_u16: "cbb_call (CBB_add_u16 d b)"
| add_u16le: "cbb_call (CBB_add_u16le d b)"
| add_u24: "cbb_call (CBB_add_u24 d e)"
| add_u32: "cbb_call (CBB_add_u32 d e)"
| add_u32le: "cbb_call (CBB_add_u32le d e)"
| add_u64: "cbb_call (CBB_add_u64 d f)"
| add_u64le: "cbb_call (CBB_add_u64le d f)"
| u8_child: "cbb_call (CBB_add_u8_length_prefixed d)"
| u16_child: "cbb_call (CBB_add_u16_length_prefixed d)"
| u24_child: "cbb_call (CBB_add_u24_length_prefixed d)"
| asn1_child: "cbb_call (CBB_add_asn1 d tag)"
| asn1_uint64: "cbb_call (CBB_add_asn1_uint64 d f)"
| asn1_int64: "cbb_call (CBB_add_asn1_int64 d f)"
| asn1_octet_string: "length xs < 2 ^ 64 \<Longrightarrow> cbb_call (CBB_add_asn1_octet_string d xs)"
| asn1_bool: "cbb_call (CBB_add_asn1_bool d t)"
| asn1_oid_from_text: "cbb_call (CBB_add_asn1_oid_from_text d xs)"
| set_of: "cbb_call (CBB_flush_asn1_set_of d)"

inductive cbb_step :: "cbb \<Rightarrow> cbb \<Rightarrow> bool" where
  call: "cbb_call op \<Longrightarrow> op c = (ok, c') \<Longrightarrow> cbb_step c c'"
| discard_child: "cbb_step c (CBB_discard_child d c)"

inductive_cases cbb_stepE [elim]: "cbb_step c c'"

lemma cbb_call_keeps: "cbb_call op \<Longrightarrow> keeps op"
  by (induction rule: cbb_call.induct) (simp_all add: keeps_intros)

lemma cbb_step_inv: "cbb_step c c' \<Longrightarrow> cbb_inv fixed c \<Longrightarrow> cbb_inv fixed c'"
  by (erule cbb_stepE) (auto dest: cbb_call_keeps keepsD intro: keeps_discard_child)

lemma cbb_steps_inv: "cbb_step\<^sup>*\<^sup>* c c' \<Longrightarrow> cbb_inv fixed c \<Longrightarrow> cbb_inv fixed c'"
  by (induction rule: rtranclp_induct) (auto dest: cbb_step_inv)

end
