(* ===== verification/Cbb_Props.thy ===== *)
theory Cbb_Props
  imports Cbb_Steps
begin

text \<open>
  The properties of the byte string builder: what a flush does, what every operation keeps,
  that errors stay, and that what is built is read back by the reader.
\<close>

section \<open>Whole builds\<close>

text \<open>A client: initialise, add, finish. \<open>None\<close> when any of the calls fails.\<close>

definition build :: "(nat \<Rightarrow> bool) \<Rightarrow> byte \<Rightarrow> nat \<Rightarrow> (cbb \<Rightarrow> bool \<times> cbb) \<Rightarrow> bytes option" where
  "build alloc fresh cap op =
     (case CBB_init alloc fresh cap of
        (False, _) \<Rightarrow> None
      | (True, c) \<Rightarrow>
          (case op c of
             (False, _) \<Rightarrow> None
           | (True, c') \<Rightarrow> (case CBB_finish 0 True True c' of (True, out, _, _) \<Rightarrow> out | (False, _) \<Rightarrow> None)))"

lemma CBB_init_ok:
  assumes "CBB_init alloc fresh cap = (True, c)" and "cap < 2 ^ 64"
  shows "cbb_inv None c" and "cbb_abs c = ([], [])" and "(\<forall>m. alloc m) \<Longrightarrow> n < 2 ^ 64 \<Longrightarrow> room 0 n c"
proof -
  from assms(1) have c: "c = \<lparr>cbb_base = Some \<lparr>bb_buf = replicate cap fresh, bb_len = 0, bb_cap = cap,
      bb_can_resize = True, bb_error = False, bb_alloc = alloc, bb_fresh = fresh\<rparr>, cbb_chain = []\<rparr>"
    by (auto simp: CBB_init_def cbb_init_def split: if_splits)
  show "cbb_inv None c" using assms(2) by (simp add: c cbb_inv_def cbb_ok_def buffer_ok_def)
  show "cbb_abs c = ([], [])" by (simp add: c cbb_abs_def contents_def)
  assume "\<forall>m. alloc m" and n: "n < 2 ^ 64"
  then have a: "All alloc = True" by blast
  show "room 0 n c" using n by (simp add: c a room_def has_room_def cbb_abs_def)
qed

lemma CBB_finish_True:
  assumes "cbb_ok c" and "CBB_finish 0 True True c = (True, out, n, c')"
  shows "\<exists>bs. collapse (fst (cbb_abs c)) (snd (cbb_abs c)) = Some bs \<and> out = Some bs \<and> n = Some (length bs)"
proof -
  from assms(2) obtain c1 base where fl: "CBB_flush 0 c = (True, c1)" and b: "cbb_base c1 = Some base"
    and out: "out = Some (contents base)" "n = Some (bb_len base)"
    by (auto simp: CBB_finish_def contents_def split: prod.splits bool.splits option.splits if_splits)
  note f = CBB_flush_cases [OF assms(1) fl]
  have "cbb_chain c1 = []" "buffer_ok base" using f b by (auto simp: cbb_ok_def)
  then have "cbb_abs c1 = (contents base, [])" "length (contents base) = bb_len base"
    using b by (simp_all add: cbb_abs_def)
  with f out show ?thesis by (cases "cbb_abs c") auto
qed

lemma CBB_finish_success:
  assumes "cbb_ok c" and "room 0 0 c"
  shows "fst (CBB_finish 0 True True c)"
proof -
  obtain r c1 where fl: "CBB_flush 0 c = (r, c1)" by (cases "CBB_flush 0 c")
  with CBB_flush_cases [OF assms(1) fl] assms(2) have "r" "healthy c1" by (cases r; simp)+
  with fl show ?thesis by (auto simp: CBB_finish_def healthy_def split: option.splits)
qed

text \<open>When memory does not run out, a build returns what its operation appends.\<close>

lemma build_appender:
  assumes "appender 0 m xs op" and "\<forall>k. alloc k" and "m < 2 ^ 64" and "cap < 2 ^ 64"
  shows "build alloc fresh cap op = Some xs"
proof -
  obtain c where i: "CBB_init alloc fresh cap = (True, c)"
    using assms(2) by (simp add: CBB_init_def cbb_init_def)
  note c = CBB_init_ok [OF i assms(4)]
  have ok: "cbb_ok c" using c(1) by (simp add: cbb_inv_def)
  have "room 0 (m + 0) c" using c(3) [OF assms(2,3)] by simp
  from appender.succeeds [OF assms(1) ok this] obtain c1
    where c1: "op c = (True, c1)" "cbb_ok c1" "room 0 0 c1"
      and abs: "map_option (append_last xs) (collapse_at 0 (cbb_abs c)) = Some (cbb_abs c1)" by blast
  have "cbb_abs c1 = (xs, [])" using abs c(2) by simp
  moreover obtain out n c2 where f: "CBB_finish 0 True True c1 = (True, out, n, c2)"
    using CBB_finish_success [OF c1(2,3)] by (cases "CBB_finish 0 True True c1") auto
  ultimately have "out = Some xs" using CBB_finish_True [OF c1(2) f] by simp
  with i c1(1) f show ?thesis by (simp add: build_def)
qed

section \<open>Errors stay\<close>

definition failed :: "cbb \<Rightarrow> bool" where
  "failed c \<longleftrightarrow> (\<exists>base. cbb_base c = Some base \<and> bb_error base)"

lemma failed_flush: "failed c \<Longrightarrow> d \<le> length (cbb_chain c) \<Longrightarrow> CBB_flush d c = (False, c)"
  by (cases c; cases "drop d (cbb_chain c)") (auto simp: failed_def CBB_flush_def, metis append_take_drop_id)

lemma failed_flush': "failed c \<Longrightarrow> CBB_flush d c = (False, c)"
  by (cases "d \<le> length (cbb_chain c)") (auto simp: failed_flush, auto simp: failed_def CBB_flush_def)

lemma failed_call: "cbb_call op \<Longrightarrow> failed c \<Longrightarrow> failed (snd (op c))"
  by (induction rule: cbb_call.induct)
    (simp_all add: failed_flush' CBB_add_bytes_def after_flush_def CBB_add_space_def CBB_reserve_def
      CBB_add_u8_def CBB_add_u16_def CBB_add_u24_def CBB_add_u32_def CBB_add_u64_def CBB_add_u16le_def
      CBB_add_u32le_def CBB_add_u64le_def CBB_add_u8_length_prefixed_def CBB_add_u16_length_prefixed_def
      CBB_add_u24_length_prefixed_def cbb_add_length_prefixed_def CBB_add_asn1_def CBB_add_asn1_uint64_def
      CBB_add_asn1_int64_def CBB_add_asn1_octet_string_def CBB_add_asn1_bool_def add_element_def
      CBB_add_asn1_oid_from_text_def CBB_flush_asn1_set_of_def, auto simp: CBB_did_write_def failed_def Let_def)

lemma failed_step: "cbb_step c c' \<Longrightarrow> failed c \<Longrightarrow> failed c'"
proof (erule cbb_stepE)
  fix op ok
  assume "failed c" and "cbb_call op" and "op c = (ok, c')"
  with failed_call [of op c] show "failed c'" by simp
next
  fix d
  assume "failed c" and "c' = CBB_discard_child d c"
  then show "failed c'" by (auto simp: failed_def CBB_discard_child_def)
qed

lemma failed_steps: "cbb_step\<^sup>*\<^sup>* c c' \<Longrightarrow> failed c \<Longrightarrow> failed c'"
  by (induction rule: rtranclp_induct) (auto dest: failed_step)

section \<open>Properties\<close>

text \<open>
  C1. A successful \<^verbatim>\<open>CBB_flush\<close> on any object of a well-formed chain closes exactly the
  children below it, innermost first: each child's contents stay the same and its length goes
  in front of them (in DER form for an ASN.1 child, whose contents the code moves to make
  space). The result is well formed again.
\<close>

theorem CBB_flush_refines:
  assumes "cbb_ok c" and "CBB_flush d c = (True, c')"
  shows "collapse_at d (cbb_abs c) = Some (cbb_abs c') \<and> cbb_ok c' \<and> length (cbb_chain c') = d"
  using CBB_flush_cases [OF assms] by simp

definition example_cbb :: cbb where
  "example_cbb = \<lparr>cbb_base = Some \<lparr>bb_buf = [7, 0, 9, 9, 0], bb_len = 4, bb_cap = 5, bb_can_resize = False,
     bb_error = False, bb_alloc = (\<lambda>_. False), bb_fresh = 0\<rparr>,
   cbb_chain = [\<lparr>fr_offset = 1, fr_pending_len_len = 1, fr_pending_is_asn1 = True\<rparr>]\<rparr>"

theorem CBB_flush_refines_witness:
  "collapse_at 0 (cbb_abs example_cbb) = Some ([7, 2, 9, 9], [])"
proof -
  have ok: "cbb_ok example_cbb"
    by (simp add: example_cbb_def cbb_ok_def buffer_ok_def frame_ok_def frame_end_def)
  have fl: "CBB_flush 0 example_cbb = (True, snd (CBB_flush 0 example_cbb))"
    by (simp add: example_cbb_def CBB_flush_def flush_child_def flush_prefix_def asn1_length_form_def size_add_def Let_def)
  have "cbb_abs (snd (CBB_flush 0 example_cbb)) = ([7, 2, 9, 9], [])"
    by (simp add: example_cbb_def CBB_flush_def flush_child_def flush_prefix_def asn1_length_form_def
        size_add_def Let_def cbb_abs_def contents_def)
  with CBB_flush_refines [OF ok fl] show ?thesis by simp
qed

text \<open>
  C3. Memory safety of a fixed buffer: after \<^verbatim>\<open>CBB_init_fixed\<close> and any calls on it, in any
  order, failed ones included, the buffer is still the caller's, of its size, the string lies
  inside it, and the state is well formed.
\<close>

theorem fixed_buffer_never_overrun:
  assumes "CBB_init_fixed alloc fresh buf = (True, c)" and "length buf < 2 ^ 64" and "cbb_step\<^sup>*\<^sup>* c c'"
  shows "cbb_ok c' \<and> (case cbb_base c' of
     None \<Rightarrow> True
   | Some base \<Rightarrow> length (bb_buf base) = length buf \<and> bb_cap base = length buf \<and> bb_len base \<le> length buf)"
proof -
  from assms(1,2) have "cbb_inv (Some (length buf)) c"
    by (auto simp: CBB_init_fixed_def cbb_init_def cbb_inv_def cbb_ok_def buffer_ok_def split: if_splits)
  then have "cbb_inv (Some (length buf)) c'" by (rule cbb_steps_inv [OF assms(3)])
  then show ?thesis by (auto simp: cbb_inv_def cbb_ok_def buffer_ok_def split: option.splits)
qed

theorem fixed_buffer_never_overrun_witness:
  "\<exists>c c'. CBB_init_fixed (\<lambda>_. True) 0 [1, 2] = (True, c) \<and> cbb_step\<^sup>*\<^sup>* c c' \<and> cbb_ok c'"
proof -
  let ?c = "snd (CBB_init_fixed (\<lambda>_. True) 0 [1, 2 :: byte])"
  have i: "CBB_init_fixed (\<lambda>_. True) 0 [1, 2] = (True, ?c)"
    by (simp add: CBB_init_fixed_def cbb_init_def)
  have "cbb_step ?c (snd (CBB_add_u32 0 5 ?c))"
    by (rule cbb_step.call [OF cbb_call.add_u32 [of 0 5] prod.collapse [symmetric]])
  then have s: "cbb_step\<^sup>*\<^sup>* ?c (snd (CBB_add_u32 0 5 ?c))" by simp
  have "cbb_ok (snd (CBB_add_u32 0 5 ?c))"
    using fixed_buffer_never_overrun [OF i _ s] by simp
  with i s show ?thesis by blast
qed

text \<open>
  C15. Once the buffer has hit an error, no later call clears it: whatever is called next,
  \<^verbatim>\<open>CBB_finish\<close> refuses to hand the string out, so a client may check the last call only.
\<close>

theorem error_is_sticky:
  assumes "failed c" and "cbb_step\<^sup>*\<^sup>* c c'"
  shows "failed c' \<and> \<not> fst (CBB_finish d out_data out_len c')"
proof -
  have "failed c'" by (rule failed_steps [OF assms(2,1)])
  then show ?thesis by (simp add: CBB_finish_def failed_flush')
qed

theorem error_is_sticky_witness:
  "\<exists>c. CBB_add_u16 0 1 c = (False, c) \<and> \<not> fst (CBB_finish 0 True True c)"
proof -
  let ?c = "\<lparr>cbb_base = Some \<lparr>bb_buf = [0], bb_len = 0, bb_cap = 1, bb_can_resize = False,
     bb_error = True, bb_alloc = (\<lambda>_. False), bb_fresh = 0\<rparr>, cbb_chain = []\<rparr>"
  have "failed ?c" by (simp add: failed_def)
  then have "\<not> fst (CBB_finish 0 True True ?c)" using error_is_sticky [OF _ rtranclp.rtrancl_refl] by blast
  moreover have "CBB_add_u16 0 1 ?c = (False, ?c)"
    using failed_flush' [OF \<open>failed ?c\<close>] by (simp add: CBB_add_u16_def after_flush_def)
  ultimately show ?thesis by blast
qed

text \<open>
  C13. \<^verbatim>\<open>CBS_get_asn1_int64\<close> accepts exactly the \<^verbatim>\<open>INTEGER\<close>s whose contents are the shortest
  two's-complement form of a 64-bit value, and returns that value.
\<close>

theorem CBS_get_asn1_int64_canonical:
  "CBS_get_asn1_int64 s = (Some v, r) \<longleftrightarrow>
   (\<exists>body. s = der_element CBS_ASN1_INTEGER body @ r \<and> minimal_tc body \<and> length body \<le> 8 \<and> tc_val body = sint v)"
  by (rule CBS_get_asn1_int64_iff)

text \<open>
  C6. A 64-bit value written with \<^verbatim>\<open>CBB_add_asn1_uint64\<close> or \<^verbatim>\<open>CBB_add_asn1_int64\<close> into a new
  \<^verbatim>\<open>CBB\<close> is built (memory permitting) and read back by \<^verbatim>\<open>CBS_get_asn1_uint64\<close> and
  \<^verbatim>\<open>CBS_get_asn1_int64\<close>, whatever follows it.
\<close>

theorem asn1_integers_roundtrip:
  "map_option (\<lambda>out. CBS_get_asn1_uint64 (out @ r)) (build (\<lambda>_. True) fresh 16 (CBB_add_asn1_uint64 0 v)) = Some (Some v, r)
   \<and> map_option (\<lambda>out. CBS_get_asn1_int64 (out @ r)) (build (\<lambda>_. True) fresh 16 (CBB_add_asn1_int64 0 v)) = Some (Some v, r)"
proof
  have "build (\<lambda>_. True) fresh 16 (CBB_add_asn1_uint64 0 v) = Some (der_element CBS_ASN1_INTEGER (uint64_body v))"
    by (rule build_appender [OF appender_uint64]) simp_all
  moreover have "CBS_get_asn1_uint64 (der_element CBS_ASN1_INTEGER (uint64_body v) @ r) = (Some v, r)"
    unfolding CBS_get_asn1_uint64_iff using uint64_body_spec [of v] by (intro exI [of _ "uint64_body v"]) simp
  ultimately show "map_option (\<lambda>out. CBS_get_asn1_uint64 (out @ r))
      (build (\<lambda>_. True) fresh 16 (CBB_add_asn1_uint64 0 v)) = Some (Some v, r)" by simp
next
  have "build (\<lambda>_. True) fresh 16 (CBB_add_asn1_int64 0 v) = Some (der_element CBS_ASN1_INTEGER (int64_body v))"
    by (rule build_appender [OF appender_int64]) simp_all
  moreover have "length (int64_body v) \<le> 8"
    using int64_body_length by simp
  then have "CBS_get_asn1_int64 (der_element CBS_ASN1_INTEGER (int64_body v) @ r) = (Some v, r)"
    unfolding CBS_get_asn1_int64_iff using int64_body_spec [of v] by (intro exI [of _ "int64_body v"]) simp
  ultimately show "map_option (\<lambda>out. CBS_get_asn1_int64 (out @ r))
      (build (\<lambda>_. True) fresh 16 (CBB_add_asn1_int64 0 v)) = Some (Some v, r)" by simp
qed

text \<open>
  C7. Every element built with \<^verbatim>\<open>CBB_add_asn1\<close>, whatever its tag, and filled by any function
  that appends bytes, is read back by \<^verbatim>\<open>CBS_get_asn1\<close> with the same tag and contents.
\<close>

theorem asn1_element_roundtrip:
  assumes "appender 1 m body fill" and "length body \<le> 0xfffffffe" and "m < 2 ^ 32"
  shows "\<exists>out. build (\<lambda>_. True) fresh 0 (add_element 0 tag fill) = Some out \<and>
    CBS_get_asn1 tag (out @ r) = (Some body, r) \<and> CBS_get_any_asn1 (out @ r) = (Some (body, tag), r)"
proof (intro exI conjI)
  have "m < 4294967296" using assms(3) by simp
  then have room: "length (der_tag tag) + m + 5 < 2 ^ 64" using der_tag_length(2) [of tag] by simp
  have "appender (0 + 1) m body fill" using assms(1) by simp
  from build_appender [OF appender_add_element [OF this assms(2)] _ room]
  show "build (\<lambda>_. True) fresh 0 (add_element 0 tag fill) = Some (der_element tag body)" by simp
  have "length body < 2 ^ 32" using assms(2) by simp
  then show "CBS_get_asn1 tag (der_element tag body @ r) = (Some body, r)"
    "CBS_get_any_asn1 (der_element tag body @ r) = (Some (body, tag), r)"
    by (simp_all add: CBS_get_asn1_der CBS_get_any_asn1_der)
qed

theorem asn1_element_roundtrip_witness:
  "\<exists>out. build (\<lambda>_. True) 0 0 (add_element 0 0x80000063 (CBB_add_u16 1 0x1234)) = Some out \<and>
    CBS_get_asn1 0x80000063 (out @ [9]) = (Some [0x12, 0x34], [9])"
proof -
  have "be_bytes 2 (unat (0x1234 :: u16)) = [0x12, 0x34]" by (rule be_bytes_unique) simp_all
  then have "appender 1 2 [0x12, 0x34] (CBB_add_u16 1 0x1234)"
    using add_u16.appender_axioms [of 1 "0x1234"] by (simp only:)
  from asn1_element_roundtrip [OF this, where fresh = 0 and tag = "0x80000063" and r = "[9]"] show ?thesis by auto
qed

end
