(* ===== verification/Unicode.thy ===== *)
theory Unicode
  imports Cbb_Props
begin

text \<open>
  \<^verbatim>\<open>crypto/bytestring/unicode.c\<close>: reading and writing code points in UTF-8, Latin-1, UCS-2 and
  UTF-32. The specification of UTF-8 is arithmetic on the code point; the reader accepts
  exactly the encodings of valid code points, in their shortest form, and the writer produces
  them.
\<close>

section \<open>The code\<close>

definition is_valid_code_point :: "u32 \<Rightarrow> bool" where
  "is_valid_code_point v \<longleftrightarrow>
     \<not> (v > 0x10ffff \<or> v AND 0xfffe = 0xfffe \<or> (v \<ge> 0xfdd0 \<and> v \<le> 0xfdef) \<or> (v \<ge> 0xd800 \<and> v \<le> 0xdfff))"

text \<open>The macros \<^verbatim>\<open>BOTTOM_BITS\<close> and \<^verbatim>\<open>TOP_BITS\<close>.\<close>

definition BOTTOM_BITS :: "nat \<Rightarrow> byte" where
  "BOTTOM_BITS n = ucast (push_bit n 1 - 1 :: u32)"

definition TOP_BITS :: "nat \<Rightarrow> byte" where
  "TOP_BITS n = NOT (BOTTOM_BITS (8 - n))"

text \<open>The loop over the continuation bytes.\<close>

fun utf8_loop :: "nat \<Rightarrow> u32 \<Rightarrow> u32 reader" where
  "utf8_loop 0 v cbs = (Some v, cbs)"
| "utf8_loop (Suc n) v cbs =
     (case CBS_get_u8 cbs of
        (None, r) \<Rightarrow> (None, r)
      | (Some c, r) \<Rightarrow>
          if c AND TOP_BITS 2 \<noteq> TOP_BITS 1 then (None, r)
          else utf8_loop n (push_bit 6 v OR ucast (c AND BOTTOM_BITS 6)) r)"

definition cbs_get_utf8 :: "u32 reader" where
  "cbs_get_utf8 cbs =
     (case CBS_get_u8 cbs of
        (None, r) \<Rightarrow> (None, r)
      | (Some c, r) \<Rightarrow>
          if c \<le> 0x7f then (Some (ucast c), r)
          else case (if c AND TOP_BITS 3 = TOP_BITS 2 then Some (ucast (c AND BOTTOM_BITS 5) :: u32, 1, 0x80)
                     else if c AND TOP_BITS 4 = TOP_BITS 3 then Some (ucast (c AND BOTTOM_BITS 4), 2, 0x800)
                     else if c AND TOP_BITS 5 = TOP_BITS 4 then Some (ucast (c AND BOTTOM_BITS 3), 3, 0x10000)
                     else None) of
                 None \<Rightarrow> (None, r)
               | Some (v0, len, lower_bound) \<Rightarrow>
                   (case utf8_loop len v0 r of
                      (None, r') \<Rightarrow> (None, r')
                    | (Some v, r') \<Rightarrow>
                        if \<not> is_valid_code_point v \<or> v < lower_bound then (None, r') else (Some v, r')))"

definition cbs_get_latin1 :: "u32 reader" where
  "cbs_get_latin1 cbs = (case CBS_get_u8 cbs of (None, r) \<Rightarrow> (None, r) | (Some c, r) \<Rightarrow> (Some (ucast c), r))"

definition cbs_get_ucs2_be :: "u32 reader" where
  "cbs_get_ucs2_be cbs =
     (case CBS_get_u16 cbs of
        (None, r) \<Rightarrow> (None, r)
      | (Some c, r) \<Rightarrow> if \<not> is_valid_code_point (ucast c) then (None, r) else (Some (ucast c), r))"

definition cbs_get_utf32_be :: "u32 reader" where
  "cbs_get_utf32_be cbs =
     (case CBS_get_u32 cbs of
        (None, r) \<Rightarrow> (None, r)
      | (Some u, r) \<Rightarrow> if is_valid_code_point u then (Some u, r) else (None, r))"

definition cbb_get_utf8_len :: "u32 \<Rightarrow> nat" where
  "cbb_get_utf8_len u = (if u \<le> 0x7f then 1 else if u \<le> 0x7ff then 2 else if u \<le> 0xffff then 3 else 4)"

text \<open>One byte of the encoding: the marker bits and six bits of the code point.\<close>

definition utf8_byte :: "byte \<Rightarrow> u32 \<Rightarrow> byte" where
  "utf8_byte marker bits = ucast (ucast marker OR bits)"

definition cbb_add_utf8 :: "nat \<Rightarrow> u32 \<Rightarrow> cbb \<Rightarrow> bool \<times> cbb" where
  "cbb_add_utf8 d u =
     (let low = ucast (BOTTOM_BITS 6) in
      if \<not> is_valid_code_point u then (\<lambda>c. (False, c))
      else if u \<le> 0x7f then CBB_add_u8 d (ucast u)
      else if u \<le> 0x7ff then
        and_then (CBB_add_u8 d (utf8_byte (TOP_BITS 2) (drop_bit 6 u)))
          (CBB_add_u8 d (utf8_byte (TOP_BITS 1) (u AND low)))
      else if u \<le> 0xffff then
        and_then (CBB_add_u8 d (utf8_byte (TOP_BITS 3) (drop_bit 12 u)))
          (and_then (CBB_add_u8 d (utf8_byte (TOP_BITS 1) (drop_bit 6 u AND low)))
            (CBB_add_u8 d (utf8_byte (TOP_BITS 1) (u AND low))))
      else if u \<le> 0x10ffff then
        and_then (CBB_add_u8 d (utf8_byte (TOP_BITS 4) (drop_bit 18 u)))
          (and_then (CBB_add_u8 d (utf8_byte (TOP_BITS 1) (drop_bit 12 u AND low)))
            (and_then (CBB_add_u8 d (utf8_byte (TOP_BITS 1) (drop_bit 6 u AND low)))
              (CBB_add_u8 d (utf8_byte (TOP_BITS 1) (u AND low)))))
      else (\<lambda>c. (False, c)))"

definition cbb_add_latin1 :: "nat \<Rightarrow> u32 \<Rightarrow> cbb \<Rightarrow> bool \<times> cbb" where
  "cbb_add_latin1 d u = (if u \<le> 0xff then CBB_add_u8 d (ucast u) else (\<lambda>c. (False, c)))"

definition cbb_add_ucs2_be :: "nat \<Rightarrow> u32 \<Rightarrow> cbb \<Rightarrow> bool \<times> cbb" where
  "cbb_add_ucs2_be d u =
     (if u \<le> 0xffff \<and> is_valid_code_point u then CBB_add_u16 d (ucast u) else (\<lambda>c. (False, c)))"

definition cbb_add_utf32_be :: "nat \<Rightarrow> u32 \<Rightarrow> cbb \<Rightarrow> bool \<times> cbb" where
  "cbb_add_utf32_be d u = (if is_valid_code_point u then CBB_add_u32 d u else (\<lambda>c. (False, c)))"

section \<open>UTF-8, as arithmetic\<close>

definition utf8 :: "nat \<Rightarrow> bytes" where
  "utf8 n =
     (if n < 2 ^ 7 then [of_nat n]
      else if n < 2 ^ 11 then [of_nat (192 + n div 64), of_nat (128 + n mod 64)]
      else if n < 2 ^ 16 then [of_nat (224 + n div 4096), of_nat (128 + n div 64 mod 64), of_nat (128 + n mod 64)]
      else [of_nat (240 + n div 262144), of_nat (128 + n div 4096 mod 64), of_nat (128 + n div 64 mod 64),
            of_nat (128 + n mod 64)])"

lemma and_not_mask: "(w :: 'a::len word) AND NOT (mask n) = push_bit n (drop_bit n w)"
  by (rule bit_word_eqI) (auto simp: bit_simps)

lemma unat_and_not_mask: "unat ((w :: 'a::len word) AND NOT (mask n)) = unat w div 2 ^ n * 2 ^ n"
proof -
  have "unat w div 2 ^ n * 2 ^ n < 2 ^ LENGTH('a)"
    using unsigned_less [of w, where 'a = nat] by (meson div_times_less_eq_dividend le_less_trans)
  then have "take_bit LENGTH('a) (push_bit n (unat w div 2 ^ n)) = unat w div 2 ^ n * 2 ^ n"
    by (simp add: push_bit_eq_mult take_bit_nat_eq_self)
  then show ?thesis
    unfolding and_not_mask unsigned_push_bit_eq unat_drop_bit .
qed

lemma marker_bits:
  "BOTTOM_BITS 3 = mask 3" "BOTTOM_BITS 4 = mask 4" "BOTTOM_BITS 5 = mask 5" "BOTTOM_BITS 6 = mask 6"
  "TOP_BITS 1 = 0x80" "TOP_BITS 2 = NOT (mask 6)" "TOP_BITS 3 = NOT (mask 5)" "TOP_BITS 4 = NOT (mask 4)"
  "TOP_BITS 5 = NOT (mask 3)"
  by (simp_all add: BOTTOM_BITS_def TOP_BITS_def mask_numeral push_bit_eq_mult)

lemma marker_values: "unat (NOT (mask 6) :: byte) = 192" "unat (NOT (mask 5) :: byte) = 224" "unat (NOT (mask 4) :: byte) = 240"
  by (simp_all add: mask_numeral)

lemma lead_byte:
  "c AND TOP_BITS 2 = TOP_BITS 1 \<longleftrightarrow> unat c div 64 = 2"
  "c AND TOP_BITS 3 = TOP_BITS 2 \<longleftrightarrow> unat c div 32 = 6"
  "c AND TOP_BITS 4 = TOP_BITS 3 \<longleftrightarrow> unat c div 16 = 14"
  "c AND TOP_BITS 5 = TOP_BITS 4 \<longleftrightarrow> unat c div 8 = 30"
  unfolding marker_bits word_unat_eq_iff unat_and_not_mask marker_values by simp_all

lemma low_bits:
  "unat (c AND BOTTOM_BITS 3) = unat c mod 8" "unat (c AND BOTTOM_BITS 4) = unat c mod 16"
  "unat (c AND BOTTOM_BITS 5) = unat c mod 32" "unat (c AND BOTTOM_BITS 6) = unat c mod 64"
  unfolding marker_bits unat_and_mask by simp_all

lemma utf8_step:
  "unat (v :: u32) < 2 ^ 26 \<Longrightarrow> unat (push_bit 6 v OR ucast (c AND BOTTOM_BITS 6)) = unat v * 64 + unat c mod 64"
  by (subst unat_push_bit_or) (simp_all add: unat_ucast_up low_bits)

section \<open>Reading\<close>

text \<open>What the loop has read: continuation bytes, and their bits.\<close>

lemma utf8_loop_Some:
  "(unat v + 1) * 64 ^ n \<le> 2 ^ 26 \<Longrightarrow> utf8_loop n v s = (Some w, r) \<longleftrightarrow>
   (\<exists>cs. s = cs @ r \<and> length cs = n \<and> (\<forall>c \<in> set cs. unat c div 64 = 2)
      \<and> unat w = foldl (\<lambda>a c. a * 64 + unat c mod 64) (unat v) cs)"
proof (induction n arbitrary: v s)
  case 0
  then show ?case by (auto simp: word_unat_eq_iff)
next
  case (Suc n)
  show ?case
  proof (cases s)
    case Nil
    then show ?thesis by auto
  next
    case (Cons c s')
    let ?v = "push_bit 6 v OR ucast (c AND BOTTOM_BITS 6) :: u32"
    have "(unat v + 1) * 1 \<le> (unat v + 1) * 64 ^ Suc n" by (rule mult_le_mono2) simp
    also have "\<dots> \<le> 2 ^ 26" by (rule Suc.prems)
    finally have v: "unat v < 2 ^ 26" by simp
    have "unat c mod 64 < 64" by simp
    then have "(unat v * 64 + unat c mod 64 + 1) * 64 ^ n \<le> ((unat v + 1) * 64) * 64 ^ n"
      by (intro mult_le_mono1) simp
    also have "\<dots> = (unat v + 1) * 64 ^ Suc n" by (simp add: algebra_simps)
    also have "\<dots> \<le> 2 ^ 26" by (rule Suc.prems)
    finally have small: "(unat ?v + 1) * 64 ^ n \<le> 2 ^ 26" unfolding utf8_step [OF v] .
    have "utf8_loop (Suc n) v s = (Some w, r) \<longleftrightarrow> unat c div 64 = 2 \<and> utf8_loop n ?v s' = (Some w, r)"
      using Cons unfolding utf8_loop.simps by (simp add: lead_byte del: One_nat_def)
    also have "\<dots> \<longleftrightarrow> unat c div 64 = 2 \<and> (\<exists>cs. s' = cs @ r \<and> length cs = n \<and> (\<forall>c \<in> set cs. unat c div 64 = 2)
        \<and> unat w = foldl (\<lambda>a c. a * 64 + unat c mod 64) (unat v * 64 + unat c mod 64) cs)"
      unfolding Suc.IH [OF small] utf8_step [OF v] ..
    also have "\<dots> \<longleftrightarrow> (\<exists>cs. s = cs @ r \<and> length cs = Suc n \<and> (\<forall>c \<in> set cs. unat c div 64 = 2)
        \<and> unat w = foldl (\<lambda>a c. a * 64 + unat c mod 64) (unat v) cs)" (is "?L = ?R")
    proof
      assume ?L
      then obtain cs where "s' = cs @ r" "length cs = n" "\<forall>c \<in> set cs. unat c div 64 = 2" "unat c div 64 = 2"
        "unat w = foldl (\<lambda>a c. a * 64 + unat c mod 64) (unat v * 64 + unat c mod 64) cs" by blast
      then show ?R using Cons by (intro exI [of _ "c # cs"]) simp
    next
      assume ?R
      then obtain cs where cs: "s = cs @ r" "length cs = Suc n" "\<forall>c \<in> set cs. unat c div 64 = 2"
        "unat w = foldl (\<lambda>a c. a * 64 + unat c mod 64) (unat v) cs" by blast
      then obtain cs' where "cs = c # cs'" using Cons by (cases cs) simp_all
      with cs Cons show ?L by (intro conjI exI [of _ cs']) simp_all
    qed
    finally show ?thesis .
  qed
qed

text \<open>One equation per lead byte.\<close>

lemma utf8_ascii: "unat c < 128 \<Longrightarrow> cbs_get_utf8 (c # s) = (Some (ucast c), s)"
  by (simp add: cbs_get_utf8_def word_le_nat_alt)

text \<open>After a lead byte: \<open>n\<close> continuation bytes, a valid code point, and the lower bound.\<close>

lemma utf8_multi:
  assumes "\<not> unat c < 128"
    and "(if unat c div 32 = 6 then Some (ucast (c AND BOTTOM_BITS 5) :: u32, 1, 0x80)
          else if unat c div 16 = 14 then Some (ucast (c AND BOTTOM_BITS 4), 2, 0x800)
          else if unat c div 8 = 30 then Some (ucast (c AND BOTTOM_BITS 3), 3, 0x10000) else None)
        = Some (v0, n, bound :: u32)"
    and "(unat v0 + 1) * 64 ^ n \<le> 2 ^ 26"
  shows "cbs_get_utf8 (c # s) = (Some u, r) \<longleftrightarrow> is_valid_code_point u \<and> unat bound \<le> unat u \<and>
    (\<exists>cs. s = cs @ r \<and> length cs = n \<and> (\<forall>c \<in> set cs. unat c div 64 = 2)
      \<and> unat u = foldl (\<lambda>a c. a * 64 + unat c mod 64) (unat v0) cs)"
proof -
  have "\<not> c \<le> 0x7f" using assms(1) by (simp add: word_le_nat_alt)
  then have "cbs_get_utf8 (c # s) =
      (case utf8_loop n v0 s of
         (None, r') \<Rightarrow> (None, r')
       | (Some v, r') \<Rightarrow> if \<not> is_valid_code_point v \<or> v < bound then (None, r') else (Some v, r'))"
    unfolding cbs_get_utf8_def CBS_get_u8_Cons prod.case option.case lead_byte assms(2) by simp
  then have "cbs_get_utf8 (c # s) = (Some u, r) \<longleftrightarrow>
      is_valid_code_point u \<and> unat bound \<le> unat u \<and> utf8_loop n v0 s = (Some u, r)"
    by (auto simp: word_less_nat_alt split: prod.splits option.splits)
  then show ?thesis unfolding utf8_loop_Some [OF assms(3)] .
qed

lemma ex_bytes:
  "(\<exists>cs. s = cs @ r \<and> length cs = 2 \<and> Q cs) \<longleftrightarrow> (\<exists>d e. s = d # e # r \<and> Q [d, e])"
  "(\<exists>cs. s = cs @ r \<and> length cs = 3 \<and> Q cs) \<longleftrightarrow> (\<exists>d e f. s = d # e # f # r \<and> Q [d, e, f])"
  by (auto simp: numeral_eq_Suc length_Suc_conv)

lemma lead2:
  assumes "unat c div 32 = 6"
  shows "cbs_get_utf8 (c # s) = (Some u, r) \<longleftrightarrow> is_valid_code_point u \<and> 2 ^ 7 \<le> unat u \<and>
    (\<exists>d. s = d # r \<and> unat d div 64 = 2 \<and> unat u = unat c mod 32 * 64 + unat d mod 64)"
proof -
  have c: "\<not> unat c < 128" using assms by linarith
  have v: "unat (ucast (c AND BOTTOM_BITS 5) :: u32) = unat c mod 32" by (simp add: unat_ucast_up low_bits)
  have "unat c mod 32 < 32" by simp
  then have b: "(unat (ucast (c AND BOTTOM_BITS 5) :: u32) + 1) * 64 ^ 1 \<le> 2 ^ 26" unfolding v by simp
  show ?thesis
    using utf8_multi [OF c _ b, of "0x80"] assms
    by (auto simp: v length_Suc_conv)
qed

lemma lead3:
  assumes "unat c div 16 = 14"
  shows "cbs_get_utf8 (c # s) = (Some u, r) \<longleftrightarrow> is_valid_code_point u \<and> 2 ^ 11 \<le> unat u \<and>
    (\<exists>d e. s = d # e # r \<and> unat d div 64 = 2 \<and> unat e div 64 = 2
      \<and> unat u = (unat c mod 16 * 64 + unat d mod 64) * 64 + unat e mod 64)"
proof -
  have c: "\<not> unat c < 128" "unat c div 32 \<noteq> 6" using assms by linarith+
  have v: "unat (ucast (c AND BOTTOM_BITS 4) :: u32) = unat c mod 16" by (simp add: unat_ucast_up low_bits)
  have "unat c mod 16 < 16" by simp
  then have b: "(unat (ucast (c AND BOTTOM_BITS 4) :: u32) + 1) * 64 ^ 2 \<le> 2 ^ 26" unfolding v by simp
  have "cbs_get_utf8 (c # s) = (Some u, r) \<longleftrightarrow> is_valid_code_point u \<and> unat (0x800 :: u32) \<le> unat u \<and>
    (\<exists>cs. s = cs @ r \<and> length cs = 2 \<and> (\<forall>c \<in> set cs. unat c div 64 = 2)
      \<and> unat u = foldl (\<lambda>a c. a * 64 + unat c mod 64) (unat c mod 16) cs)"
    unfolding v [symmetric] by (rule utf8_multi [OF c(1) _ b]) (simp add: assms c(2))
  then show ?thesis unfolding ex_bytes by simp
qed

lemma lead4:
  assumes "unat c div 8 = 30"
  shows "cbs_get_utf8 (c # s) = (Some u, r) \<longleftrightarrow> is_valid_code_point u \<and> 2 ^ 16 \<le> unat u \<and>
    (\<exists>d e f. s = d # e # f # r \<and> unat d div 64 = 2 \<and> unat e div 64 = 2 \<and> unat f div 64 = 2
      \<and> unat u = ((unat c mod 8 * 64 + unat d mod 64) * 64 + unat e mod 64) * 64 + unat f mod 64)"
proof -
  have c: "\<not> unat c < 128" "unat c div 32 \<noteq> 6" "unat c div 16 \<noteq> 14" using assms by linarith+
  have v: "unat (ucast (c AND BOTTOM_BITS 3) :: u32) = unat c mod 8" by (simp add: unat_ucast_up low_bits)
  have "unat c mod 8 < 8" by simp
  then have b: "(unat (ucast (c AND BOTTOM_BITS 3) :: u32) + 1) * 64 ^ 3 \<le> 2 ^ 26" unfolding v by simp
  have "cbs_get_utf8 (c # s) = (Some u, r) \<longleftrightarrow> is_valid_code_point u \<and> unat (0x10000 :: u32) \<le> unat u \<and>
    (\<exists>cs. s = cs @ r \<and> length cs = 3 \<and> (\<forall>c \<in> set cs. unat c div 64 = 2)
      \<and> unat u = foldl (\<lambda>a c. a * 64 + unat c mod 64) (unat c mod 8) cs)"
    unfolding v [symmetric] by (rule utf8_multi [OF c(1) _ b]) (simp add: assms c(2,3))
  then show ?thesis unfolding ex_bytes by simp
qed

lemma lead_other:
  assumes "\<not> unat c < 128" and "unat c div 32 \<noteq> 6" and "unat c div 16 \<noteq> 14" and "unat c div 8 \<noteq> 30"
  shows "cbs_get_utf8 (c # s) = (None, s)"
  using assms by (simp add: cbs_get_utf8_def word_le_nat_alt lead_byte)

lemma valid_le: "is_valid_code_point u \<Longrightarrow> unat u \<le> 0x10ffff"
  by (simp add: is_valid_code_point_def word_less_nat_alt not_less)

lemma byte_of_parts: "unat (c :: byte) div m = q \<Longrightarrow> of_nat (q * m + unat c mod m) = c"
  using div_mult_mod_eq [of "unat c" m] by simp

text \<open>Putting six-bit groups together and taking them apart.\<close>

lemma group_div: "(b :: nat) < 64 \<Longrightarrow> (a * 64 + b) div 64 = a" "(b :: nat) < 64 \<Longrightarrow> (a * 64 + b) mod 64 = b"
  by simp_all

lemma div_groups: "(n :: nat) div 4096 = n div 64 div 64" "(n :: nat) div 262144 = n div 64 div 64 div 64"
  by (simp_all flip: div_mult2_eq)

lemma unat_marker:
  "h < 32 \<Longrightarrow> unat (of_nat (192 + h) :: byte) = 192 + h"
  "h < 64 \<Longrightarrow> unat (of_nat (128 + h) :: byte) = 128 + h"
  "h < 16 \<Longrightarrow> unat (of_nat (224 + h) :: byte) = 224 + h"
  "h < 8 \<Longrightarrow> unat (of_nat (240 + h) :: byte) = 240 + h"
  by (simp_all del: of_nat_add)

lemma lead_div:
  "h < 32 \<Longrightarrow> (192 + h) div 32 = (6 :: nat) \<and> (192 + h) mod 32 = h"
  "h < 64 \<Longrightarrow> (128 + h) div 64 = (2 :: nat) \<and> (128 + h) mod 64 = h"
  "h < 16 \<Longrightarrow> (224 + h) div 16 = (14 :: nat) \<and> (224 + h) mod 16 = h"
  "h < 8 \<Longrightarrow> (240 + h) div 8 = (30 :: nat) \<and> (240 + h) mod 8 = h"
  by (auto intro!: div_nat_eqI simp: mod_nat_eqI)

lemma cbs_get_utf8_encoded:
  assumes "is_valid_code_point u"
  shows "cbs_get_utf8 (utf8 (unat u) @ r) = (Some u, r)"
proof -
  let ?n = "unat u"
  have max: "?n \<le> 0x10ffff" by (rule valid_le [OF assms])
  have m: "?n div 64 mod 64 < 64" "?n div 64 div 64 mod 64 < 64" "?n mod 64 < 64" by simp_all
  have whole: "?n div 64 * 64 + ?n mod 64 = ?n" "?n div 64 div 64 * 64 + ?n div 64 mod 64 = ?n div 64"
    "?n div 64 div 64 div 64 * 64 + ?n div 64 div 64 mod 64 = ?n div 64 div 64" by simp_all
  consider "?n < 2 ^ 7" | "2 ^ 7 \<le> ?n" "?n < 2 ^ 11" | "2 ^ 11 \<le> ?n" "?n < 2 ^ 16" | "2 ^ 16 \<le> ?n" by linarith
  then show ?thesis
  proof cases
    case 1
    then have c: "unat (of_nat ?n :: byte) = ?n" unfolding unat_of_nat_byte by (intro mod_less) simp
    with 1 have "cbs_get_utf8 (of_nat ?n # r) = (Some (ucast (of_nat ?n :: byte)), r)" by (intro utf8_ascii) simp
    moreover have "(ucast (of_nat ?n :: byte) :: u32) = u" unfolding ucast_of_nat [of "of_nat ?n :: byte"] c by simp
    ultimately show ?thesis using 1 by (simp add: utf8_def)
  next
    case 2
    have h: "?n div 64 < 32" using 2 by (simp add: less_mult_imp_div_less)
    have e: "utf8 ?n @ r = of_nat (192 + ?n div 64) # of_nat (128 + ?n mod 64) # r" using 2 by (simp add: utf8_def)
    have l: "unat (of_nat (192 + ?n div 64) :: byte) div 32 = 6" unfolding unat_marker(1) [OF h] using lead_div(1) [OF h] ..
    show ?thesis
      unfolding e lead2 [OF l]
      by (intro conjI exI [of _ "of_nat (128 + ?n mod 64)"] assms 2(1) refl)
        (simp_all only: unat_marker(1) [OF h] unat_marker(2) [OF m(3)] lead_div(1) [OF h] lead_div(2) [OF m(3)] whole)
  next
    case 3
    have h: "?n div 64 div 64 < 16" using 3 by (simp add: less_mult_imp_div_less)
    have e: "utf8 ?n @ r = of_nat (224 + ?n div 64 div 64) # of_nat (128 + ?n div 64 mod 64) # of_nat (128 + ?n mod 64) # r"
      using 3 by (simp add: utf8_def div_groups)
    have l: "unat (of_nat (224 + ?n div 64 div 64) :: byte) div 16 = 14"
      unfolding unat_marker(3) [OF h] using lead_div(3) [OF h] ..
    show ?thesis
      unfolding e lead3 [OF l]
      by (intro conjI exI [of _ "of_nat (128 + ?n div 64 mod 64)"] exI [of _ "of_nat (128 + ?n mod 64)"] assms 3(1) refl)
        (simp_all only: unat_marker(3) [OF h] unat_marker(2) [OF m(1)] unat_marker(2) [OF m(3)]
          lead_div(3) [OF h] lead_div(2) [OF m(1)] lead_div(2) [OF m(3)] whole)
  next
    case 4
    have h: "?n div 64 div 64 div 64 < 8" using max by (simp add: less_mult_imp_div_less)
    have e: "utf8 ?n @ r = of_nat (240 + ?n div 64 div 64 div 64) # of_nat (128 + ?n div 64 div 64 mod 64)
        # of_nat (128 + ?n div 64 mod 64) # of_nat (128 + ?n mod 64) # r"
      using 4 by (simp add: utf8_def div_groups)
    have l: "unat (of_nat (240 + ?n div 64 div 64 div 64) :: byte) div 8 = 30"
      unfolding unat_marker(4) [OF h] using lead_div(4) [OF h] ..
    show ?thesis
      unfolding e lead4 [OF l]
      by (intro conjI exI [of _ "of_nat (128 + ?n div 64 div 64 mod 64)"] exI [of _ "of_nat (128 + ?n div 64 mod 64)"]
          exI [of _ "of_nat (128 + ?n mod 64)"] assms 4 refl)
        (simp_all only: unat_marker(4) [OF h] unat_marker(2) [OF m(1)] unat_marker(2) [OF m(2)] unat_marker(2) [OF m(3)]
          lead_div(4) [OF h] lead_div(2) [OF m(1)] lead_div(2) [OF m(2)] lead_div(2) [OF m(3)] whole)
  qed
qed

lemma cbs_get_utf8_sound:
  assumes "cbs_get_utf8 s = (Some u, r)"
  shows "is_valid_code_point u \<and> s = utf8 (unat u) @ r"
proof (cases s)
  case Nil
  with assms show ?thesis by (simp add: cbs_get_utf8_def)
next
  case (Cons c s')
  consider "unat c < 128" | "unat c div 32 = 6" | "unat c div 16 = 14" | "unat c div 8 = 30"
    | "\<not> unat c < 128" "unat c div 32 \<noteq> 6" "unat c div 16 \<noteq> 14" "unat c div 8 \<noteq> 30" by blast
  then show ?thesis
  proof cases
    case 1
    with assms Cons have u: "u = ucast c" and r: "r = s'" by (simp_all add: utf8_ascii)
    have n: "unat u = unat c" unfolding u by (simp add: unat_ucast_up)
    have "is_valid_code_point u"
    proof -
      have "\<not> bit (u AND 0xfffe) 8" unfolding u by (auto simp: bit_and_iff bit_ucast_iff dest: bit_imp_le_length)
      moreover have "bit (0xfffe :: u32) 8" by simp
      ultimately have "u AND 0xfffe \<noteq> 0xfffe" by metis
      with n 1 show ?thesis by (auto simp: is_valid_code_point_def word_le_nat_alt word_less_nat_alt)
    qed
    with 1 n Cons r show ?thesis by (simp add: utf8_def)
  next
    case 2
    from assms [unfolded Cons lead2 [OF 2]] obtain d where d: "is_valid_code_point u" "2 ^ 7 \<le> unat u"
      "s' = d # r" "unat d div 64 = 2" "unat u = unat c mod 32 * 64 + unat d mod 64" by blast
    have "unat c mod 32 < 32" "unat d mod 64 < 64" by simp_all
    then have "unat u < 2 ^ 11" unfolding d(5) by simp
    moreover have "unat u div 64 = unat c mod 32" "unat u mod 64 = unat d mod 64"
      unfolding d(5) using group_div [OF \<open>unat d mod 64 < 64\<close>] by blast+
    moreover have "of_nat (192 + unat c mod 32) = c" "of_nat (128 + unat d mod 64) = d"
      using byte_of_parts [OF 2] byte_of_parts [OF d(4)] by simp_all
    ultimately show ?thesis using d(1,2,3) Cons by (simp add: utf8_def del: of_nat_add)
  next
    case 3
    from assms [unfolded Cons lead3 [OF 3]] obtain d e where d: "is_valid_code_point u" "2 ^ 11 \<le> unat u"
      "s' = d # e # r" "unat d div 64 = 2" "unat e div 64 = 2"
      "unat u = (unat c mod 16 * 64 + unat d mod 64) * 64 + unat e mod 64" by blast
    have m: "unat c mod 16 < 16" "unat d mod 64 < 64" "unat e mod 64 < 64" by simp_all
    have u: "unat u div 64 = unat c mod 16 * 64 + unat d mod 64" "unat u mod 64 = unat e mod 64"
      unfolding d(6) using group_div m(3) by blast+
    have "unat u < 2 ^ 16" unfolding d(6) using m by simp
    moreover have "unat u div 64 div 64 = unat c mod 16" "unat u div 64 mod 64 = unat d mod 64"
      unfolding u(1) using group_div m(2) by blast+
    moreover have "of_nat (224 + unat c mod 16) = c" "of_nat (128 + unat d mod 64) = d" "of_nat (128 + unat e mod 64) = e"
      using byte_of_parts [OF 3] byte_of_parts [OF d(4)] byte_of_parts [OF d(5)] by simp_all
    ultimately show ?thesis using d(1,2,3) u(2) Cons by (simp add: utf8_def div_groups del: of_nat_add)
  next
    case 4
    from assms [unfolded Cons lead4 [OF 4]] obtain d e f where d: "is_valid_code_point u" "2 ^ 16 \<le> unat u"
      "s' = d # e # f # r" "unat d div 64 = 2" "unat e div 64 = 2" "unat f div 64 = 2"
      "unat u = ((unat c mod 8 * 64 + unat d mod 64) * 64 + unat e mod 64) * 64 + unat f mod 64" by blast
    have m: "unat c mod 8 < 8" "unat d mod 64 < 64" "unat e mod 64 < 64" "unat f mod 64 < 64" by simp_all
    have u: "unat u div 64 = (unat c mod 8 * 64 + unat d mod 64) * 64 + unat e mod 64" "unat u mod 64 = unat f mod 64"
      unfolding d(7) using group_div m(4) by blast+
    have v: "unat u div 64 div 64 = unat c mod 8 * 64 + unat d mod 64" "unat u div 64 mod 64 = unat e mod 64"
      unfolding u(1) using group_div m(3) by blast+
    have "unat u div 64 div 64 div 64 = unat c mod 8" "unat u div 64 div 64 mod 64 = unat d mod 64"
      unfolding v(1) using group_div m(2) by blast+
    moreover have "of_nat (240 + unat c mod 8) = c" "of_nat (128 + unat d mod 64) = d" "of_nat (128 + unat e mod 64) = e"
      "of_nat (128 + unat f mod 64) = f"
      using byte_of_parts [OF 4] byte_of_parts [OF d(4)] byte_of_parts [OF d(5)] byte_of_parts [OF d(6)] by simp_all
    ultimately show ?thesis using d(1,2,3) u(2) v(2) Cons by (simp add: utf8_def div_groups del: of_nat_add)
  next
    case 5
    with lead_other [OF 5] assms Cons show ?thesis by simp
  qed
qed

interpretation utf8: canonical_codec "\<lambda>u. utf8 (unat u)" cbs_get_utf8 is_valid_code_point
proof
  show "is_valid_code_point x \<and> s = utf8 (unat x) @ r" if "cbs_get_utf8 s = (Some x, r)" for s x r
    using cbs_get_utf8_sound [OF that] .
qed (simp_all add: cbs_get_utf8_encoded, simp add: utf8_def)

section \<open>Writing\<close>

lemma u32_le_iff: "u \<le> 0x7f \<longleftrightarrow> unat (u :: u32) < 2 ^ 7" "u \<le> 0x7ff \<longleftrightarrow> unat u < 2 ^ 11"
  "u \<le> 0xffff \<longleftrightarrow> unat u < 2 ^ 16" "u \<le> 0xff \<longleftrightarrow> unat u < 2 ^ 8"
  by (simp_all add: word_le_nat_alt less_eq_Suc_le)

lemma utf8_byte_or:
  assumes "ucast m = (push_bit n h :: u32)" and "unat x < 2 ^ n" and "unat h < 2 ^ 8" and "n \<le> 8"
  shows "utf8_byte m x = of_nat (unat h * 2 ^ n + unat x)"
proof -
  have "(2 :: nat) ^ 8 \<le> 2 ^ (32 - n)" using assms(4) by (intro power_increasing) auto
  with assms have "unat (push_bit n h OR x) = unat h * 2 ^ n + unat x"
    by (intro unat_push_bit_or) simp_all
  then show ?thesis unfolding utf8_byte_def assms(1) ucast_of_nat [of "push_bit n h OR x"] by (simp only:)
qed

lemma marker_words:
  "ucast (TOP_BITS 1) = (push_bit 6 2 :: u32)" "ucast (TOP_BITS 2) = (push_bit 5 6 :: u32)"
  "ucast (TOP_BITS 3) = (push_bit 4 14 :: u32)" "ucast (TOP_BITS 4) = (push_bit 3 30 :: u32)"
  unfolding marker_bits by (simp_all add: mask_numeral push_bit_eq_mult)

lemma utf8_bytes:
  "unat u < 2 ^ 11 \<Longrightarrow> utf8_byte (TOP_BITS 2) (drop_bit 6 u) = of_nat (192 + unat u div 64)"
  "unat u < 2 ^ 16 \<Longrightarrow> utf8_byte (TOP_BITS 3) (drop_bit 12 u) = of_nat (224 + unat u div 4096)"
  "unat u < 2 ^ 21 \<Longrightarrow> utf8_byte (TOP_BITS 4) (drop_bit 18 u) = of_nat (240 + unat u div 262144)"
  "utf8_byte (TOP_BITS 1) (w AND ucast (BOTTOM_BITS 6)) = of_nat (128 + unat w mod 64)"
proof -
  show "utf8_byte (TOP_BITS 2) (drop_bit 6 u) = of_nat (192 + unat u div 64)" if "unat u < 2 ^ 11"
    using utf8_byte_or [OF marker_words(2), of "drop_bit 6 u"] that by (simp add: unat_drop_bit less_mult_imp_div_less)
  show "utf8_byte (TOP_BITS 3) (drop_bit 12 u) = of_nat (224 + unat u div 4096)" if "unat u < 2 ^ 16"
    using utf8_byte_or [OF marker_words(3), of "drop_bit 12 u"] that by (simp add: unat_drop_bit less_mult_imp_div_less)
  show "utf8_byte (TOP_BITS 4) (drop_bit 18 u) = of_nat (240 + unat u div 262144)" if "unat u < 2 ^ 21"
    using utf8_byte_or [OF marker_words(4), of "drop_bit 18 u"] that by (simp add: unat_drop_bit less_mult_imp_div_less)
  have "ucast (BOTTOM_BITS 6) = (mask 6 :: u32)" unfolding marker_bits by (simp add: mask_numeral)
  then have "unat (w AND ucast (BOTTOM_BITS 6)) = unat w mod 64" using unat_and_mask [of w 6] by simp
  with utf8_byte_or [OF marker_words(1), of "w AND ucast (BOTTOM_BITS 6)"]
  show "utf8_byte (TOP_BITS 1) (w AND ucast (BOTTOM_BITS 6)) = of_nat (128 + unat w mod 64)" by simp
qed

text \<open>The writer produces the encoding, and the predicted length is right.\<close>

lemma appender_utf8:
  assumes "is_valid_code_point u"
  shows "appender d (length (utf8 (unat u))) (utf8 (unat u)) (cbb_add_utf8 d u)"
proof -
  let ?n = "unat u"
  have max: "?n \<le> 0x10ffff" by (rule valid_le [OF assms])
  then have le: "u \<le> 0x10ffff" by (simp add: word_le_nat_alt)
  note one = add_u8.appender_axioms [of d]
  note two = appender_and_then [OF one one]
  note three = appender_and_then [OF one two]
  note four = appender_and_then [OF one three]
  have shifts: "unat (drop_bit 6 u) = ?n div 64" "unat (drop_bit 12 u) = ?n div 4096"
    unfolding unat_drop_bit by simp_all
  consider "?n < 2 ^ 7" | "\<not> ?n < 2 ^ 7" "?n < 2 ^ 11" | "\<not> ?n < 2 ^ 7" "\<not> ?n < 2 ^ 11" "?n < 2 ^ 16"
    | "\<not> ?n < 2 ^ 7" "\<not> ?n < 2 ^ 11" "\<not> ?n < 2 ^ 16" by blast
  then show ?thesis
  proof cases
    case 1
    have e: "cbb_add_utf8 d u = CBB_add_u8 d (ucast u)"
      unfolding cbb_add_utf8_def Let_def u32_le_iff using assms 1 by (simp only: simp_thms if_True if_False)
    have enc: "utf8 ?n = [ucast u]"
      unfolding utf8_def ucast_of_nat [of u] using 1 by (simp only: if_True)
    have len: "length (utf8 ?n) = 1" unfolding enc by simp
    show ?thesis unfolding e len unfolding enc by (rule one)
  next
    case 2
    have e: "cbb_add_utf8 d u = and_then (CBB_add_u8 d (of_nat (192 + ?n div 64))) (CBB_add_u8 d (of_nat (128 + ?n mod 64)))"
      unfolding cbb_add_utf8_def Let_def u32_le_iff using assms 2
      by (simp only: utf8_bytes(1) [OF 2(2)] utf8_bytes(4) simp_thms if_True if_False)
    have enc: "utf8 ?n = [of_nat (192 + ?n div 64)] @ [of_nat (128 + ?n mod 64)]"
      unfolding utf8_def using 2 by (simp only: if_True if_False append_Cons append_Nil)
    have len: "length (utf8 ?n) = 1 + 1" unfolding enc by simp
    show ?thesis unfolding e len unfolding enc by (rule two)
  next
    case 3
    have e: "cbb_add_utf8 d u = and_then (CBB_add_u8 d (of_nat (224 + ?n div 4096)))
        (and_then (CBB_add_u8 d (of_nat (128 + ?n div 64 mod 64))) (CBB_add_u8 d (of_nat (128 + ?n mod 64))))"
      unfolding cbb_add_utf8_def Let_def u32_le_iff using assms 3
      by (simp only: utf8_bytes(2) [OF 3(3)] utf8_bytes(4) shifts simp_thms if_True if_False)
    have enc: "utf8 ?n = [of_nat (224 + ?n div 4096)] @ [of_nat (128 + ?n div 64 mod 64)] @ [of_nat (128 + ?n mod 64)]"
      unfolding utf8_def using 3 by (simp only: if_True if_False append_Cons append_Nil)
    have len: "length (utf8 ?n) = 1 + (1 + 1)" unfolding enc by simp
    show ?thesis unfolding e len unfolding enc by (rule three)
  next
    case 4
    have n21: "?n < 2 ^ 21" using max by simp
    have e: "cbb_add_utf8 d u = and_then (CBB_add_u8 d (of_nat (240 + ?n div 262144)))
        (and_then (CBB_add_u8 d (of_nat (128 + ?n div 4096 mod 64)))
          (and_then (CBB_add_u8 d (of_nat (128 + ?n div 64 mod 64))) (CBB_add_u8 d (of_nat (128 + ?n mod 64)))))"
      unfolding cbb_add_utf8_def Let_def u32_le_iff using assms 4 le
      by (simp only: utf8_bytes(3) [OF n21] utf8_bytes(4) shifts simp_thms if_True if_False)
    have enc: "utf8 ?n = [of_nat (240 + ?n div 262144)] @ [of_nat (128 + ?n div 4096 mod 64)]
        @ [of_nat (128 + ?n div 64 mod 64)] @ [of_nat (128 + ?n mod 64)]"
      unfolding utf8_def using 4 by (simp only: if_True if_False append_Cons append_Nil)
    have len: "length (utf8 ?n) = 1 + (1 + (1 + 1))" unfolding enc by simp
    show ?thesis unfolding e len unfolding enc by (rule four)
  qed
qed

lemma cbb_get_utf8_len_eq: "cbb_get_utf8_len u = length (utf8 (unat u))"
  unfolding cbb_get_utf8_len_def u32_le_iff by (simp add: utf8_def)

section \<open>The other encodings\<close>

interpretation latin1: canonical_codec "\<lambda>u. [ucast u]" cbs_get_latin1 "\<lambda>u. u \<le> (0xff :: u32)"
proof
  show "cbs_get_latin1 ([ucast u] @ r) = (Some u, r)" if "u \<le> 0xff" for u r
  proof -
    have "unat u < 256" using that unfolding u32_le_iff by simp
    then have "(ucast (ucast u :: byte) :: u32) = u" by (simp add: word_unat_eq_iff unat_ucast_up unat_ucast)
    then show ?thesis by (simp add: cbs_get_latin1_def)
  qed
  show "x \<le> 0xff \<and> s = [ucast x] @ r" if "cbs_get_latin1 s = (Some x, r)" for s x r
  proof -
    from that obtain c where c: "s = c # r" "x = ucast c"
      by (cases s) (auto simp: cbs_get_latin1_def)
    then show ?thesis unfolding u32_le_iff by (simp add: ucast_down_up unat_ucast_up)
  qed
qed simp

interpretation utf32: canonical_codec "\<lambda>u. be_bytes 4 (unat u)" cbs_get_utf32_be is_valid_code_point
proof
  show "is_valid_code_point x \<and> s = be_bytes 4 (unat x) @ r" if "cbs_get_utf32_be s = (Some x, r)" for s x r
  proof -
    from that have "CBS_get_u32 s = (Some x, r)" "is_valid_code_point x"
      by (auto simp: cbs_get_utf32_be_def split: prod.splits option.splits if_splits)
    then show ?thesis using u32.sound by blast
  qed
qed (simp_all add: cbs_get_utf32_be_def u32.dec_enc del: be_bytes.simps)

section \<open>Properties\<close>

text \<open>
  C16. \<^verbatim>\<open>cbs_get_utf8\<close> accepts exactly the shortest UTF-8 encodings of valid code points: overlong
  forms, surrogates, non-characters, values past \<open>0x10ffff\<close>, stray and missing continuation
  bytes are refused.
\<close>

theorem cbs_get_utf8_canonical:
  "cbs_get_utf8 s = (Some u, r) \<longleftrightarrow> is_valid_code_point u \<and> s = utf8 (unat u) @ r"
  by (rule utf8.dec_iff)

text \<open>
  C17. Writing a code point into a new builder with \<^verbatim>\<open>cbb_add_utf8\<close> succeeds exactly for the valid code
  points, gives \<^verbatim>\<open>cbb_get_utf8_len\<close> bytes, and \<^verbatim>\<open>cbs_get_utf8\<close> reads the code point back.
\<close>

theorem cbb_add_utf8_roundtrip:
  "map_option (\<lambda>out. (length out, cbs_get_utf8 (out @ r))) (build (\<lambda>_. True) fresh 4 (cbb_add_utf8 0 u)) =
     (if is_valid_code_point u then Some (cbb_get_utf8_len u, Some u, r) else None)"
proof (cases "is_valid_code_point u")
  case True
  have l: "length (utf8 (unat u)) < 2 ^ 64" by (simp add: utf8_def)
  from True build_appender [OF appender_utf8 [OF True], where alloc = "\<lambda>_. True" and cap = 4 and fresh = fresh] l
  show ?thesis by (simp add: cbb_get_utf8_len_eq cbs_get_utf8_encoded)
next
  case False
  then have "cbb_add_utf8 0 u = (\<lambda>c. (False, c))" by (simp add: cbb_add_utf8_def)
  then show ?thesis using False by (simp add: build_def split: prod.splits bool.splits)
qed

end
