(* ===== verification/Stack.thy ===== *)
theory Stack
  imports Sorting
begin

text \<open>
  \<^verbatim>\<open>crypto/stack/stack.c\<close>: growable arrays of pointers with an optional comparison function, a
  sort and a binary search. A pointer is an option (\<open>None\<close> is \<^verbatim>\<open>NULL\<close>); comparison functions are
  function pointers, so they are names of some type \<open>'c\<close>, and the argument \<open>call_cmp\<close> says what
  calling one returns, as \<^verbatim>\<open>call_cmp_func\<close> does in the code. \<open>alloc n\<close> says whether the allocator can
  provide \<open>n\<close> bytes, \<open>fresh\<close> is the contents of memory that was never written.
\<close>

section \<open>The code\<close>

record ('p, 'c) stack =
  stk_num :: nat
  stk_data :: "'p option list"
  stk_sorted :: bool
  stk_num_alloc :: nat
  stk_comp :: "'c option"

definition kMinSize :: nat where
  "kMinSize = 4"

text \<open>\<^verbatim>\<open>sizeof(_STACK)\<close> is 40 and \<^verbatim>\<open>sizeof(void *)\<close> is 8.\<close>

definition sk_new :: "(nat \<Rightarrow> bool) \<Rightarrow> 'c option \<Rightarrow> ('p, 'c) stack option" where
  "sk_new alloc cmp =
     (if \<not> alloc 40 then None
      else if \<not> alloc (8 * kMinSize) then None
      else Some \<lparr>stk_num = 0, stk_data = replicate kMinSize None, stk_sorted = False,
                 stk_num_alloc = kMinSize, stk_comp = cmp\<rparr>)"

definition sk_new_null :: "(nat \<Rightarrow> bool) \<Rightarrow> ('p, 'c) stack option" where
  "sk_new_null alloc = sk_new alloc None"

definition sk_num :: "('p, 'c) stack option \<Rightarrow> nat" where
  "sk_num sk = (case sk of None \<Rightarrow> 0 | Some s \<Rightarrow> stk_num s)"

definition sk_zero :: "('p, 'c) stack option \<Rightarrow> ('p, 'c) stack option" where
  "sk_zero sk =
     (case sk of
        None \<Rightarrow> None
      | Some s \<Rightarrow>
          if stk_num s = 0 then sk
          else Some (s\<lparr>stk_data := write_at (stk_data s) 0 (replicate (stk_num s) None),
                       stk_num := 0, stk_sorted := False\<rparr>))"

definition sk_value :: "('p, 'c) stack option \<Rightarrow> nat \<Rightarrow> 'p option" where
  "sk_value sk i =
     (case sk of None \<Rightarrow> None | Some s \<Rightarrow> if i \<ge> stk_num s then None else stk_data s ! i)"

definition sk_set :: "('p, 'c) stack option \<Rightarrow> nat \<Rightarrow> 'p option \<Rightarrow> 'p option \<times> ('p, 'c) stack option" where
  "sk_set sk i value =
     (case sk of
        None \<Rightarrow> (None, None)
      | Some s \<Rightarrow>
          if i \<ge> stk_num s then (None, sk)
          else (value, Some (s\<lparr>stk_data := (stk_data s)[i := value]\<rparr>)))"

text \<open>
  \<^verbatim>\<open>sk_pop_free_ex\<close> passes every non-null element to the caller's function and releases the stack:
  its effect is the list of the elements it frees, in order.
\<close>

definition sk_pop_free_ex :: "('p, 'c) stack option \<Rightarrow> 'p list" where
  "sk_pop_free_ex sk =
     (case sk of None \<Rightarrow> [] | Some s \<Rightarrow> List.map_filter id (take (stk_num s) (stk_data s)))"

definition sk_pop_free :: "('p, 'c) stack option \<Rightarrow> 'p list" where
  "sk_pop_free sk = sk_pop_free_ex sk"

text \<open>
  The new size of a full array: doubled, or one more when doubling overflows, with the number of
  bytes to ask for; \<open>None\<close> when that overflows too.
\<close>

definition sk_grow :: "nat \<Rightarrow> (nat \<times> nat) option" where
  "sk_grow num_alloc =
     (let new_alloc = size_mul num_alloc 2;
          alloc_size = size_mul new_alloc 8;
          (new_alloc, alloc_size) =
            (if new_alloc < num_alloc \<or> alloc_size div 8 \<noteq> new_alloc
             then (size_add num_alloc 1, size_mul (size_add num_alloc 1) 8)
             else (new_alloc, alloc_size))
      in if new_alloc < num_alloc \<or> alloc_size div 8 \<noteq> new_alloc then None
         else Some (new_alloc, alloc_size))"

text \<open>\<^verbatim>\<open>OPENSSL_realloc\<close> keeps the old contents; what it adds is not initialised.\<close>

definition realloc_data :: "'p option \<Rightarrow> nat \<Rightarrow> 'p option list \<Rightarrow> 'p option list" where
  "realloc_data fresh n data = take n data @ replicate (n - length data) fresh"

definition sk_reserve :: "(nat \<Rightarrow> bool) \<Rightarrow> 'p option \<Rightarrow> ('p, 'c) stack \<Rightarrow> ('p, 'c) stack option" where
  "sk_reserve alloc fresh s =
     (if stk_num_alloc s \<le> size_add (stk_num s) 1 then
        (case sk_grow (stk_num_alloc s) of
           None \<Rightarrow> None
         | Some (new_alloc, alloc_size) \<Rightarrow>
             if \<not> alloc alloc_size then None
             else Some (s\<lparr>stk_data := realloc_data fresh new_alloc (stk_data s), stk_num_alloc := new_alloc\<rparr>))
      else Some s)"

definition sk_insert ::
  "(nat \<Rightarrow> bool) \<Rightarrow> 'p option \<Rightarrow> ('p, 'c) stack option \<Rightarrow> 'p option \<Rightarrow> nat \<Rightarrow> nat \<times> ('p, 'c) stack option" where
  "sk_insert alloc fresh sk p at =
     (case sk of
        None \<Rightarrow> (0, None)
      | Some s0 \<Rightarrow>
     (case sk_reserve alloc fresh s0 of
        None \<Rightarrow> (0, sk)
      | Some s \<Rightarrow>
          let data = (if at \<ge> stk_num s then (stk_data s)[stk_num s := p]
                      else (move_within (stk_data s) (at + 1) at (stk_num s - at))[at := p]);
              num = size_add (stk_num s) 1
          in (num, Some (s\<lparr>stk_data := data, stk_num := num, stk_sorted := False\<rparr>))))"

definition sk_delete :: "('p, 'c) stack option \<Rightarrow> nat \<Rightarrow> 'p option \<times> ('p, 'c) stack option" where
  "sk_delete sk at =
     (case sk of
        None \<Rightarrow> (None, None)
      | Some s \<Rightarrow>
          if at \<ge> stk_num s then (None, sk)
          else (stk_data s ! at,
                Some (s\<lparr>stk_data := (if at \<noteq> stk_num s - 1
                                     then move_within (stk_data s) at (at + 1) (stk_num s - at - 1)
                                     else stk_data s),
                        stk_num := stk_num s - 1\<rparr>)))"

definition sk_delete_ptr :: "('p, 'c) stack option \<Rightarrow> 'p option \<Rightarrow> 'p option \<times> ('p, 'c) stack option" where
  "sk_delete_ptr sk p =
     (case sk of
        None \<Rightarrow> (None, None)
      | Some s \<Rightarrow>
          (case scan (\<lambda>x. x = p) 0 (take (stk_num s) (stk_data s)) of
             Some i \<Rightarrow> sk_delete sk i
           | None \<Rightarrow> (None, sk)))"

definition sk_is_sorted :: "('p, 'c) stack option \<Rightarrow> bool" where
  "sk_is_sorted sk = (case sk of None \<Rightarrow> True | Some s \<Rightarrow> stk_sorted s)"

text \<open>The binary search of \<^verbatim>\<open>sk_find\<close> between \<open>lo\<close> and \<open>hi\<close>.\<close>

function sk_find_loop :: "('a \<Rightarrow> 'a \<Rightarrow> int) \<Rightarrow> 'a list \<Rightarrow> 'a \<Rightarrow> nat \<Rightarrow> nat \<Rightarrow> nat option" where
  "sk_find_loop cmp data p lo hi =
     (if lo < hi then
        let mid = lo + (hi - lo - 1) div 2;
            r = cmp p (data ! mid)
        in if r > 0 then sk_find_loop cmp data p (mid + 1) hi
           else if r < 0 then sk_find_loop cmp data p lo mid
           else if hi - lo = 1 then Some mid
           else sk_find_loop cmp data p lo (mid + 1)
      else None)"
  by pat_completeness auto
termination
  by (relation "measure (\<lambda>(_, _, _, lo, hi). hi - lo)") auto

declare sk_find_loop.simps [simp del]

text \<open>\<open>Some i\<close> is the return value 1 with \<open>i\<close> stored through \<^verbatim>\<open>out_index\<close>, \<open>None\<close> is the return value 0.\<close>

definition sk_find ::
  "('c \<Rightarrow> 'p option \<Rightarrow> 'p option \<Rightarrow> int) \<Rightarrow> ('p, 'c) stack option \<Rightarrow> 'p option \<Rightarrow> nat option" where
  "sk_find call_cmp sk p =
     (case sk of
        None \<Rightarrow> None
      | Some s \<Rightarrow>
     (case stk_comp s of
        None \<Rightarrow> scan (\<lambda>x. x = p) 0 (take (stk_num s) (stk_data s))
      | Some f \<Rightarrow>
          if p = None then None
          else if \<not> sk_is_sorted sk then scan (\<lambda>x. call_cmp f p x = 0) 0 (take (stk_num s) (stk_data s))
          else sk_find_loop (call_cmp f) (stk_data s) p 0 (stk_num s)))"

definition sk_shift :: "('p, 'c) stack option \<Rightarrow> 'p option \<times> ('p, 'c) stack option" where
  "sk_shift sk =
     (case sk of None \<Rightarrow> (None, None) | Some s \<Rightarrow> if stk_num s = 0 then (None, sk) else sk_delete sk 0)"

text \<open>\<^verbatim>\<open>sk_push\<close> reads \<^verbatim>\<open>sk->num\<close> before it calls \<^verbatim>\<open>sk_insert\<close>, so the stack is not \<^verbatim>\<open>NULL\<close>.\<close>

definition sk_push ::
  "(nat \<Rightarrow> bool) \<Rightarrow> 'p option \<Rightarrow> ('p, 'c) stack \<Rightarrow> 'p option \<Rightarrow> nat \<times> ('p, 'c) stack option" where
  "sk_push alloc fresh s p = sk_insert alloc fresh (Some s) p (stk_num s)"

definition sk_pop :: "('p, 'c) stack option \<Rightarrow> 'p option \<times> ('p, 'c) stack option" where
  "sk_pop sk =
     (case sk of None \<Rightarrow> (None, None) | Some s \<Rightarrow> if stk_num s = 0 then (None, sk) else sk_delete sk (stk_num s - 1))"

definition sk_dup :: "(nat \<Rightarrow> bool) \<Rightarrow> 'p option \<Rightarrow> ('p, 'c) stack option \<Rightarrow> ('p, 'c) stack option" where
  "sk_dup alloc fresh sk =
     (case sk of
        None \<Rightarrow> None
      | Some s \<Rightarrow>
     (case sk_new alloc (stk_comp s) of
        None \<Rightarrow> None
      | Some ret \<Rightarrow>
          if \<not> alloc (size_mul 8 (stk_num_alloc s)) then None
          else Some (ret\<lparr>stk_num := stk_num s,
                 stk_data := write_at (realloc_data fresh (stk_num_alloc s) (stk_data ret)) 0
                               (take (stk_num s) (stk_data s)),
                 stk_sorted := stk_sorted s, stk_num_alloc := stk_num_alloc s, stk_comp := stk_comp s\<rparr>)))"

definition sk_sort ::
  "(('p option \<Rightarrow> 'p option \<Rightarrow> int) \<Rightarrow> 'p option list \<Rightarrow> 'p option list) \<Rightarrow>
   ('c \<Rightarrow> 'p option \<Rightarrow> 'p option \<Rightarrow> int) \<Rightarrow> ('p, 'c) stack option \<Rightarrow> ('p, 'c) stack option" where
  "sk_sort srt call_cmp sk =
     (case sk of
        None \<Rightarrow> None
      | Some s \<Rightarrow>
     (case stk_comp s of
        None \<Rightarrow> sk
      | Some f \<Rightarrow>
          if stk_sorted s then sk
          else Some (s\<lparr>stk_data := (if stk_num s \<ge> 2
                                    then write_at (stk_data s) 0 (srt (call_cmp f) (take (stk_num s) (stk_data s)))
                                    else stk_data s),
                       stk_sorted := True\<rparr>)))"

definition sk_set_cmp_func :: "('p, 'c) stack \<Rightarrow> 'c option \<Rightarrow> 'c option \<times> ('p, 'c) stack" where
  "sk_set_cmp_func s cmp =
     (stk_comp s, s\<lparr>stk_sorted := (if stk_comp s \<noteq> cmp then False else stk_sorted s), stk_comp := cmp\<rparr>)"

text \<open>
  The copying loop. \<open>copy i p\<close> is what the caller's function returns for the element at \<open>i\<close>; when it
  returns \<^verbatim>\<open>NULL\<close>, the copies made so far are freed: \<open>Inr\<close> lists them.
\<close>

function deep_copy_loop :: "(nat \<Rightarrow> 'p \<Rightarrow> 'p option) \<Rightarrow> nat \<Rightarrow> 'p option list \<Rightarrow> nat \<Rightarrow> 'p option list + 'p list" where
  "deep_copy_loop copy n data i =
     (if i < n then
        case data ! i of
          None \<Rightarrow> deep_copy_loop copy n data (i + 1)
        | Some p \<Rightarrow>
            (case copy i p of
               Some q \<Rightarrow> deep_copy_loop copy n (data[i := Some q]) (i + 1)
             | None \<Rightarrow> Inr (List.map_filter id (take i data)))
      else Inl data)"
  by pat_completeness auto
termination
  by (relation "measure (\<lambda>(_, n, _, i). n - i)") auto

declare deep_copy_loop.simps [simp del]

definition sk_deep_copy ::
  "(nat \<Rightarrow> bool) \<Rightarrow> 'p option \<Rightarrow> ('p, 'c) stack option \<Rightarrow> (nat \<Rightarrow> 'p \<Rightarrow> 'p option) \<Rightarrow> ('p, 'c) stack option \<times> 'p list" where
  "sk_deep_copy alloc fresh sk copy =
     (case sk_dup alloc fresh sk of
        None \<Rightarrow> (None, [])
      | Some ret \<Rightarrow>
          (case deep_copy_loop copy (stk_num ret) (stk_data ret) 0 of
             Inl data \<Rightarrow> (Some (ret\<lparr>stk_data := data\<rparr>), [])
           | Inr freed \<Rightarrow> (None, freed)))"

section \<open>The list a stack holds\<close>

definition elems :: "('p, 'c) stack \<Rightarrow> 'p option list" where
  "elems s = take (stk_num s) (stk_data s)"

text \<open>The array always has room for one more element, and its size in bytes fits a \<^verbatim>\<open>size_t\<close>.\<close>

definition stack_ok :: "('p, 'c) stack \<Rightarrow> bool" where
  "stack_ok s \<longleftrightarrow> stk_num s < stk_num_alloc s \<and> length (stk_data s) = stk_num_alloc s \<and> stk_num_alloc s * 8 < 2 ^ 64"

text \<open>What the flag \<^verbatim>\<open>sorted\<close> claims.\<close>

definition flag_true :: "('c \<Rightarrow> 'p option \<Rightarrow> 'p option \<Rightarrow> int) \<Rightarrow> ('p, 'c) stack \<Rightarrow> bool" where
  "flag_true call_cmp s \<longleftrightarrow>
     (stk_sorted s \<longrightarrow> (case stk_comp s of None \<Rightarrow> False | Some f \<Rightarrow> ordered (call_cmp f) (elems s)))"

lemma length_elems [simp]: "stack_ok s \<Longrightarrow> length (elems s) = stk_num s"
  by (simp add: elems_def stack_ok_def)

lemma nth_elems: "i < stk_num s \<Longrightarrow> elems s ! i = stk_data s ! i"
  by (simp add: elems_def)

lemma scan_elems: "scan P 0 (take (stk_num s) (stk_data s)) = scan P 0 (elems s)"
  by (simp add: elems_def)

section \<open>Growing\<close>

lemma size_mul_no_wrap: "a * b < 2 ^ 64 \<Longrightarrow> size_mul a b = a * b"
  by (simp add: size_mul_def)

lemma div_mul_wrap:
  assumes "a < 2 ^ 64" and "size_mul a 8 div 8 = a"
  shows "a * 8 < 2 ^ 64"
proof (rule ccontr)
  assume "\<not> ?thesis"
  moreover have "size_mul a 8 < 2 ^ 64" by (simp add: size_mul_def)
  ultimately show False using assms by linarith
qed

lemma sk_grow_Some:
  assumes "sk_grow n = Some (m, sz)" and "n * 8 < 2 ^ 64" and "0 < n"
  shows "n < m \<and> sz = m * 8 \<and> m * 8 < 2 ^ 64"
proof -
  have d: "size_mul n 2 = n * 2" and a: "size_add n 1 = n + 1"
    using assms(2) by (simp_all add: size_mul_def size_add_def)
  from assms(1) have m: "(m = n * 2 \<or> m = n + 1) \<and> sz = size_mul m 8 \<and> size_mul m 8 div 8 = m"
    unfolding sk_grow_def Let_def d a by (auto split: if_splits)
  then have "m < 2 ^ 64" using assms(2) by auto
  with m div_mul_wrap have w: "m * 8 < 2 ^ 64" by blast
  moreover have "sz = m * 8" using m size_mul_no_wrap [OF w] by simp
  moreover have "n < m" using m assms(3) by auto
  ultimately show ?thesis by blast
qed

text \<open>Below \<open>2 ^ 60\<close> elements the array doubles.\<close>

lemma sk_grow_double: "n < 2 ^ 60 \<Longrightarrow> sk_grow n = Some (n * 2, n * 16)"
  by (simp add: sk_grow_def size_mul_def)

lemma sk_reserve_Some:
  assumes "sk_reserve alloc fresh s = Some s'" and "stack_ok s"
  shows "stack_ok s'" and "elems s' = elems s" and "stk_num s' = stk_num s" and "stk_num s + 1 < stk_num_alloc s'"
    and "stk_comp s' = stk_comp s" and "stk_sorted s' = stk_sorted s"
proof -
  from assms(2) have ok: "stk_num s < stk_num_alloc s" "length (stk_data s) = stk_num_alloc s" "stk_num_alloc s * 8 < 2 ^ 64"
    by (simp_all add: stack_ok_def)
  then have add: "size_add (stk_num s) 1 = stk_num s + 1" by (simp add: size_add_def)
  have "stack_ok s' \<and> elems s' = elems s \<and> stk_num s' = stk_num s \<and> stk_num s + 1 < stk_num_alloc s' \<and>
    stk_comp s' = stk_comp s \<and> stk_sorted s' = stk_sorted s"
  proof (cases "stk_num_alloc s \<le> stk_num s + 1")
    case True
    with assms(1) obtain m sz where g: "sk_grow (stk_num_alloc s) = Some (m, sz)"
      and s': "s' = s\<lparr>stk_data := realloc_data fresh m (stk_data s), stk_num_alloc := m\<rparr>"
      unfolding sk_reserve_def add by (auto split: option.splits if_splits)
    have m: "stk_num_alloc s < m" "m * 8 < 2 ^ 64" using sk_grow_Some [OF g ok(3)] ok(1) by auto
    have len: "length (realloc_data fresh m (stk_data s)) = m"
      and tk: "take (stk_num s) (realloc_data fresh m (stk_data s)) = take (stk_num s) (stk_data s)"
      using m ok by (simp_all add: realloc_data_def)
    show "stack_ok s' \<and> elems s' = elems s \<and> stk_num s' = stk_num s \<and> stk_num s + 1 < stk_num_alloc s' \<and>
      stk_comp s' = stk_comp s \<and> stk_sorted s' = stk_sorted s"
      using m ok(1) by (simp add: s' stack_ok_def elems_def len tk)
  next
    case False
    with assms(1) have "s' = s" unfolding sk_reserve_def add by simp
    with False assms(2) show "stack_ok s' \<and> elems s' = elems s \<and> stk_num s' = stk_num s \<and>
      stk_num s + 1 < stk_num_alloc s' \<and> stk_comp s' = stk_comp s \<and> stk_sorted s' = stk_sorted s" by simp
  qed
  then show "stack_ok s'" "elems s' = elems s" "stk_num s' = stk_num s" "stk_num s + 1 < stk_num_alloc s'"
    "stk_comp s' = stk_comp s" "stk_sorted s' = stk_sorted s" by blast+
qed

lemma sk_reserve_works:
  assumes "stack_ok s" and "\<forall>n. alloc n" and "stk_num_alloc s < 2 ^ 60"
  shows "sk_reserve alloc fresh s \<noteq> None"
  using assms(2) sk_grow_double [OF assms(3)] by (simp add: sk_reserve_def)

section \<open>Insertion and deletion\<close>

lemma take_insert_end: "n < length xs \<Longrightarrow> take (Suc n) (xs[n := p]) = take n xs @ [p]"
  by (simp add: take_Suc_conv_app_nth)

lemma take_insert_at:
  assumes "w < n" and "n < length xs"
  shows "take (Suc n) ((move_within xs (w + 1) w (n - w))[w := p]) = take w xs @ p # drop w (take n xs)"
proof (rule nth_equalityI)
  have len: "length (move_within xs (w + 1) w (n - w)) = length xs"
    using assms by (intro length_move_within) simp_all
  show "length (take (Suc n) ((move_within xs (w + 1) w (n - w))[w := p])) = length (take w xs @ p # drop w (take n xs))"
    using assms by (simp add: len [unfolded Suc_eq_plus1 [symmetric]])
  fix i assume "i < length (take (Suc n) ((move_within xs (w + 1) w (n - w))[w := p]))"
  then have i: "i < Suc n" "i < length xs" by (simp_all add: len [unfolded Suc_eq_plus1 [symmetric]])
  have seg: "length (take (n - w) (drop w xs)) = n - w" using assms by simp
  have "move_within xs (w + 1) w (n - w) ! i = (if w + 1 \<le> i \<and> i < w + 1 + (n - w) then xs ! (i - 1) else xs ! i)"
    unfolding move_within_def using assms i by (subst nth_write_at) (auto simp: seg)
  then show "take (Suc n) ((move_within xs (w + 1) w (n - w))[w := p]) ! i = (take w xs @ p # drop w (take n xs)) ! i"
    using assms i len by (auto simp: nth_append nth_list_update nth_Cons')
qed

lemma take_delete_at:
  assumes "w < n" and "n \<le> length xs" and "w \<noteq> n - 1"
  shows "take (n - 1) (move_within xs w (w + 1) (n - w - 1)) = take w xs @ drop (Suc w) (take n xs)"
proof -
  have seg: "take (n - w - 1) (drop (w + 1) xs) = drop (Suc w) (take n xs)"
    by (simp add: drop_take)
  have "w + length (drop (Suc w) (take n xs)) = n - 1" using assms by simp
  with take_write_at_end [of w xs "drop (Suc w) (take n xs)"] assms show ?thesis
    unfolding move_within_def seg by simp
qed

lemma sk_insert_cases:
  assumes "stack_ok s"
  obtains "sk_insert alloc fresh (Some s) p w = (0, Some s)" and "sk_reserve alloc fresh s = None"
  | s' where "sk_insert alloc fresh (Some s) p w = (stk_num s + 1, Some s')" and "stack_ok s'"
    and "elems s' = take w (elems s) @ p # drop w (elems s)" and "stk_comp s' = stk_comp s"
    and "\<not> stk_sorted s'"
proof (cases "sk_reserve alloc fresh s")
  case None
  then have "sk_insert alloc fresh (Some s) p w = (0, Some s)" by (simp add: sk_insert_def)
  with None that(1) show thesis by blast
next
  case (Some s1)
  note r = sk_reserve_Some [OF Some assms]
  have ok: "stk_num s1 < stk_num_alloc s1" "length (stk_data s1) = stk_num_alloc s1" "stk_num_alloc s1 * 8 < 2 ^ 64"
    using r(1) by (simp_all add: stack_ok_def)
  have add: "size_add (stk_num s) 1 = stk_num s + 1" using ok r(3) by (simp add: size_add_def)
  define data where "data = (if w \<ge> stk_num s then (stk_data s1)[stk_num s := p]
    else (move_within (stk_data s1) (w + 1) w (stk_num s - w))[w := p])"
  let ?s = "s1\<lparr>stk_data := data, stk_num := stk_num s + 1, stk_sorted := False\<rparr>"
  have e: "sk_insert alloc fresh (Some s) p w = (stk_num s + 1, Some ?s)"
    unfolding sk_insert_def option.case Some Let_def r(3) add data_def ..
  have len: "length data = stk_num_alloc s1"
    using ok r(3) by (simp add: data_def length_move_within)
  have "take (stk_num s + 1) data = take w (elems s1) @ p # drop w (elems s1)"
  proof (cases "w < stk_num s")
    case True
    with ok r(3) have "take (Suc (stk_num s)) data = take w (stk_data s1) @ p # drop w (elems s1)"
      using take_insert_at [of w "stk_num s" "stk_data s1" p] by (simp add: data_def elems_def)
    moreover have "take w (elems s1) = take w (stk_data s1)" using True r(3) by (simp add: elems_def min_def)
    ultimately show ?thesis by simp
  next
    case False
    with ok r(3) show ?thesis using take_insert_end [of "stk_num s" "stk_data s1" p]
      by (simp add: data_def elems_def)
  qed
  then have "elems ?s = take w (elems s) @ p # drop w (elems s)" unfolding r(2) by (simp add: elems_def)
  moreover have "stack_ok ?s" using r(4) ok(3) len by (simp add: stack_ok_def)
  ultimately show thesis using that(2) [OF e] r(5) by simp
qed

lemma sk_delete_Some:
  assumes "stack_ok s" and "i < stk_num s"
  obtains s' where "sk_delete (Some s) i = (elems s ! i, Some s')" and "stack_ok s'"
    and "elems s' = take i (elems s) @ drop (Suc i) (elems s)" and "stk_comp s' = stk_comp s"
    and "stk_sorted s' = stk_sorted s"
proof -
  have ok: "stk_num s < stk_num_alloc s" "length (stk_data s) = stk_num_alloc s" "stk_num_alloc s * 8 < 2 ^ 64"
    using assms(1) by (simp_all add: stack_ok_def)
  define data where "data = (if i \<noteq> stk_num s - 1 then move_within (stk_data s) i (i + 1) (stk_num s - i - 1) else stk_data s)"
  let ?s = "s\<lparr>stk_data := data, stk_num := stk_num s - 1\<rparr>"
  have e: "sk_delete (Some s) i = (elems s ! i, Some ?s)"
    using assms(2) by (simp add: sk_delete_def data_def nth_elems)
  have len: "length data = stk_num_alloc s" using ok assms(2) by (simp add: data_def length_move_within)
  have pre: "take i (elems s) = take i (stk_data s)" using assms(2) by (simp add: elems_def min_def)
  have "take (stk_num s - 1) data = take i (elems s) @ drop (Suc i) (elems s)"
  proof (cases "i = stk_num s - 1")
    case True
    with ok assms(2) show ?thesis unfolding pre by (simp add: data_def elems_def)
  next
    case False
    with ok assms(2) take_delete_at [of i "stk_num s" "stk_data s"] show ?thesis
      unfolding pre by (simp add: data_def elems_def)
  qed
  then have "elems ?s = take i (elems s) @ drop (Suc i) (elems s)" by (simp add: elems_def)
  moreover have "stack_ok ?s" using ok len by (simp add: stack_ok_def)
  ultimately show thesis using that [OF e] by simp
qed

section \<open>Searching\<close>

text \<open>
  The first match, if there is one, stays between \<open>lo\<close> and \<open>hi\<close>: nothing below \<open>lo\<close> matches, and
  when anything matches then something below \<open>hi\<close> does.
\<close>

context comparator
begin

lemma sk_find_loop_first:
  assumes "ordered cmp xs" and "xs = take n data" and "n \<le> length data" and "lo \<le> hi" and "hi \<le> n"
    and "\<forall>j<lo. cmp p (xs ! j) \<noteq> 0"
    and "\<forall>j<n. cmp p (xs ! j) = 0 \<longrightarrow> (\<exists>k<hi. cmp p (xs ! k) = 0)"
  shows "sk_find_loop cmp data p lo hi = scan (\<lambda>x. cmp p x = 0) 0 xs"
  using assms(4-)
proof (induction "hi - lo" arbitrary: lo hi rule: less_induct)
  case less
  have nth: "j < n \<Longrightarrow> data ! j = xs ! j" for j using assms(2) by simp
  have len: "length xs = n" using assms(2,3) by simp
  show ?case
  proof (cases "lo < hi")
    case False
    with less.prems have "\<forall>j<n. cmp p (xs ! j) \<noteq> 0" by (metis le_neq_implies_less)
    then have "scan (\<lambda>x. cmp p x = 0) 0 xs = None" by (auto simp: scan_None in_set_conv_nth len)
    with False show ?thesis by (simp add: sk_find_loop.simps)
  next
    case True
    define mid where "mid = lo + (hi - lo - 1) div 2"
    have mid: "lo \<le> mid" "mid < hi" "mid < n" using True less.prems(2) by (auto simp: mid_def)
    define r where "r = cmp p (xs ! mid)"
    have step: "sk_find_loop cmp data p lo hi =
        (if r > 0 then sk_find_loop cmp data p (mid + 1) hi
         else if r < 0 then sk_find_loop cmp data p lo mid
         else if hi - lo = 1 then Some mid
         else sk_find_loop cmp data p lo (mid + 1))"
      using True mid(3) nth by (subst sk_find_loop.simps) (simp add: mid_def r_def Let_def)
    consider "r > 0" | "r < 0" | "r = 0" "hi - lo = 1" | "r = 0" "hi - lo \<noteq> 1" by linarith
    then show ?thesis
    proof cases
      case 1
      have "cmp p (xs ! j) \<noteq> 0" if "j < mid + 1" for j
        using ordered_before [OF assms(1), of p mid j] that 1 mid(3) by (simp add: r_def len)
      with 1 less.prems mid True show ?thesis unfolding step by (simp del: One_nat_def add: less.hyps)
    next
      case 2
      then have "cmp p (xs ! j) < 0" if "mid \<le> j" "j < n" for j
        using ordered_after [OF assms(1), of p mid j] that by (simp add: r_def len)
      then have "\<forall>k<hi. cmp p (xs ! k) = 0 \<longrightarrow> k < mid"
        using less.prems(2) by (metis less_irrefl not_le order_less_le_trans)
      with less.prems have "\<forall>j<n. cmp p (xs ! j) = 0 \<longrightarrow> (\<exists>k<mid. cmp p (xs ! k) = 0)" by blast
      with 2 less.prems mid show ?thesis unfolding step by (simp add: less.hyps)
    next
      case 3
      with mid have "mid = lo" by linarith
      with 3 less.prems mid have "scan (\<lambda>x. cmp p x = 0) 0 xs = Some mid"
        by (simp add: scan_Some len r_def)
      with 3 show ?thesis unfolding step by simp
    next
      case 4
      then have "mid + 1 < hi" using True by (simp add: mid_def)
      then have s: "mid + 1 - lo < hi - lo" "lo \<le> mid + 1" "mid + 1 \<le> n" using mid less.prems(2) by simp_all
      have "cmp p (xs ! mid) = 0" "mid < mid + 1" using 4 by (simp_all add: r_def)
      then have "\<forall>j<n. cmp p (xs ! j) = 0 \<longrightarrow> (\<exists>k<mid + 1. cmp p (xs ! k) = 0)" by blast
      from less.hyps [OF s less.prems(3) this] 4 show ?thesis unfolding step by simp
    qed
  qed
qed

end

text \<open>Which elements \<^verbatim>\<open>sk_find\<close> matches: by the comparison function, or the same pointer without one.\<close>

definition sk_matches :: "('c \<Rightarrow> 'p option \<Rightarrow> 'p option \<Rightarrow> int) \<Rightarrow> ('p, 'c) stack \<Rightarrow> 'p option \<Rightarrow> 'p option \<Rightarrow> bool" where
  "sk_matches call_cmp s p x =
     (case stk_comp s of None \<Rightarrow> x = p | Some f \<Rightarrow> p \<noteq> None \<and> call_cmp f p x = 0)"

lemma sk_find_scan:
  assumes "stack_ok s" and "flag_true call_cmp s" and "\<forall>f. comparator (call_cmp f)"
  shows "sk_find call_cmp (Some s) p = scan (sk_matches call_cmp s p) 0 (elems s)"
proof (cases "stk_comp s")
  case None
  have "sk_matches call_cmp s p = (\<lambda>x. x = p)" by (rule ext) (simp add: sk_matches_def None)
  with None show ?thesis by (simp add: sk_find_def elems_def)
next
  case (Some f)
  show ?thesis
  proof (cases p)
    case None
    have "sk_matches call_cmp s p = (\<lambda>x. False)" by (rule ext) (simp add: sk_matches_def Some None)
    moreover have "scan (\<lambda>x. False) 0 (elems s) = None" by (simp add: scan_None)
    ultimately show ?thesis using Some None by (simp add: sk_find_def)
  next
    case p: (Some q)
    have m: "sk_matches call_cmp s p = (\<lambda>x. call_cmp f p x = 0)" by (rule ext) (simp add: sk_matches_def Some p)
    show ?thesis
    proof (cases "stk_sorted s")
      case True
      have ord: "ordered (call_cmp f) (elems s)" using assms(2) True Some by (simp add: flag_true_def)
      have cmp: "comparator (call_cmp f)" using assms(3) by blast
      have "sk_find_loop (call_cmp f) (stk_data s) p 0 (stk_num s) = scan (\<lambda>x. call_cmp f p x = 0) 0 (elems s)"
        using assms(1) by (intro comparator.sk_find_loop_first [OF cmp ord elems_def]) (auto simp: stack_ok_def)
      with True Some p show ?thesis unfolding m by (simp add: sk_find_def sk_is_sorted_def)
    next
      case False
      with Some p show ?thesis unfolding m by (simp add: sk_find_def sk_is_sorted_def elems_def)
    qed
  qed
qed

section \<open>Sorting and copying\<close>

lemma elems_write_at: "length xs = stk_num s \<Longrightarrow> stack_ok s \<Longrightarrow>
  elems (s\<lparr>stk_data := write_at (stk_data s) 0 xs\<rparr>) = xs"
  using take_write_at_end [of 0 "stk_data s" xs] by (simp add: elems_def)

lemma sk_sort_spec:
  assumes "stack_ok s" and "sorter srt" and "\<forall>f. comparator (call_cmp f)" and "stk_comp s = Some f" and "flag_true call_cmp s"
  obtains s' where "sk_sort srt call_cmp (Some s) = Some s'" and "stack_ok s'" and "mset (elems s') = mset (elems s)"
    and "ordered (call_cmp f) (elems s')" and "stk_comp s' = Some f" and "stk_sorted s'"
proof (cases "stk_sorted s")
  case True
  with assms(4,5) have "sk_sort srt call_cmp (Some s) = Some s" "ordered (call_cmp f) (elems s)"
    by (simp_all add: sk_sort_def flag_true_def)
  with that [of s] True assms show thesis by simp
next
  case False
  let ?xs = "srt (call_cmp f) (elems s)"
  let ?s = "s\<lparr>stk_data := (if stk_num s \<ge> 2 then write_at (stk_data s) 0 ?xs else stk_data s), stk_sorted := True\<rparr>"
  have len: "length ?xs = stk_num s" using sorter.length_sort [OF assms(2)] assms(1) by simp
  have e: "sk_sort srt call_cmp (Some s) = Some ?s"
    using False assms(4) by (simp add: sk_sort_def elems_def)
  have n: "stk_num s \<le> length (stk_data s)" using assms(1) by (simp add: stack_ok_def)
  have ok: "stack_ok ?s" using assms(1) n len by (simp add: stack_ok_def length_write_at)
  have "mset (elems ?s) = mset (elems s) \<and> ordered (call_cmp f) (elems ?s)"
  proof (cases "stk_num s \<ge> 2")
    case True
    then have "elems ?s = ?xs"
      using take_write_at_end [of 0 "stk_data s" ?xs] len by (simp add: elems_def)
    moreover have "comparator (call_cmp f)" using assms(3) by blast
    ultimately show ?thesis using sorter.perm [OF assms(2)] sorter.sorts [OF assms(2)] by simp
  next
    case False
    then have "elems ?s = elems s" by (simp add: elems_def)
    moreover have "length (elems s) < 2" using False assms(1) by simp
    then have "ordered (call_cmp f) (elems s)" by (cases "elems s") (auto simp: ordered_def)
    ultimately show ?thesis by simp
  qed
  with e ok assms(4) that [of ?s] show thesis by simp
qed

lemma sk_dup_Some:
  assumes "sk_dup alloc fresh (Some s) = Some t" and "stack_ok s"
  shows "stack_ok t" and "elems t = elems s" and "stk_num t = stk_num s" and "stk_comp t = stk_comp s"
    and "stk_sorted t = stk_sorted s"
proof -
  from assms(1) obtain ret where ret: "sk_new alloc (stk_comp s) = Some ret"
    and t: "t = ret\<lparr>stk_num := stk_num s,
                 stk_data := write_at (realloc_data fresh (stk_num_alloc s) (stk_data ret)) 0
                               (take (stk_num s) (stk_data s)),
                 stk_sorted := stk_sorted s, stk_num_alloc := stk_num_alloc s, stk_comp := stk_comp s\<rparr>"
    by (auto simp: sk_dup_def split: option.splits if_splits)
  have n: "stk_num s < stk_num_alloc s" "length (stk_data s) = stk_num_alloc s"
    using assms(2) by (simp_all add: stack_ok_def)
  have len: "length (realloc_data fresh (stk_num_alloc s) (stk_data ret)) = stk_num_alloc s"
    by (simp add: realloc_data_def)
  show "stk_num t = stk_num s" "stk_comp t = stk_comp s" "stk_sorted t = stk_sorted s" by (simp_all add: t)
  show "stack_ok t" using assms(2) n len by (simp add: t stack_ok_def length_write_at)
  show "elems t = elems s"
    using take_write_at_end [of 0 "realloc_data fresh (stk_num_alloc s) (stk_data ret)" "take (stk_num s) (stk_data s)"] n
    by (simp add: t elems_def)
qed

text \<open>What the copy of the element at \<open>i\<close> is.\<close>

definition copied :: "(nat \<Rightarrow> 'p \<Rightarrow> 'p option) \<Rightarrow> 'p option list \<Rightarrow> nat \<Rightarrow> 'p option" where
  "copied copy xs i = (case xs ! i of None \<Rightarrow> None | Some p \<Rightarrow> copy i p)"

lemma copied_update: "i < j \<Longrightarrow> copied copy (xs[i := x]) j = copied copy xs j"
  by (simp add: copied_def)

lemma map_copied_update: "map (copied copy (xs[i := x])) [Suc i..<k] = map (copied copy xs) [Suc i..<k]"
  by (rule map_cong) (simp_all add: copied_update)

lemma deep_copy_loop_spec:
  assumes "n \<le> length data" and "i \<le> n"
  shows "(case deep_copy_loop copy n data i of
      Inl data' \<Rightarrow> data' = take i data @ map (copied copy data) [i..<n] @ drop n data \<and>
        (\<forall>j. i \<le> j \<and> j < n \<and> data ! j \<noteq> None \<longrightarrow> copied copy data j \<noteq> None)
    | Inr freed \<Rightarrow> \<exists>k. i \<le> k \<and> k < n \<and> data ! k \<noteq> None \<and> copied copy data k = None \<and>
        freed = List.map_filter id (take i data @ map (copied copy data) [i..<k]))"
  using assms
proof (induction "n - i" arbitrary: i data)
  case 0
  then have "deep_copy_loop copy n data i = Inl data" "i = n" by (simp_all add: deep_copy_loop.simps)
  then show ?case by auto
next
  case (Suc d)
  then have less: "i < n" "i < length data" by simp_all
  note step = deep_copy_loop.simps [of copy n data i]
  have upt: "[i..<n] = i # [Suc i..<n]" "\<And>k. i < k \<Longrightarrow> [i..<k] = i # [Suc i..<k]"
    using less by (simp_all add: upt_conv_Cons)
  show ?case
  proof (cases "copied copy data i = None \<and> data ! i \<noteq> None")
    case True
    then obtain x where x: "data ! i = Some x" "copy i x = None" by (auto simp: copied_def)
    then have "deep_copy_loop copy n data i = Inr (List.map_filter id (take i data))"
      using less by (subst step) simp
    moreover have "\<exists>k. i \<le> k \<and> k < n \<and> data ! k \<noteq> None \<and> copied copy data k = None \<and>
        List.map_filter id (take i data) = List.map_filter id (take i data @ map (copied copy data) [i..<k])"
      using True less by (intro exI [of _ i]) simp
    ultimately show ?thesis by simp
  next
    case False
    define data1 where "data1 = data[i := copied copy data i]"
    have e: "deep_copy_loop copy n data i = deep_copy_loop copy n data1 (Suc i)"
    proof (cases "data ! i")
      case None
      then have "data1 = data" by (simp add: data1_def copied_def list_update_same_conv less(2))
      then show ?thesis using less None by (subst step) simp
    next
      case (Some x)
      then obtain q where "copy i x = Some q" using False by (auto simp: copied_def)
      then show ?thesis using less Some by (subst step) (simp add: data1_def copied_def)
    qed
    have IH: "case deep_copy_loop copy n data1 (Suc i) of
      Inl data' \<Rightarrow> data' = take (Suc i) data1 @ map (copied copy data1) [Suc i..<n] @ drop n data1 \<and>
        (\<forall>j. Suc i \<le> j \<and> j < n \<and> data1 ! j \<noteq> None \<longrightarrow> copied copy data1 j \<noteq> None)
    | Inr freed \<Rightarrow> \<exists>k. Suc i \<le> k \<and> k < n \<and> data1 ! k \<noteq> None \<and> copied copy data1 k = None \<and>
        freed = List.map_filter id (take (Suc i) data1 @ map (copied copy data1) [Suc i..<k])"
      using Suc.hyps(2) Suc.prems less by (intro Suc.hyps(1)) (simp_all add: data1_def)
    have tk: "take (Suc i) data1 = take i data @ [copied copy data i]"
      using less by (simp add: data1_def take_Suc_conv_app_nth)
    have same: "j \<noteq> i \<Longrightarrow> data1 ! j = data ! j" "i < j \<Longrightarrow> copied copy data1 j = copied copy data j" for j
      by (simp_all add: data1_def copied_update)
    have dr: "drop n data1 = drop n data" using less by (simp add: data1_def)
    have mp: "map (copied copy data1) [Suc i..<k] = map (copied copy data) [Suc i..<k]" for k
      unfolding data1_def by (rule map_copied_update)
    show ?thesis
    proof (cases "deep_copy_loop copy n data1 (Suc i)")
      case (Inl data')
      with IH have "data' = take i data @ map (copied copy data) [i..<n] @ drop n data"
        unfolding tk mp dr upt(1) by simp
      moreover have "copied copy data j \<noteq> None" if "i \<le> j" "j < n" "data ! j \<noteq> None" for j
      proof (cases "j = i")
        case True
        with False that(3) show ?thesis by auto
      next
        case j: False
        with that(1) have "Suc i \<le> j" "i < j" by simp_all
        from IH Inl have "\<forall>j. Suc i \<le> j \<and> j < n \<and> data1 ! j \<noteq> None \<longrightarrow> copied copy data1 j \<noteq> None" by simp
        then have "data1 ! j \<noteq> None \<longrightarrow> copied copy data1 j \<noteq> None" using \<open>Suc i \<le> j\<close> that(2) by blast
        with that(3) show ?thesis unfolding same(1) [OF j] same(2) [OF \<open>i < j\<close>] by blast
      qed
      ultimately show ?thesis unfolding e Inl by simp
    next
      case (Inr freed)
      with IH obtain k where k: "Suc i \<le> k" "k < n" "data1 ! k \<noteq> None" "copied copy data1 k = None"
        and freed: "freed = List.map_filter id (take (Suc i) data1 @ map (copied copy data1) [Suc i..<k])" by auto
      from freed have "freed = List.map_filter id (take i data @ map (copied copy data) [i..<k])"
        unfolding tk mp using k(1) by (simp add: upt(2))
      with k same [of k] show ?thesis unfolding e Inr by (auto intro!: exI [of _ k])
    qed
  qed
qed

section \<open>Sequences of calls\<close>

text \<open>
  One call on a stack, or one that makes a copy of it with which the program goes on. The first argument says whether
  the call replaces elements and leaves the flag \<^verbatim>\<open>sorted\<close> as it is: \<^verbatim>\<open>sk_set\<close> does, and \<^verbatim>\<open>sk_deep_copy\<close> puts copies in
  the place of the elements (see \<open>sk_set_keeps_sorted_flag\<close>).
\<close>

inductive stack_step ::
  "(('p option \<Rightarrow> 'p option \<Rightarrow> int) \<Rightarrow> 'p option list \<Rightarrow> 'p option list) \<Rightarrow>
   ('c \<Rightarrow> 'p option \<Rightarrow> 'p option \<Rightarrow> int) \<Rightarrow> bool \<Rightarrow> ('p, 'c) stack \<Rightarrow> ('p, 'c) stack \<Rightarrow> bool"
  for srt call_cmp where
  insert: "sk_insert alloc fresh (Some s) p i = (n, Some s') \<Longrightarrow> stack_step srt call_cmp False s s'"
| push: "sk_push alloc fresh s p = (n, Some s') \<Longrightarrow> stack_step srt call_cmp False s s'"
| delete: "sk_delete (Some s) i = (p, Some s') \<Longrightarrow> stack_step srt call_cmp False s s'"
| delete_ptr: "sk_delete_ptr (Some s) q = (p, Some s') \<Longrightarrow> stack_step srt call_cmp False s s'"
| shift: "sk_shift (Some s) = (p, Some s') \<Longrightarrow> stack_step srt call_cmp False s s'"
| pop: "sk_pop (Some s) = (p, Some s') \<Longrightarrow> stack_step srt call_cmp False s s'"
| zero: "sk_zero (Some s) = Some s' \<Longrightarrow> stack_step srt call_cmp False s s'"
| set: "sk_set (Some s) i p = (q, Some s') \<Longrightarrow> stack_step srt call_cmp True s s'"
| sort: "sk_sort srt call_cmp (Some s) = Some s' \<Longrightarrow> stack_step srt call_cmp False s s'"
| set_cmp_func: "sk_set_cmp_func s f = (old, s') \<Longrightarrow> stack_step srt call_cmp False s s'"
| dup: "sk_dup alloc fresh (Some s) = Some s' \<Longrightarrow> stack_step srt call_cmp False s s'"
| deep_copy: "sk_deep_copy alloc fresh (Some s) copy = (Some s', freed) \<Longrightarrow> stack_step srt call_cmp True s s'"

text \<open>
  Any sequence of calls from a stack \<open>s0\<close>. The argument \<open>stale\<close> says whether the stack is marked sorted and elements
  were replaced since it was marked.
\<close>

inductive stack_run ::
  "(('p option \<Rightarrow> 'p option \<Rightarrow> int) \<Rightarrow> 'p option list \<Rightarrow> 'p option list) \<Rightarrow>
   ('c \<Rightarrow> 'p option \<Rightarrow> 'p option \<Rightarrow> int) \<Rightarrow> ('p, 'c) stack \<Rightarrow> bool \<Rightarrow> ('p, 'c) stack \<Rightarrow> bool"
  for srt call_cmp s0 where
  run_start: "stack_run srt call_cmp s0 False s0"
| run_step: "\<lbrakk>stack_run srt call_cmp s0 stale s; stack_step srt call_cmp replaces s s'\<rbrakk> \<Longrightarrow>
    stack_run srt call_cmp s0 ((stale \<or> replaces) \<and> stk_sorted s') s'"

definition stack_inv :: "('c \<Rightarrow> 'p option \<Rightarrow> 'p option \<Rightarrow> int) \<Rightarrow> ('p, 'c) stack \<Rightarrow> bool" where
  "stack_inv call_cmp s \<longleftrightarrow> stack_ok s \<and> flag_true call_cmp s"

lemma sk_new_inv: "sk_new alloc f = Some s \<Longrightarrow> stack_inv call_cmp s \<and> elems s = []"
  by (auto simp: sk_new_def stack_inv_def stack_ok_def flag_true_def elems_def kMinSize_def split: if_splits)

lemma flag_true_delete:
  assumes "flag_true call_cmp s" and "elems s' = take i (elems s) @ drop (Suc i) (elems s)"
    and "stk_comp s' = stk_comp s" and "stk_sorted s' = stk_sorted s"
  shows "flag_true call_cmp s'"
proof -
  have "ordered c (take i xs @ drop (Suc i) xs)" if "ordered c xs" for c and xs :: "'b option list"
  proof -
    have "ordered c (take i xs @ xs ! i # drop (Suc i) xs)" if "i < length xs"
      using \<open>ordered c xs\<close> id_take_nth_drop [OF that] by simp
    then show ?thesis using that by (cases "i < length xs") (auto simp: ordered_def sorted_wrt_append)
  qed
  with assms show ?thesis by (auto simp: flag_true_def split: option.splits)
qed

text \<open>What a call that replaces no element keeps, and what every call keeps.\<close>

definition keeps :: "('c \<Rightarrow> 'p option \<Rightarrow> 'p option \<Rightarrow> int) \<Rightarrow> ('p, 'c) stack \<Rightarrow> ('p, 'c) stack \<Rightarrow> bool" where
  "keeps call_cmp s s' \<longleftrightarrow> (stack_ok s \<longrightarrow> stack_ok s' \<and> (flag_true call_cmp s \<longrightarrow> flag_true call_cmp s'))"

lemma keeps_refl [simp]: "keeps call_cmp s s"
  by (simp add: keeps_def)

lemma sk_delete_keeps:
  assumes "sk_delete (Some s) i = (p, Some s')"
  shows "keeps call_cmp s s'"
  unfolding keeps_def
proof
  assume ok: "stack_ok s"
  show "stack_ok s' \<and> (flag_true call_cmp s \<longrightarrow> flag_true call_cmp s')"
  proof (cases "i < stk_num s")
    case True
    from sk_delete_Some [OF ok this] obtain t where "sk_delete (Some s) i = (elems s ! i, Some t)" "stack_ok t"
      "elems t = take i (elems s) @ drop (Suc i) (elems s)" "stk_comp t = stk_comp s" "stk_sorted t = stk_sorted s" .
    with assms show ?thesis using flag_true_delete [of call_cmp s t i] by simp
  next
    case False
    with assms ok show ?thesis by (simp add: sk_delete_def)
  qed
qed

lemma sk_insert_keeps:
  assumes "sk_insert alloc fresh (Some s) p i = (n, Some s')"
  shows "keeps call_cmp s s'"
  unfolding keeps_def
proof
  assume "stack_ok s"
  then show "stack_ok s' \<and> (flag_true call_cmp s \<longrightarrow> flag_true call_cmp s')"
    by (rule sk_insert_cases [of s alloc fresh p i]) (use assms \<open>stack_ok s\<close> in \<open>auto simp: flag_true_def\<close>)
qed

lemma sk_sort_keeps:
  assumes "sk_sort srt call_cmp (Some s) = Some s'" and srt: "sorter srt" "\<forall>f. comparator (call_cmp f)"
  shows "keeps call_cmp s s'"
  unfolding keeps_def
proof
  assume ok: "stack_ok s"
  show "stack_ok s' \<and> (flag_true call_cmp s \<longrightarrow> flag_true call_cmp s')"
  proof (cases "stk_comp s = None \<or> stk_sorted s")
    case True
    then have "sk_sort srt call_cmp (Some s) = Some s" by (auto simp: sk_sort_def split: option.splits)
    then show ?thesis using assms(1) ok by simp
  next
    case False
    then obtain f where f: "stk_comp s = Some f" "flag_true call_cmp s" by (auto simp: flag_true_def)
    from sk_sort_spec [OF ok srt this] obtain t where "sk_sort srt call_cmp (Some s) = Some t" "stack_ok t"
      "ordered (call_cmp f) (elems t)" "stk_comp t = Some f" by blast
    then show ?thesis using assms(1) by (simp add: flag_true_def)
  qed
qed

lemma sk_set_cmp_func_keeps: "sk_set_cmp_func s f = (old, s') \<Longrightarrow> keeps call_cmp s s'"
proof -
  assume "sk_set_cmp_func s f = (old, s')"
  then have "elems s' = elems s" "stack_ok s' = stack_ok s" "stk_comp s' = f" "stk_sorted s' = (stk_comp s = f \<and> stk_sorted s)"
    by (auto simp: sk_set_cmp_func_def stack_ok_def elems_def split: if_splits)
  then show ?thesis by (cases f) (auto simp: keeps_def flag_true_def)
qed

lemma sk_deep_copy_ok:
  assumes "sk_deep_copy alloc fresh (Some s) copy = (Some s', freed)" and "stack_ok s"
  shows "stack_ok s'"
proof -
  from assms(1) obtain t data where t: "sk_dup alloc fresh (Some s) = Some t" "deep_copy_loop copy (stk_num t) (stk_data t) 0 = Inl data"
    "s' = t\<lparr>stk_data := data\<rparr>" by (auto simp: sk_deep_copy_def split: option.splits sum.splits)
  have ok: "stack_ok t" using sk_dup_Some(1) [OF t(1) assms(2)] .
  then have n: "stk_num t \<le> length (stk_data t)" by (simp add: stack_ok_def)
  from deep_copy_loop_spec [OF n, of 0 copy] t(2)
  have "data = map (copied copy (stk_data t)) [0..<stk_num t] @ drop (stk_num t) (stk_data t)" by simp
  then show ?thesis using ok n by (simp add: t(3) stack_ok_def)
qed

lemma stack_step_keeps:
  assumes "stack_step srt call_cmp replaces s s'" and "sorter srt" and "\<forall>f. comparator (call_cmp f)"
  shows "if replaces then stack_ok s \<longrightarrow> stack_ok s' else keeps call_cmp s s'"
  using assms
proof (induction rule: stack_step.induct)
  case (insert alloc fresh s p i n s')
  then show ?case by (simp add: sk_insert_keeps)
next
  case (push alloc fresh s p n s')
  then show ?case by (simp add: sk_push_def sk_insert_keeps)
next
  case (delete s i p s')
  then show ?case by (simp add: sk_delete_keeps)
next
  case (delete_ptr s q p s')
  then show ?case by (auto simp: sk_delete_ptr_def split: option.splits intro: sk_delete_keeps)
next
  case (shift s p s')
  then show ?case by (auto simp: sk_shift_def split: if_splits intro: sk_delete_keeps)
next
  case (pop s p s')
  then show ?case by (auto simp: sk_pop_def split: if_splits intro: sk_delete_keeps)
next
  case (zero s s')
  then show ?case by (auto simp: sk_zero_def keeps_def stack_ok_def flag_true_def length_write_at split: if_splits)
next
  case (set s i p q s')
  then show ?case by (auto simp: sk_set_def stack_ok_def split: if_splits)
next
  case (sort s s')
  then show ?case by (simp add: sk_sort_keeps)
next
  case (set_cmp_func s f old s')
  then show ?case by (simp add: sk_set_cmp_func_keeps)
next
  case (dup alloc fresh s s')
  then show ?case using sk_dup_Some [OF dup(1)] by (auto simp: keeps_def flag_true_def split: option.splits)
next
  case (deep_copy alloc fresh s copy s' freed)
  then show ?case by (simp add: sk_deep_copy_ok)
qed

lemma stack_run_inv:
  assumes "stack_run srt call_cmp s0 stale s" and "stack_inv call_cmp s0" and "sorter srt" and "\<forall>f. comparator (call_cmp f)"
  shows "stack_ok s \<and> (\<not> stale \<longrightarrow> flag_true call_cmp s)"
  using assms(1)
proof (induction rule: stack_run.induct)
  case run_start
  then show ?case using assms(2) by (simp add: stack_inv_def)
next
  case (run_step stale s replaces s')
  from stack_step_keeps [OF run_step(2) assms(3,4)] run_step.IH show ?case
    by (cases "stk_sorted s'") (auto simp: keeps_def flag_true_def split: if_splits)
qed

section \<open>An example\<close>

definition cmp_by_tens :: "unit \<Rightarrow> int option \<Rightarrow> int option \<Rightarrow> int" where
  "cmp_by_tens f x y = (case (x, y) of (Some a, Some b) \<Rightarrow> a div 10 - b div 10
     | (None, Some _) \<Rightarrow> -1 | (Some _, None) \<Rightarrow> 1 | _ \<Rightarrow> 0)"

interpretation by_tens: comparator "cmp_by_tens f"
  by unfold_locales (auto simp: cmp_by_tens_def sgn_if split: option.splits)

text \<open>Three calls of \<^verbatim>\<open>sk_push\<close> and one of \<^verbatim>\<open>sk_sort\<close>.\<close>

definition tens_stack :: "int list \<Rightarrow> (int, unit) stack" where
  "tens_stack xs = \<lparr>stk_num = length xs, stk_data = map Some xs @ replicate (4 - length xs) None, stk_sorted = False,
     stk_num_alloc = 4, stk_comp = Some ()\<rparr>"

definition tens_sorted :: "(int, unit) stack" where
  "tens_sorted = (tens_stack [3, 25, 21])\<lparr>stk_sorted := True\<rparr>"

lemma tens_run:
  "sk_new (\<lambda>_. True) (Some ()) = Some (tens_stack [])"
  "stack_run qsort cmp_by_tens (tens_stack []) False tens_sorted"
proof -
  show "sk_new (\<lambda>_. True) (Some ()) = Some (tens_stack [])" by (simp add: sk_new_def kMinSize_def tens_stack_def)
  have a: "size_add 0 (Suc 0) = Suc 0" "size_add (Suc 0) (Suc 0) = Suc (Suc 0)"
    "size_add (Suc (Suc 0)) (Suc 0) = Suc (Suc (Suc 0))" by (simp_all add: size_add_def)
  have r: "sk_push (\<lambda>_. True) None (tens_stack []) (Some 25) = (1, Some (tens_stack [25]))"
    "sk_push (\<lambda>_. True) None (tens_stack [25]) (Some 3) = (2, Some (tens_stack [25, 3]))"
    "sk_push (\<lambda>_. True) None (tens_stack [25, 3]) (Some 21) = (3, Some (tens_stack [25, 3, 21]))"
    "sk_sort qsort cmp_by_tens (Some (tens_stack [25, 3, 21])) = Some tens_sorted"
    by (simp_all add: sk_push_def sk_insert_def sk_reserve_def sk_sort_def tens_stack_def tens_sorted_def a
        qsort_def cmp_by_tens_def write_at_def numeral_eq_Suc)
  note step = run_step [of qsort cmp_by_tens "tens_stack []", where stale = False and replaces = False, simplified]
  have "stack_run qsort cmp_by_tens (tens_stack []) False (tens_stack [25])"
    by (rule step [OF run_start stack_step.push [OF r(1)]])
  then have "stack_run qsort cmp_by_tens (tens_stack []) False (tens_stack [25, 3])" by (rule step [OF _ stack_step.push [OF r(2)]])
  then have "stack_run qsort cmp_by_tens (tens_stack []) False (tens_stack [25, 3, 21])" by (rule step [OF _ stack_step.push [OF r(3)]])
  then show "stack_run qsort cmp_by_tens (tens_stack []) False tens_sorted" by (rule step [OF _ stack_step.sort [OF r(4)]])
qed

section \<open>Properties\<close>

text \<open>
  C19. Whatever calls are made on a stack, \<^verbatim>\<open>sk_set\<close> on a stack marked sorted and \<^verbatim>\<open>sk_deep_copy\<close> included, its array keeps
  room for one more element and its size in bytes fits a \<^verbatim>\<open>size_t\<close>. When it is marked sorted its elements are in
  ascending order of the current comparison function, unless \<^verbatim>\<open>sk_set\<close> or \<^verbatim>\<open>sk_deep_copy\<close> replaced elements since it was
  marked: these two do not clear the mark.
\<close>

theorem stack_calls_keep_invariant:
  assumes "sk_new alloc f = Some s0" and "stack_run srt call_cmp s0 stale s"
    and "sorter srt" and "\<forall>f. comparator (call_cmp f)"
  shows "stk_num s < stk_num_alloc s \<and> length (stk_data s) = stk_num_alloc s \<and> stk_num_alloc s * 8 < 2 ^ 64 \<and>
    (stk_sorted s \<and> \<not> stale \<longrightarrow> (case stk_comp s of None \<Rightarrow> False | Some f \<Rightarrow> ordered (call_cmp f) (elems s)))"
  using stack_run_inv [OF assms(2) _ assms(3,4)] sk_new_inv [OF assms(1)]
  unfolding stack_inv_def stack_ok_def flag_true_def by blast

theorem stack_calls_keep_invariant_witness:
  "ordered (cmp_by_tens ()) (elems tens_sorted)"
proof -
  have c: "\<forall>f. comparator (cmp_by_tens f)" by (simp add: by_tens.comparator_axioms)
  show ?thesis using stack_calls_keep_invariant [OF tens_run qsort.sorter_axioms c]
    by (simp add: tens_sorted_def tens_stack_def)
qed

text \<open>
  C18. In every stack that a sequence of calls can produce from a new one, such that it is not marked sorted or no
  \<^verbatim>\<open>sk_set\<close> and no \<^verbatim>\<open>sk_deep_copy\<close> replaced elements since it was marked sorted, \<^verbatim>\<open>sk_find\<close> returns the first element
  that matches: the binary search on a sorted stack, the linear search on another and the search by pointer all
  agree with one scan from the front.
\<close>

theorem sk_find_first_match:
  assumes "sk_new alloc f = Some s0" and "stack_run srt call_cmp s0 stale s" and "\<not> stale"
    and "sorter srt" and "\<forall>f. comparator (call_cmp f)"
  shows "sk_find call_cmp (Some s) p = scan (sk_matches call_cmp s p) 0 (elems s)"
proof -
  have "stack_ok s" "flag_true call_cmp s" using stack_run_inv [OF assms(2) _ assms(4,5)] sk_new_inv [OF assms(1)] assms(3) by blast+
  then show ?thesis using assms(5) by (rule sk_find_scan)
qed

theorem sk_find_first_match_witness:
  "sk_find cmp_by_tens (Some tens_sorted) (Some 21) = Some 1"
proof -
  have c: "\<forall>f. comparator (cmp_by_tens f)" by (simp add: by_tens.comparator_axioms)
  have "scan (sk_matches cmp_by_tens tens_sorted (Some 21)) 0 (elems tens_sorted) = Some 1" by code_simp
  then show ?thesis using sk_find_first_match [OF tens_run _ qsort.sorter_axioms c] by simp
qed

text \<open>
  C20. The array of a stack refines a list: \<^verbatim>\<open>sk_insert\<close> either fails and leaves the stack as it was, or
  returns the new number of elements and has put the pointer before the element at \<open>i\<close> (at the
  end, when \<open>i\<close> is past it); \<^verbatim>\<open>sk_delete\<close> returns the element at \<open>i\<close> and removes it; below \<open>2 ^ 60\<close>
  slots only the allocator can make an insertion fail.
\<close>

theorem stack_refines_list:
  assumes "stack_ok s"
  shows "(case sk_insert alloc fresh (Some s) p i of
      (n, Some s') \<Rightarrow> stack_ok s' \<and>
        (n = 0 \<and> s' = s \<and> \<not> ((\<forall>m. alloc m) \<and> stk_num_alloc s < 2 ^ 60) \<or>
         n = length (elems s) + 1 \<and> elems s' = take i (elems s) @ p # drop i (elems s))
    | (_, None) \<Rightarrow> False) \<and>
    (case sk_delete (Some s) i of
      (q, Some s') \<Rightarrow> stack_ok s' \<and>
        (if i < length (elems s) then q = elems s ! i \<and> elems s' = take i (elems s) @ drop (Suc i) (elems s)
         else q = None \<and> s' = s)
    | (_, None) \<Rightarrow> False)"
proof
  show "case sk_insert alloc fresh (Some s) p i of
      (n, Some s') \<Rightarrow> stack_ok s' \<and>
        (n = 0 \<and> s' = s \<and> \<not> ((\<forall>m. alloc m) \<and> stk_num_alloc s < 2 ^ 60) \<or>
         n = length (elems s) + 1 \<and> elems s' = take i (elems s) @ p # drop i (elems s))
    | (_, None) \<Rightarrow> False"
  proof (rule sk_insert_cases [OF assms, of alloc fresh p i])
    assume e: "sk_insert alloc fresh (Some s) p i = (0, Some s)" and n: "sk_reserve alloc fresh s = None"
    have "\<not> ((\<forall>m. alloc m) \<and> stk_num_alloc s < 2 ^ 60)" using sk_reserve_works [OF assms] n by blast
    then show ?thesis unfolding e using assms by simp
  qed (use assms in simp)
  show "case sk_delete (Some s) i of
      (q, Some s') \<Rightarrow> stack_ok s' \<and>
        (if i < length (elems s) then q = elems s ! i \<and> elems s' = take i (elems s) @ drop (Suc i) (elems s)
         else q = None \<and> s' = s)
    | (_, None) \<Rightarrow> False"
  proof (cases "i < stk_num s")
    case True
    then show ?thesis by (rule sk_delete_Some [OF assms]) (use assms True in simp)
  next
    case False
    then show ?thesis using assms by (simp add: sk_delete_def)
  qed
qed

theorem stack_refines_list_witness:
  "snd (sk_insert (\<lambda>_. True) None (Some tens_sorted) (Some 7) 1) \<noteq> None \<and>
   sk_delete (Some tens_sorted) 1 = (Some 25, Some ((tens_stack [3, 21])\<lparr>stk_data := [Some 3, Some 21, Some 21, None],
     stk_sorted := True\<rparr>))"
proof
  have ok: "stack_ok tens_sorted" by (simp add: stack_ok_def tens_sorted_def tens_stack_def)
  show "snd (sk_insert (\<lambda>_. True) None (Some tens_sorted) (Some 7) 1) \<noteq> None"
    using stack_refines_list [OF ok, where alloc = "\<lambda>_. True" and fresh = None and p = "Some 7" and i = 1] by (auto split: prod.splits option.splits)
  show "sk_delete (Some tens_sorted) 1 = (Some 25, Some ((tens_stack [3, 21])\<lparr>stk_data := [Some 3, Some 21, Some 21, None],
     stk_sorted := True\<rparr>))" by code_simp
qed

text \<open>
  C21. \<^verbatim>\<open>sk_deep_copy\<close> either returns a stack with a copy of every element, in order, or frees exactly
  the copies it had made before the one that failed, each once, and returns \<^verbatim>\<open>NULL\<close>; when the shallow
  copy cannot be allocated nothing was copied.
\<close>

theorem sk_deep_copy_all_or_nothing:
  assumes "stack_ok s"
  shows "case sk_deep_copy alloc fresh (Some s) copy of
      (Some t, freed) \<Rightarrow> stack_ok t \<and> freed = [] \<and>
        elems t = map (copied copy (elems s)) [0..<length (elems s)] \<and>
        (\<forall>i<length (elems s). elems t ! i = None \<longrightarrow> elems s ! i = None)
    | (None, freed) \<Rightarrow>
        sk_dup alloc fresh (Some s) = None \<and> freed = [] \<or>
        (\<exists>k<length (elems s). elems s ! k \<noteq> None \<and> copied copy (elems s) k = None \<and>
          freed = List.map_filter id (map (copied copy (elems s)) [0..<k]))"
proof (cases "sk_dup alloc fresh (Some s)")
  case None
  then show ?thesis by (simp add: sk_deep_copy_def)
next
  case (Some t)
  note d = sk_dup_Some [OF Some assms]
  have n: "stk_num t \<le> length (stk_data t)" using d(1) by (simp add: stack_ok_def)
  have el: "j < stk_num s \<Longrightarrow> stk_data t ! j = elems s ! j" for j using d(2,3) nth_elems [of j t] by simp
  have cp: "map (copied copy (stk_data t)) [0..<k] = map (copied copy (elems s)) [0..<k]" if "k \<le> stk_num s" for k
    using that by (intro map_cong) (simp_all add: copied_def el)
  have len: "length (elems s) = stk_num s" using assms by simp
  show ?thesis
  proof (cases "deep_copy_loop copy (stk_num t) (stk_data t) 0")
    case (Inl data)
    with deep_copy_loop_spec [OF n, of 0 copy]
    have data: "data = map (copied copy (elems s)) [0..<stk_num s] @ drop (stk_num s) (stk_data t)"
      and all: "\<forall>j < stk_num s. stk_data t ! j \<noteq> None \<longrightarrow> copied copy (stk_data t) j \<noteq> None"
      using cp [of "stk_num s"] d(3) by simp_all
    let ?t = "t\<lparr>stk_data := data\<rparr>"
    have e: "elems ?t = map (copied copy (elems s)) [0..<stk_num s]" by (simp add: elems_def data d(3))
    have "stack_ok ?t" using d(1) n d(3) by (simp add: stack_ok_def data)
    moreover have "elems ?t ! i = None \<longrightarrow> elems s ! i = None" if "i < stk_num s" for i
    proof
      assume "elems ?t ! i = None"
      then have "copied copy (elems s) i = None" using that unfolding e by simp
      then have "copied copy (stk_data t) i = None" using el [OF that] by (simp add: copied_def)
      with all that have "stk_data t ! i = None" by blast
      with el [OF that] show "elems s ! i = None" by simp
    qed
    ultimately show ?thesis unfolding sk_deep_copy_def using Some Inl e len by simp
  next
    case (Inr freed)
    with deep_copy_loop_spec [OF n, of 0 copy] obtain k where "k < stk_num s" "stk_data t ! k \<noteq> None"
      "copied copy (stk_data t) k = None" "freed = List.map_filter id (map (copied copy (stk_data t)) [0..<k])"
      using d(3) by auto
    then have "k < stk_num s \<and> elems s ! k \<noteq> None \<and> copied copy (elems s) k = None \<and>
        freed = List.map_filter id (map (copied copy (elems s)) [0..<k])"
      using el [of k] cp [of k] by (simp add: copied_def)
    then show ?thesis unfolding sk_deep_copy_def using Some Inr len by auto
  qed
qed

theorem sk_deep_copy_all_or_nothing_witness:
  "case sk_deep_copy (\<lambda>_. True) None (Some tens_sorted) (\<lambda>i p. Some (p + int i)) of
     (Some t, freed) \<Rightarrow> elems t = [Some 3, Some 26, Some 23] \<and> freed = []
   | (None, freed) \<Rightarrow> False"
proof -
  have ok: "stack_ok tens_sorted" by (simp add: stack_ok_def tens_sorted_def tens_stack_def)
  have e: "elems tens_sorted = [Some 3, Some 25, Some 21]" by code_simp
  have d: "sk_dup (\<lambda>_. True) None (Some tens_sorted) \<noteq> None" by (simp add: sk_dup_def sk_new_def kMinSize_def)
  have c: "copied (\<lambda>i p. Some (p + int i)) xs k = None \<longleftrightarrow> xs ! k = None" for xs :: "int option list" and k
    by (auto simp: copied_def split: option.splits)
  have m: "copied (\<lambda>i p. Some (p + int i)) [Some 3, Some 25, Some 21] 0 = Some 3"
    "copied (\<lambda>i p. Some (p + int i)) [Some 3, Some 25, Some 21] (Suc 0) = Some 26"
    "copied (\<lambda>i p. Some (p + int i)) [Some 3, Some 25, Some 21] (Suc (Suc 0)) = Some 23"
    by (simp_all add: copied_def)
  show ?thesis
    using sk_deep_copy_all_or_nothing [OF ok, of "\<lambda>_. True" None "\<lambda>i p. Some (p + int i)", unfolded e] d
    by (auto simp: c m split: prod.splits option.splits)
qed

text \<open>
  \<^verbatim>\<open>sk_set\<close> writes an element of a sorted stack and leaves the flag \<^verbatim>\<open>sorted\<close> set, although the
  header says that the flag means ascending order: after one call the binary search of \<^verbatim>\<open>sk_find\<close> no
  longer finds an element that is there.
\<close>

theorem sk_set_keeps_sorted_flag:
  "stack_inv cmp_by_tens tens_sorted \<and> (case sk_set (Some tens_sorted) 0 (Some 50) of (_, s) \<Rightarrow>
     sk_is_sorted s \<and> sk_value s 0 = Some 50 \<and> sk_find cmp_by_tens s (Some 50) = None)"
proof
  have c: "\<forall>f. comparator (cmp_by_tens f)" by (simp add: by_tens.comparator_axioms)
  have i: "stack_inv cmp_by_tens (tens_stack [])" using sk_new_inv [OF tens_run(1)] by blast
  show "stack_inv cmp_by_tens tens_sorted"
    using stack_run_inv [OF tens_run(2) i qsort.sorter_axioms c] by (simp add: stack_inv_def)
  show "case sk_set (Some tens_sorted) 0 (Some 50) of (_, s) \<Rightarrow>
     sk_is_sorted s \<and> sk_value s 0 = Some 50 \<and> sk_find cmp_by_tens s (Some 50) = None" by code_simp
qed

end
