(* ===== verification/Const_Time.thy ===== *)
theory Const_Time
  imports Prelude
begin

text \<open>
  The constant-time helpers of \<^verbatim>\<open>crypto/internal.h\<close>: comparisons that return a mask of all ones
  or of zeros, and the selection between two values by such a mask, computed without a branch.
  Each is proved equal to the comparison or conditional it stands for.
\<close>

section \<open>The code\<close>

text \<open>\<^verbatim>\<open>crypto_word_t\<close> on the 64-bit targets.\<close>

type_synonym crypto_word = u64

text \<open>The assembly in \<^verbatim>\<open>value_barrier_w\<close> is empty: it only hides the value from the optimiser.\<close>

definition value_barrier_w :: "crypto_word \<Rightarrow> crypto_word" where
  "value_barrier_w a = a"

definition constant_time_msb_w :: "crypto_word \<Rightarrow> crypto_word" where
  "constant_time_msb_w a = 0 - drop_bit 63 a"

definition constant_time_lt_w :: "crypto_word \<Rightarrow> crypto_word \<Rightarrow> crypto_word" where
  "constant_time_lt_w a b = constant_time_msb_w (a XOR ((a XOR b) OR ((a - b) XOR a)))"

definition constant_time_lt_8 :: "crypto_word \<Rightarrow> crypto_word \<Rightarrow> byte" where
  "constant_time_lt_8 a b = ucast (constant_time_lt_w a b)"

definition constant_time_ge_w :: "crypto_word \<Rightarrow> crypto_word \<Rightarrow> crypto_word" where
  "constant_time_ge_w a b = NOT (constant_time_lt_w a b)"

definition constant_time_ge_8 :: "crypto_word \<Rightarrow> crypto_word \<Rightarrow> byte" where
  "constant_time_ge_8 a b = ucast (constant_time_ge_w a b)"

definition constant_time_is_zero_w :: "crypto_word \<Rightarrow> crypto_word" where
  "constant_time_is_zero_w a = constant_time_msb_w (NOT a AND (a - 1))"

definition constant_time_is_zero_8 :: "crypto_word \<Rightarrow> byte" where
  "constant_time_is_zero_8 a = ucast (constant_time_is_zero_w a)"

definition constant_time_eq_w :: "crypto_word \<Rightarrow> crypto_word \<Rightarrow> crypto_word" where
  "constant_time_eq_w a b = constant_time_is_zero_w (a XOR b)"

definition constant_time_eq_8 :: "crypto_word \<Rightarrow> crypto_word \<Rightarrow> byte" where
  "constant_time_eq_8 a b = ucast (constant_time_eq_w a b)"

text \<open>An \<^verbatim>\<open>int\<close> is a 32-bit word, read as signed when it is widened.\<close>

definition constant_time_eq_int :: "32 word \<Rightarrow> 32 word \<Rightarrow> crypto_word" where
  "constant_time_eq_int a b = constant_time_eq_w (scast a) (scast b)"

definition constant_time_eq_int_8 :: "32 word \<Rightarrow> 32 word \<Rightarrow> byte" where
  "constant_time_eq_int_8 a b = constant_time_eq_8 (scast a) (scast b)"

definition constant_time_select_w :: "crypto_word \<Rightarrow> crypto_word \<Rightarrow> crypto_word \<Rightarrow> crypto_word" where
  "constant_time_select_w msk a b = (value_barrier_w msk AND a) OR (value_barrier_w (NOT msk) AND b)"

definition constant_time_select_8 :: "byte \<Rightarrow> byte \<Rightarrow> byte \<Rightarrow> byte" where
  "constant_time_select_8 msk a b = ucast (constant_time_select_w (ucast msk) (ucast a) (ucast b))"

definition constant_time_select_int :: "crypto_word \<Rightarrow> 32 word \<Rightarrow> 32 word \<Rightarrow> 32 word" where
  "constant_time_select_int msk a b = ucast (constant_time_select_w msk (scast a) (scast b))"

section \<open>What they compute\<close>

definition mask_of :: "bool \<Rightarrow> 'a::len word" where
  "mask_of p = (if p then - 1 else 0)"

named_theorems const_time \<open>the constant-time helpers as comparisons and conditionals\<close>

lemma bit_top: "bit (a :: u64) 63 \<longleftrightarrow> 2 ^ 63 \<le> unat a"
proof -
  have "unat a < 2 ^ 64" using unsigned_less [of a, where 'a = nat] by simp
  then have "unat a div 2 ^ 63 = (if 2 ^ 63 \<le> unat a then 1 else 0)" by (auto intro: div_nat_eqI)
  moreover have "bit a 63 \<longleftrightarrow> bit (unat a) 63" by (simp add: bit_unsigned_iff)
  ultimately show ?thesis by (simp add: bit_iff_odd)
qed

lemma constant_time_msb_w_eq [const_time]: "constant_time_msb_w a = mask_of (bit a 63)"
proof -
  have "drop_bit 63 a = of_bool (bit a 63)"
  proof (rule bit_word_eqI)
    fix n
    have "\<not> bit a (63 + Suc k)" for k using bit_imp_le_length [of a "63 + Suc k"] by auto
    then show "bit (drop_bit 63 a) n \<longleftrightarrow> bit (of_bool (bit a 63) :: u64) n" by (cases n) (auto simp: bit_simps)
  qed
  then show ?thesis by (simp add: constant_time_msb_w_def mask_of_def)
qed

lemma constant_time_lt_w_eq [const_time]: "constant_time_lt_w a b = mask_of (a < b)"
proof -
  have l: "unat a < 2 ^ 64" "unat b < 2 ^ 64"
    using unsigned_less [of a, where 'a = nat] unsigned_less [of b, where 'a = nat] by simp_all
  have d: "unat (a - b) = (if unat b \<le> unat a then unat a - unat b else 2 ^ 64 + unat a - unat b)"
    using l by (auto simp: unat_sub_if')
  have "bit (a XOR ((a XOR b) OR ((a - b) XOR a))) 63 \<longleftrightarrow>
      (if bit a 63 = bit b 63 then bit (a - b) 63 else bit b 63)"
    by (auto simp: bit_simps)
  also have "\<dots> \<longleftrightarrow> unat a < unat b" unfolding bit_top d using l by auto
  finally show ?thesis by (simp add: constant_time_lt_w_def constant_time_msb_w_eq word_less_nat_alt)
qed

lemma constant_time_is_zero_w_eq [const_time]: "constant_time_is_zero_w a = mask_of (a = 0)"
proof -
  have l: "unat a < 2 ^ 64" using unsigned_less [of a, where 'a = nat] by simp
  have "bit (NOT a AND (a - 1)) 63 \<longleftrightarrow> \<not> bit a 63 \<and> bit (a - 1) 63" by (simp add: bit_simps)
  also have "\<dots> \<longleftrightarrow> a = 0"
  proof (cases "a = 0")
    case True
    then show ?thesis by (simp add: bit_simps)
  next
    case False
    then have "unat (a - 1) = unat a - 1" by (simp add: unat_minus_one)
    with False show ?thesis unfolding bit_top by auto
  qed
  finally show ?thesis by (simp add: constant_time_is_zero_w_def constant_time_msb_w_eq)
qed

lemma ucast_mask_of [simp]: "ucast (mask_of p :: u64) = (mask_of p :: byte)"
  unfolding mask_of_def by (rule bit_word_eqI) (simp add: bit_simps)

lemma not_mask_of [simp]: "NOT (mask_of p :: u64) = mask_of (\<not> p)"
  by (simp add: mask_of_def)

lemma constant_time_masks [const_time]:
  "constant_time_lt_8 a b = mask_of (a < b)" "constant_time_ge_w a b = mask_of (b \<le> a)"
  "constant_time_ge_8 a b = mask_of (b \<le> a)" "constant_time_is_zero_8 a = mask_of (a = 0)"
  "constant_time_eq_w a b = mask_of (a = b)" "constant_time_eq_8 a b = mask_of (a = b)"
  by (simp_all add: constant_time_lt_8_def constant_time_ge_w_def constant_time_ge_8_def constant_time_is_zero_8_def
      constant_time_eq_w_def constant_time_eq_8_def constant_time_lt_w_eq constant_time_is_zero_w_eq not_less
      word_xor_eq_0_iff)

lemma scast_inject: "scast (a :: 32 word) = (scast b :: u64) \<longleftrightarrow> a = b"
proof
  assume "(scast a :: u64) = scast b"
  then have "(ucast (scast a :: u64) :: 32 word) = ucast (scast b :: u64)" by (rule arg_cong)
  moreover have "(ucast (scast c :: u64) :: 32 word) = c" for c :: "32 word"
    by (rule bit_word_eqI) (simp add: bit_simps)
  ultimately show "a = b" by simp
qed simp

lemma constant_time_eq_int_eq [const_time]:
  "constant_time_eq_int a b = mask_of (a = b)" "constant_time_eq_int_8 a b = mask_of (a = b)"
  by (simp_all add: constant_time_eq_int_def constant_time_eq_int_8_def constant_time_masks scast_inject)

lemma constant_time_select_w_eq [const_time]: "constant_time_select_w (mask_of p) a b = (if p then a else b)"
  by (simp add: constant_time_select_w_def value_barrier_w_def mask_of_def)

lemma constant_time_select_8_eq [const_time]: "constant_time_select_8 (mask_of p) a b = (if p then a else b)"
proof (rule bit_word_eqI)
  fix n assume n: "n < LENGTH(8)"
  then show "bit (constant_time_select_8 (mask_of p) a b) n = bit (if p then a else b) n"
    by (simp add: constant_time_select_8_def constant_time_select_w_def value_barrier_w_def mask_of_def bit_simps)
qed

lemma constant_time_select_int_eq [const_time]: "constant_time_select_int (mask_of p) a b = (if p then a else b)"
proof (rule bit_word_eqI)
  fix n assume n: "n < LENGTH(32)"
  then show "bit (constant_time_select_int (mask_of p) a b) n = bit (if p then a else b) n"
    by (simp add: constant_time_select_int_def constant_time_select_w_eq bit_simps)
qed

section \<open>Property\<close>

text \<open>
  The constant-time comparisons return all ones when the comparison holds and zero
  otherwise, for every pair of 64-bit words, and the selections by such a mask return their
  first value or their second.
\<close>

theorem constant_time_helpers_correct:
  "constant_time_lt_w a b = (if a < b then - 1 else 0) \<and> constant_time_ge_w a b = (if a \<ge> b then - 1 else 0) \<and>
   constant_time_eq_w a b = (if a = b then - 1 else 0) \<and> constant_time_is_zero_w a = (if a = 0 then - 1 else 0) \<and>
   constant_time_eq_int i j = (if i = j then - 1 else 0) \<and>
   constant_time_select_8 (constant_time_lt_8 a b) x y = (if a < b then x else y) \<and>
   constant_time_select_int (constant_time_eq_w a b) i j = (if a = b then i else j)"
  by (simp add: const_time) (simp add: mask_of_def)

end
