(* ===== verification/Base64.thy ===== *)
theory Base64
  imports Const_Time
begin

text \<open>
  \<^verbatim>\<open>crypto/base64/base64.c\<close>: encoding and decoding base64, in one block and as a stream of
  pieces. A function that writes through an output pointer returns the bytes it writes there,
  the trailing NUL included. Characters are bytes; the literals are \<open>43 = '+'\<close>, \<open>47 = '/'\<close>,
  \<open>48 = '0'\<close>, \<open>61 = '='\<close>, \<open>65 = 'A'\<close>, \<open>97 = 'a'\<close>, \<open>10\<close> newline, \<open>13\<close> carriage return, \<open>9\<close> tab and
  \<open>32\<close> space.
\<close>

section \<open>Characters\<close>

definition constant_time_lt_args_8 :: "byte \<Rightarrow> byte \<Rightarrow> byte" where
  "constant_time_lt_args_8 a b = ucast (constant_time_msb_w (ucast a - ucast b))"

definition constant_time_in_range_8 :: "byte \<Rightarrow> byte \<Rightarrow> byte \<Rightarrow> byte" where
  "constant_time_in_range_8 a low high = constant_time_lt_args_8 (a - low) (high - low + 1)"

definition conv_bin2ascii :: "byte \<Rightarrow> byte" where
  "conv_bin2ascii a0 =
     (let a = a0 AND 0x3f;
          ret = constant_time_select_8 (constant_time_eq_8 (ucast a) 62) 43 47;
          ret = constant_time_select_8 (constant_time_lt_args_8 a 62) (a - 52 + 48) ret;
          ret = constant_time_select_8 (constant_time_lt_args_8 a 52) (a - 26 + 97) ret
      in constant_time_select_8 (constant_time_lt_args_8 a 26) (a + 65) ret)"

definition base64_ascii_to_bin :: "byte \<Rightarrow> byte" where
  "base64_ascii_to_bin a =
     (let is_upper = constant_time_in_range_8 a 65 90;
          is_lower = constant_time_in_range_8 a 97 122;
          is_digit = constant_time_in_range_8 a 48 57;
          is_plus = constant_time_eq_8 (ucast a) 43;
          is_slash = constant_time_eq_8 (ucast a) 47;
          is_equals = constant_time_eq_8 (ucast a) 61;
          ret = 0xff;
          ret = constant_time_select_8 is_upper (a - 65) ret;
          ret = constant_time_select_8 is_lower (a - 97 + 26) ret;
          ret = constant_time_select_8 is_digit (a - 48 + 52) ret;
          ret = constant_time_select_8 is_plus 62 ret;
          ret = constant_time_select_8 is_slash 63 ret
      in constant_time_select_8 is_equals 0 ret)"

section \<open>Encoding\<close>

definition EVP_EncodedLength :: "nat \<Rightarrow> nat option" where
  "EVP_EncodedLength len0 =
     (if size_add len0 2 < len0 then None
      else let len = size_add len0 2 div 3 in
           if size_mul len 4 div 4 \<noteq> len then None
           else let len = size_mul len 4 in
                if size_add len 1 < len then None else Some (size_add len 1))"

record evp_encode_ctx =
  data_used :: nat
  ctx_data :: bytes
  eof_seen :: bool
  error_encountered :: bool

definition zero_ctx :: evp_encode_ctx where
  "zero_ctx = \<lparr>data_used = 0, ctx_data = replicate 48 0, eof_seen = False, error_encountered = False\<rparr>"

definition EVP_EncodeInit :: evp_encode_ctx where
  "EVP_EncodeInit = zero_ctx"

text \<open>One character of a group: the six bits of \<open>l\<close> above \<open>n\<close>.\<close>

definition group_char :: "u32 \<Rightarrow> nat \<Rightarrow> byte" where
  "group_char l n = conv_bin2ascii (ucast (drop_bit n l))"

fun encode_block_loop :: "bytes \<Rightarrow> bytes" where
  "encode_block_loop [] = []"
| "encode_block_loop [a] =
     (let l = push_bit 16 (ucast a) in [group_char l 18, group_char l 12, 61, 61])"
| "encode_block_loop [a, b] =
     (let l = push_bit 16 (ucast a) OR push_bit 8 (ucast b)
      in [group_char l 18, group_char l 12, group_char l 6, 61])"
| "encode_block_loop (a # b # c # src) =
     (let l = push_bit 16 (ucast a) OR push_bit 8 (ucast b) OR ucast c
      in [group_char l 18, group_char l 12, group_char l 6, group_char l 0] @ encode_block_loop src)"

text \<open>What is written, with the NUL, and the returned number of characters.\<close>

definition EVP_EncodeBlock :: "bytes \<Rightarrow> bytes \<times> nat" where
  "EVP_EncodeBlock src = (encode_block_loop src @ [0], length (encode_block_loop src) mod 2 ^ 64)"

text \<open>
  The loop over the full lines of the input, 48 bytes each. \<open>False\<close> is the return on an overflow of
  the total; \<open>out\<close> holds the characters without the trailing NUL, which the next line overwrites.
\<close>

function encode_lines :: "nat \<Rightarrow> bytes \<Rightarrow> bytes \<Rightarrow> bool \<times> nat \<times> bytes \<times> bytes" where
  "encode_lines tot out inp =
     (if length inp \<ge> 48 then
        let (w, encoded) = EVP_EncodeBlock (take 48 inp);
            out = out @ take encoded w @ [10];
            inp = drop 48 inp
        in if size_add (size_add tot encoded) 1 < tot then (False, tot, out, inp)
           else encode_lines (size_add tot (size_add encoded 1)) out inp
      else (True, tot, out, inp))"
  by pat_completeness auto
termination
  by (relation "measure (\<lambda>(_, _, inp). length inp)") auto

declare encode_lines.simps [simp del]

definition INT_MAX :: nat where
  "INT_MAX = 2 ^ 31 - 1"

definition EVP_EncodeUpdate :: "evp_encode_ctx \<Rightarrow> bytes \<Rightarrow> evp_encode_ctx \<times> bytes \<times> nat" where
  "EVP_EncodeUpdate ctx inp =
     (if length inp = 0 then (ctx, [], 0)
      else if 48 - data_used ctx > length inp then
        (ctx\<lparr>ctx_data := write_at (ctx_data ctx) (data_used ctx) inp, data_used := data_used ctx + length inp\<rparr>, [], 0)
      else
        let (ctx1, out, total, inp1) =
              (if data_used ctx \<noteq> 0 then
                 let todo = 48 - data_used ctx;
                     data = write_at (ctx_data ctx) (data_used ctx) (take todo inp);
                     (w, encoded) = EVP_EncodeBlock data
                 in (ctx\<lparr>ctx_data := data, data_used := 0\<rparr>, take encoded w @ [10], encoded + 1, drop todo inp)
               else (ctx, [], 0, inp))
        in case encode_lines total out inp1 of
             (False, _, out', _) \<Rightarrow> (ctx1, out' @ [0], 0)
           | (True, total', out', inp') \<Rightarrow>
               (ctx1\<lparr>ctx_data := write_at (ctx_data ctx1) 0 inp', data_used := length inp'\<rparr>, out' @ [0],
                if total' > INT_MAX then 0 else total'))"

definition EVP_EncodeFinal :: "evp_encode_ctx \<Rightarrow> evp_encode_ctx \<times> bytes \<times> nat" where
  "EVP_EncodeFinal ctx =
     (if data_used ctx = 0 then (ctx, [], 0)
      else let (w, encoded) = EVP_EncodeBlock (take (data_used ctx) (ctx_data ctx))
           in (ctx\<lparr>data_used := 0\<rparr>, take encoded w @ [10, 0], encoded + 1))"

section \<open>Decoding\<close>

definition EVP_DecodedLength :: "nat \<Rightarrow> nat option" where
  "EVP_DecodedLength len = (if len mod 4 \<noteq> 0 then None else Some (len div 4 * 3))"

definition EVP_DecodeInit :: evp_encode_ctx where
  "EVP_DecodeInit = zero_ctx"

text \<open>The bytes of a quad, at most three; the number of bytes is their length.\<close>

definition base64_decode_quad :: "byte \<Rightarrow> byte \<Rightarrow> byte \<Rightarrow> byte \<Rightarrow> bytes option" where
  "base64_decode_quad in0 in1 in2 in3 =
     (let a = base64_ascii_to_bin in0; b = base64_ascii_to_bin in1;
          c = base64_ascii_to_bin in2; d = base64_ascii_to_bin in3
      in if a = 0xff \<or> b = 0xff \<or> c = 0xff \<or> d = 0xff then None
         else let v = push_bit 18 (ucast a) OR push_bit 12 (ucast b) OR push_bit 6 (ucast c) OR ucast d :: u32;
                  padding_pattern = push_bit 3 (of_bool (in0 = 61)) OR push_bit 2 (of_bool (in1 = 61)) OR
                    push_bit 1 (of_bool (in2 = 61)) OR of_bool (in3 = 61) :: u32
              in if padding_pattern = 0 then Some [ucast (drop_bit 16 v), ucast (drop_bit 8 v), ucast v]
                 else if padding_pattern = 1 then Some [ucast (drop_bit 16 v), ucast (drop_bit 8 v)]
                 else if padding_pattern = 3 then Some [ucast (drop_bit 16 v)]
                 else None)"

definition is_space :: "byte \<Rightarrow> bool" where
  "is_space c \<longleftrightarrow> c = 32 \<or> c = 9 \<or> c = 13 \<or> c = 10"

fun decode_loop :: "evp_encode_ctx \<Rightarrow> bytes \<Rightarrow> bytes \<Rightarrow> bool \<times> evp_encode_ctx \<times> bytes" where
  "decode_loop ctx out [] = (True, ctx, out)"
| "decode_loop ctx out (c # inp) =
     (if is_space c then decode_loop ctx out inp
      else if eof_seen ctx then (False, ctx\<lparr>error_encountered := True\<rparr>, out)
      else let data = (ctx_data ctx)[data_used ctx := c];
               used = data_used ctx + 1
           in if used = 4 then
                case base64_decode_quad (data ! 0) (data ! 1) (data ! 2) (data ! 3) of
                  None \<Rightarrow> (False, ctx\<lparr>ctx_data := data, data_used := used, error_encountered := True\<rparr>, out)
                | Some bs \<Rightarrow>
                    decode_loop (ctx\<lparr>ctx_data := data, data_used := 0, eof_seen := (eof_seen ctx \<or> length bs < 3)\<rparr>) (out @ bs) inp
              else decode_loop (ctx\<lparr>ctx_data := data, data_used := used\<rparr>) out inp)"

definition EVP_DecodeUpdate :: "evp_encode_ctx \<Rightarrow> bytes \<Rightarrow> int \<times> evp_encode_ctx \<times> bytes \<times> nat" where
  "EVP_DecodeUpdate ctx inp =
     (if error_encountered ctx then (-1, ctx, [], 0)
      else case decode_loop ctx [] inp of
             (False, ctx', out) \<Rightarrow> (-1, ctx', out, 0)
           | (True, ctx', out) \<Rightarrow>
               if length out > INT_MAX then (-1, ctx'\<lparr>error_encountered := True\<rparr>, out, 0)
               else (if eof_seen ctx' then 0 else 1, ctx', out, length out))"

definition EVP_DecodeFinal :: "evp_encode_ctx \<Rightarrow> int" where
  "EVP_DecodeFinal ctx = (if error_encountered ctx \<or> data_used ctx \<noteq> 0 then -1 else 1)"

text \<open>
  The loop over the quads. Its input is a multiple of four characters long (checked before), so the
  last equation is not reached.
\<close>

fun decode_quads :: "bytes \<Rightarrow> bytes \<Rightarrow> bool \<times> bytes" where
  "decode_quads out [] = (True, out)"
| "decode_quads out (a # b # c # d # inp) =
     (case base64_decode_quad a b c d of
        None \<Rightarrow> (False, out)
      | Some bs \<Rightarrow> if length bs \<noteq> 3 \<and> inp \<noteq> [] then (False, out @ bs) else decode_quads (out @ bs) inp)"
| "decode_quads out _ = (False, out)"

definition EVP_DecodeBase64 :: "nat \<Rightarrow> bytes \<Rightarrow> bool \<times> bytes \<times> nat" where
  "EVP_DecodeBase64 max_out inp =
     (if length inp mod 4 \<noteq> 0 then (False, [], 0)
      else case EVP_DecodedLength (length inp) of
             None \<Rightarrow> (False, [], 0)
           | Some max_len \<Rightarrow>
               if max_out < max_len then (False, [], 0)
               else case decode_quads [] inp of
                      (False, out) \<Rightarrow> (False, out, 0)
                    | (True, out) \<Rightarrow> (True, out, length out))"

text \<open>Trimming the input, and the padding with NULs up to a multiple of three bytes.\<close>

definition trim_block :: "bytes \<Rightarrow> bytes" where
  "trim_block src = rev (dropWhile is_space (rev (dropWhile (\<lambda>c. c = 32 \<or> c = 9) src)))"

definition pad_zeros :: "bytes \<Rightarrow> bytes" where
  "pad_zeros out = out @ replicate ((3 - length out mod 3) mod 3) 0"

definition EVP_DecodeBlock :: "bytes \<Rightarrow> int \<times> bytes" where
  "EVP_DecodeBlock src0 =
     (let src = trim_block src0 in
      case EVP_DecodedLength (length src) of
        None \<Rightarrow> (-1, [])
      | Some dst_len \<Rightarrow>
          if dst_len > INT_MAX then (-1, [])
          else case EVP_DecodeBase64 dst_len src of
                 (False, out, _) \<Rightarrow> (-1, out)
               | (True, out, _) \<Rightarrow> (int (length (pad_zeros out)), pad_zeros out))"

section \<open>The alphabet\<close>

definition base64_alphabet :: bytes where
  "base64_alphabet = map of_nat ([65..<91] @ [97..<123] @ [48..<58] @ [43, 47])"

lemma msb_sub:
  "constant_time_lt_args_8 a b = mask_of (a < b)"
proof -
  have l: "unat (ucast a :: u64) = unat a" "unat (ucast b :: u64) = unat b" by (simp_all add: unat_ucast_up)
  have p: "(256 :: nat) \<le> 2 ^ 63" "(2 :: nat) ^ 64 = 2 * 2 ^ 63" by simp_all
  have "bit (ucast a - ucast b :: u64) 63 \<longleftrightarrow> unat a < unat b"
  proof (cases "unat b \<le> unat a")
    case True
    then have "unat (ucast a - ucast b :: u64) = unat a - unat b" by (simp add: unat_sub_if' l)
    then show ?thesis unfolding bit_top using True unat_byte_less [of a] p by (intro iffI; linarith)
  next
    case False
    then have "unat (ucast a - ucast b :: u64) = unat a + 2 ^ 64 - unat b" by (simp add: unat_sub_if' l)
    then show ?thesis unfolding bit_top using False unat_byte_less [of b] p by (intro iffI; linarith)
  qed
  then show ?thesis by (simp add: constant_time_lt_args_8_def const_time word_less_nat_alt)
qed

lemma in_range_nat:
  "l \<le> h \<Longrightarrow> h < 256 \<Longrightarrow> (if l \<le> a then a - l else 256 + a - l) < h - l + 1 \<longleftrightarrow> l \<le> a \<and> a \<le> (h :: nat)"
  by auto

lemma constant_time_in_range_8_eq:
  assumes "low \<le> high" and "high - low + 1 \<noteq> 0"
  shows "constant_time_in_range_8 a low high = mask_of (low \<le> a \<and> a \<le> high)"
proof -
  have l: "unat low \<le> unat high" using assms(1) by (simp add: word_le_nat_alt)
  then have d: "unat (high - low) = unat high - unat low" by (simp add: unat_sub_if')
  have s: "unat (high - low + 1) = unat high - unat low + 1"
    using assms(2) unatSuc [of "high - low"] by (simp only: add.commute [of 1] d Suc_eq_plus1 simp_thms)
  have a: "unat (a - low) = (if unat low \<le> unat a then unat a - unat low else 256 + unat a - unat low)"
    using unat_byte_less [of low] by (auto simp: unat_sub_if')
  have "a - low < high - low + 1 \<longleftrightarrow> low \<le> a \<and> a \<le> high"
    unfolding word_less_nat_alt word_le_nat_alt s a by (rule in_range_nat [OF l unat_byte_less])
  then show ?thesis by (simp add: constant_time_in_range_8_def msb_sub)
qed

lemma ucast_eq_iff: "(ucast (a :: byte) :: u64) = ucast b \<longleftrightarrow> a = b"
  by (simp add: word_unat_eq_iff unat_ucast_up)

lemma conv_bin2ascii_cases:
  "conv_bin2ascii a0 =
     (let a = a0 AND 0x3f in
      if a < 26 then a + 65 else if a < 52 then a + 71 else if a < 62 then a - 4 else if a = 62 then 43 else 47)"
proof -
  have "ucast (a :: byte) = (62 :: u64) \<longleftrightarrow> a = 62" for a using ucast_eq_iff [of a 62] by simp
  then show ?thesis by (simp add: conv_bin2ascii_def Let_def msb_sub const_time)
qed

lemma base64_ascii_to_bin_cases:
  "base64_ascii_to_bin a =
     (if a = 61 then 0 else if a = 47 then 63 else if a = 43 then 62
      else if 48 \<le> a \<and> a \<le> 57 then a + 4 else if 97 \<le> a \<and> a \<le> 122 then a - 71
      else if 65 \<le> a \<and> a \<le> 90 then a - 65 else 0xff)"
proof -
  have r: "constant_time_in_range_8 a 65 90 = mask_of (65 \<le> a \<and> a \<le> 90)"
    "constant_time_in_range_8 a 97 122 = mask_of (97 \<le> a \<and> a \<le> 122)"
    "constant_time_in_range_8 a 48 57 = mask_of (48 \<le> a \<and> a \<le> 57)"
    by (simp_all add: constant_time_in_range_8_eq)
  have e: "ucast a = (43 :: u64) \<longleftrightarrow> a = 43" "ucast a = (47 :: u64) \<longleftrightarrow> a = 47" "ucast a = (61 :: u64) \<longleftrightarrow> a = 61"
    using ucast_eq_iff [of a 43] ucast_eq_iff [of a 47] ucast_eq_iff [of a 61] by simp_all
  show ?thesis unfolding base64_ascii_to_bin_def Let_def r by (simp add: const_time e)
qed

text \<open>The two functions are inverse, and the encoder only produces characters of the alphabet.\<close>

lemma sextet_exhaust:
  assumes "list_all (\<lambda>k. P (word_of_int k)) [0..63]"
  shows "P ((b :: byte) AND 0x3f)"
proof -
  have "uint (b AND 0x3f) \<in> set [0..63]"
    using unat_and_mask [of b 6] by (simp add: mask_numeral uint_nat)
  with assms have "P (word_of_int (uint (b AND 0x3f)))" unfolding list_all_iff by (rule bspec)
  then show ?thesis by (simp only: word_of_int_uint)
qed

lemma conv_bin2ascii_inverse:
  "base64_ascii_to_bin (conv_bin2ascii a) = a AND 0x3f \<and> conv_bin2ascii a \<noteq> 61 \<and> \<not> is_space (conv_bin2ascii a)
    \<and> a AND 0x3f \<noteq> 0xff"
  unfolding conv_bin2ascii_cases base64_ascii_to_bin_cases is_space_def Let_def
  by (rule sextet_exhaust [where b = a]) code_simp

text \<open>Every character is the alphabet's, and the decoder inverts the table.\<close>

lemma conv_bin2ascii_alphabet: "conv_bin2ascii a = base64_alphabet ! (unat a mod 64)"
proof -
  have "unat (a AND 0x3f) = unat a mod 64" using unat_and_mask [of a 6] by (simp add: mask_numeral)
  moreover have "conv_bin2ascii a = base64_alphabet ! unat (a AND 0x3f)"
    unfolding conv_bin2ascii_cases base64_alphabet_def Let_def
    by (rule sextet_exhaust [where b = a]) code_simp
  ultimately show ?thesis by simp
qed

section \<open>Groups\<close>

text \<open>The bits of a group of three bytes are the bits of its four characters.\<close>

lemma bit_sextet: "bit ((b :: byte) AND 0x3f) n \<longleftrightarrow> n < 6 \<and> bit b n"
  using bit_mask_iff [of 6 n, where 'a = "8 word"] by (auto simp: bit_and_iff mask_numeral dest: bit_imp_le_length)

lemma byte_bit_index: "n < LENGTH(8) \<Longrightarrow> n = 0 \<or> n = 1 \<or> n = 2 \<or> n = 3 \<or> n = 4 \<or> n = 5 \<or> n = 6 \<or> n = 7"
  by auto

lemma byte_eqI:
  assumes "bit x 0 = bit y 0" "bit x 1 = bit y 1" "bit x 2 = bit y 2" "bit x 3 = bit y 3"
    "bit x 4 = bit y 4" "bit x 5 = bit y 5" "bit x 6 = bit y 6" "bit x 7 = bit y 7"
  shows "x = (y :: byte)"
proof (rule bit_word_eqI)
  fix n assume "n < LENGTH(8)"
  from byte_bit_index [OF this] show "bit x n = bit y n" by (elim disjE) (simp_all only: assms)
qed

lemma no_bit_byte: "8 \<le> n \<Longrightarrow> \<not> bit (b :: byte) n"
  by (auto dest: bit_imp_le_length)

definition joined :: "byte \<Rightarrow> byte \<Rightarrow> byte \<Rightarrow> byte \<Rightarrow> u32" where
  "joined a b c d = push_bit 18 (ucast a) OR push_bit 12 (ucast b) OR push_bit 6 (ucast c) OR ucast d"

definition sextet :: "u32 \<Rightarrow> nat \<Rightarrow> byte" where
  "sextet l n = ucast (drop_bit n l) AND 0x3f"

lemma sextet_bits: "(c :: byte) AND 0x3f = c \<Longrightarrow> 6 \<le> n \<Longrightarrow> \<not> bit c n"
  using bit_sextet [of c n] by auto

lemma joined_high:
  "c AND 0x3f = c \<Longrightarrow> d AND 0x3f = d \<Longrightarrow>
     ucast (drop_bit 16 (joined (sextet l 18) (sextet l 12) c d)) = (ucast (drop_bit 16 l) :: byte)"
  by (rule byte_eqI) (simp_all add: joined_def sextet_def bit_simps bit_sextet sextet_bits)

lemma joined_mid:
  "d AND 0x3f = d \<Longrightarrow>
     ucast (drop_bit 8 (joined (sextet l 18) (sextet l 12) (sextet l 6) d)) = (ucast (drop_bit 8 l) :: byte)"
  by (rule byte_eqI) (simp_all add: joined_def sextet_def bit_simps bit_sextet sextet_bits)

lemma joined_low:
  "ucast (joined (sextet l 18) (sextet l 12) (sextet l 6) (sextet l 0)) = (ucast l :: byte)"
  by (rule byte_eqI) (simp_all add: joined_def sextet_def bit_simps bit_sextet)

lemmas joined_sextets = joined_high joined_mid joined_low

lemma group_char_facts:
  "base64_ascii_to_bin (group_char l n) = sextet l n" "group_char l n \<noteq> 61" "\<not> is_space (group_char l n)"
  "sextet l n \<noteq> 0xff" "sextet l n AND 0x3f = sextet l n"
  using conv_bin2ascii_inverse [of "ucast (drop_bit n l)"]
  by (simp_all add: group_char_def sextet_def and.assoc)

lemma equals_to_bin: "base64_ascii_to_bin 61 = 0"
  by (simp add: base64_ascii_to_bin_cases)

lemma decode_quad_group:
  "base64_decode_quad (group_char l 18) (group_char l 12) (group_char l 6) (group_char l 0) =
     Some [ucast (drop_bit 16 l), ucast (drop_bit 8 l), ucast l]"
  "base64_decode_quad (group_char l 18) (group_char l 12) (group_char l 6) 61 =
     Some [ucast (drop_bit 16 l), ucast (drop_bit 8 l)]"
  "base64_decode_quad (group_char l 18) (group_char l 12) 61 61 = Some [ucast (drop_bit 16 l)]"
  unfolding base64_decode_quad_def Let_def group_char_facts(1) equals_to_bin joined_def [symmetric]
  by (simp_all add: group_char_facts joined_sextets)

lemma group_bytes:
  "ucast (drop_bit 16 (push_bit 16 (ucast a) OR push_bit 8 (ucast b) OR ucast (c :: byte) :: u32)) = (a :: byte)"
  "ucast (drop_bit 8 (push_bit 16 (ucast a) OR push_bit 8 (ucast b) OR ucast (c :: byte) :: u32)) = (b :: byte)"
  "ucast (push_bit 16 (ucast a) OR push_bit 8 (ucast b) OR ucast (c :: byte) :: u32) = (c :: byte)"
  by (rule byte_eqI; simp add: bit_simps no_bit_byte)+

lemma group_bytes_short:
  "ucast (drop_bit 16 (push_bit 16 (ucast a) OR push_bit 8 (ucast b) :: u32)) = (a :: byte)"
  "ucast (drop_bit 8 (push_bit 16 (ucast a) OR push_bit 8 (ucast b) :: u32)) = (b :: byte)"
  "ucast (drop_bit 16 (push_bit 16 (ucast a) :: u32)) = (a :: byte)"
  by (rule byte_eqI; simp add: bit_simps no_bit_byte)+

section \<open>Round trips\<close>

lemma encode_block_loop_append:
  "length xs mod 3 = 0 \<Longrightarrow> encode_block_loop (xs @ ys) = encode_block_loop xs @ encode_block_loop ys"
  by (induction xs rule: encode_block_loop.induct) (simp_all add: Let_def)

lemma length_encode_block_loop: "length (encode_block_loop xs) = (length xs + 2) div 3 * 4"
proof (induction xs rule: encode_block_loop.induct)
  case (4 a b c src)
  have "(Suc (Suc (Suc (length src))) + 2) div 3 = (length src + 2) div 3 + 1" by presburger
  with 4 show ?case by (simp add: Let_def del: add_2_eq_Suc')
qed (simp_all add: Let_def)

lemma decode_quads_encoded: "decode_quads out (encode_block_loop src) = (True, out @ src)"
proof (induction src arbitrary: out rule: encode_block_loop.induct)
  case (4 a b c src)
  then show ?case by (simp add: Let_def decode_quad_group group_bytes del: drop_bit_or)
qed (simp_all add: Let_def decode_quad_group group_bytes_short del: drop_bit_or)

section \<open>Encoding a stream\<close>

text \<open>The text a stream is encoded to: lines of 48 bytes, a shorter last one, each ended by a newline.\<close>

function pem_lines :: "bytes \<Rightarrow> bytes" where
  "pem_lines xs = (if xs = [] then [] else encode_block_loop (take 48 xs) @ [10] @ pem_lines (drop 48 xs))"
  by pat_completeness auto
termination by (relation "measure length") auto

declare pem_lines.simps [simp del]

lemma pem_lines_Nil [simp]: "pem_lines [] = []"
  by (simp add: pem_lines.simps)

lemma pem_lines_line: "length xs = 48 \<Longrightarrow> pem_lines (xs @ ys) = encode_block_loop xs @ [10] @ pem_lines ys"
  by (subst pem_lines.simps) auto

lemma encode_block_line:
  "length xs = 48 \<Longrightarrow> EVP_EncodeBlock xs = (encode_block_loop xs @ [0], 64) \<and> length (encode_block_loop xs) = 64"
  by (simp add: EVP_EncodeBlock_def length_encode_block_loop)

lemma encode_lines_spec:
  assumes "tot + 65 * (length inp div 48) < 2 ^ 64"
  shows "encode_lines tot out inp = (True, tot + 65 * (length inp div 48),
    out @ pem_lines (take (length inp div 48 * 48) inp), drop (length inp div 48 * 48) inp)"
  using assms
proof (induction "length inp div 48" arbitrary: tot out inp)
  case 0
  then have "\<not> 48 \<le> length inp" by (simp add: div_eq_0_iff)
  then show ?case using 0(1) by (subst encode_lines.simps) (simp flip: 0(1))
next
  case (Suc n)
  then have len: "48 \<le> length inp" by (metis div_less not_le_imp_less Zero_not_Suc)
  let ?line = "take 48 inp" and ?inp = "drop 48 inp"
  have d: "length ?inp div 48 = n" using Suc.hyps(2) by simp
  note b = encode_block_line [of ?line]
  have b: "EVP_EncodeBlock ?line = (encode_block_loop ?line @ [0], 64)" "length (encode_block_loop ?line) = 64"
    using encode_block_line [of ?line] len by simp_all
  have tot: "tot + 65 + 65 * n < 2 ^ 64" using Suc.prems Suc.hyps(2) by simp
  then have w: "size_add (size_add tot 64) 1 = tot + 65" "size_add tot (size_add 64 1) = tot + 65"
    by (simp_all add: size_add_def)
  have "encode_lines tot out inp = encode_lines (tot + 65) (out @ encode_block_loop ?line @ [10]) ?inp"
    using len by (subst encode_lines.simps) (simp add: b w Let_def del: One_nat_def)
  also have "\<dots> = (True, tot + 65 + 65 * n, (out @ encode_block_loop ?line @ [10]) @ pem_lines (take (n * 48) ?inp),
      drop (n * 48) ?inp)"
    by (rule Suc.hyps(1) [OF d [symmetric], of "tot + 65" "out @ encode_block_loop ?line @ [10]", unfolded d, OF tot])
  also have "(out @ encode_block_loop ?line @ [10]) @ pem_lines (take (n * 48) ?inp) = out @ pem_lines (?line @ take (n * 48) ?inp)"
    using len by (subst pem_lines_line) simp_all
  also have "?line @ take (n * 48) ?inp = take (48 + n * 48) inp" by (rule take_add [symmetric])
  also have "drop (n * 48) ?inp = drop (48 + n * 48) inp" by (simp add: add.commute)
  finally show ?case by (simp flip: Suc.hyps(2))
qed

lemma add_div_48: "(48 + x) div 48 = Suc (x div 48)"
  by simp

lemma length_pem_lines: "length xs = n * 48 \<Longrightarrow> length (pem_lines xs) = 65 * n"
proof (induction n arbitrary: xs)
  case (Suc n)
  then have l: "length (take 48 xs) = 48" "length (drop 48 xs) = n * 48" by simp_all
  have "pem_lines xs = encode_block_loop (take 48 xs) @ [10] @ pem_lines (drop 48 xs)"
    using pem_lines_line [OF l(1), of "drop 48 xs"] by simp
  with Suc.IH [OF l(2)] encode_block_line [OF l(1)] show ?case by simp
qed simp

definition enc_inv :: "evp_encode_ctx \<Rightarrow> bool" where
  "enc_inv ctx \<longleftrightarrow> data_used ctx < 48 \<and> length (ctx_data ctx) = 48"

definition pending :: "evp_encode_ctx \<Rightarrow> bytes" where
  "pending ctx = take (data_used ctx) (ctx_data ctx)"

lemma length_pending: "enc_inv ctx \<Longrightarrow> length (pending ctx) = data_used ctx"
  by (simp add: enc_inv_def pending_def)

text \<open>An update writes the lines that are full and keeps the rest of the input.\<close>

lemma EVP_EncodeUpdate_spec:
  assumes "enc_inv ctx" and "65 * ((data_used ctx + length inp) div 48) \<le> INT_MAX"
    and "s = pending ctx @ inp" and "k = length s div 48 * 48"
  obtains ctx' out n where "EVP_EncodeUpdate ctx inp = (ctx', out, n)" and "enc_inv ctx'"
    and "pending ctx' = drop k s" and "take n out = pem_lines (take k s)"
proof -
  have inv: "data_used ctx < 48" "length (ctx_data ctx) = 48" using assms(1) by (simp_all add: enc_inv_def)
  have ls: "length s = data_used ctx + length inp" using assms(1,3) by (simp add: length_pending)
  show thesis
  proof (cases "data_used ctx + length inp < 48")
    case True
    then have k: "k = 0" by (simp add: assms(4) ls)
    show thesis
    proof (cases "inp = []")
      case True
      then have "EVP_EncodeUpdate ctx inp = (ctx, [], 0)" by (simp add: EVP_EncodeUpdate_def)
      with that [of ctx "[]" 0] True assms(1,3) k show thesis by simp
    next
      case False
      let ?ctx = "ctx\<lparr>ctx_data := write_at (ctx_data ctx) (data_used ctx) inp, data_used := data_used ctx + length inp\<rparr>"
      have "EVP_EncodeUpdate ctx inp = (?ctx, [], 0)" using True False by (simp add: EVP_EncodeUpdate_def less_diff_conv)
      moreover have "enc_inv ?ctx" using True inv by (simp add: enc_inv_def length_write_at)
      moreover have "pending ?ctx = s"
        using take_write_at_end [of "data_used ctx" "ctx_data ctx" inp] inv by (simp add: pending_def assms(3))
      ultimately show thesis using that [of ?ctx "[]" 0] k by simp
    qed
  next
    case False
    define todo where "todo = (if data_used ctx = 0 then 0 else 48 - data_used ctx)"
    define ctx1 where "ctx1 = (if data_used ctx = 0 then ctx
      else ctx\<lparr>ctx_data := write_at (ctx_data ctx) (data_used ctx) (take todo inp), data_used := 0\<rparr>)"
    define first where "first = pending ctx @ take todo inp"
    have s: "s = first @ drop todo inp" by (simp add: assms(3) first_def)
    have lf: "length first = (if data_used ctx = 0 then 0 else 48)"
      using False inv(1) assms(1) by (simp add: first_def todo_def length_pending)
    have data: "data_used ctx \<noteq> 0 \<Longrightarrow> write_at (ctx_data ctx) (data_used ctx) (take todo inp) = first"
      using False inv by (simp add: write_at_def first_def pending_def todo_def)
    let ?m = "length (drop todo inp) div 48"
    have m: "length s div 48 = (if data_used ctx = 0 then ?m else Suc ?m)" using arg_cong [OF s, of length] lf by (simp add: add_div_48)
    have tot: "length (pem_lines first) + 65 * ?m \<le> INT_MAX" "length (pem_lines first) = (if data_used ctx = 0 then 0 else 65)"
    proof -
      show lp: "length (pem_lines first) = (if data_used ctx = 0 then 0 else 65)"
        using lf pem_lines_line [of first "[]"] encode_block_line [of first] by auto
      show "length (pem_lines first) + 65 * ?m \<le> INT_MAX" using assms(2) m unfolding ls [symmetric] lp by (simp split: if_splits)
    qed
    have start: "(if data_used ctx \<noteq> 0 then
                 let todo = 48 - data_used ctx;
                     data = write_at (ctx_data ctx) (data_used ctx) (take todo inp);
                     (w, encoded) = EVP_EncodeBlock data
                 in (ctx\<lparr>ctx_data := data, data_used := 0\<rparr>, take encoded w @ [10], encoded + 1, drop todo inp)
               else (ctx, [], 0, inp)) = (ctx1, pem_lines first, length (pem_lines first), drop todo inp)"
    proof (cases "data_used ctx = 0")
      case True
      then show ?thesis using lf by (simp add: ctx1_def todo_def)
    next
      case used: False
      then have e: "EVP_EncodeBlock first = (encode_block_loop first @ [0], 64)" "length (encode_block_loop first) = 64"
        using encode_block_line [of first] lf by simp_all
      have p: "pem_lines first = encode_block_loop first @ [10]" using pem_lines_line [of first "[]"] lf used by simp
      have t: "48 - data_used ctx = todo" using used by (simp add: todo_def)
      show ?thesis unfolding Let_def t data [OF used] using used by (simp add: e p ctx1_def data)
    qed
    have "length (pem_lines first) + 65 * ?m < 2 ^ 64" using tot(1) by (simp add: INT_MAX_def)
    note lines = encode_lines_spec [OF this, of "pem_lines first"]
    let ?rest = "drop (?m * 48) (drop todo inp)"
    let ?ctx = "ctx1\<lparr>ctx_data := write_at (ctx_data ctx1) 0 ?rest, data_used := length ?rest\<rparr>"
    let ?out = "pem_lines first @ pem_lines (take (?m * 48) (drop todo inp))"
    have nz: "length inp \<noteq> 0" "\<not> 48 - data_used ctx > length inp" using False inv(1) by auto
    have "EVP_EncodeUpdate ctx inp = (?ctx, ?out @ [0], length (pem_lines first) + 65 * ?m)"
      unfolding EVP_EncodeUpdate_def start using nz tot(1) by (simp add: lines)
    moreover have lr: "length ?rest < 48" by (metis length_drop minus_div_mult_eq_mod mod_less_divisor zero_less_numeral)
    have lc: "length (ctx_data ctx1) = 48"
      using inv lf data by (auto simp: ctx1_def)
    have "enc_inv ?ctx" using lr lc by (simp add: enc_inv_def length_write_at)
    moreover have "pending ?ctx = ?rest"
      using take_write_at_end [of 0 "ctx_data ctx1" ?rest] by (simp add: pending_def)
    moreover have "?rest = drop k s" unfolding assms(4) m using s lf by simp
    moreover have "take (length (pem_lines first) + 65 * ?m) (?out @ [0]) = ?out"
      using length_pem_lines [of "take (?m * 48) (drop todo inp)" ?m] by simp
    moreover have "?out = pem_lines (take k s)"
    proof (cases "data_used ctx = 0")
      case True
      then show ?thesis using lf s m by (simp add: assms(4))
    next
      case False
      then have "take k s = first @ take (?m * 48) (drop todo inp)" using lf by (subst s) (simp add: assms(4) m)
      with False lf show ?thesis by (simp add: pem_lines_line [of first] pem_lines_line [of first "[]", simplified])
    qed
    ultimately show thesis using that by simp
  qed
qed

text \<open>A client: updates for each piece, then the final call; it takes the bytes each call reports.\<close>

fun encode_pieces :: "evp_encode_ctx \<Rightarrow> bytes list \<Rightarrow> bytes" where
  "encode_pieces ctx [] = (case EVP_EncodeFinal ctx of (_, out, n) \<Rightarrow> take n out)"
| "encode_pieces ctx (p # ps) = (case EVP_EncodeUpdate ctx p of (ctx', out, n) \<Rightarrow> take n out @ encode_pieces ctx' ps)"

lemma EVP_EncodeFinal_spec:
  assumes "enc_inv ctx"
  shows "(case EVP_EncodeFinal ctx of (_, out, n) \<Rightarrow> take n out) = pem_lines (pending ctx)"
proof (cases "data_used ctx = 0")
  case True
  then show ?thesis by (simp add: EVP_EncodeFinal_def pending_def)
next
  case False
  have l: "length (pending ctx) < 48" "pending ctx \<noteq> []"
    using assms False length_pending [OF assms] by (auto simp: enc_inv_def)
  then have "(length (pending ctx) + 2) div 3 * 4 < 2 ^ 64" by simp
  then have "EVP_EncodeBlock (pending ctx) = (encode_block_loop (pending ctx) @ [0], length (encode_block_loop (pending ctx)))"
    unfolding EVP_EncodeBlock_def length_encode_block_loop by simp
  moreover have "pem_lines (pending ctx) = encode_block_loop (pending ctx) @ [10]"
    using l by (subst pem_lines.simps) simp
  ultimately show ?thesis using False by (simp add: EVP_EncodeFinal_def pending_def)
qed

lemma pem_lines_append:
  "length xs = n * 48 \<Longrightarrow> pem_lines (xs @ ys) = pem_lines xs @ pem_lines ys"
proof (induction n arbitrary: xs)
  case (Suc n)
  then have l: "length (take 48 xs) = 48" "length (drop 48 xs) = n * 48" by simp_all
  have "xs = take 48 xs @ drop 48 xs" by simp
  then have "pem_lines (xs @ ys) = pem_lines (take 48 xs @ drop 48 xs @ ys)" by (metis append.assoc)
  also have "\<dots> = pem_lines (take 48 xs @ drop 48 xs) @ pem_lines ys"
    unfolding pem_lines_line [OF l(1)] Suc.IH [OF l(2)] by simp
  finally show ?case by simp
qed simp

lemma encode_pieces_spec:
  assumes "enc_inv ctx" and "\<forall>p\<in>set ps. length p \<le> 1500000000"
  shows "encode_pieces ctx ps = pem_lines (pending ctx @ concat ps)"
  using assms
proof (induction ps arbitrary: ctx)
  case Nil
  then show ?case by (simp add: EVP_EncodeFinal_spec)
next
  case (Cons p ps)
  define s where "s = pending ctx @ p"
  define k where "k = length s div 48 * 48"
  have b: "65 * ((data_used ctx + length p) div 48) \<le> INT_MAX"
    using Cons.prems div_le_mono [of "data_used ctx + length p" 1500000047 48] by (simp add: enc_inv_def INT_MAX_def)
  from EVP_EncodeUpdate_spec [OF Cons.prems(1) b s_def k_def] obtain ctx' out n where
    u: "EVP_EncodeUpdate ctx p = (ctx', out, n)" "enc_inv ctx'" "pending ctx' = drop k s" "take n out = pem_lines (take k s)" .
  have "encode_pieces ctx (p # ps) = pem_lines (take k s) @ pem_lines (drop k s @ concat ps)"
    using Cons.IH [OF u(2)] Cons.prems(2) by (simp add: u)
  also have "\<dots> = pem_lines (take k s @ drop k s @ concat ps)"
    using pem_lines_append [of "take k s" "length s div 48"] by (simp add: k_def)
  also have "take k s @ drop k s @ concat ps = pending ctx @ concat (p # ps)"
    unfolding append.assoc [symmetric] append_take_drop_id s_def by simp
  finally show ?case .
qed

lemma EncodeInit_spec: "enc_inv EVP_EncodeInit \<and> pending EVP_EncodeInit = []"
  by (simp add: EVP_EncodeInit_def zero_ctx_def enc_inv_def pending_def)

section \<open>Decoding a stream\<close>

fun decode_pieces :: "evp_encode_ctx \<Rightarrow> bytes list \<Rightarrow> bytes option" where
  "decode_pieces ctx [] = (if EVP_DecodeFinal ctx = 1 then Some [] else None)"
| "decode_pieces ctx (p # ps) =
     (case EVP_DecodeUpdate ctx p of
        (r, ctx', out, n) \<Rightarrow> if r = -1 then None else map_option ((@) (take n out)) (decode_pieces ctx' ps))"

definition dec_inv :: "evp_encode_ctx \<Rightarrow> bool" where
  "dec_inv ctx \<longleftrightarrow> data_used ctx < 4 \<and> length (ctx_data ctx) = 48"

lemma base64_decode_quad_length: "base64_decode_quad a b c d = Some bs \<Longrightarrow> 1 \<le> length bs \<and> length bs \<le> 3"
  by (auto simp: base64_decode_quad_def Let_def split: if_splits)

text \<open>White space is skipped, the output is appended to, and the loop can be cut anywhere.\<close>

lemma decode_loop_filter: "decode_loop ctx out (filter (\<lambda>c. \<not> is_space c) inp) = decode_loop ctx out inp"
  by (induction ctx out inp rule: decode_loop.induct) (auto simp: Let_def split: option.splits)

lemma decode_loop_append:
  "decode_loop ctx out (xs @ ys) =
     (case decode_loop ctx out xs of (False, c, o1) \<Rightarrow> (False, c, o1) | (True, c, o1) \<Rightarrow> decode_loop c o1 ys)"
  by (induction ctx out xs rule: decode_loop.induct) (auto simp: Let_def split: option.splits)

lemma decode_loop_prefix:
  "decode_loop ctx (pre @ out) inp = (case decode_loop ctx out inp of (ok, c, o1) \<Rightarrow> (ok, c, pre @ o1))"
  by (induction ctx out inp rule: decode_loop.induct) (auto simp: Let_def split: option.splits)

lemmas decode_loop_out = decode_loop_prefix [where out = "[]", simplified append_Nil2]

lemma add_div_4: "u + 1 = 4 \<Longrightarrow> (u + Suc n) div 4 = Suc (n div 4)" for u n :: nat
  by auto

lemma decode_loop_inv:
  assumes "decode_loop ctx out inp = (ok, ctx', out')" and "dec_inv ctx"
  shows "(ok \<longrightarrow> dec_inv ctx') \<and> (ok \<longrightarrow> error_encountered ctx' = error_encountered ctx) \<and>
    length out' \<le> length out + 3 * ((data_used ctx + length inp) div 4)"
  using assms
proof (induction inp arbitrary: ctx out)
  case (Cons c inp)
  have inv: "data_used ctx < 4" "length (ctx_data ctx) = 48" using Cons.prems(2) by (simp_all add: dec_inv_def)
  let ?d = "(ctx_data ctx)[data_used ctx := c]"
  consider "is_space c" | "\<not> is_space c" "eof_seen ctx" | "\<not> is_space c" "\<not> eof_seen ctx" "data_used ctx + 1 \<noteq> 4"
    | "\<not> is_space c" "\<not> eof_seen ctx" "data_used ctx + 1 = 4" by blast
  then show ?case
  proof cases
    case 1
    with Cons.prems(1) have "decode_loop ctx out inp = (ok, ctx', out')" by simp
    note IH = Cons.IH [OF this Cons.prems(2)]
    have "3 * ((data_used ctx + length inp) div 4) \<le> 3 * ((data_used ctx + length (c # inp)) div 4)"
      by (intro mult_le_mono2 div_le_mono) simp
    with IH have "length out' \<le> length out + 3 * ((data_used ctx + length (c # inp)) div 4)" by linarith
    with IH show ?thesis by blast
  next
    case 2
    with Cons.prems(1) show ?thesis by auto
  next
    case 3
    with Cons.prems(1) have e: "decode_loop (ctx\<lparr>ctx_data := ?d, data_used := data_used ctx + 1\<rparr>) out inp = (ok, ctx', out')"
      by (simp add: Let_def)
    have "dec_inv (ctx\<lparr>ctx_data := ?d, data_used := data_used ctx + 1\<rparr>)" using 3 inv by (simp add: dec_inv_def)
    from Cons.IH [OF e this] show ?thesis by simp
  next
    case 4
    show ?thesis
    proof (cases "base64_decode_quad (?d ! 0) (?d ! 1) (?d ! 2) (?d ! 3)")
      case None
      with 4 Cons.prems(1) show ?thesis by (auto simp: Let_def)
    next
      case (Some bs)
      let ?c = "ctx\<lparr>ctx_data := ?d, data_used := 0, eof_seen := eof_seen ctx \<or> length bs < 3\<rparr>"
      have e: "decode_loop ?c (out @ bs) inp = (ok, ctx', out')" using 4 Some Cons.prems(1) by (simp add: Let_def)
      have "dec_inv ?c" using inv by (simp add: dec_inv_def)
      note IH = Cons.IH [OF e this, simplified length_append]
      have "3 * ((data_used ctx + length (c # inp)) div 4) = 3 + 3 * (length inp div 4)"
        using add_div_4 [OF 4(3), of "length inp"] by simp
      moreover have "length out' \<le> length out + length bs + 3 * (length inp div 4)" using IH by simp
      ultimately have "length out' \<le> length out + 3 * ((data_used ctx + length (c # inp)) div 4)"
        using base64_decode_quad_length [OF Some] by linarith
      with IH show ?thesis by simp
    qed
  qed
qed auto

text \<open>Four characters at once, when the context holds none.\<close>

lemma decode_loop_quad:
  assumes "data_used ctx = 0" and "length (ctx_data ctx) = 48" and "\<not> eof_seen ctx"
    and "\<not> is_space a" "\<not> is_space b" "\<not> is_space c" "\<not> is_space d" and "base64_decode_quad a b c d = Some bs"
  shows "decode_loop ctx out (a # b # c # d # r) =
    decode_loop (ctx\<lparr>ctx_data := (ctx_data ctx)[0 := a, 1 := b, 2 := c, 3 := d], data_used := 0, eof_seen := length bs < 3\<rparr>) (out @ bs) r"
  using assms by (simp add: Let_def numeral_2_eq_2 numeral_3_eq_3 numeral_eq_Suc)

lemma equals_not_space: "\<not> is_space 61"
  by (simp add: is_space_def)

lemma decode_loop_encoded:
  assumes "data_used ctx = 0" and "length (ctx_data ctx) = 48" and "\<not> eof_seen ctx"
  shows "\<exists>ctx'. decode_loop ctx out (encode_block_loop src) = (True, ctx', out @ src) \<and> data_used ctx' = 0 \<and>
    error_encountered ctx' = error_encountered ctx"
  using assms
proof (induction src arbitrary: ctx out rule: encode_block_loop.induct)
  case 1
  then show ?case by simp
next
  case (2 a)
  let ?l = "push_bit 16 (ucast a) :: u32"
  have e: "encode_block_loop [a] = group_char ?l 18 # group_char ?l 12 # 61 # 61 # []" by (simp add: Let_def)
  note q = decode_quad_group(3) [of ?l, unfolded group_bytes_short]
  show ?case unfolding e decode_loop_quad [OF 2 group_char_facts(3) group_char_facts(3) equals_not_space equals_not_space q]
    by simp
next
  case (3 a b)
  let ?l = "push_bit 16 (ucast a) OR push_bit 8 (ucast b) :: u32"
  have e: "encode_block_loop [a, b] = group_char ?l 18 # group_char ?l 12 # group_char ?l 6 # 61 # []" by (simp add: Let_def)
  note q = decode_quad_group(2) [of ?l, unfolded group_bytes_short]
  show ?case unfolding e
      decode_loop_quad [OF 3 group_char_facts(3) group_char_facts(3) group_char_facts(3) equals_not_space q]
    by simp
next
  case (4 a b c src)
  let ?l = "push_bit 16 (ucast a) OR push_bit 8 (ucast b) OR ucast c :: u32"
  have e: "encode_block_loop (a # b # c # src) =
      group_char ?l 18 # group_char ?l 12 # group_char ?l 6 # group_char ?l 0 # encode_block_loop src" by (simp add: Let_def)
  note q = decode_quad_group(1) [of ?l, unfolded group_bytes]
  let ?c = "ctx\<lparr>ctx_data := (ctx_data ctx)[0 := group_char ?l 18, 1 := group_char ?l 12, 2 := group_char ?l 6,
      3 := group_char ?l 0], data_used := 0, eof_seen := length [a, b, c] < 3\<rparr>"
  have "\<exists>ctx'. decode_loop ?c (out @ [a, b, c]) (encode_block_loop src) = (True, ctx', (out @ [a, b, c]) @ src) \<and>
      data_used ctx' = 0 \<and> error_encountered ctx' = error_encountered ?c"
    by (rule 4(1) [OF refl]) (use 4(3) in simp_all)
  then show ?case unfolding e
      decode_loop_quad [OF 4(2,3,4) group_char_facts(3) group_char_facts(3) group_char_facts(3) group_char_facts(3) q]
    by simp
qed

lemma decode_pieces_loop:
  assumes "decode_loop ctx [] (concat ps) = (True, ctx', out)" and "dec_inv ctx" and "\<not> error_encountered ctx"
    and "EVP_DecodeFinal ctx' = 1" and "\<forall>p\<in>set ps. length p \<le> 2000000000"
  shows "decode_pieces ctx ps = Some out"
  using assms(1-3,5)
proof (induction ps arbitrary: ctx out)
  case Nil
  then show ?case using assms(4) by simp
next
  case (Cons p ps)
  have "decode_loop ctx [] (p @ concat ps) = (True, ctx', out)" using Cons.prems(1) by simp
  then obtain c o1 where p: "decode_loop ctx [] p = (True, c, o1)" and rest: "decode_loop c o1 (concat ps) = (True, ctx', out)"
    unfolding decode_loop_append by (auto split: prod.splits bool.splits)
  from rest obtain o2 where ps: "decode_loop c [] (concat ps) = (True, ctx', o2)" and out: "out = o1 @ o2"
    unfolding decode_loop_out [of c o1] by (auto split: prod.splits)
  note inv = decode_loop_inv [OF p Cons.prems(2)]
  have "length o1 \<le> 3 * ((data_used ctx + length p) div 4)" using inv by simp
  also have "\<dots> \<le> INT_MAX"
    using Cons.prems(2,4) div_le_mono [of "data_used ctx + length p" 2000000003 4] by (simp add: dec_inv_def INT_MAX_def)
  finally have l: "length o1 \<le> INT_MAX" .
  have "decode_pieces c ps = Some o2"
    using inv Cons.prems(3,4) by (intro Cons.IH [OF ps]) simp_all
  moreover have "EVP_DecodeUpdate ctx p = (if eof_seen c then 0 else 1, c, o1, length o1)"
    using p l Cons.prems(3) by (simp add: EVP_DecodeUpdate_def)
  ultimately show ?case by (simp add: out)
qed

lemma decode_quads_length: "length (snd (decode_quads out inp)) \<le> length out + length inp div 4 * 3"
proof (induction out inp rule: decode_quads.induct)
  case (2 out a b c d inp)
  show ?case
  proof (cases "base64_decode_quad a b c d")
    case (Some bs)
    have "(4 + length inp) div 4 = Suc (length inp div 4)" by simp
    with Some base64_decode_quad_length [OF Some] 2 [OF Some] show ?thesis by auto
  qed simp
qed simp_all

lemma filter_encode_block_loop: "filter (\<lambda>c. \<not> is_space c) (encode_block_loop src) = encode_block_loop src"
  by (induction src rule: encode_block_loop.induct) (simp_all add: Let_def group_char_facts equals_not_space)

lemma filter_pem_lines: "filter (\<lambda>c. \<not> is_space c) (pem_lines xs) = encode_block_loop xs"
proof (induction xs rule: pem_lines.induct)
  case (1 xs)
  have nl: "is_space 10" by (simp add: is_space_def)
  show ?case
  proof (cases "48 \<le> length xs")
    case True
    then have "encode_block_loop xs = encode_block_loop (take 48 xs) @ encode_block_loop (drop 48 xs)"
      using encode_block_loop_append [of "take 48 xs" "drop 48 xs"] by simp
    moreover have "xs \<noteq> []" using True by auto
    ultimately show ?thesis using 1 by (subst pem_lines.simps) (simp add: filter_encode_block_loop nl)
  next
    case False
    then show ?thesis by (subst pem_lines.simps) (simp add: filter_encode_block_loop nl)
  qed
qed

lemma EVP_EncodedLength_eq:
  assumes "n < 2 ^ 64"
  shows "EVP_EncodedLength n = (if (n + 2) div 3 * 4 + 1 < 2 ^ 64 then Some ((n + 2) div 3 * 4 + 1) else None)"
proof (cases "n + 2 < 2 ^ 64")
  case False
  then have "size_add n 2 < n" using size_add_less_iff [of n 2] assms by simp
  moreover have "\<not> (n + 2) div 3 * 4 + 1 < 2 ^ 64" using False div_le_mono [of "2 ^ 64" "n + 2" 3] by simp
  ultimately show ?thesis by (simp add: EVP_EncodedLength_def)
next
  case True
  define k where "k = (n + 2) div 3"
  have a: "size_add n 2 = n + 2" using True by (rule size_add_no_wrap)
  have m: "size_mul k 4 = (if k * 4 < 2 ^ 64 then k * 4 else k * 4 mod 2 ^ 64)" by (simp add: size_mul_def)
  have e: "EVP_EncodedLength n = (if size_mul k 4 div 4 \<noteq> k then None
      else if size_add (size_mul k 4) 1 < size_mul k 4 then None else Some (size_add (size_mul k 4) 1))"
    by (simp add: EVP_EncodedLength_def a k_def Let_def)
  show ?thesis
  proof (cases "k * 4 < 2 ^ 64")
    case True
    then have "k * 4 + 1 < 2 ^ 64" by simp
    with True show ?thesis unfolding e m k_def [symmetric] by (simp add: size_add_no_wrap)
  next
    case False
    have "k * 4 mod 2 ^ 64 < 2 ^ 64" by simp
    with False have "size_mul k 4 div 4 \<noteq> k" unfolding m by simp
    with False show ?thesis unfolding e k_def [symmetric] by simp
  qed
qed

section \<open>Properties\<close>

text \<open>
  The constant-time conversions are the table of RFC 4648: \<^verbatim>\<open>conv_bin2ascii\<close> looks the low six bits up
  in the alphabet, \<^verbatim>\<open>base64_ascii_to_bin\<close> inverts it, maps the padding to zero and returns 0xff for every
  byte outside the four ranges of the alphabet.
\<close>

theorem base64_tables:
  "conv_bin2ascii a = base64_alphabet ! (unat a mod 64) \<and> base64_ascii_to_bin (conv_bin2ascii a) = a AND 0x3f \<and>
   base64_ascii_to_bin c =
     (if c = 61 then 0 else if c = 47 then 63 else if c = 43 then 62
      else if 48 \<le> c \<and> c \<le> 57 then c + 4 else if 97 \<le> c \<and> c \<le> 122 then c - 71
      else if 65 \<le> c \<and> c \<le> 90 then c - 65 else 0xff)"
  using conv_bin2ascii_alphabet conv_bin2ascii_inverse base64_ascii_to_bin_cases by blast

text \<open>
  C23. What \<^verbatim>\<open>EVP_EncodeBlock\<close> writes is four characters for every group of three bytes and the NUL, as
  many bytes as \<^verbatim>\<open>EVP_EncodedLength\<close> announces (it fails exactly when that number does not fit a
  \<^verbatim>\<open>size_t\<close>), and \<^verbatim>\<open>EVP_DecodeBase64\<close> gives the input back when the output buffer is large enough.
\<close>

theorem base64_block_roundtrip:
  assumes "length src < 2 ^ 64"
  shows "EVP_EncodedLength (length src) =
      (if length (fst (EVP_EncodeBlock src)) < 2 ^ 64 then Some (length (fst (EVP_EncodeBlock src))) else None) \<and>
    EVP_DecodeBase64 max_out (butlast (fst (EVP_EncodeBlock src))) =
      (if max_out < (length src + 2) div 3 * 3 then (False, [], 0) else (True, src, length src))"
proof
  let ?n = "(length src + 2) div 3"
  have len: "length (fst (EVP_EncodeBlock src)) = ?n * 4 + 1"
    by (simp add: EVP_EncodeBlock_def length_encode_block_loop)
  show "EVP_EncodedLength (length src) =
      (if length (fst (EVP_EncodeBlock src)) < 2 ^ 64 then Some (length (fst (EVP_EncodeBlock src))) else None)"
    unfolding len using EVP_EncodedLength_eq [OF assms] .
  have "length (encode_block_loop src) mod 4 = 0" "length (encode_block_loop src) div 4 = ?n"
    by (simp_all add: length_encode_block_loop)
  then show "EVP_DecodeBase64 max_out (butlast (fst (EVP_EncodeBlock src))) =
      (if max_out < ?n * 3 then (False, [], 0) else (True, src, length src))"
    by (simp add: EVP_EncodeBlock_def EVP_DecodeBase64_def EVP_DecodedLength_def decode_quads_encoded)
qed

theorem base64_block_roundtrip_witness:
  "EVP_DecodeBase64 9 (butlast (fst (EVP_EncodeBlock [1, 2, 3, 4, 5]))) = (True, [1, 2, 3, 4, 5], 5)"
  using base64_block_roundtrip [of "[1, 2, 3, 4, 5]" 9] by simp

text \<open>
  C22. The stream: however the input is cut into pieces, what \<^verbatim>\<open>EVP_EncodeUpdate\<close> and \<^verbatim>\<open>EVP_EncodeFinal\<close>
  report is the same text, in lines of 64 characters; and however that text is cut, with any white
  space put in or taken out, \<^verbatim>\<open>EVP_DecodeUpdate\<close> and \<^verbatim>\<open>EVP_DecodeFinal\<close> give the input back. A piece
  has at most 1.5e9 bytes for the encoder and 2e9 for the decoder, because the calls return their output length as an
  \<^verbatim>\<open>int\<close>.
\<close>

theorem base64_stream_roundtrip:
  assumes "\<forall>p\<in>set ps. length p \<le> 1500000000" and "\<forall>p\<in>set qs. length p \<le> 2000000000"
    and "filter (\<lambda>c. \<not> is_space c) (concat qs) = filter (\<lambda>c. \<not> is_space c) (encode_pieces EVP_EncodeInit ps)"
  shows "encode_pieces EVP_EncodeInit ps = pem_lines (concat ps) \<and> decode_pieces EVP_DecodeInit qs = Some (concat ps)"
proof
  show e: "encode_pieces EVP_EncodeInit ps = pem_lines (concat ps)"
    using encode_pieces_spec [of EVP_EncodeInit ps] EncodeInit_spec assms(1) by simp
  have "data_used EVP_DecodeInit = 0" "length (ctx_data EVP_DecodeInit) = 48" "\<not> eof_seen EVP_DecodeInit"
    by (simp_all add: EVP_DecodeInit_def zero_ctx_def)
  from decode_loop_encoded [OF this, of "[]" "concat ps"] obtain c where
    c: "decode_loop EVP_DecodeInit [] (encode_block_loop (concat ps)) = (True, c, concat ps)" "data_used c = 0"
      "\<not> error_encountered c" by (auto simp: EVP_DecodeInit_def zero_ctx_def)
  have "decode_loop EVP_DecodeInit [] (concat qs) = (True, c, concat ps)"
    using c(1) decode_loop_filter [of EVP_DecodeInit "[]" "concat qs"] unfolding assms(3) e filter_pem_lines by simp
  then show "decode_pieces EVP_DecodeInit qs = Some (concat ps)"
    using c assms(2) by (intro decode_pieces_loop)
      (simp_all add: dec_inv_def EVP_DecodeInit_def zero_ctx_def EVP_DecodeFinal_def)
qed

theorem base64_stream_roundtrip_witness:
  "decode_pieces EVP_DecodeInit [[65, 81], [32, 73, 68, 66, 65, 61], [61, 10]] = Some [1, 2, 3, 4]"
proof -
  have e: "encode_pieces EVP_EncodeInit [[1, 2], [3, 4]] = pem_lines [1, 2, 3, 4]"
    using encode_pieces_spec [of EVP_EncodeInit "[[1, 2], [3, 4]]"] EncodeInit_spec by simp
  have "encode_block_loop [1, 2, 3, 4] = [65, 81, 73, 68, 66, 65, 61, 61]" by code_simp
  then have "filter (\<lambda>c. \<not> is_space c) (concat [[65, 81], [32, 73, 68, 66, 65, 61], [61, 10]]) =
      filter (\<lambda>c. \<not> is_space c) (encode_pieces EVP_EncodeInit [[1, 2], [3, 4]])"
    unfolding e filter_pem_lines by (simp add: is_space_def)
  from base64_stream_roundtrip [OF _ _ this] show ?thesis by simp
qed

text \<open>
  C24. The decoders never write more than they may: \<^verbatim>\<open>EVP_DecodeBase64\<close> at most \<open>max_out\<close> bytes, on errors
  too; and \<^verbatim>\<open>EVP_DecodeUpdate\<close>, from a context that holds at most three characters (as after \<^verbatim>\<open>EVP_DecodeInit\<close>), at
  most three bytes for every four characters it has, and unless it fails its context again holds at most three.
\<close>

theorem base64_decode_bounds:
  assumes "dec_inv ctx" and "EVP_DecodeUpdate ctx inp = (r, ctx', out, n)"
  shows "length (fst (snd (EVP_DecodeBase64 max_out s))) \<le> max_out \<and>
    length out \<le> 3 * ((data_used ctx + length inp) div 4) \<and> n \<le> length out \<and> n \<le> INT_MAX \<and> (r \<noteq> -1 \<longrightarrow> dec_inv ctx')"
proof (intro conjI impI)
  show "length (fst (snd (EVP_DecodeBase64 max_out s))) \<le> max_out"
  proof (cases "length s mod 4 = 0 \<and> length s div 4 * 3 \<le> max_out")
    case True
    with decode_quads_length [of "[]" s] show ?thesis
      by (auto simp: EVP_DecodeBase64_def EVP_DecodedLength_def split: prod.splits bool.splits)
  qed (auto simp: EVP_DecodeBase64_def EVP_DecodedLength_def)
  obtain ok c o1 where l: "decode_loop ctx [] inp = (ok, c, o1)" by (cases "decode_loop ctx [] inp") auto
  note inv = decode_loop_inv [OF l assms(1)]
  from assms(2) l show "n \<le> length out" "n \<le> INT_MAX"
    by (auto simp: EVP_DecodeUpdate_def split: if_splits bool.splits)
  from assms(2) l inv show "length out \<le> 3 * ((data_used ctx + length inp) div 4)"
    by (auto simp: EVP_DecodeUpdate_def split: if_splits bool.splits)
  assume "r \<noteq> -1"
  with assms(2) l inv show "dec_inv ctx'"
    by (auto simp: EVP_DecodeUpdate_def split: if_splits bool.splits)
qed

theorem base64_decode_bounds_witness:
  "length (fst (snd (snd (EVP_DecodeUpdate EVP_DecodeInit [65, 81, 73])))) = 0"
proof -
  have "dec_inv EVP_DecodeInit" by (simp add: dec_inv_def EVP_DecodeInit_def zero_ctx_def)
  from base64_decode_bounds [OF this, of "[65, 81, 73]"] show ?thesis
    by (cases "EVP_DecodeUpdate EVP_DecodeInit [65, 81, 73]") (simp add: EVP_DecodeInit_def zero_ctx_def)
qed

text \<open>
  \<^verbatim>\<open>EVP_DecodeBlock\<close> trims spaces, tabs and line ends only: a trailing minus, which the header says is
  stripped, makes it fail, while the same input without the minus is decoded.
\<close>

theorem EVP_DecodeBlock_keeps_minus:
  "fst (EVP_DecodeBlock [32, 81, 85, 74, 68, 10]) = 3 \<and> fst (EVP_DecodeBlock [81, 85, 74, 68, 45]) = -1 \<and>
   fst (EVP_DecodeBlock [81, 85, 74, 68, 45, 45, 45, 45]) = -1"
proof -
  have t: "trim_block [32, 81, 85, 74, 68, 10] = [81, 85, 74, 68]" "trim_block [81, 85, 74, 68, 45] = [81, 85, 74, 68, 45]"
    "trim_block [81, 85, 74, 68, 45, 45, 45, 45] = [81, 85, 74, 68, 45, 45, 45, 45]" by code_simp+
  have q: "decode_quads [] [81, 85, 74, 68] = (True, [65, 66, 67])"
    "decode_quads [] [81, 85, 74, 68, 45, 45, 45, 45] = (False, [65, 66, 67])" by code_simp+
  show ?thesis
    by (simp add: EVP_DecodeBlock_def t EVP_DecodedLength_def INT_MAX_def EVP_DecodeBase64_def q pad_zeros_def del: decode_quads.simps)
qed

end
