(* ===== verification/Bio_Pair.thy ===== *)
theory Bio_Pair
  imports Prelude "HOL-Library.Monad_Syntax"
begin

text \<open>
  \<^verbatim>\<open>crypto/bio/pair.c\<close> and the calls of \<^verbatim>\<open>crypto/bio/bio.c\<close> that reach it: two BIOs of which each one
  reads what was written to the other, through a ring buffer per direction. BIOs point at each
  other, so they live in a heap that maps addresses to records; \<^verbatim>\<open>bio->ptr\<close> is never shared, so its
  fields are fields of the same record. A call that would fail an assertion, follow a null pointer
  or not return has no result (\<open>None\<close>); that this does not happen is proved.
\<close>

section \<open>The heap\<close>

record bio =
  init :: bool
  shutdown :: int
  flags :: u32
  retry_reason :: int
  references :: nat
  num_read :: nat
  num_write :: nat
  peer :: "nat option"
  closed :: bool
  len :: nat
  offset :: nat
  ring_size :: nat
  buf :: "bytes option"
  request :: nat

type_synonym heap = "nat \<Rightarrow> bio option"

definition BIO_FLAGS_READ :: u32 where "BIO_FLAGS_READ = 0x01"
definition BIO_FLAGS_WRITE :: u32 where "BIO_FLAGS_WRITE = 0x02"
definition BIO_FLAGS_IO_SPECIAL :: u32 where "BIO_FLAGS_IO_SPECIAL = 0x04"
definition BIO_FLAGS_RWS :: u32 where "BIO_FLAGS_RWS = BIO_FLAGS_READ OR BIO_FLAGS_WRITE OR BIO_FLAGS_IO_SPECIAL"
definition BIO_FLAGS_SHOULD_RETRY :: u32 where "BIO_FLAGS_SHOULD_RETRY = 0x08"

definition kRetryFlags :: u32 where
  "kRetryFlags = BIO_FLAGS_RWS OR BIO_FLAGS_SHOULD_RETRY"

definition BIO_test_flags :: "bio \<Rightarrow> u32 \<Rightarrow> u32" where
  "BIO_test_flags b fs = flags b AND fs"

definition BIO_should_read :: "bio \<Rightarrow> bool" where
  "BIO_should_read b \<longleftrightarrow> BIO_test_flags b BIO_FLAGS_READ \<noteq> 0"

definition BIO_should_write :: "bio \<Rightarrow> bool" where
  "BIO_should_write b \<longleftrightarrow> BIO_test_flags b BIO_FLAGS_WRITE \<noteq> 0"

definition BIO_should_retry :: "bio \<Rightarrow> bool" where
  "BIO_should_retry b \<longleftrightarrow> BIO_test_flags b BIO_FLAGS_SHOULD_RETRY \<noteq> 0"

definition BIO_set_retry_read :: "bio \<Rightarrow> bio" where
  "BIO_set_retry_read b = b\<lparr>flags := flags b OR (BIO_FLAGS_READ OR BIO_FLAGS_SHOULD_RETRY)\<rparr>"

definition BIO_set_retry_write :: "bio \<Rightarrow> bio" where
  "BIO_set_retry_write b = b\<lparr>flags := flags b OR (BIO_FLAGS_WRITE OR BIO_FLAGS_SHOULD_RETRY)\<rparr>"

definition BIO_get_retry_flags :: "bio \<Rightarrow> u32" where
  "BIO_get_retry_flags b = flags b AND kRetryFlags"

definition BIO_clear_retry_flags :: "bio \<Rightarrow> bio" where
  "BIO_clear_retry_flags b = b\<lparr>flags := flags b AND NOT kRetryFlags, retry_reason := 0\<rparr>"

text \<open>Conversions between \<^verbatim>\<open>int\<close> and \<^verbatim>\<open>size_t\<close>.\<close>

definition size_of_int :: "int \<Rightarrow> nat" where
  "size_of_int i = nat (i mod 2 ^ 64)"

definition int_of_size :: "nat \<Rightarrow> int" where
  "int_of_size n = (int n + 2 ^ 31) mod 2 ^ 32 - 2 ^ 31"

definition assert_that :: "bool \<Rightarrow> unit option" where
  "assert_that p = (if p then Some () else None)"

definition update_bio :: "nat \<Rightarrow> (bio \<Rightarrow> bio) \<Rightarrow> heap \<Rightarrow> heap" where
  "update_bio a f h = h(a := map_option f (h a))"

section \<open>Creating and destroying\<close>

text \<open>\<^verbatim>\<open>BIO_new\<close> with the method of this file, and the \<^verbatim>\<open>bio_new\<close> that it calls: 17 KB by default.\<close>

definition bio_new :: "bio \<Rightarrow> bio" where
  "bio_new b = b\<lparr>peer := None, closed := False, len := 0, offset := 0, ring_size := 17 * 1024, buf := None, request := 0\<rparr>"

definition BIO_new :: "bool \<Rightarrow> nat \<Rightarrow> heap \<Rightarrow> nat option \<times> heap" where
  "BIO_new alloc_ok a h =
     (if \<not> alloc_ok then (None, h)
      else (Some a, h(a \<mapsto> bio_new \<lparr>init = False, shutdown = 1, flags = 0, retry_reason = 0, references = 1,
        num_read = 0, num_write = 0, peer = None, closed = False, len = 0, offset = 0, ring_size = 0, buf = None,
        request = 0\<rparr>)))"

definition bio_destroy_pair :: "nat \<Rightarrow> heap \<Rightarrow> heap option" where
  "bio_destroy_pair a h = do {
     b \<leftarrow> h a;
     case peer b of
       None \<Rightarrow> Some h
     | Some p \<Rightarrow> do {
         pb \<leftarrow> h p;
         assert_that (peer pb = Some a);
         let h1 = update_bio p (\<lambda>pb. pb\<lparr>peer := None, init := False\<rparr>) h;
         assert_that (buf pb \<noteq> None);
         let h2 = update_bio p (\<lambda>pb. pb\<lparr>len := 0, offset := 0\<rparr>) h1;
         let h3 = update_bio a (\<lambda>b. b\<lparr>peer := None, init := False\<rparr>) h2;
         assert_that (buf b \<noteq> None);
         Some (update_bio a (\<lambda>b. b\<lparr>len := 0, offset := 0\<rparr>) h3)
       }
   }"

definition bio_free :: "nat \<Rightarrow> heap \<Rightarrow> heap option" where
  "bio_free a h = do {
     b \<leftarrow> h a;
     (if peer b \<noteq> None then bio_destroy_pair a h else Some h)
   }"

text \<open>A BIO of this kind heads no chain, so the loop of \<^verbatim>\<open>BIO_free\<close> runs once. The count is saturated.\<close>

definition BIO_free :: "nat option \<Rightarrow> heap \<Rightarrow> (bool \<times> heap) option" where
  "BIO_free bio h =
     (case bio of
        None \<Rightarrow> Some (True, h)
      | Some a \<Rightarrow> do {
          b \<leftarrow> h a;
          assert_that (references b \<noteq> 0);
          (if references b = 2 ^ 32 - 1 then Some (False, h)
           else if references b \<noteq> 1 then Some (False, h(a \<mapsto> b\<lparr>references := references b - 1\<rparr>))
           else do { h1 \<leftarrow> bio_free a (h(a \<mapsto> b\<lparr>references := 0\<rparr>)); Some (True, h1(a := None)) })
        })"

definition BIO_up_ref :: "nat \<Rightarrow> heap \<Rightarrow> heap" where
  "BIO_up_ref a h =
     update_bio a (\<lambda>b. b\<lparr>references := (if references b = 2 ^ 32 - 1 then references b else references b + 1)\<rparr>) h"

section \<open>Reading\<close>

text \<open>The copying loop of \<^verbatim>\<open>bio_read\<close>, on the peer's buffer.\<close>

partial_function (option) read_loop :: "bio \<Rightarrow> nat \<Rightarrow> bytes \<Rightarrow> (bio \<times> bytes) option" where
  "read_loop pb rest out = do {
     assert_that (rest \<le> len pb);
     let chunk = (if size_add (offset pb) rest \<le> ring_size pb then rest else ring_size pb - offset pb);
     assert_that (size_add (offset pb) chunk \<le> ring_size pb);
     d \<leftarrow> buf pb;
     let out' = out @ take chunk (drop (offset pb) d);
     let pb1 = pb\<lparr>len := len pb - chunk\<rparr>;
     assert_that (len pb1 \<noteq> 0 \<or> chunk = rest);
     let pb2 = (if len pb1 \<noteq> 0 then
                  pb1\<lparr>offset := (if offset pb + chunk = ring_size pb then 0 else offset pb + chunk)\<rparr>
                else pb1\<lparr>offset := 0\<rparr>);
     (if rest - chunk \<noteq> 0 then read_loop pb2 (rest - chunk) out' else Some (pb2, out'))
   }"

definition bio_read :: "nat \<Rightarrow> bool \<Rightarrow> int \<Rightarrow> heap \<Rightarrow> (int \<times> bytes \<times> heap) option" where
  "bio_read a has_buf size_arg h0 = do {
     let sz = size_of_int size_arg;
     let h1 = update_bio a BIO_clear_retry_flags h0;
     b \<leftarrow> h1 a;
     (if \<not> init b then Some (0, [], h1)
      else do {
        p \<leftarrow> peer b;
        pb0 \<leftarrow> h1 p;
        assert_that (buf pb0 \<noteq> None);
        let pb = pb0\<lparr>request := 0\<rparr>;
        let h = h1(p \<mapsto> pb);
        (if \<not> has_buf \<or> sz = 0 then Some (0, [], h)
         else if len pb = 0 then
           (if closed pb then Some (0, [], h)
            else Some (-1, [], update_bio p (\<lambda>x. x\<lparr>request := (if sz \<le> ring_size x then sz else ring_size x)\<rparr>)
                   (update_bio a BIO_set_retry_read h)))
         else do {
           let n = (if len pb < sz then len pb else sz);
           (pb', out) \<leftarrow> read_loop pb n [];
           Some (int_of_size n, out, h(p \<mapsto> pb'))
         })
      })
   }"

section \<open>Writing\<close>

partial_function (option) write_loop :: "bio \<Rightarrow> nat \<Rightarrow> bytes \<Rightarrow> bio option" where
  "write_loop b rest src = do {
     assert_that (size_add (len b) rest \<le> ring_size b);
     let wo = size_add (offset b) (len b);
     let write_offset = (if wo \<ge> ring_size b then wo - ring_size b else wo);
     let chunk = (if size_add write_offset rest \<le> ring_size b then rest else ring_size b - write_offset);
     d \<leftarrow> buf b;
     let b' = b\<lparr>buf := Some (write_at d write_offset (take chunk src)), len := len b + chunk\<rparr>;
     assert_that (len b' \<le> ring_size b);
     (if rest - chunk \<noteq> 0 then write_loop b' (rest - chunk) (drop chunk src) else Some b')
   }"

definition bio_write :: "nat \<Rightarrow> bytes option \<Rightarrow> int \<Rightarrow> heap \<Rightarrow> (int \<times> heap) option" where
  "bio_write a src num_arg h0 = do {
     let num = size_of_int num_arg;
     let h = update_bio a BIO_clear_retry_flags h0;
     b0 \<leftarrow> h a;
     (if \<not> init b0 \<or> src = None \<or> num = 0 then Some (0, h)
      else do {
        assert_that (peer b0 \<noteq> None);
        assert_that (buf b0 \<noteq> None);
        let b = b0\<lparr>request := 0\<rparr>;
        (if closed b then Some (-1, h(a \<mapsto> b))
         else do {
           assert_that (len b \<le> ring_size b);
           (if len b = ring_size b then Some (-1, h(a \<mapsto> BIO_set_retry_write b))
            else do {
              let n = (if num > ring_size b - len b then ring_size b - len b else num);
              xs \<leftarrow> src;
              b' \<leftarrow> write_loop b n xs;
              Some (int_of_size n, h(a \<mapsto> b'))
            })
         })
      })
   }"

section \<open>Pairing\<close>

text \<open>The buffer of one end, allocated when it has none. \<open>fresh\<close> is the contents of new memory.\<close>

definition bio_get_buf :: "(nat \<Rightarrow> bool) \<Rightarrow> byte \<Rightarrow> nat \<Rightarrow> bio \<Rightarrow> bool \<times> bio" where
  "bio_get_buf alloc fresh writebuf_len b =
     (case buf b of
        Some _ \<Rightarrow> (True, b)
      | None \<Rightarrow>
          let b1 = (if writebuf_len \<noteq> 0 then b\<lparr>ring_size := writebuf_len\<rparr> else b)
          in if \<not> alloc (ring_size b1) then (False, b1)
             else (True, b1\<lparr>buf := Some (replicate (ring_size b1) fresh), len := 0, offset := 0\<rparr>))"

definition bio_make_pair ::
  "(nat \<Rightarrow> bool) \<Rightarrow> byte \<Rightarrow> nat \<Rightarrow> nat \<Rightarrow> nat \<Rightarrow> nat \<Rightarrow> heap \<Rightarrow> (bool \<times> heap) option" where
  "bio_make_pair alloc fresh bio1 bio2 writebuf1_len writebuf2_len h = do {
     b1 \<leftarrow> h bio1;
     b2 \<leftarrow> h bio2;
     (if peer b1 \<noteq> None \<or> peer b2 \<noteq> None then Some (False, h)
      else do {
        let (ok1, b1') = bio_get_buf alloc fresh writebuf1_len b1;
        let h1 = h(bio1 \<mapsto> b1');
        (if \<not> ok1 then Some (False, h1)
         else do {
           b2 \<leftarrow> h1 bio2;
           let (ok2, b2') = bio_get_buf alloc fresh writebuf2_len b2;
           let h2 = h1(bio2 \<mapsto> b2');
           (if \<not> ok2 then Some (False, h2)
            else Some (True,
              update_bio bio2 (\<lambda>b. b\<lparr>init := True\<rparr>) (update_bio bio1 (\<lambda>b. b\<lparr>init := True\<rparr>)
                (update_bio bio2 (\<lambda>b. b\<lparr>peer := Some bio1, closed := False, request := 0\<rparr>)
                  (update_bio bio1 (\<lambda>b. b\<lparr>peer := Some bio2, closed := False, request := 0\<rparr>) h2)))))
         })
      })
   }"

text \<open>
  \<^verbatim>\<open>BIO_new_bio_pair\<close>: \<open>a1\<close> and \<open>a2\<close> are the addresses that the two calls of \<^verbatim>\<open>BIO_new\<close> would return, \<open>ok1\<close> and
  \<open>ok2\<close> say whether they succeed.
\<close>

definition BIO_new_bio_pair ::
  "(nat \<Rightarrow> bool) \<Rightarrow> byte \<Rightarrow> bool \<Rightarrow> nat \<Rightarrow> nat \<Rightarrow> bool \<Rightarrow> nat \<Rightarrow> nat \<Rightarrow> heap \<Rightarrow> ((nat \<times> nat) option \<times> heap) option" where
  "BIO_new_bio_pair alloc fresh ok1 a1 writebuf1_len ok2 a2 writebuf2_len h = do {
     let (bio1, h1) = BIO_new ok1 a1 h;
     let (bio2, h2) = BIO_new ok2 a2 h1;
     (case (bio1, bio2) of
        (Some b1, Some b2) \<Rightarrow> do {
          (ok, h3) \<leftarrow> bio_make_pair alloc fresh b1 b2 writebuf1_len writebuf2_len h2;
          (if ok then Some (Some (b1, b2), h3)
           else do { (_, h4) \<leftarrow> BIO_free bio1 h3; (_, h5) \<leftarrow> BIO_free bio2 h4; Some (None, h5) })
        }
      | _ \<Rightarrow> do { (_, h4) \<leftarrow> BIO_free bio1 h2; (_, h5) \<leftarrow> BIO_free bio2 h4; Some (None, h5) })
   }"

section \<open>Control\<close>

datatype bio_cmd =
  BIO_C_GET_WRITE_BUF_SIZE | BIO_C_GET_WRITE_GUARANTEE | BIO_C_GET_READ_REQUEST | BIO_C_RESET_READ_REQUEST
| BIO_C_SHUTDOWN_WR | BIO_CTRL_GET_CLOSE | BIO_CTRL_SET_CLOSE | BIO_CTRL_PENDING | BIO_CTRL_WPENDING
| BIO_CTRL_FLUSH | BIO_CTRL_EOF | BIO_other_cmd int

text \<open>A \<^verbatim>\<open>long\<close> has 64 bits.\<close>

definition long_of_size :: "nat \<Rightarrow> int" where
  "long_of_size n = (int n + 2 ^ 63) mod 2 ^ 64 - 2 ^ 63"

definition bio_ctrl :: "nat \<Rightarrow> bio_cmd \<Rightarrow> int \<Rightarrow> nat option \<Rightarrow> heap \<Rightarrow> (int \<times> heap) option" where
  "bio_ctrl a cmd num ptr h = do {
     b \<leftarrow> h a;
     (case cmd of
        BIO_C_GET_WRITE_BUF_SIZE \<Rightarrow> Some (long_of_size (ring_size b), h)
      | BIO_C_GET_WRITE_GUARANTEE \<Rightarrow>
          Some (if peer b = None \<or> closed b then 0 else long_of_size (ring_size b + 2 ^ 64 - len b), h)
      | BIO_C_GET_READ_REQUEST \<Rightarrow> Some (long_of_size (request b), h)
      | BIO_C_RESET_READ_REQUEST \<Rightarrow> Some (1, h(a \<mapsto> b\<lparr>request := 0\<rparr>))
      | BIO_C_SHUTDOWN_WR \<Rightarrow> Some (1, h(a \<mapsto> b\<lparr>closed := True\<rparr>))
      | BIO_CTRL_GET_CLOSE \<Rightarrow> Some (shutdown b, h)
      | BIO_CTRL_SET_CLOSE \<Rightarrow> Some (1, h(a \<mapsto> b\<lparr>shutdown := (num + 2 ^ 31) mod 2 ^ 32 - 2 ^ 31\<rparr>))
      | BIO_CTRL_PENDING \<Rightarrow>
          (case peer b of None \<Rightarrow> Some (0, h) | Some p \<Rightarrow> do { pb \<leftarrow> h p; Some (long_of_size (len pb), h) })
      | BIO_CTRL_WPENDING \<Rightarrow> Some (if buf b \<noteq> None then long_of_size (len b) else 0, h)
      | BIO_CTRL_FLUSH \<Rightarrow> Some (1, h)
      | BIO_CTRL_EOF \<Rightarrow>
          (case ptr of None \<Rightarrow> Some (1, h)
           | Some q \<Rightarrow> do { ob \<leftarrow> h q; Some (if len ob = 0 \<and> closed ob then 1 else 0, h) })
      | BIO_other_cmd _ \<Rightarrow> Some (0, h))
   }"

section \<open>The calls of bio.c\<close>

definition BIO_read :: "nat option \<Rightarrow> bool \<Rightarrow> int \<Rightarrow> heap \<Rightarrow> (int \<times> bytes \<times> heap) option" where
  "BIO_read bio has_buf n h =
     (case bio of
        None \<Rightarrow> Some (-2, [], h)
      | Some a \<Rightarrow> do {
          b \<leftarrow> h a;
          (if \<not> init b then Some (-2, [], h)
           else if n \<le> 0 then Some (0, [], h)
           else do {
             (ret, out, h1) \<leftarrow> bio_read a has_buf n h;
             Some (ret, out, if ret > 0 then update_bio a (\<lambda>b. b\<lparr>num_read := size_add (num_read b) (nat ret)\<rparr>) h1 else h1)
           })
        })"

definition BIO_write :: "nat option \<Rightarrow> bytes option \<Rightarrow> int \<Rightarrow> heap \<Rightarrow> (int \<times> heap) option" where
  "BIO_write bio src n h =
     (case bio of
        None \<Rightarrow> Some (-2, h)
      | Some a \<Rightarrow> do {
          b \<leftarrow> h a;
          (if \<not> init b then Some (-2, h)
           else if n \<le> 0 then Some (0, h)
           else do {
             (ret, h1) \<leftarrow> bio_write a src n h;
             Some (ret, if ret > 0 then update_bio a (\<lambda>b. b\<lparr>num_write := size_add (num_write b) (nat ret)\<rparr>) h1 else h1)
           })
        })"

partial_function (option) BIO_write_all :: "nat option \<Rightarrow> bytes \<Rightarrow> heap \<Rightarrow> (bool \<times> heap) option" where
  "BIO_write_all bio src h =
     (if length src > 0 then do {
        (ret, h1) \<leftarrow> BIO_write bio (Some src) (if length src > 2 ^ 31 - 1 then 2 ^ 31 - 1 else int (length src)) h;
        (if ret \<le> 0 then Some (False, h1) else BIO_write_all bio (drop (nat ret) src) h1)
      }
      else Some (True, h))"

definition BIO_ctrl :: "nat option \<Rightarrow> bio_cmd \<Rightarrow> int \<Rightarrow> nat option \<Rightarrow> heap \<Rightarrow> (int \<times> heap) option" where
  "BIO_ctrl bio cmd larg parg h = (case bio of None \<Rightarrow> Some (0, h) | Some a \<Rightarrow> bio_ctrl a cmd larg parg h)"

definition BIO_ctrl_get_read_request :: "nat option \<Rightarrow> heap \<Rightarrow> (int \<times> heap) option" where
  "BIO_ctrl_get_read_request bio h = BIO_ctrl bio BIO_C_GET_READ_REQUEST 0 None h"

definition BIO_ctrl_get_write_guarantee :: "nat option \<Rightarrow> heap \<Rightarrow> (int \<times> heap) option" where
  "BIO_ctrl_get_write_guarantee bio h = BIO_ctrl bio BIO_C_GET_WRITE_GUARANTEE 0 None h"

definition BIO_shutdown_wr :: "nat option \<Rightarrow> heap \<Rightarrow> (int \<times> heap) option" where
  "BIO_shutdown_wr bio h = BIO_ctrl bio BIO_C_SHUTDOWN_WR 0 None h"

definition BIO_flush :: "nat option \<Rightarrow> heap \<Rightarrow> (int \<times> heap) option" where
  "BIO_flush bio h = BIO_ctrl bio BIO_CTRL_FLUSH 0 None h"

definition BIO_eof :: "nat option \<Rightarrow> heap \<Rightarrow> (int \<times> heap) option" where
  "BIO_eof bio h = BIO_ctrl bio BIO_CTRL_EOF 0 None h"

definition BIO_pending :: "nat option \<Rightarrow> heap \<Rightarrow> nat option" where
  "BIO_pending bio h = do {
     (r, _) \<leftarrow> BIO_ctrl bio BIO_CTRL_PENDING 0 None h;
     assert_that (r \<ge> 0);
     Some (nat r)
   }"

definition BIO_wpending :: "nat option \<Rightarrow> heap \<Rightarrow> nat option" where
  "BIO_wpending bio h = do {
     (r, _) \<leftarrow> BIO_ctrl bio BIO_CTRL_WPENDING 0 None h;
     assert_that (r \<ge> 0);
     Some (nat r)
   }"

section \<open>The ring buffer as a queue\<close>

text \<open>No allocation gives more than half of the address space, so an offset and a length add up.\<close>

definition ring_ok :: "bio \<Rightarrow> bool" where
  "ring_ok b \<longleftrightarrow> (\<exists>d. buf b = Some d \<and> length d = ring_size b) \<and> 0 < ring_size b \<and> ring_size b < 2 ^ 63 \<and>
     len b \<le> ring_size b \<and> offset b < ring_size b"

definition ring_nth :: "bio \<Rightarrow> nat \<Rightarrow> byte" where
  "ring_nth b i = the (buf b) ! ((offset b + i) mod ring_size b)"

definition content :: "bio \<Rightarrow> bytes" where
  "content b = map (ring_nth b) [0..<len b]"

lemma length_content [simp]: "length (content b) = len b"
  by (simp add: content_def)

lemma content_cong [simp]:
  "content (b\<lparr>request := x\<rparr>) = content b" "content (b\<lparr>flags := fs\<rparr>) = content b"
  "content (b\<lparr>retry_reason := i\<rparr>) = content b" "content (b\<lparr>closed := cl\<rparr>) = content b"
  "content (b\<lparr>num_read := n\<rparr>) = content b" "content (b\<lparr>num_write := n\<rparr>) = content b"
  "content (b\<lparr>shutdown := i\<rparr>) = content b" "content (b\<lparr>peer := q\<rparr>) = content b" "content (b\<lparr>init := v\<rparr>) = content b"
  by (simp_all add: content_def ring_nth_def)

lemma ring_ok_cong [simp]:
  "ring_ok (b\<lparr>request := x\<rparr>) = ring_ok b" "ring_ok (b\<lparr>flags := fs\<rparr>) = ring_ok b"
  "ring_ok (b\<lparr>retry_reason := i\<rparr>) = ring_ok b" "ring_ok (b\<lparr>closed := cl\<rparr>) = ring_ok b"
  "ring_ok (b\<lparr>num_read := n\<rparr>) = ring_ok b" "ring_ok (b\<lparr>num_write := n\<rparr>) = ring_ok b"
  "ring_ok (b\<lparr>shutdown := i\<rparr>) = ring_ok b" "ring_ok (b\<lparr>peer := q\<rparr>) = ring_ok b" "ring_ok (b\<lparr>init := v\<rparr>) = ring_ok b"
  by (simp_all add: ring_ok_def)

lemma assert_that_simps [simp]: "assert_that True = Some ()" "assert_that False = None"
  by (simp_all add: assert_that_def)

lemma mod_wrap: "o1 < s \<Longrightarrow> i \<le> s \<Longrightarrow> (o1 + i) mod s = (if o1 + i < s then o1 + i else o1 + i - s)" for o1 i s :: nat
  by (simp add: mod_if)

lemma two_halves: "(2 :: nat) ^ 64 = 2 ^ 63 + 2 ^ 63"
  by simp

text \<open>One chunk of a read: the bytes up to the end of the array, or all that is wanted.\<close>

lemma read_chunk:
  assumes "ring_ok pb" and "buf pb = Some d" and "chunk \<le> len pb" and "offset pb + chunk \<le> ring_size pb"
    and "pb' = pb\<lparr>len := len pb - chunk, offset := (if len pb - chunk = 0 \<or> offset pb + chunk = ring_size pb then 0
      else offset pb + chunk)\<rparr>"
  shows "take chunk (drop (offset pb) d) = take chunk (content pb)" and "content pb' = drop chunk (content pb)"
    and "ring_ok pb'"
proof -
  have ok: "length d = ring_size pb" "len pb \<le> ring_size pb" "offset pb < ring_size pb"
    using assms(1,2) by (auto simp: ring_ok_def)
  show "take chunk (drop (offset pb) d) = take chunk (content pb)"
  proof (rule nth_equalityI)
    fix i assume "i < length (take chunk (drop (offset pb) d))"
    then show "take chunk (drop (offset pb) d) ! i = take chunk (content pb) ! i"
      using ok assms(2-4) by (simp add: content_def ring_nth_def)
  qed (use ok assms(3,4) in simp)
  show "content pb' = drop chunk (content pb)"
  proof (rule nth_equalityI)
    fix i assume "i < length (content pb')"
    then have i: "i < len pb - chunk" by (simp add: assms(5))
    then have "(offset pb' + i) mod ring_size pb = (offset pb + (chunk + i)) mod ring_size pb"
      using ok assms(3,4) by (auto simp: assms(5) mod_wrap)
    then have "ring_nth pb' i = ring_nth pb (chunk + i)" by (simp add: ring_nth_def assms(5))
    then show "content pb' ! i = drop chunk (content pb) ! i" using i by (simp add: content_def assms(5))
  qed (simp add: assms(5))
  show "ring_ok pb'" using assms(1,3,4) by (auto simp: assms(5) ring_ok_def)
qed

lemma read_loop_spec:
  assumes "ring_ok pb" and "0 < rest" and "rest \<le> len pb"
  obtains n m where "read_loop pb rest out = Some (pb\<lparr>len := n, offset := m\<rparr>, out @ take rest (content pb))"
    and "ring_ok (pb\<lparr>len := n, offset := m\<rparr>)" and "content (pb\<lparr>len := n, offset := m\<rparr>) = drop rest (content pb)"
  using assms
proof (induction rest arbitrary: pb out thesis rule: less_induct)
  case (less rest)
  from less.prems(2) obtain d where d: "buf pb = Some d"
    and ok: "length d = ring_size pb" "ring_size pb < 2 ^ 63" "len pb \<le> ring_size pb" "offset pb < ring_size pb"
    by (auto simp: ring_ok_def)
  have add: "size_add (offset pb) k = offset pb + k" if "k \<le> ring_size pb" for k
    using that ok two_halves by (intro size_add_no_wrap) linarith
  define chunk where "chunk = (if offset pb + rest \<le> ring_size pb then rest else ring_size pb - offset pb)"
  have ch: "0 < chunk" "chunk \<le> rest" "offset pb + chunk \<le> ring_size pb" "chunk \<le> ring_size pb"
    using less.prems(3) ok by (auto simp: chunk_def)
  define m where "m = (if len pb - chunk = 0 \<or> offset pb + chunk = ring_size pb then 0 else offset pb + chunk)"
  let ?pb = "pb\<lparr>len := len pb - chunk, offset := m\<rparr>"
  have "chunk \<le> len pb" using ch less.prems(4) by simp
  note c = read_chunk [OF less.prems(2) d this ch(3) refl, folded m_def]
  have last: "len pb - chunk \<noteq> 0 \<or> chunk = rest" using ch less.prems(4) by auto
  have pb2: "(if len (pb\<lparr>len := len pb - chunk\<rparr>) \<noteq> 0 then pb\<lparr>len := len pb - chunk,
        offset := (if offset pb + chunk = ring_size pb then 0 else offset pb + chunk)\<rparr>
      else pb\<lparr>len := len pb - chunk, offset := 0\<rparr>) = ?pb"
    by (simp add: m_def)
  have step: "read_loop pb rest out = (if rest - chunk \<noteq> 0 then read_loop ?pb (rest - chunk) (out @ take chunk (content pb))
      else Some (?pb, out @ take chunk (content pb)))"
    using less.prems(4) last ok(3)
    by (subst read_loop.simps) (simp add: add ch d c(1) m_def Let_def flip: chunk_def)
  show ?case
  proof (cases "rest = chunk")
    case True
    then show thesis using step c less.prems(1) [of m "len pb - chunk"] by simp
  next
    case False
    with ch have r: "rest - chunk < rest" "0 < rest - chunk" "rest - chunk \<le> len ?pb" using less.prems(4) by auto
    obtain n' m' where IH: "read_loop ?pb (rest - chunk) (out @ take chunk (content pb)) =
        Some (?pb\<lparr>len := n', offset := m'\<rparr>, (out @ take chunk (content pb)) @ take (rest - chunk) (content ?pb))"
      "ring_ok (?pb\<lparr>len := n', offset := m'\<rparr>)" "content (?pb\<lparr>len := n', offset := m'\<rparr>) = drop (rest - chunk) (content ?pb)"
      by (rule less.IH [OF r(1) _ c(3) r(2,3)])
    have "take chunk (content pb) @ take (rest - chunk) (content ?pb) = take rest (content pb)"
      unfolding c(2) using ch(2) by (simp flip: take_add)
    moreover have "drop (rest - chunk) (content ?pb) = drop rest (content pb)" unfolding c(2) using ch(2) by simp
    ultimately show thesis using less.prems(1) [of m' n'] IH step r(2) by simp
  qed
qed

text \<open>One chunk of a write.\<close>

lemma write_chunk:
  assumes "ring_ok b" and "buf b = Some d" and "len b + length xs \<le> ring_size b"
    and "w = (if offset b + len b \<ge> ring_size b then offset b + len b - ring_size b else offset b + len b)"
    and "w + length xs \<le> ring_size b" and "b' = b\<lparr>buf := Some (write_at d w xs), len := len b + length xs\<rparr>"
  shows "content b' = content b @ xs" and "ring_ok b'"
proof -
  have ok: "length d = ring_size b" "len b \<le> ring_size b" "offset b < ring_size b"
    using assms(1,2) by (auto simp: ring_ok_def)
  show "content b' = content b @ xs"
  proof (rule nth_equalityI)
    fix i assume "i < length (content b')"
    then have i: "i < len b + length xs" by (simp add: assms(6))
    define j where "j = (offset b + i) mod ring_size b"
    have j: "j = (if offset b + i < ring_size b then offset b + i else offset b + i - ring_size b)" "j < ring_size b"
      using ok i assms(3) by (auto simp: j_def mod_wrap)
    have "write_at d w xs ! j = (if w \<le> j \<and> j < w + length xs then xs ! (j - w) else d ! j)"
      using assms(5) j(2) ok(1) by (intro nth_write_at) simp_all
    also have "\<dots> = (if i < len b then d ! j else xs ! (i - len b))"
      using i assms(3,4,5) ok(3) j(1) by auto
    finally show "content b' ! i = (content b @ xs) ! i"
      using i assms(2) by (simp add: content_def ring_nth_def assms(6) nth_append flip: j_def)
  qed (simp add: assms(6))
  show "ring_ok b'" using assms(1,3,5) ok by (auto simp: assms(6) ring_ok_def length_write_at)
qed

lemma write_loop_spec:
  assumes "ring_ok b" and "0 < rest" and "len b + rest \<le> ring_size b" and "rest \<le> length src"
  obtains n d where "write_loop b rest src = Some (b\<lparr>buf := Some d, len := n\<rparr>)"
    and "ring_ok (b\<lparr>buf := Some d, len := n\<rparr>)" and "content (b\<lparr>buf := Some d, len := n\<rparr>) = content b @ take rest src"
  using assms
proof (induction rest arbitrary: b src thesis rule: less_induct)
  case (less rest)
  from less.prems(2) obtain d where d: "buf b = Some d"
    and ok: "length d = ring_size b" "ring_size b < 2 ^ 63" "len b \<le> ring_size b" "offset b < ring_size b"
    by (auto simp: ring_ok_def)
  define w where "w = (if offset b + len b \<ge> ring_size b then offset b + len b - ring_size b else offset b + len b)"
  have w: "w < ring_size b" using ok by (auto simp: w_def)
  define chunk where "chunk = (if w + rest \<le> ring_size b then rest else ring_size b - w)"
  have ch: "0 < chunk" "chunk \<le> rest" "w + chunk \<le> ring_size b" using less.prems(3) w by (auto simp: chunk_def)
  have "len b + rest < 2 ^ 64" "offset b + len b < 2 ^ 64" "w + rest < 2 ^ 64" using ok w less.prems(4) two_halves by linarith+
  then have add: "size_add (len b) rest = len b + rest" "size_add (offset b) (len b) = offset b + len b"
    "size_add w rest = w + rest" by (auto intro: size_add_no_wrap)
  have len: "length (take chunk src) = chunk" using ch(2) less.prems(5) by simp
  let ?b = "b\<lparr>buf := Some (write_at d w (take chunk src)), len := len b + chunk\<rparr>"
  have "len b + length (take chunk src) \<le> ring_size b" "w + length (take chunk src) \<le> ring_size b"
    using ch less.prems(4) len by simp_all
  note c = write_chunk [OF less.prems(2) d this(1) w_def this(2) refl, unfolded len]
  have le: "len b + chunk \<le> ring_size b" using ch(2) less.prems(4) by simp
  have step: "write_loop b rest src =
      (if rest - chunk \<noteq> 0 then write_loop ?b (rest - chunk) (drop chunk src) else Some ?b)"
    using less.prems(4) le
    by (subst write_loop.simps, unfold Let_def add, fold w_def, unfold add, fold chunk_def) (simp add: d)
  show ?case
  proof (cases "rest = chunk")
    case True
    then show thesis using step c less.prems(1) [of "len b + chunk" "write_at d w (take chunk src)"] by simp
  next
    case False
    with ch have r: "rest - chunk < rest" "0 < rest - chunk" "len ?b + (rest - chunk) \<le> ring_size ?b"
      "rest - chunk \<le> length (drop chunk src)" using less.prems(4,5) by auto
    obtain n' d' where IH: "write_loop ?b (rest - chunk) (drop chunk src) = Some (?b\<lparr>buf := Some d', len := n'\<rparr>)"
      "ring_ok (?b\<lparr>buf := Some d', len := n'\<rparr>)"
      "content (?b\<lparr>buf := Some d', len := n'\<rparr>) = content ?b @ take (rest - chunk) (drop chunk src)"
      by (rule less.IH [OF r(1) _ c(2) r(2,3,4)])
    have "take chunk src @ take (rest - chunk) (drop chunk src) = take rest src"
      using ch(2) by (simp flip: take_add)
    then show thesis using less.prems(1) [of n' d'] IH step r(2) c(1) by simp
  qed
qed

section \<open>A pair\<close>

definition end_ok :: "heap \<Rightarrow> nat \<Rightarrow> nat \<Rightarrow> bool" where
  "end_ok h a p \<longleftrightarrow> (\<exists>b. h a = Some b \<and> peer b = Some p \<and> init b \<and> ring_ok b)"

definition pair_ok :: "heap \<Rightarrow> nat \<Rightarrow> nat \<Rightarrow> bool" where
  "pair_ok h a p \<longleftrightarrow> a \<noteq> p \<and> end_ok h a p \<and> end_ok h p a"

text \<open>What was written to an end and not yet read at the other.\<close>

definition in_flight :: "heap \<Rightarrow> nat \<Rightarrow> bytes" where
  "in_flight h a = content (the (h a))"

definition is_closed :: "heap \<Rightarrow> nat \<Rightarrow> bool" where
  "is_closed h a = closed (the (h a))"

definition room_left :: "heap \<Rightarrow> nat \<Rightarrow> nat" where
  "room_left h a = ring_size (the (h a)) - len (the (h a))"

lemma pair_ok_sym: "pair_ok h a p \<Longrightarrow> pair_ok h p a"
  by (auto simp: pair_ok_def)

lemma size_of_int_nonneg: "0 \<le> n \<Longrightarrow> n < 2 ^ 31 \<Longrightarrow> size_of_int n = nat n"
  by (simp add: size_of_int_def)

lemma int_of_size_small: "n < 2 ^ 31 \<Longrightarrow> int_of_size n = int n"
  by (simp add: int_of_size_def)

lemmas pair_defs = end_ok_def pair_ok_def in_flight_def is_closed_def room_left_def update_bio_def
  BIO_clear_retry_flags_def BIO_set_retry_read_def BIO_set_retry_write_def

text \<open>The result of a read: what it returns, the bytes it stores and what it leaves behind.\<close>

lemma bio_read_spec:
  assumes "pair_ok h a p" and "0 \<le> n" and "n < 2 ^ 31"
  obtains r out h' where "bio_read a has_buf n h = Some (r, out, h')" and "pair_ok h' a p"
    and "r = (if \<not> has_buf \<or> n = 0 then 0
              else if in_flight h p = [] then (if is_closed h p then 0 else -1)
              else min n (int (length (in_flight h p))))"
    and "out = take (nat r) (in_flight h p)" and "in_flight h' p = drop (nat r) (in_flight h p)"
    and "in_flight h' a = in_flight h a" and "is_closed h' = is_closed h"
proof -
  from assms(1) obtain b pb where b: "h a = Some b" "peer b = Some p" "init b" "ring_ok b"
    and pb: "h p = Some pb" "peer pb = Some a" "init pb" "ring_ok pb" and ne: "a \<noteq> p"
    by (auto simp: pair_ok_def end_ok_def)
  have buf: "buf pb \<noteq> None" using pb(4) by (auto simp: ring_ok_def)
  have fl: "in_flight h p = content pb" "is_closed h p = closed pb" using pb by (simp_all add: in_flight_def is_closed_def)
  define b1 where "b1 = BIO_clear_retry_flags b"
  define pb0 where "pb0 = pb\<lparr>request := 0\<rparr>"
  define h1 where "h1 = h(a \<mapsto> b1, p \<mapsto> pb0)"
  have start: "update_bio a BIO_clear_retry_flags h = h(a \<mapsto> b1)" by (simp add: update_bio_def b b1_def)
  have b1: "init b1" "peer b1 = Some p" "ring_ok b1" "content b1 = content b" "closed b1 = closed b"
    using b by (simp_all add: b1_def BIO_clear_retry_flags_def)
  have e: "bio_read a has_buf n h =
      (if \<not> has_buf \<or> n = 0 then Some (0, [], h1)
       else if len pb = 0 then
         (if closed pb then Some (0, [], h1)
          else Some (-1, [], update_bio p (\<lambda>x. x\<lparr>request := (if nat n \<le> ring_size x then nat n else ring_size x)\<rparr>)
                 (update_bio a BIO_set_retry_read h1)))
       else do { (pb', out) \<leftarrow> read_loop pb0 (if len pb < nat n then len pb else nat n) [];
                 Some (int_of_size (if len pb < nat n then len pb else nat n), out, h1(p \<mapsto> pb')) })"
    using b1 pb buf ne assms(2,3)
    by (simp add: bio_read_def start size_of_int_nonneg h1_def pb0_def Let_def)
  consider "\<not> has_buf \<or> n = 0 \<or> (len pb = 0 \<and> closed pb)" | "has_buf" "n \<noteq> 0" "len pb = 0" "\<not> closed pb"
    | "has_buf" "n \<noteq> 0" "len pb \<noteq> 0" by blast
  then show thesis
  proof cases
    case 1
    have "content pb = []" if "len pb = 0" using that by (simp add: content_def)
    then show thesis using that [of 0 "[]" h1] 1 e ne b1 pb b fl
      by (auto simp: pair_ok_def end_ok_def in_flight_def is_closed_def h1_def pb0_def fun_eq_iff)
  next
    case 2
    then have z: "content pb = []" by (simp add: content_def)
    let ?h = "update_bio p (\<lambda>x. x\<lparr>request := (if nat n \<le> ring_size x then nat n else ring_size x)\<rparr>)
                 (update_bio a BIO_set_retry_read h1)"
    have "bio_read a has_buf n h = Some (-1, [], ?h)" using e 2 by simp
    then show thesis using that [of "-1" "[]" ?h] 2 z ne b1 pb b fl
      by (auto simp: pair_ok_def end_ok_def in_flight_def is_closed_def h1_def pb0_def fun_eq_iff update_bio_def
          BIO_set_retry_read_def)
  next
    case 3
    define m where "m = (if len pb < nat n then len pb else nat n)"
    have m: "0 < m" "m \<le> len pb0" "m < 2 ^ 31" "int m = min n (int (len pb))"
      using 3 assms(2,3) by (auto simp: m_def pb0_def)
    have "ring_ok pb0" using pb by (simp add: pb0_def)
    then obtain k off where
      l: "read_loop pb0 m [] = Some (pb0\<lparr>len := k, offset := off\<rparr>, take m (content pb0))"
        "ring_ok (pb0\<lparr>len := k, offset := off\<rparr>)" "content (pb0\<lparr>len := k, offset := off\<rparr>) = drop m (content pb0)"
      by (rule read_loop_spec [OF _ m(1,2), of "[]", unfolded append_Nil])
    let ?h = "h1(p \<mapsto> pb0\<lparr>len := k, offset := off\<rparr>)"
    have "bio_read a has_buf n h = Some (int m, take m (content pb0), ?h)"
      using e 3 m(3) l(1) by (simp add: int_of_size_small flip: m_def)
    moreover have "content pb \<noteq> []" using 3 by (simp add: content_def)
    moreover have "nat (int m) = m" "content pb0 = content pb" by (simp_all add: pb0_def)
    moreover have "is_closed ?h = is_closed h"
      using b b1 pb by (auto simp: is_closed_def h1_def pb0_def fun_eq_iff)
    moreover have "pair_ok ?h a p" "in_flight ?h p = drop m (content pb0)" "in_flight ?h a = in_flight h a"
      using l ne b1 pb b by (auto simp: pair_ok_def end_ok_def in_flight_def h1_def pb0_def)
    ultimately show thesis using that [of "int m" "take m (content pb0)" ?h] 3(1,2) m(4) fl by simp
  qed
qed

lemma bio_write_spec:
  assumes "pair_ok h a p" and "k \<le> length src" and "k < 2 ^ 31"
  obtains r h' where "bio_write a (Some src) (int k) h = Some (r, h')" and "pair_ok h' a p"
    and "r = (if k = 0 then 0 else if is_closed h a \<or> room_left h a = 0 then -1
              else int (min k (room_left h a)))"
    and "in_flight h' a = in_flight h a @ take (nat r) src"
    and "in_flight h' p = in_flight h p" and "is_closed h' = is_closed h"
    and "ring_size (the (h' a)) = ring_size (the (h a))"
proof -
  from assms(1) obtain b pb where b: "h a = Some b" "peer b = Some p" "init b" "ring_ok b"
    and pb: "h p = Some pb" "peer pb = Some a" "init pb" "ring_ok pb" and ne: "a \<noteq> p"
    by (auto simp: pair_ok_def end_ok_def)
  have fl: "in_flight h a = content b" "is_closed h a = closed b" "room_left h a = ring_size b - len b"
    using b by (simp_all add: in_flight_def is_closed_def room_left_def)
  define b1 where "b1 = (BIO_clear_retry_flags b)\<lparr>request := 0\<rparr>"
  have start: "update_bio a BIO_clear_retry_flags h = h(a \<mapsto> BIO_clear_retry_flags b)" by (simp add: update_bio_def b)
  have b1: "init b1" "peer b1 = Some p" "ring_ok b1" "content b1 = content b" "closed b1 = closed b"
    "len b1 = len b" "ring_size b1 = ring_size b"
    using b by (simp_all add: b1_def BIO_clear_retry_flags_def)
  have le: "len b \<le> ring_size b" and buf: "buf (BIO_clear_retry_flags b) \<noteq> None"
    using b(4) by (auto simp: ring_ok_def BIO_clear_retry_flags_def)
  have sz: "size_of_int (int k) = k" using assms(3) by (simp add: size_of_int_nonneg)
  have e: "bio_write a (Some src) (int k) h =
      (if k = 0 then Some (0, h(a \<mapsto> BIO_clear_retry_flags b))
       else if closed b then Some (-1, h(a \<mapsto> b1))
       else if len b = ring_size b then Some (-1, h(a \<mapsto> BIO_set_retry_write b1))
       else do { b' \<leftarrow> write_loop b1 (min k (ring_size b - len b)) src;
                 Some (int_of_size (min k (ring_size b - len b)), h(a \<mapsto> b')) })"
    using b le buf sz
    by (simp add: bio_write_def start Let_def min_def not_le flip: b1_def)
       (simp add: b1_def BIO_clear_retry_flags_def)
  consider "k = 0" | "k \<noteq> 0" "closed b" | "k \<noteq> 0" "\<not> closed b" "len b = ring_size b"
    | "k \<noteq> 0" "\<not> closed b" "len b \<noteq> ring_size b" by blast
  then show thesis
  proof cases
    case 1
    then show thesis using that [of 0 "h(a \<mapsto> BIO_clear_retry_flags b)"] e ne pb b fl
      by (auto simp: pair_ok_def end_ok_def in_flight_def is_closed_def BIO_clear_retry_flags_def fun_eq_iff)
  next
    case 2
    then show thesis using that [of "-1" "h(a \<mapsto> b1)"] e ne pb b b1 fl
      by (auto simp: pair_ok_def end_ok_def in_flight_def is_closed_def fun_eq_iff)
  next
    case 3
    then show thesis using that [of "-1" "h(a \<mapsto> BIO_set_retry_write b1)"] e ne pb b b1 fl
      by (auto simp: pair_ok_def end_ok_def in_flight_def is_closed_def fun_eq_iff BIO_set_retry_write_def)
  next
    case 4
    define m where "m = min k (ring_size b - len b)"
    have m: "0 < m" "len b1 + m \<le> ring_size b1" "m \<le> length src" "m < 2 ^ 31"
      using 4 le assms(2,3) b1 by (auto simp: m_def)
    from write_loop_spec [OF b1(3) m(1-3)] obtain n d where
      l: "write_loop b1 m src = Some (b1\<lparr>buf := Some d, len := n\<rparr>)" "ring_ok (b1\<lparr>buf := Some d, len := n\<rparr>)"
        "content (b1\<lparr>buf := Some d, len := n\<rparr>) = content b1 @ take m src" by blast
    let ?h = "h(a \<mapsto> b1\<lparr>buf := Some d, len := n\<rparr>)"
    have "bio_write a (Some src) (int k) h = Some (int m, ?h)"
      using e 4 m(4) l(1) by (simp add: int_of_size_small flip: m_def)
    then show thesis using that [of "int m" ?h] 4 le l ne pb b b1 fl
      by (auto simp: pair_ok_def end_ok_def in_flight_def is_closed_def fun_eq_iff m_def)
  qed
qed

text \<open>The calls of \<^verbatim>\<open>bio.c\<close> add the checks on the argument and the counters.\<close>

lemma pair_counters [simp]:
  "pair_ok (update_bio e (\<lambda>b. b\<lparr>num_read := f b\<rparr>) h) a p = pair_ok h a p"
  "pair_ok (update_bio e (\<lambda>b. b\<lparr>num_write := f b\<rparr>) h) a p = pair_ok h a p"
  "h e \<noteq> None \<Longrightarrow> in_flight (update_bio e (\<lambda>b. b\<lparr>num_read := f b\<rparr>) h) x = in_flight h x"
  "h e \<noteq> None \<Longrightarrow> in_flight (update_bio e (\<lambda>b. b\<lparr>num_write := f b\<rparr>) h) x = in_flight h x"
  "h e \<noteq> None \<Longrightarrow> is_closed (update_bio e (\<lambda>b. b\<lparr>num_read := f b\<rparr>) h) = is_closed h"
  "h e \<noteq> None \<Longrightarrow> is_closed (update_bio e (\<lambda>b. b\<lparr>num_write := f b\<rparr>) h) = is_closed h"
  "h e \<noteq> None \<Longrightarrow> ring_size (the (update_bio e (\<lambda>b. b\<lparr>num_write := f b\<rparr>) h x)) = ring_size (the (h x))"
  by (auto simp: pair_ok_def end_ok_def in_flight_def is_closed_def update_bio_def fun_eq_iff)

definition read_result :: "bool \<Rightarrow> int \<Rightarrow> bytes \<Rightarrow> bool \<Rightarrow> int" where
  "read_result has_buf n data cl =
     (if n \<le> 0 \<or> \<not> has_buf then 0 else if data = [] then (if cl then 0 else -1) else min n (int (length data)))"

definition write_result :: "nat \<Rightarrow> bool \<Rightarrow> nat \<Rightarrow> int" where
  "write_result k cl room = (if k = 0 then 0 else if cl \<or> room = 0 then -1 else int (min k room))"

lemma pair_ok_init: "pair_ok h a p \<Longrightarrow> \<exists>b. h a = Some b \<and> init b"
  by (auto simp: pair_ok_def end_ok_def)

lemma BIO_read_spec:
  assumes "pair_ok h a p" and "n < 2 ^ 31"
  obtains r out h' where "BIO_read (Some a) has_buf n h = Some (r, out, h')" and "pair_ok h' a p"
    and "r = read_result has_buf n (in_flight h p) (is_closed h p)"
    and "out = take (nat r) (in_flight h p)" and "in_flight h' p = drop (nat r) (in_flight h p)"
    and "in_flight h' a = in_flight h a" and "is_closed h' = is_closed h"
proof -
  obtain b where b: "h a = Some b" "init b" using pair_ok_init [OF assms(1)] by blast
  show thesis
  proof (cases "n \<le> 0")
    case True
    then have "BIO_read (Some a) has_buf n h = Some (0, [], h)" using b by (simp add: BIO_read_def)
    then show thesis by (rule that) (use True assms(1) in \<open>simp_all add: read_result_def\<close>)
  next
    case False
    then have "0 \<le> n" by simp
    obtain r out h' where r: "bio_read a has_buf n h = Some (r, out, h')" "pair_ok h' a p"
      "r = (if \<not> has_buf \<or> n = 0 then 0
              else if in_flight h p = [] then (if is_closed h p then 0 else -1)
              else min n (int (length (in_flight h p))))"
      "out = take (nat r) (in_flight h p)" "in_flight h' p = drop (nat r) (in_flight h p)"
      "in_flight h' a = in_flight h a" "is_closed h' = is_closed h"
      by (rule bio_read_spec [OF assms(1) \<open>0 \<le> n\<close> assms(2), of has_buf])
    have "h' a \<noteq> None" using r(2) by (auto simp: pair_ok_def end_ok_def)
    moreover have "BIO_read (Some a) has_buf n h = Some (r, out,
        if r > 0 then update_bio a (\<lambda>b. b\<lparr>num_read := size_add (num_read b) (nat r)\<rparr>) h' else h')"
      using False b r(1) by (simp add: BIO_read_def)
    ultimately show thesis using r(2-) False
      by (intro that [of r out "if r > 0 then update_bio a (\<lambda>b. b\<lparr>num_read := size_add (num_read b) (nat r)\<rparr>) h' else h'"])
        (simp_all add: read_result_def)
  qed
qed

lemma BIO_write_spec:
  assumes "pair_ok h a p" and "k \<le> length src" and "k < 2 ^ 31"
  obtains r h' where "BIO_write (Some a) (Some src) (int k) h = Some (r, h')" and "pair_ok h' a p"
    and "r = write_result k (is_closed h a) (room_left h a)"
    and "in_flight h' a = in_flight h a @ take (nat r) src"
    and "in_flight h' p = in_flight h p" and "is_closed h' = is_closed h"
    and "ring_size (the (h' a)) = ring_size (the (h a))"
proof -
  obtain b where b: "h a = Some b" "init b" using pair_ok_init [OF assms(1)] by blast
  show thesis
  proof (cases "k = 0")
    case True
    then have "BIO_write (Some a) (Some src) (int k) h = Some (0, h)" using b by (simp add: BIO_write_def)
    then show thesis by (rule that) (use True assms(1) in \<open>simp_all add: write_result_def\<close>)
  next
    case False
    obtain r h' where r: "bio_write a (Some src) (int k) h = Some (r, h')" "pair_ok h' a p"
      "r = (if k = 0 then 0 else if is_closed h a \<or> room_left h a = 0 then -1 else int (min k (room_left h a)))"
      "in_flight h' a = in_flight h a @ take (nat r) src" "in_flight h' p = in_flight h p" "is_closed h' = is_closed h"
      "ring_size (the (h' a)) = ring_size (the (h a))"
      by (rule bio_write_spec [OF assms])
    have "h' a \<noteq> None" using r(2) by (auto simp: pair_ok_def end_ok_def)
    moreover have "BIO_write (Some a) (Some src) (int k) h = Some (r,
        if r > 0 then update_bio a (\<lambda>b. b\<lparr>num_write := size_add (num_write b) (nat r)\<rparr>) h' else h')"
      using False b r(1) by (simp add: BIO_write_def)
    ultimately show thesis using r(2-) False
      by (intro that [of r "if r > 0 then update_bio a (\<lambda>b. b\<lparr>num_write := size_add (num_write b) (nat r)\<rparr>) h' else h'"])
        (simp_all add: write_result_def)
  qed
qed

lemma bio_ctrl_spec:
  assumes "pair_ok h a p" and "ptr \<in> {None, Some a, Some p}"
  obtains r h' where "BIO_ctrl (Some a) cmd num ptr h = Some (r, h')" and "pair_ok h' a p"
    and "in_flight h' = in_flight h"
proof -
  from assms(1) obtain b pb where b: "h a = Some b" "peer b = Some p" "h p = Some pb" "a \<noteq> p"
    by (auto simp: pair_ok_def end_ok_def)
  have ch: "pair_ok (h(a \<mapsto> b')) a p" "in_flight (h(a \<mapsto> b')) = in_flight h"
    if "b' = b\<lparr>request := 0\<rparr> \<or> b' = b\<lparr>closed := True\<rparr> \<or> (\<exists>s. b' = b\<lparr>shutdown := s\<rparr>)" for b'
    using that assms(1) b by (auto simp: pair_ok_def end_ok_def in_flight_def fun_eq_iff)
  have "\<exists>r h'. BIO_ctrl (Some a) cmd num ptr h = Some (r, h') \<and> (h' = h \<or>
      (\<exists>b'. h' = h(a \<mapsto> b') \<and> (b' = b\<lparr>request := 0\<rparr> \<or> b' = b\<lparr>closed := True\<rparr> \<or> (\<exists>s. b' = b\<lparr>shutdown := s\<rparr>))))"
    using assms(2) b by (cases cmd) (auto simp: BIO_ctrl_def bio_ctrl_def)
  then obtain r h' where "BIO_ctrl (Some a) cmd num ptr h = Some (r, h')"
    and "h' = h \<or> (\<exists>b'. h' = h(a \<mapsto> b') \<and> (b' = b\<lparr>request := 0\<rparr> \<or> b' = b\<lparr>closed := True\<rparr> \<or> (\<exists>s. b' = b\<lparr>shutdown := s\<rparr>)))"
    by blast
  with ch assms(1) show thesis by (metis that)
qed

section \<open>Making a pair\<close>

lemma failed_pair [simp]:
  "do { (_, h4) \<leftarrow> x; (_, h5) \<leftarrow> f h4; Some (None, h5) } \<noteq> Some (Some ap, h')"
  by (auto simp: Option.bind_eq_Some_conv)

text \<open>An end as \<^verbatim>\<open>BIO_new\<close> leaves it, and as pairing leaves it.\<close>

definition new_bio :: bio where
  "new_bio = \<lparr>init = False, shutdown = 1, flags = 0, retry_reason = 0, references = 1, num_read = 0, num_write = 0,
     peer = None, closed = False, len = 0, offset = 0, ring_size = 17 * 1024, buf = None, request = 0\<rparr>"

definition default_size :: "nat \<Rightarrow> nat" where
  "default_size s = (if s = 0 then 17 * 1024 else s)"

lemma BIO_new_eq: "BIO_new ok a h = (if ok then (Some a, h(a \<mapsto> new_bio)) else (None, h))"
  by (simp add: BIO_new_def bio_new_def new_bio_def)

lemma bio_get_buf_new:
  "bio_get_buf alloc fresh s new_bio =
     (if alloc (default_size s) then (True, new_bio\<lparr>ring_size := default_size s, buf := Some (replicate (default_size s) fresh)\<rparr>)
      else (False, new_bio\<lparr>ring_size := default_size s\<rparr>))"
  by (simp add: bio_get_buf_def new_bio_def default_size_def)

definition paired :: "byte \<Rightarrow> nat \<Rightarrow> nat \<Rightarrow> bio" where
  "paired fresh s p = new_bio\<lparr>ring_size := default_size s, buf := Some (replicate (default_size s) fresh), peer := Some p, init := True\<rparr>"

lemma BIO_new_bio_pair_Some:
  assumes "BIO_new_bio_pair alloc fresh ok1 a s1 ok2 p s2 h = Some (Some ap, h')" and "a \<noteq> p"
  shows "ap = (a, p) \<and> alloc (default_size s1) \<and> alloc (default_size s2) \<and>
    h' = h(a \<mapsto> paired fresh s1 p, p \<mapsto> paired fresh s2 a)"
proof -
  have ok: "ok1" "ok2"
    using assms(1) by (auto simp: BIO_new_bio_pair_def BIO_new_eq split: if_splits)
  have np: "peer new_bio = None" by (simp add: new_bio_def)
  have pair: "bio_make_pair alloc fresh a p s1 s2 (h(a \<mapsto> new_bio, p \<mapsto> new_bio)) =
    (if \<not> alloc (default_size s1) then Some (False, (h(a \<mapsto> new_bio, p \<mapsto> new_bio))(a \<mapsto> new_bio\<lparr>ring_size := default_size s1\<rparr>))
     else if \<not> alloc (default_size s2) then Some (False, ((h(a \<mapsto> new_bio, p \<mapsto> new_bio))(a \<mapsto>
       new_bio\<lparr>ring_size := default_size s1, buf := Some (replicate (default_size s1) fresh)\<rparr>))(p \<mapsto> new_bio\<lparr>ring_size := default_size s2\<rparr>))
     else Some (True, h(a \<mapsto> paired fresh s1 p, p \<mapsto> paired fresh s2 a)))"
    using assms(2)
    by (simp add: bio_make_pair_def np bio_get_buf_new Let_def update_bio_def)
      (auto simp: paired_def new_bio_def fun_eq_iff)
  show ?thesis
  proof (cases "alloc (default_size s1) \<and> alloc (default_size s2)")
    case True
    with assms(1) ok show ?thesis by (auto simp: BIO_new_bio_pair_def BIO_new_eq pair)
  next
    case False
    with assms(1) ok show ?thesis by (auto simp: BIO_new_bio_pair_def BIO_new_eq pair split: if_splits)
  qed
qed

lemma BIO_new_bio_pair_ok:
  assumes "BIO_new_bio_pair alloc fresh ok1 a s1 ok2 p s2 h = Some (Some ap, h')" and "a \<noteq> p"
    and "\<forall>n. alloc n \<longrightarrow> n < 2 ^ 63"
  shows "pair_ok h' a p" and "in_flight h' a = []" and "in_flight h' p = []"
proof -
  note s = BIO_new_bio_pair_Some [OF assms(1,2)]
  then have lt: "default_size s1 < 2 ^ 63" "default_size s2 < 2 ^ 63" using assms(3) by blast+
  have pos: "0 < default_size k" for k by (simp add: default_size_def)
  have ok: "ring_ok (paired fresh k q)" if "default_size k < 2 ^ 63" for k q
    using that pos by (simp add: ring_ok_def paired_def new_bio_def)
  have e: "content (paired fresh k q) = []" "peer (paired fresh k q) = Some q" "init (paired fresh k q)" for k q
    by (simp_all add: content_def paired_def new_bio_def)
  show "pair_ok h' a p" "in_flight h' a = []" "in_flight h' p = []"
    using s ok [OF lt(1)] ok [OF lt(2)] assms(2) by (auto simp: pair_ok_def end_ok_def in_flight_def e)
qed

section \<open>Runs\<close>

datatype pair_event = Sent nat bytes | Got nat bytes

fun sent :: "nat \<Rightarrow> pair_event list \<Rightarrow> bytes" where
  "sent e [] = []"
| "sent e (Sent x bs # es) = (if x = e then bs else []) @ sent e es"
| "sent e (Got x bs # es) = sent e es"

fun got :: "nat \<Rightarrow> pair_event list \<Rightarrow> bytes" where
  "got e [] = []"
| "got e (Got x bs # es) = (if x = e then bs else []) @ got e es"
| "got e (Sent x bs # es) = got e es"

text \<open>
  Any interleaving of reads, writes and control calls on the two ends, with the bytes that each
  write accepted and each read delivered.
\<close>

inductive pair_run :: "nat \<Rightarrow> nat \<Rightarrow> heap \<Rightarrow> pair_event list \<Rightarrow> heap \<Rightarrow> bool" for a p h0 where
  start: "pair_run a p h0 [] h0"
| rd: "pair_run a p h0 es h \<Longrightarrow> e \<in> {a, p} \<Longrightarrow> n < 2 ^ 31 \<Longrightarrow>
    BIO_read (Some e) has_buf n h = Some (r, out, h') \<Longrightarrow> pair_run a p h0 (es @ [Got e out]) h'"
| wr: "pair_run a p h0 es h \<Longrightarrow> e \<in> {a, p} \<Longrightarrow> k \<le> length src \<Longrightarrow> k < 2 ^ 31 \<Longrightarrow>
    BIO_write (Some e) (Some src) (int k) h = Some (r, h') \<Longrightarrow> pair_run a p h0 (es @ [Sent e (take (nat r) src)]) h'"
| control: "pair_run a p h0 es h \<Longrightarrow> e \<in> {a, p} \<Longrightarrow> ptr \<in> {None, Some a, Some p} \<Longrightarrow>
    BIO_ctrl (Some e) cmd num ptr h = Some (r, h') \<Longrightarrow> pair_run a p h0 es h'"

lemma sent_append: "sent e (es @ fs) = sent e es @ sent e fs"
  by (induction e es rule: sent.induct) auto

lemma got_append: "got e (es @ fs) = got e es @ got e fs"
  by (induction e es rule: got.induct) auto

definition fifo :: "nat \<Rightarrow> nat \<Rightarrow> pair_event list \<Rightarrow> heap \<Rightarrow> bool" where
  "fifo a p es h \<longleftrightarrow> sent a es = got p es @ in_flight h a \<and> sent p es = got a es @ in_flight h p"

lemma fifo_sym: "fifo a p es h = fifo p a es h"
  by (auto simp: fifo_def)

lemma read_fifo:
  assumes "pair_ok h a p" and "fifo a p es h" and "n < 2 ^ 31" and "BIO_read (Some a) has_buf n h = Some (r, out, h')"
  shows "pair_ok h' a p \<and> fifo a p (es @ [Got a out]) h'"
proof (rule BIO_read_spec [OF assms(1,3), of has_buf])
  fix r1 o1 h1 assume "BIO_read (Some a) has_buf n h = Some (r1, o1, h1)" and s: "pair_ok h1 a p"
    "o1 = take (nat r1) (in_flight h p)" "in_flight h1 p = drop (nat r1) (in_flight h p)" "in_flight h1 a = in_flight h a"
  with assms(4) have e: "out = take (nat r1) (in_flight h p)" "h' = h1" by auto
  have "a \<noteq> p" using assms(1) by (simp add: pair_ok_def)
  then show ?thesis unfolding e using s(1,3,4) assms(2) by (simp add: fifo_def sent_append got_append)
qed

lemma write_fifo:
  assumes "pair_ok h a p" and "fifo a p es h" and "k \<le> length src" and "k < 2 ^ 31"
    and "BIO_write (Some a) (Some src) (int k) h = Some (r, h')"
  shows "pair_ok h' a p \<and> fifo a p (es @ [Sent a (take (nat r) src)]) h'"
proof (rule BIO_write_spec [OF assms(1,3,4)])
  fix r1 h1 assume "BIO_write (Some a) (Some src) (int k) h = Some (r1, h1)" and s: "pair_ok h1 a p"
    "in_flight h1 a = in_flight h a @ take (nat r1) src" "in_flight h1 p = in_flight h p"
  with assms(5) have e: "r = r1" "h' = h1" by simp_all
  have "a \<noteq> p" using assms(1) by (simp add: pair_ok_def)
  then show ?thesis unfolding e using s assms(2) by (simp add: fifo_def sent_append got_append)
qed

lemma ctrl_fifo:
  assumes "pair_ok h a p" and "fifo a p es h" and "ptr \<in> {None, Some a, Some p}"
    and "BIO_ctrl (Some a) cmd num ptr h = Some (r, h')"
  shows "pair_ok h' a p \<and> fifo a p es h'"
  by (rule bio_ctrl_spec [OF assms(1,3), of cmd num]) (use assms in \<open>auto simp: fifo_def\<close>)

lemma pair_run_inv:
  assumes "pair_run a p h0 es h" and "pair_ok h0 a p" and "in_flight h0 a = []" and "in_flight h0 p = []"
  shows "pair_ok h a p \<and> fifo a p es h"
  using assms(1)
proof (induction rule: pair_run.induct)
  case start
  then show ?case using assms(2-4) by (simp add: fifo_def)
next
  case (rd es h e n has_buf r out h')
  then show ?case using read_fifo fifo_sym pair_ok_sym by (metis empty_iff insert_iff)
next
  case (wr es h e k src r h')
  then show ?case using write_fifo fifo_sym pair_ok_sym by (metis empty_iff insert_iff)
next
  case (control es h e ptr cmd num r h')
  then have "ptr \<in> {None, Some p, Some a}" by auto
  with control show ?case using ctrl_fifo [of h a p] ctrl_fifo [of h p a] fifo_sym pair_ok_sym by (metis empty_iff insert_iff)
qed

text \<open>Writing everything, in as many calls as it takes.\<close>

lemma room_left_eq: "room_left h a = ring_size (the (h a)) - length (in_flight h a)"
  by (simp add: room_left_def in_flight_def)

definition write_all_ok :: "bytes \<Rightarrow> bool \<Rightarrow> nat \<Rightarrow> bool" where
  "write_all_ok src cl room \<longleftrightarrow> src = [] \<or> \<not> cl \<and> length src \<le> room"

lemma BIO_write_all_spec:
  assumes "pair_ok h a p"
  shows "\<exists>h'. BIO_write_all (Some a) src h = Some (write_all_ok src (is_closed h a) (room_left h a), h') \<and>
    in_flight h' a = in_flight h a @ (if is_closed h a then [] else take (room_left h a) src) \<and>
    in_flight h' p = in_flight h p"
  using assms
proof (induction "length src" arbitrary: src h rule: less_induct)
  case less
  show ?case
  proof (cases "src = []")
    case True
    then show ?thesis by (subst BIO_write_all.simps) (simp add: write_all_ok_def)
  next
    case False
    define k where "k = (if length src > 2 ^ 31 - 1 then 2 ^ 31 - 1 else length src)"
    have k: "k \<le> length src" "k < 2 ^ 31" "k \<noteq> 0" using False by (auto simp: k_def)
    have ki: "(if length src > 2 ^ 31 - 1 then 2 ^ 31 - 1 else int (length src)) = int k" by (simp add: k_def)
    obtain r h1 where w: "BIO_write (Some a) (Some src) (int k) h = Some (r, h1)" "pair_ok h1 a p"
      "r = write_result k (is_closed h a) (room_left h a)"
      "in_flight h1 a = in_flight h a @ take (nat r) src" "in_flight h1 p = in_flight h p" "is_closed h1 = is_closed h"
      "ring_size (the (h1 a)) = ring_size (the (h a))"
      by (rule BIO_write_spec [OF less.prems k(1,2)])
    have step: "BIO_write_all (Some a) src h =
        (if r \<le> 0 then Some (False, h1) else BIO_write_all (Some a) (drop (nat r) src) h1)"
      using False w(1) by (subst BIO_write_all.simps, unfold ki) simp
    show ?thesis
    proof (cases "is_closed h a \<or> room_left h a = 0")
      case True
      with k(3) w(3) have "r = -1" by (simp add: write_result_def)
      with True step w False show ?thesis by (auto simp: write_all_ok_def)
    next
      case op: False
      then have r: "r = int (min k (room_left h a))" "0 < min k (room_left h a)" using k(3) w(3) by (auto simp: write_result_def)
      let ?m = "min k (room_left h a)"
      have room: "room_left h1 a = room_left h a - ?m"
        unfolding room_left_eq w(4,7) using k(1) r by (simp add: room_left_eq)
      have "length (drop ?m src) < length src" using r(2) False by simp
      from less.hyps [OF this w(2)] obtain h' where h':
        "BIO_write_all (Some a) (drop ?m src) h1 = Some (write_all_ok (drop ?m src) (is_closed h1 a) (room_left h1 a), h')"
        "in_flight h' a = in_flight h1 a @ (if is_closed h1 a then [] else take (room_left h1 a) (drop ?m src))"
        "in_flight h' p = in_flight h1 p" by blast
      have "take ?m src @ take (room_left h a - ?m) (drop ?m src) = take (?m + (room_left h a - ?m)) src"
        by (rule take_add [symmetric])
      then have t: "take ?m src @ take (room_left h a - ?m) (drop ?m src) = take (room_left h a) src" by simp
      have "write_all_ok (drop ?m src) (is_closed h1 a) (room_left h1 a) = write_all_ok src (is_closed h a) (room_left h a)"
        using op False k(1) unfolding room w(6) write_all_ok_def by auto
      with h' step r t w(4,5,6) op room show ?thesis by simp
    qed
  qed
qed

section \<open>An example\<close>

text \<open>Two buffers of four bytes; three bytes are written to the first end and two of them read.\<close>

definition example_heap :: heap where
  "example_heap = [1 \<mapsto> paired 0 4 2, 2 \<mapsto> paired 0 4 1]"

lemma example_pair:
  "BIO_new_bio_pair (\<lambda>n. n \<le> 100000) 0 True 1 4 True 2 4 (\<lambda>_. None) = Some (Some (1, 2), example_heap)"
  by (simp add: BIO_new_bio_pair_def BIO_new_eq bio_make_pair_def new_bio_def bio_get_buf_def Let_def update_bio_def
      example_heap_def paired_def default_size_def fun_eq_iff)

lemma small_alloc: "\<forall>n. n \<le> 100000 \<longrightarrow> n < (2 :: nat) ^ 63"
  by auto

lemma example_run:
  "\<exists>h. pair_run 1 2 example_heap [Sent 1 [1, 2, 3], Got 2 [1, 2]] h"
proof -
  note ok = BIO_new_bio_pair_ok [OF example_pair _ small_alloc]
  have pair: "pair_ok example_heap 1 2" and none: "in_flight example_heap 1 = []" using ok by simp_all
  have st: "\<not> is_closed example_heap 1" "room_left example_heap 1 = 4"
    by (simp_all add: is_closed_def room_left_def example_heap_def paired_def new_bio_def default_size_def)
  obtain r h1 where w: "BIO_write (Some 1) (Some [1, 2, 3]) (int 3) example_heap = Some (r, h1)" "pair_ok h1 1 2"
    "r = write_result 3 (is_closed example_heap 1) (room_left example_heap 1)"
    "in_flight h1 1 = in_flight example_heap 1 @ take (nat r) [1, 2, 3]"
    by (rule BIO_write_spec [OF pair, of 3 "[1, 2, 3]"]) simp_all
  have r: "nat r = 3" using w(3) st by (simp add: write_result_def)
  have fl: "in_flight h1 1 = [1, 2, 3]" using w(4) r none by simp
  obtain r2 out h2 where rd: "BIO_read (Some 2) True 2 h1 = Some (r2, out, h2)"
    "r2 = read_result True 2 (in_flight h1 1) (is_closed h1 1)" "out = take (nat r2) (in_flight h1 1)"
    by (rule BIO_read_spec [OF pair_ok_sym [OF w(2)], of 2 True]) simp_all
  have out: "out = [1, 2]" using rd(2,3) fl by (simp add: read_result_def)
  have "pair_run 1 2 example_heap ([] @ [Sent 1 (take (nat r) [1, 2, 3])]) h1"
    by (rule pair_run.wr [OF pair_run.start _ _ _ w(1)]) simp_all
  then have "pair_run 1 2 example_heap [Sent 1 [1, 2, 3]] h1" using r by simp
  from pair_run.rd [OF this _ _ rd(1)] out show ?thesis by auto
qed

section \<open>Properties\<close>

text \<open>
  C25. A BIO pair is two queues: after any interleaving of reads, writes and control calls on the two
  ends of a new pair, what was accepted by the writes to one end is, byte for byte and in order, what
  the reads from the other end returned followed by what is still in the ring buffer.
\<close>

theorem bio_pair_is_fifo:
  assumes "BIO_new_bio_pair alloc fresh ok1 a s1 ok2 p s2 h = Some (Some ap, h0)" and "a \<noteq> p"
    and "\<forall>n. alloc n \<longrightarrow> n < 2 ^ 63" and "pair_run a p h0 es h'"
  shows "sent a es = got p es @ in_flight h' a \<and> sent p es = got a es @ in_flight h' p"
  using pair_run_inv [OF assms(4) BIO_new_bio_pair_ok [OF assms(1-3)]] by (simp add: fifo_def)

theorem bio_pair_is_fifo_witness:
  "\<exists>h'. pair_run 1 2 example_heap [Sent 1 [1, 2, 3], Got 2 [1, 2]] h' \<and> in_flight h' 1 = [3] \<and> in_flight h' 2 = []"
proof -
  obtain h' where run: "pair_run 1 2 example_heap [Sent 1 [1, 2, 3], Got 2 [1, 2]] h'" using example_run by blast
  with bio_pair_is_fifo [OF example_pair _ small_alloc run] show ?thesis by auto
qed

text \<open>
  C26. On a pair that calls can produce every read and write returns: no assertion fails, no null
  pointer is followed and the copying loops end. The returned numbers are exact: a read delivers
  the oldest bytes up to its size, 0 at the end of a closed stream and -1 with a retry when there
  is nothing yet; a write accepts what the buffer has room for and -1 when it is full or closed;
  \<^verbatim>\<open>BIO_ctrl_get_write_guarantee\<close> and \<^verbatim>\<open>BIO_pending\<close> announce these numbers.
\<close>

theorem bio_pair_calls_return:
  assumes "BIO_new_bio_pair alloc fresh ok1 a s1 ok2 p s2 h = Some (Some ap, h0)" and "a \<noteq> p"
    and "\<forall>n. alloc n \<longrightarrow> n < 2 ^ 63" and "pair_run a p h0 es h'" and "n < 2 ^ 31" and "k \<le> length src" and "k < 2 ^ 31"
  shows "map_option (\<lambda>(r, out, _). (r, out)) (BIO_read (Some p) has_buf n h') =
      Some (read_result has_buf n (in_flight h' a) (is_closed h' a),
        take (nat (read_result has_buf n (in_flight h' a) (is_closed h' a))) (in_flight h' a)) \<and>
    map_option fst (BIO_write (Some a) (Some src) (int k) h') = Some (write_result k (is_closed h' a) (room_left h' a)) \<and>
    map_option fst (BIO_ctrl_get_write_guarantee (Some a) h') = Some (if is_closed h' a then 0 else int (room_left h' a)) \<and>
    BIO_pending (Some p) h' = Some (length (in_flight h' a))"
proof -
  have ok: "pair_ok h' a p" using pair_run_inv [OF assms(4) BIO_new_bio_pair_ok [OF assms(1-3)]] by blast
  then obtain b pb where b: "h' a = Some b" "h' p = Some pb" "peer b = Some p" "peer pb = Some a" "ring_ok b"
    by (auto simp: pair_ok_def end_ok_def)
  have lt: "ring_size b < 2 ^ 63" "len b \<le> ring_size b" using b(5) by (simp_all add: ring_ok_def)
  have long: "long_of_size m = int m" if "m < 2 ^ 63" for m using that by (simp add: long_of_size_def)
  have wrap: "long_of_size (ring_size b + 2 ^ 64 - len b) = int (ring_size b - len b)"
  proof -
    have s: "ring_size b + 2 ^ 64 - len b = (ring_size b - len b) + 2 ^ 64" using lt(2) by simp
    have w: "long_of_size (m + 2 ^ 64) = long_of_size m" for m
    proof -
      have "int (m + 2 ^ 64) + 2 ^ 63 = (int m + 2 ^ 63) + 2 ^ 64" by simp
      then show ?thesis unfolding long_of_size_def by (simp only: mod_add_self2)
    qed
    show ?thesis unfolding s w by (rule long) (use lt(1) in linarith)
  qed
  show ?thesis
  proof (intro conjI)
    show "map_option (\<lambda>(r, out, _). (r, out)) (BIO_read (Some p) has_buf n h') =
      Some (read_result has_buf n (in_flight h' a) (is_closed h' a),
        take (nat (read_result has_buf n (in_flight h' a) (is_closed h' a))) (in_flight h' a))"
      by (rule BIO_read_spec [OF pair_ok_sym [OF ok] assms(5), of has_buf]) simp
    show "map_option fst (BIO_write (Some a) (Some src) (int k) h') = Some (write_result k (is_closed h' a) (room_left h' a))"
      by (rule BIO_write_spec [OF ok assms(6,7)]) simp
    show "map_option fst (BIO_ctrl_get_write_guarantee (Some a) h') = Some (if is_closed h' a then 0 else int (room_left h' a))"
      using b wrap by (simp add: BIO_ctrl_get_write_guarantee_def BIO_ctrl_def bio_ctrl_def is_closed_def room_left_def)
    show "BIO_pending (Some p) h' = Some (length (in_flight h' a))"
      using b lt long [of "len b"] by (simp add: BIO_pending_def BIO_ctrl_def bio_ctrl_def in_flight_def)
  qed
qed

theorem bio_pair_calls_return_witness:
  "\<exists>h'. pair_run 1 2 example_heap [Sent 1 [1, 2, 3], Got 2 [1, 2]] h' \<and> BIO_pending (Some 2) h' = Some 1"
proof -
  obtain h' where run: "pair_run 1 2 example_heap [Sent 1 [1, 2, 3], Got 2 [1, 2]] h'" using example_run by blast
  have "in_flight h' 1 = [3]"
    using pair_run_inv [OF run BIO_new_bio_pair_ok [OF example_pair _ small_alloc]] by (auto simp: fifo_def)
  then have "BIO_pending (Some 2) h' = Some 1"
    using bio_pair_calls_return [OF example_pair _ small_alloc run, of 0 0 "[]" True] by simp
  with run show ?thesis by blast
qed

text \<open>
  C27. \<^verbatim>\<open>BIO_write_all\<close> on one end of a pair returns for every input: it reports success exactly when the
  stream is open and the buffer has room for all of it, and otherwise it has written as much as fits.
\<close>

theorem BIO_write_all_returns:
  assumes "pair_ok h a p"
  shows "map_option (\<lambda>(ok, h'). (ok, in_flight h' a)) (BIO_write_all (Some a) src h) =
    Some (src = [] \<or> \<not> is_closed h a \<and> length src \<le> room_left h a,
      in_flight h a @ (if is_closed h a then [] else take (room_left h a) src))"
  using BIO_write_all_spec [OF assms, of src] by (auto simp: write_all_ok_def)

theorem BIO_write_all_returns_witness:
  "map_option fst (BIO_write_all (Some 1) [1, 2, 3, 4, 5] example_heap) = Some False"
proof -
  have "pair_ok example_heap 1 2" using BIO_new_bio_pair_ok [OF example_pair _ small_alloc] by simp
  note w = BIO_write_all_returns [OF this, of "[1, 2, 3, 4, 5]"]
  have "room_left example_heap 1 = 4"
    by (simp add: room_left_def example_heap_def paired_def new_bio_def default_size_def)
  with w show ?thesis by (cases "BIO_write_all (Some 1) [1, 2, 3, 4, 5] example_heap") auto
qed

end
