(* ===== verification/Pb_Stream.thy ===== *)
theory Pb_Stream
  imports Codec
begin

text \<open>
  The stream layer of nanopb (\<^verbatim>\<open>pb_decode.c\<close>, \<^verbatim>\<open>pb_encode.c\<close>) as the pods build it
  (\<^verbatim>\<open>PB_FIELD_32BIT\<close>, 64-bit integers, error messages, callbacks): reading and writing bytes, varints,
  fixed-size numbers, tags, strings and substreams. A stream reads a buffer (\<^verbatim>\<open>buf_read\<close>) or calls a
  function of the client, which is an argument of the model with a state of its own. A function
  that returns false has no result (\<open>None\<close>).
\<close>

section \<open>Input streams\<close>

text \<open>\<open>Callback f st\<close>: \<open>f st wanted n\<close> is told whether the destination is not \<^verbatim>\<open>NULL\<close>.\<close>

datatype 's source = Buffer bytes | Callback "'s \<Rightarrow> bool \<Rightarrow> nat \<Rightarrow> bool \<times> bytes \<times> 's" 's

record 's pb_istream =
  in_source :: "'s source"
  bytes_left :: nat
  in_errmsg :: "string option"

type_synonym ('a, 's) pb_reader = "'s pb_istream \<Rightarrow> 'a option \<times> 's pb_istream"

text \<open>\<^verbatim>\<open>PB_SET_ERROR\<close> keeps the first message.\<close>

definition in_set_error :: "string \<Rightarrow> 's pb_istream \<Rightarrow> 's pb_istream" where
  "in_set_error msg s = s\<lparr>in_errmsg := (case in_errmsg s of None \<Rightarrow> Some msg | Some m \<Rightarrow> Some m)\<rparr>"

definition next_read :: "('a, 's) pb_reader \<Rightarrow> ('a \<Rightarrow> ('b, 's) pb_reader) \<Rightarrow> ('b, 's) pb_reader" where
  "next_read r f s = (case r s of (None, s') \<Rightarrow> (None, s') | (Some a, s') \<Rightarrow> f a s')"

definition buf_read :: "bytes \<Rightarrow> nat \<Rightarrow> bytes \<times> bytes" where
  "buf_read source count = (take count source, drop count source)"

text \<open>\<^verbatim>\<open>stream->callback(stream, buf, count)\<close>.\<close>

definition call_source :: "'s source \<Rightarrow> bool \<Rightarrow> nat \<Rightarrow> bool \<times> bytes \<times> 's source" where
  "call_source src wanted count =
     (case src of
        Buffer bs \<Rightarrow> (case buf_read bs count of (data, rest) \<Rightarrow> (True, data, Buffer rest))
      | Callback f st \<Rightarrow> (case f st wanted count of (ok, data, st') \<Rightarrow> (ok, data, Callback f st')))"

text \<open>The part of \<^verbatim>\<open>pb_read\<close> after the loop that skips.\<close>

definition pb_read_chunk :: "bool \<Rightarrow> nat \<Rightarrow> (bytes, 's) pb_reader" where
  "pb_read_chunk wanted count s =
     (if count = 0 then (Some [], s)
      else if bytes_left s < count then (None, in_set_error ''end-of-stream'' s)
      else case call_source (in_source s) wanted count of
             (False, _, src) \<Rightarrow> (None, in_set_error ''io error'' (s\<lparr>in_source := src\<rparr>))
           | (True, data, src) \<Rightarrow> (Some data, s\<lparr>in_source := src, bytes_left := bytes_left s - count\<rparr>))"

text \<open>Skipping with a callback reads 16 bytes at a time into a scratch array.\<close>

fun pb_skip_chunks :: "nat \<Rightarrow> (bytes, 's) pb_reader" where
  "pb_skip_chunks count s =
     (if count > 16 then next_read (pb_read_chunk True 16) (\<lambda>_. pb_skip_chunks (count - 16)) s
      else pb_read_chunk True count s)"

declare pb_skip_chunks.simps [simp del]

definition pb_read :: "bool \<Rightarrow> nat \<Rightarrow> (bytes, 's) pb_reader" where
  "pb_read wanted count s =
     (if count = 0 then (Some [], s)
      else if \<not> wanted \<and> (case in_source s of Buffer _ \<Rightarrow> False | Callback _ _ \<Rightarrow> True) then pb_skip_chunks count s
      else pb_read_chunk wanted count s)"

definition pb_readbyte :: "(byte, 's) pb_reader" where
  "pb_readbyte s =
     (if bytes_left s = 0 then (None, in_set_error ''end-of-stream'' s)
      else case call_source (in_source s) True 1 of
             (False, _, src) \<Rightarrow> (None, in_set_error ''io error'' (s\<lparr>in_source := src\<rparr>))
           | (True, data, src) \<Rightarrow> (Some (data ! 0), s\<lparr>in_source := src, bytes_left := bytes_left s - 1\<rparr>))"

definition pb_istream_from_buffer :: "bytes \<Rightarrow> nat \<Rightarrow> 's pb_istream" where
  "pb_istream_from_buffer buf bufsize = \<lparr>in_source = Buffer buf, bytes_left = bufsize, in_errmsg = None\<rparr>"

lemma pb_readbyte_left: "pb_readbyte s = (Some b, s') \<Longrightarrow> bytes_left s' < bytes_left s"
  by (auto simp: pb_readbyte_def split: if_splits prod.splits bool.splits)

lemma pb_read_left: "pb_read True n s = (Some d, s') \<Longrightarrow> 0 < n \<Longrightarrow> bytes_left s' < bytes_left s"
  by (auto simp: pb_read_def pb_read_chunk_def split: if_splits prod.splits bool.splits)

section \<open>Reading numbers\<close>

text \<open>
  The loop of \<^verbatim>\<open>pb_decode_varint32_eof\<close>. \<^verbatim>\<open>uint_fast8_t\<close> has 8 bits on Darwin, so \<open>bitpos\<close> wraps at 256.
  The results are the value, the bit position and the last byte.
\<close>

function varint32_loop :: "u32 \<Rightarrow> nat \<Rightarrow> (u32 \<times> nat \<times> byte, 's) pb_reader" where
  "varint32_loop result bitpos s =
     (case pb_readbyte s of
        (None, s') \<Rightarrow> (None, s')
      | (Some byte, s') \<Rightarrow>
          let sign_extension = (if bitpos < 63 then 0xff else 0x01) in
          if bitpos \<ge> 32 \<and> byte AND 0x7f \<noteq> 0 \<and> (drop_bit 31 result = 0 \<or> byte \<noteq> sign_extension)
          then (None, in_set_error ''varint overflow'' s')
          else
            let result' = (if bitpos \<ge> 32 then result else result OR push_bit bitpos (ucast (byte AND 0x7f)));
                bitpos' = (bitpos + 7) mod 256
            in if byte AND 0x80 \<noteq> 0 then varint32_loop result' bitpos' s' else (Some (result', bitpos', byte), s'))"
  by pat_completeness auto
termination
  by (relation "measure (\<lambda>(_, _, s). bytes_left s)") (auto dest!: sym [of "(Some _, _)"] pb_readbyte_left)

declare varint32_loop.simps [simp del]

text \<open>The middle result says whether \<^verbatim>\<open>*eof\<close> was set.\<close>

definition pb_decode_varint32_eof :: "'s pb_istream \<Rightarrow> u32 option \<times> bool \<times> 's pb_istream" where
  "pb_decode_varint32_eof s =
     (case pb_readbyte s of
        (None, s') \<Rightarrow> (None, bytes_left s' = 0, s')
      | (Some byte, s') \<Rightarrow>
          if byte AND 0x80 = 0 then (Some (ucast byte), False, s')
          else case varint32_loop (ucast (byte AND 0x7f)) 7 s' of
                 (None, s'') \<Rightarrow> (None, False, s'')
               | (Some (result, bitpos, byte'), s'') \<Rightarrow>
                   if bitpos = 35 \<and> byte' AND 0x70 \<noteq> 0
                   then (None, False, in_set_error ''varint overflow'' s'')
                   else (Some result, False, s''))"

definition pb_decode_varint32 :: "(u32, 's) pb_reader" where
  "pb_decode_varint32 s = (case pb_decode_varint32_eof s of (r, _, s') \<Rightarrow> (r, s'))"

function varint64_loop :: "u64 \<Rightarrow> nat \<Rightarrow> (u64, 's) pb_reader" where
  "varint64_loop result bitpos s =
     (if bitpos \<ge> 64 then (None, in_set_error ''varint overflow'' s)
      else case pb_readbyte s of
        (None, s') \<Rightarrow> (None, s')
      | (Some byte, s') \<Rightarrow>
          let result' = result OR push_bit bitpos (ucast (byte AND 0x7f));
              bitpos' = (bitpos + 7) mod 256
          in if byte AND 0x80 \<noteq> 0 then varint64_loop result' bitpos' s' else (Some result', s'))"
  by pat_completeness auto
termination
  by (relation "measure (\<lambda>(_, _, s). bytes_left s)") (auto dest!: sym [of "(Some _, _)"] pb_readbyte_left)

declare varint64_loop.simps [simp del]

definition pb_decode_varint :: "(u64, 's) pb_reader" where
  "pb_decode_varint = varint64_loop 0 0"

definition pb_decode_svarint :: "(u64, 's) pb_reader" where
  "pb_decode_svarint =
     next_read pb_decode_varint
       (\<lambda>v s. (Some (if v AND 1 \<noteq> 0 then NOT (drop_bit 1 v) else drop_bit 1 v), s))"

definition pb_decode_fixed32 :: "(u32, 's) pb_reader" where
  "pb_decode_fixed32 =
     next_read (pb_read True 4)
       (\<lambda>b s. (Some (push_bit 0 (ucast (b ! 0)) OR push_bit 8 (ucast (b ! 1)) OR push_bit 16 (ucast (b ! 2)) OR
                     push_bit 24 (ucast (b ! 3))), s))"

definition pb_decode_fixed64 :: "(u64, 's) pb_reader" where
  "pb_decode_fixed64 =
     next_read (pb_read True 8)
       (\<lambda>b s. (Some (push_bit 0 (ucast (b ! 0)) OR push_bit 8 (ucast (b ! 1)) OR push_bit 16 (ucast (b ! 2)) OR
                     push_bit 24 (ucast (b ! 3)) OR push_bit 32 (ucast (b ! 4)) OR push_bit 40 (ucast (b ! 5)) OR
                     push_bit 48 (ucast (b ! 6)) OR push_bit 56 (ucast (b ! 7))), s))"

section \<open>Tags, skipping and substreams\<close>

text \<open>The wire types; \<open>PB_WT_other\<close> is any of the numbers that have no name.\<close>

datatype pb_wire_type = PB_WT_VARINT | PB_WT_64BIT | PB_WT_STRING | PB_WT_32BIT | PB_WT_other nat

definition wire_type_of :: "u32 \<Rightarrow> pb_wire_type" where
  "wire_type_of n =
     (if n = 0 then PB_WT_VARINT else if n = 1 then PB_WT_64BIT else if n = 2 then PB_WT_STRING
      else if n = 5 then PB_WT_32BIT else PB_WT_other (unat n))"

definition wire_number :: "pb_wire_type \<Rightarrow> u64" where
  "wire_number wt =
     (case wt of PB_WT_VARINT \<Rightarrow> 0 | PB_WT_64BIT \<Rightarrow> 1 | PB_WT_STRING \<Rightarrow> 2 | PB_WT_32BIT \<Rightarrow> 5 | PB_WT_other n \<Rightarrow> of_nat n)"

text \<open>The results of \<^verbatim>\<open>pb_decode_tag\<close>: the wire type and the tag, and whether the message ended.\<close>

definition pb_decode_tag :: "'s pb_istream \<Rightarrow> (pb_wire_type \<times> u32) option \<times> bool \<times> 's pb_istream" where
  "pb_decode_tag s =
     (case pb_decode_varint32_eof s of
        (None, eof, s') \<Rightarrow> (None, eof, s')
      | (Some temp, eof, s') \<Rightarrow>
          if temp = 0 then (None, True, s')
          else (Some (wire_type_of (temp AND 7), drop_bit 3 temp), eof, s'))"

function pb_skip_varint :: "(unit, 's) pb_reader" where
  "pb_skip_varint s =
     (case pb_read True 1 s of
        (None, s') \<Rightarrow> (None, s')
      | (Some data, s') \<Rightarrow> if data ! 0 AND 0x80 \<noteq> 0 then pb_skip_varint s' else (Some (), s'))"
  by pat_completeness auto
termination
  by (relation "measure bytes_left") (auto dest!: sym [of "(Some _, _)"] pb_read_left)

declare pb_skip_varint.simps [simp del]

definition pb_skip_string :: "(unit, 's) pb_reader" where
  "pb_skip_string = next_read pb_decode_varint32 (\<lambda>n. next_read (pb_read False (unat n)) (\<lambda>_ s. (Some (), s)))"

definition pb_skip_field :: "pb_wire_type \<Rightarrow> (unit, 's) pb_reader" where
  "pb_skip_field wt =
     (case wt of
        PB_WT_VARINT \<Rightarrow> pb_skip_varint
      | PB_WT_64BIT \<Rightarrow> next_read (pb_read False 8) (\<lambda>_ s. (Some (), s))
      | PB_WT_STRING \<Rightarrow> pb_skip_string
      | PB_WT_32BIT \<Rightarrow> next_read (pb_read False 4) (\<lambda>_ s. (Some (), s))
      | PB_WT_other _ \<Rightarrow> (\<lambda>s. (None, in_set_error ''invalid wire_type'' s)))"

text \<open>The bytes of a varint as they are, at most \<open>max_size\<close> of them; \<open>size\<close> counts those read.\<close>

function read_raw_varint :: "nat \<Rightarrow> nat \<Rightarrow> bytes \<Rightarrow> (bytes, 's) pb_reader" where
  "read_raw_varint max_size size0 buf s =
     (if size0 + 1 > max_size then (None, s)
      else case pb_read True 1 s of
        (None, s') \<Rightarrow> (None, s')
      | (Some data, s') \<Rightarrow>
          if data ! 0 AND 0x80 \<noteq> 0 then read_raw_varint max_size (size0 + 1) (buf @ [data ! 0]) s'
          else (Some (buf @ [data ! 0]), s'))"
  by pat_completeness auto
termination by (relation "measure (\<lambda>(m, n, _, _). m - n)") auto

declare read_raw_varint.simps [simp del]

definition read_raw_value :: "pb_wire_type \<Rightarrow> nat \<Rightarrow> (bytes, 's) pb_reader" where
  "read_raw_value wt max_size =
     (case wt of
        PB_WT_VARINT \<Rightarrow> read_raw_varint max_size 0 []
      | PB_WT_64BIT \<Rightarrow> pb_read True 8
      | PB_WT_32BIT \<Rightarrow> pb_read True 4
      | _ \<Rightarrow> (\<lambda>s. (None, in_set_error ''invalid wire_type'' s)))"

text \<open>The substream shares the source with its parent, from which its bytes are deducted.\<close>

definition pb_make_string_substream :: "('s pb_istream, 's) pb_reader" where
  "pb_make_string_substream =
     next_read pb_decode_varint32
       (\<lambda>n s. if bytes_left s < unat n then (None, in_set_error ''parent stream too short'' s)
              else (Some (s\<lparr>bytes_left := unat n\<rparr>), s\<lparr>bytes_left := bytes_left s - unat n\<rparr>))"

definition pb_close_string_substream :: "'s pb_istream \<Rightarrow> (unit, 's) pb_reader" where
  "pb_close_string_substream sub s =
     (case (if bytes_left sub \<noteq> 0 then pb_read False (bytes_left sub) sub else (Some [], sub)) of
        (None, _) \<Rightarrow> (None, s)
      | (Some _, sub') \<Rightarrow> (Some (), s\<lparr>in_source := in_source sub', in_errmsg := in_errmsg sub'\<rparr>))"

section \<open>Output streams\<close>

text \<open>\<open>Sizing\<close> is the stream without a callback, which only counts; \<open>Written bs\<close> has \<^verbatim>\<open>buf_write\<close> and has put \<open>bs\<close> into the buffer.\<close>

datatype 's sink = Sizing | Written bytes | Out_callback "'s \<Rightarrow> bytes \<Rightarrow> bool \<times> 's" 's

record 's pb_ostream =
  out_sink :: "'s sink"
  max_size :: nat
  bytes_written :: nat
  out_errmsg :: "string option"

type_synonym 's pb_writer = "'s pb_ostream \<Rightarrow> bool \<times> 's pb_ostream"

definition out_set_error :: "string \<Rightarrow> 's pb_ostream \<Rightarrow> 's pb_ostream" where
  "out_set_error msg s = s\<lparr>out_errmsg := (case out_errmsg s of None \<Rightarrow> Some msg | Some m \<Rightarrow> Some m)\<rparr>"

definition buf_write :: "bytes \<Rightarrow> bytes \<Rightarrow> bytes" where
  "buf_write dest buf = dest @ buf"

definition call_sink :: "'s sink \<Rightarrow> bytes \<Rightarrow> bool \<times> 's sink" where
  "call_sink snk buf =
     (case snk of
        Sizing \<Rightarrow> (True, Sizing)
      | Written bs \<Rightarrow> (True, Written (buf_write bs buf))
      | Out_callback f st \<Rightarrow> (case f st buf of (ok, st') \<Rightarrow> (ok, Out_callback f st')))"

definition pb_ostream_from_buffer :: "nat \<Rightarrow> 's pb_ostream" where
  "pb_ostream_from_buffer bufsize = \<lparr>out_sink = Written [], max_size = bufsize, bytes_written = 0, out_errmsg = None\<rparr>"

definition PB_OSTREAM_SIZING :: "'s pb_ostream" where
  "PB_OSTREAM_SIZING = \<lparr>out_sink = Sizing, max_size = 0, bytes_written = 0, out_errmsg = None\<rparr>"

text \<open>\<open>buf\<close> holds the bytes at the pointer (none, when it is \<^verbatim>\<open>NULL\<close>).\<close>

definition pb_write :: "bytes \<Rightarrow> nat \<Rightarrow> 's pb_writer" where
  "pb_write buf count s =
     (if count > 0 \<and> (case out_sink s of Sizing \<Rightarrow> False | _ \<Rightarrow> True) then
        if size_add (bytes_written s) count < bytes_written s \<or> size_add (bytes_written s) count > max_size s
        then (False, out_set_error ''stream full'' s)
        else case call_sink (out_sink s) (take count buf) of
               (False, snk) \<Rightarrow> (False, out_set_error ''io error'' (s\<lparr>out_sink := snk\<rparr>))
             | (True, snk) \<Rightarrow> (True, s\<lparr>out_sink := snk, bytes_written := size_add (bytes_written s) count\<rparr>)
      else (True, s\<lparr>bytes_written := size_add (bytes_written s) count\<rparr>))"

definition next_write :: "'s pb_writer \<Rightarrow> 's pb_writer \<Rightarrow> 's pb_writer" where
  "next_write w1 w2 s = (case w1 s of (False, s') \<Rightarrow> (False, s') | (True, s') \<Rightarrow> w2 s')"

section \<open>Writing numbers, tags and strings\<close>

text \<open>The loop that fills the buffer; every byte has its top bit set.\<close>

function varint_digits :: "u64 \<Rightarrow> bytes" where
  "varint_digits value =
     (if value \<noteq> 0 then ucast ((value AND 0x7f) OR 0x80) # varint_digits (drop_bit 7 value) else [])"
  by pat_completeness auto
termination
proof (relation "measure unat")
  fix v :: u64
  assume "v \<noteq> 0"
  then show "(drop_bit 7 v, v) \<in> measure unat" by (simp add: unat_drop_bit unat_gt_0)
qed simp

declare varint_digits.simps [simp del]

definition pb_encode_varint :: "u64 \<Rightarrow> 's pb_writer" where
  "pb_encode_varint value =
     (if value \<le> 0x7f then pb_write [ucast value] 1
      else let buffer = varint_digits value;
               i = length buffer
           in pb_write (buffer[i - 1 := buffer ! (i - 1) AND 0x7f]) i)"

definition pb_encode_svarint :: "u64 \<Rightarrow> 's pb_writer" where
  "pb_encode_svarint value =
     pb_encode_varint (if sint value < 0 then NOT (push_bit 1 value) else push_bit 1 value)"

definition pb_encode_fixed32 :: "u32 \<Rightarrow> 's pb_writer" where
  "pb_encode_fixed32 val =
     pb_write [ucast (val AND 0xff), ucast (drop_bit 8 val AND 0xff), ucast (drop_bit 16 val AND 0xff),
               ucast (drop_bit 24 val AND 0xff)] 4"

definition pb_encode_fixed64 :: "u64 \<Rightarrow> 's pb_writer" where
  "pb_encode_fixed64 val =
     pb_write [ucast (val AND 0xff), ucast (drop_bit 8 val AND 0xff), ucast (drop_bit 16 val AND 0xff),
               ucast (drop_bit 24 val AND 0xff), ucast (drop_bit 32 val AND 0xff), ucast (drop_bit 40 val AND 0xff),
               ucast (drop_bit 48 val AND 0xff), ucast (drop_bit 56 val AND 0xff)] 8"

definition pb_encode_tag :: "pb_wire_type \<Rightarrow> u32 \<Rightarrow> 's pb_writer" where
  "pb_encode_tag wt field_number = pb_encode_varint (push_bit 3 (ucast field_number) OR wire_number wt)"

definition pb_encode_string :: "bytes \<Rightarrow> nat \<Rightarrow> 's pb_writer" where
  "pb_encode_string buffer size0 = next_write (pb_encode_varint (of_nat size0)) (pb_write buffer size0)"

end
