(* ===== verification/Pb_Codec.thy ===== *)
theory Pb_Codec
  imports Pb_Stream
begin

text \<open>
  What the stream layer of nanopb promises: each number, tag and string that is written is read
  back, a sizing stream counts what a writing one writes, no read leaves the window of its stream
  whatever the input is, and no write leaves the buffer.
\<close>

section \<open>Reading exactly an encoding\<close>

text \<open>\<open>r\<close> reads \<open>x\<close> from a stream over a buffer that starts with \<open>bs\<close> and leaves what follows.\<close>

definition reads :: "('a, 's) pb_reader \<Rightarrow> 'a \<Rightarrow> bytes \<Rightarrow> bool" where
  "reads r x bs \<longleftrightarrow> (\<forall>s rs. in_source s = Buffer (bs @ rs) \<longrightarrow> length bs \<le> bytes_left s \<longrightarrow>
     r s = (Some x, s\<lparr>in_source := Buffer rs, bytes_left := bytes_left s - length bs\<rparr>))"

lemma readsD:
  "reads r x bs \<Longrightarrow> in_source s = Buffer (bs @ rs) \<Longrightarrow> length bs \<le> bytes_left s \<Longrightarrow>
     r s = (Some x, s\<lparr>in_source := Buffer rs, bytes_left := bytes_left s - length bs\<rparr>)"
  by (simp add: reads_def)

lemma reads_next:
  assumes "reads r x bs" and "reads (f x) y cs"
  shows "reads (next_read r f) y (bs @ cs)"
  unfolding reads_def
proof (intro allI impI)
  fix s :: "'a pb_istream" and rs
  assume s: "in_source s = Buffer ((bs @ cs) @ rs)" "length (bs @ cs) \<le> bytes_left s"
  let ?s = "s\<lparr>in_source := Buffer (cs @ rs), bytes_left := bytes_left s - length bs\<rparr>"
  have "r s = (Some x, ?s)" using s by (intro readsD [OF assms(1)]) simp_all
  moreover have "f x ?s = (Some y, ?s\<lparr>in_source := Buffer rs, bytes_left := bytes_left ?s - length cs\<rparr>)"
    using s by (intro readsD [OF assms(2)]) simp_all
  ultimately show "next_read r f s = (Some y, s\<lparr>in_source := Buffer rs, bytes_left := bytes_left s - length (bs @ cs)\<rparr>)"
    by (simp add: next_read_def)
qed

lemma reads_return: "reads (\<lambda>s. (Some x, s)) x []"
  by (simp add: reads_def)

lemma reads_next_return:
  assumes "reads r x bs"
  shows "reads (next_read r (\<lambda>y s. (Some (g y), s))) (g x) bs"
proof -
  have "reads (\<lambda>s. (Some (g x), s)) (g x) []" by (rule reads_return)
  from reads_next [OF assms, of "\<lambda>y s. (Some (g y), s)", OF this] show ?thesis by simp
qed

lemma reads_byte: "reads pb_readbyte b [b]"
  by (simp add: reads_def pb_readbyte_def call_source_def buf_read_def)

lemma reads_chunk: "reads (pb_read_chunk wanted (length bs)) bs bs"
  by (simp add: reads_def pb_read_chunk_def call_source_def buf_read_def)

lemma reads_read: "reads (pb_read wanted (length bs)) bs bs"
  using reads_chunk [of wanted bs] by (auto simp: reads_def pb_read_def)

lemma reads_read': "length bs = n \<Longrightarrow> reads (pb_read wanted n) bs bs"
  using reads_read by blast

section \<open>Varints\<close>

fun varint :: "nat \<Rightarrow> bytes" where
  "varint n = (if n < 128 then [of_nat n] else of_nat (128 + n mod 128) # varint (n div 128))"

declare varint.simps [simp del]

lemma varint_small: "n < 128 \<Longrightarrow> varint n = [of_nat n]"
  by (simp add: varint.simps)

lemma varint_large: "128 \<le> n \<Longrightarrow> varint n = of_nat (128 + n mod 128) # varint (n div 128)"
  by (subst varint.simps) simp

lemma varint_nonempty [simp]: "varint n \<noteq> []"
  by (subst varint.simps) simp

lemma length_varint: "n < 128 ^ k \<Longrightarrow> 0 < k \<Longrightarrow> length (varint n) \<le> k"
proof (induction k arbitrary: n)
  case (Suc k)
  show ?case
  proof (cases "n < 128")
    case False
    then have "0 < k" using Suc.prems by (cases k) auto
    moreover have "n div 128 < 128 ^ k" using Suc.prems by (simp add: less_mult_imp_div_less mult.commute)
    ultimately show ?thesis using Suc.IH False by (simp add: varint_large)
  qed (simp add: varint_small)
qed simp

lemma length_varint_64: "n < 2 ^ 64 \<Longrightarrow> length (varint n) \<le> 10"
  by (rule length_varint) simp_all

lemma unat_mod_byte:
  "unat (of_nat (128 + m mod 128) :: byte) = 128 + m mod 128" "m < 128 \<Longrightarrow> unat (of_nat m :: byte) = m"
proof -
  have "m mod 128 < 128" by simp
  then have "128 + m mod 128 < 256" by linarith
  then show "unat (of_nat (128 + m mod 128) :: byte) = 128 + m mod 128"
    by (simp only: unat_of_nat_byte mod_less)
qed simp

text \<open>The continuation bit and the seven bits of a byte of a varint.\<close>

lemma varint_byte:
  "(of_nat (128 + m mod 128) :: byte) AND 0x80 \<noteq> 0"
  "unat ((of_nat (128 + m mod 128) :: byte) AND 0x7f) = m mod 128"
  "m < 128 \<Longrightarrow> (of_nat m :: byte) AND 0x80 = 0" "m < 128 \<Longrightarrow> unat ((of_nat m :: byte) AND 0x7f) = m"
  using unat_mod_byte [of m] by (simp_all add: high_bit_byte low_bits_byte del: of_nat_add)

lemma unat_shift_or_64:
  assumes "unat (r :: u64) < 2 ^ k" and "unat (b :: byte) * 2 ^ k < 2 ^ 64" and "k < 64"
  shows "unat (r OR push_bit k (ucast b)) = unat b * 2 ^ k + unat r"
proof -
  have "(2 :: nat) ^ 64 = 2 ^ (64 - k) * 2 ^ k" using assms(3) by (simp flip: power_add)
  with assms(2) have "unat b * 2 ^ k < 2 ^ (64 - k) * 2 ^ k" by (simp only:)
  then have "unat b < 2 ^ (64 - k)" by simp
  then have "unat (push_bit k (ucast b) OR r) = unat b * 2 ^ k + unat r"
    using assms(1,3) unat_push_bit_or [of r k "ucast b :: u64"] by (simp add: unat_ucast_up)
  then show ?thesis by (simp only: or.commute)
qed

lemma unat_shift_or_32:
  assumes "unat (r :: u32) < 2 ^ k" and "unat (b :: byte) * 2 ^ k < 2 ^ 32" and "k < 32"
  shows "unat (r OR push_bit k (ucast b)) = unat b * 2 ^ k + unat r"
proof -
  have "(2 :: nat) ^ 32 = 2 ^ (32 - k) * 2 ^ k" using assms(3) by (simp flip: power_add)
  with assms(2) have "unat b * 2 ^ k < 2 ^ (32 - k) * 2 ^ k" by (simp only:)
  then have "unat b < 2 ^ (32 - k)" by simp
  then have "unat (push_bit k (ucast b) OR r) = unat b * 2 ^ k + unat r"
    using assms(1,3) unat_push_bit_or [of r k "ucast b :: u32"] by (simp add: unat_ucast_up)
  then show ?thesis by (simp only: or.commute)
qed

lemma of_nat_eqI: "unat w = n \<Longrightarrow> w = (of_nat n :: 'a::len word)"
  by auto

lemma digit_split: "(n :: nat) * 2 ^ k = (n mod 128) * 2 ^ k + (n div 128) * 2 ^ (k + 7)"
proof -
  have "n * 2 ^ k = (n div 128 * 128 + n mod 128) * 2 ^ k" by simp
  then show ?thesis by (simp only: power_add algebra_simps) simp
qed

lemma reads_varint64_loop:
  assumes "n * 2 ^ k < 2 ^ 64" and "k < 64" and "unat r < 2 ^ k"
  shows "reads (varint64_loop r k :: (u64, 's) pb_reader) (of_nat (n * 2 ^ k + unat r)) (varint n)"
  using assms
proof (induction n arbitrary: k r rule: varint.induct)
  case (1 n)
  show ?case
  proof (cases "n < 128")
    case True
    define b :: byte where "b = of_nat n"
    have b: "b AND 0x80 = 0" "unat (b AND 0x7f) = n" using varint_byte(3,4) [OF True] by (simp_all add: b_def)
    have "unat (r OR push_bit k (ucast (b AND 0x7f))) = n * 2 ^ k + unat r"
      using unat_shift_or_64 [of r k "b AND 0x7f"] 1(2-4) b(2) by simp
    then have v: "r OR push_bit k (ucast (b AND 0x7f)) = of_nat (n * 2 ^ k + unat r)"
      by (rule of_nat_eqI)
    show ?thesis unfolding varint_small [OF True] reads_def
    proof (intro allI impI)
      fix s :: "'s pb_istream" and rs
      assume s: "in_source s = Buffer ([of_nat n] @ rs)" "length [of_nat n :: byte] \<le> bytes_left s"
      have "pb_readbyte s = (Some b, s\<lparr>in_source := Buffer rs, bytes_left := bytes_left s - length [b]\<rparr>)"
        using s by (intro readsD [OF reads_byte]) (simp_all add: b_def)
      then show "varint64_loop r k s = (Some (of_nat (n * 2 ^ k + unat r)),
          s\<lparr>in_source := Buffer rs, bytes_left := bytes_left s - length [of_nat n :: byte]\<rparr>)"
        using 1(3) b(1) v by (subst varint64_loop.simps) (simp add: Let_def)
    qed
  next
    case False
    define b :: byte where "b = of_nat (128 + n mod 128)"
    define r' where "r' = r OR push_bit k (ucast (b AND 0x7f))"
    have b: "b AND 0x80 \<noteq> 0" "unat (b AND 0x7f) = n mod 128" using varint_byte(1,2) [of n] by (simp_all add: b_def)
    note split = digit_split [of n k]
    have "128 * 2 ^ k \<le> n * 2 ^ k" using False by simp
    also have "\<dots> < 2 ^ 64" by (rule 1(2))
    finally have "(2 :: nat) ^ (k + 7) < 2 ^ 64" by (simp add: power_add)
    then have k: "k + 7 < 64" by (rule power_less_imp_less_exp [rotated]) simp
    have r': "unat r' = n mod 128 * 2 ^ k + unat r"
      unfolding r'_def using unat_shift_or_64 [of r k "b AND 0x7f"] 1(2-4) b(2) split by simp
    have "n mod 128 * 2 ^ k + 2 ^ k \<le> 128 * 2 ^ k"
      using mult_le_mono1 [of "n mod 128 + 1" 128 "2 ^ k"] by simp
    then have "unat r' < 128 * 2 ^ k" unfolding r' using 1(4) by linarith
    then have "unat r' < 2 ^ (k + 7)" by (simp add: power_add mult.commute)
    then have IH: "reads (varint64_loop r' (k + 7) :: (u64, 's) pb_reader) (of_nat (n div 128 * 2 ^ (k + 7) + unat r')) (varint (n div 128))"
      using 1(1) [OF False, of "k + 7" r'] 1(2) split k by (simp del: of_nat_add of_nat_mult)
    have v: "n div 128 * 2 ^ (k + 7) + unat r' = n * 2 ^ k + unat r" using split r' by simp
    show ?thesis unfolding varint_large [OF leI [OF False]] reads_def
    proof (intro allI impI)
      fix s :: "'s pb_istream" and rs
      assume s: "in_source s = Buffer ((of_nat (128 + n mod 128) # varint (n div 128)) @ rs)"
        "length (of_nat (128 + n mod 128) # varint (n div 128)) \<le> bytes_left s"
      let ?s = "s\<lparr>in_source := Buffer (varint (n div 128) @ rs), bytes_left := bytes_left s - length [b]\<rparr>"
      have "pb_readbyte s = (Some b, ?s)"
        using s by (intro readsD [OF reads_byte]) (simp_all add: b_def)
      moreover have "varint64_loop r' (k + 7) ?s = (Some (of_nat (n div 128 * 2 ^ (k + 7) + unat r')),
          ?s\<lparr>in_source := Buffer rs, bytes_left := bytes_left ?s - length (varint (n div 128))\<rparr>)"
        using s by (intro readsD [OF IH]) simp_all
      ultimately have "varint64_loop r k s = (Some (of_nat (n div 128 * 2 ^ (k + 7) + unat r')),
          ?s\<lparr>in_source := Buffer rs, bytes_left := bytes_left ?s - length (varint (n div 128))\<rparr>)"
        using 1(3) b(1) k by (subst varint64_loop.simps) (simp add: Let_def flip: r'_def)
      then show "varint64_loop r k s = (Some (of_nat (n * 2 ^ k + unat r)), s\<lparr>in_source := Buffer rs,
          bytes_left := bytes_left s - length (of_nat (128 + n mod 128) # varint (n div 128))\<rparr>)"
        unfolding v by simp
    qed
  qed
qed

lemma reads_varint: "reads pb_decode_varint v (varint (unat v))"
proof -
  have "unat v < 2 ^ 64" using unsigned_less [of v, where 'a = nat] by simp
  then show ?thesis using reads_varint64_loop [of "unat v" 0 0] by (simp add: pb_decode_varint_def)
qed

lemma low_nibble: "unat (b :: byte) < 16 \<Longrightarrow> b AND 0x70 = 0"
proof -
  assume "unat b < 16"
  then have "b AND mask 4 = b" using unat_and_mask [of b 4] by (simp add: word_unat_eq_iff)
  then have "b AND 0x70 = b AND (mask 4 AND 0x70)" by (simp only: and.assoc [symmetric])
  then show ?thesis by (simp add: mask_numeral)
qed

lemma reads_varint32_loop:
  assumes "n * 2 ^ k < 2 ^ 32" and "k < 32" and "unat r < 2 ^ k"
  shows "\<exists>k' b'. reads (varint32_loop r k :: (u32 \<times> nat \<times> byte, 's) pb_reader) (of_nat (n * 2 ^ k + unat r), k', b') (varint n) \<and> (k' = 35 \<longrightarrow> b' AND 0x70 = 0)"
  using assms
proof (induction n arbitrary: k r rule: varint.induct)
  case (1 n)
  show ?case
  proof (cases "n < 128")
    case True
    define b :: byte where "b = of_nat n"
    have b: "b AND 0x80 = 0" "unat (b AND 0x7f) = n" "unat b = n"
      using varint_byte(3,4) [OF True] unat_mod_byte(2) [OF True] by (simp_all add: b_def)
    have "unat (r OR push_bit k (ucast (b AND 0x7f))) = n * 2 ^ k + unat r"
      using unat_shift_or_32 [of r k "b AND 0x7f"] 1(2-4) b(2) by simp
    then have v: "r OR push_bit k (ucast (b AND 0x7f)) = of_nat (n * 2 ^ k + unat r)"
      by (rule of_nat_eqI)
    have last: "k + 7 = 35 \<longrightarrow> b AND 0x70 = 0"
    proof
      assume "k + 7 = 35"
      then have "k = 28" by simp
      with 1(2) b(3) have "unat b < 16" by simp
      then show "b AND 0x70 = 0" by (rule low_nibble)
    qed
    have "reads (varint32_loop r k :: (u32 \<times> nat \<times> byte, 's) pb_reader) (of_nat (n * 2 ^ k + unat r), k + 7, b) (varint n)"
      unfolding varint_small [OF True] reads_def
    proof (intro allI impI)
      fix s :: "'s pb_istream" and rs
      assume s: "in_source s = Buffer ([of_nat n] @ rs)" "length [of_nat n :: byte] \<le> bytes_left s"
      have "pb_readbyte s = (Some b, s\<lparr>in_source := Buffer rs, bytes_left := bytes_left s - length [b]\<rparr>)"
        using s by (intro readsD [OF reads_byte]) (simp_all add: b_def)
      then show "varint32_loop r k s = (Some (of_nat (n * 2 ^ k + unat r), k + 7, b),
          s\<lparr>in_source := Buffer rs, bytes_left := bytes_left s - length [of_nat n :: byte]\<rparr>)"
        using 1(3) b(1) v by (subst varint32_loop.simps) (simp add: Let_def)
    qed
    with last show ?thesis by blast
  next
    case False
    define b :: byte where "b = of_nat (128 + n mod 128)"
    define r' where "r' = r OR push_bit k (ucast (b AND 0x7f))"
    have b: "b AND 0x80 \<noteq> 0" "unat (b AND 0x7f) = n mod 128" using varint_byte(1,2) [of n] by (simp_all add: b_def)
    note split = digit_split [of n k]
    have "128 * 2 ^ k \<le> n * 2 ^ k" using False by simp
    also have "\<dots> < 2 ^ 32" by (rule 1(2))
    finally have "(2 :: nat) ^ (k + 7) < 2 ^ 32" by (simp add: power_add)
    then have k: "k + 7 < 32" by (rule power_less_imp_less_exp [rotated]) simp
    have r': "unat r' = n mod 128 * 2 ^ k + unat r"
      unfolding r'_def using unat_shift_or_32 [of r k "b AND 0x7f"] 1(2-4) b(2) split by simp
    have "n mod 128 * 2 ^ k + 2 ^ k \<le> 128 * 2 ^ k"
      using mult_le_mono1 [of "n mod 128 + 1" 128 "2 ^ k"] by simp
    then have "unat r' < 128 * 2 ^ k" unfolding r' using 1(4) by linarith
    then have "unat r' < 2 ^ (k + 7)" by (simp add: power_add mult.commute)
    then obtain k' b' where IH: "reads (varint32_loop r' (k + 7) :: (u32 \<times> nat \<times> byte, 's) pb_reader) (of_nat (n div 128 * 2 ^ (k + 7) + unat r'), k', b')
        (varint (n div 128))" and last: "k' = 35 \<longrightarrow> b' AND 0x70 = 0"
      using 1(1) [OF False, of "k + 7" r'] 1(2) split k by auto
    have v: "n div 128 * 2 ^ (k + 7) + unat r' = n * 2 ^ k + unat r" using split r' by simp
    have "reads (varint32_loop r k :: (u32 \<times> nat \<times> byte, 's) pb_reader) (of_nat (n * 2 ^ k + unat r), k', b') (varint n)"
      unfolding varint_large [OF leI [OF False]] reads_def
    proof (intro allI impI)
      fix s :: "'s pb_istream" and rs
      assume s: "in_source s = Buffer ((of_nat (128 + n mod 128) # varint (n div 128)) @ rs)"
        "length (of_nat (128 + n mod 128) # varint (n div 128)) \<le> bytes_left s"
      let ?s = "s\<lparr>in_source := Buffer (varint (n div 128) @ rs), bytes_left := bytes_left s - length [b]\<rparr>"
      have "pb_readbyte s = (Some b, ?s)"
        using s by (intro readsD [OF reads_byte]) (simp_all add: b_def)
      moreover have "varint32_loop r' (k + 7) ?s = (Some (of_nat (n div 128 * 2 ^ (k + 7) + unat r'), k', b'),
          ?s\<lparr>in_source := Buffer rs, bytes_left := bytes_left ?s - length (varint (n div 128))\<rparr>)"
        using s by (intro readsD [OF IH]) simp_all
      ultimately have "varint32_loop r k s = (Some (of_nat (n div 128 * 2 ^ (k + 7) + unat r'), k', b'),
          ?s\<lparr>in_source := Buffer rs, bytes_left := bytes_left ?s - length (varint (n div 128))\<rparr>)"
        using 1(3) b(1) k by (subst varint32_loop.simps) (simp add: Let_def flip: r'_def)
      then show "varint32_loop r k s = (Some (of_nat (n * 2 ^ k + unat r), k', b'), s\<lparr>in_source := Buffer rs,
          bytes_left := bytes_left s - length (of_nat (128 + n mod 128) # varint (n div 128))\<rparr>)"
        unfolding v by simp
    qed
    with last show ?thesis by blast
  qed
qed

text \<open>A varint below \<open>2 ^ 32\<close> is read by the 32-bit decoder, without setting the end-of-file flag.\<close>

lemma varint32_eof:
  fixes s :: "'s pb_istream"
  assumes "n < 2 ^ 32" and "in_source s = Buffer (varint n @ rs)" and "length (varint n) \<le> bytes_left s"
  shows "pb_decode_varint32_eof s = (Some (of_nat n), False, s\<lparr>in_source := Buffer rs, bytes_left := bytes_left s - length (varint n)\<rparr>)"
proof (cases "n < 128")
  case True
  define b :: byte where "b = of_nat n"
  have b: "b AND 0x80 = 0" using varint_byte(3) [OF True] by (simp add: b_def)
  have "(ucast b :: u32) = of_nat n" using unat_mod_byte(2) [OF True] by (intro of_nat_eqI) (simp add: b_def unat_ucast_up)
  moreover have "pb_readbyte s = (Some b, s\<lparr>in_source := Buffer rs, bytes_left := bytes_left s - length [b]\<rparr>)"
    using assms(2,3) by (intro readsD [OF reads_byte]) (simp_all add: b_def varint_small [OF True])
  ultimately show ?thesis using b by (simp add: pb_decode_varint32_eof_def varint_small [OF True])
next
  case False
  define b :: byte where "b = of_nat (128 + n mod 128)"
  have b: "b AND 0x80 \<noteq> 0" "unat (b AND 0x7f) = n mod 128" using varint_byte(1,2) [of n] by (simp_all add: b_def)
  define r :: u32 where "r = ucast (b AND 0x7f)"
  have r: "unat r = n mod 128" using b(2) by (simp add: r_def unat_ucast_up)
  let ?s = "s\<lparr>in_source := Buffer (varint (n div 128) @ rs), bytes_left := bytes_left s - length [b]\<rparr>"
  have rd: "pb_readbyte s = (Some b, ?s)"
    using assms(2,3) False by (intro readsD [OF reads_byte]) (simp_all add: b_def varint_large)
  have "n div 128 * 2 ^ 7 \<le> n" by simp
  then have "n div 128 * 2 ^ 7 < 2 ^ 32" using assms(1) by linarith
  moreover have "unat r < 2 ^ 7" using r by simp
  ultimately obtain k' b' where l: "reads (varint32_loop r 7 :: (u32 \<times> nat \<times> byte, 's) pb_reader) (of_nat (n div 128 * 2 ^ 7 + unat r), k', b') (varint (n div 128))"
    and last: "k' = 35 \<longrightarrow> b' AND 0x70 = 0"
    using reads_varint32_loop [of "n div 128" 7 r] by auto
  have "n div 128 * 2 ^ 7 + unat r = n" using r by simp
  with l have l: "reads (varint32_loop r 7 :: (u32 \<times> nat \<times> byte, 's) pb_reader) (of_nat n, k', b') (varint (n div 128))" by (simp only:)
  have "varint32_loop r 7 ?s = (Some (of_nat n, k', b'),
      ?s\<lparr>in_source := Buffer rs, bytes_left := bytes_left ?s - length (varint (n div 128))\<rparr>)"
    using assms(2,3) False by (intro readsD [OF l]) (simp_all add: varint_large)
  with rd b(1) last show ?thesis
    unfolding pb_decode_varint32_eof_def using False by (auto simp: varint_large simp flip: r_def)
qed

lemma reads_varint32: "n < 2 ^ 32 \<Longrightarrow> reads pb_decode_varint32 (of_nat n) (varint n)"
  by (simp add: reads_def pb_decode_varint32_def varint32_eof)


section \<open>Signed and fixed-size numbers\<close>

definition zigzag :: "u64 \<Rightarrow> u64" where
  "zigzag v = (if sint v < 0 then NOT (push_bit 1 v) else push_bit 1 v)"

lemma push_bit_1_iff: "bit (push_bit 1 (v :: u64)) n \<longleftrightarrow> 0 < n \<and> n < 64 \<and> bit v (n - 1)"
  by (cases n) (auto simp: bit_push_bit_iff simp del: push_bit_Suc)

lemma zigzag_back:
  "(if zigzag v AND 1 \<noteq> 0 then NOT (drop_bit 1 (zigzag v)) else drop_bit 1 (zigzag v)) = v"
proof -
  have neg: "sint v < 0 \<longleftrightarrow> bit v 63" by (simp add: sint_uint bit_uint_iff signed_take_bit_negative_iff)
  have odd: "w AND 1 \<noteq> 0 \<longleftrightarrow> bit w 0" for w :: u64
    by (simp add: and_one_eq bit_0 even_iff_mod_2_eq_zero odd_iff_mod_2_eq_one)
  show ?thesis
  proof (cases "bit v 63")
    case True
    then have "zigzag v = NOT (push_bit 1 v)" by (simp add: zigzag_def neg)
    moreover have "NOT (drop_bit 1 (NOT (push_bit 1 v))) = v"
    proof (rule bit_word_eqI)
      fix n assume "n < LENGTH(64)"
      then have "n = 63 \<or> n < 63" by auto
      then show "bit (NOT (drop_bit 1 (NOT (push_bit 1 v)))) n = bit v n"
        using True by (simp only: bit_not_iff bit_drop_bit_eq push_bit_1_iff o_apply) auto
    qed
    moreover have "bit (NOT (push_bit 1 v)) 0" by (simp only: bit_not_iff push_bit_1_iff) simp
    ultimately show ?thesis by (simp only: odd if_True)
  next
    case False
    then have "zigzag v = push_bit 1 v" by (simp add: zigzag_def neg)
    moreover have "drop_bit 1 (push_bit 1 v) = v"
    proof (rule bit_word_eqI)
      fix n assume "n < LENGTH(64)"
      then have "n = 63 \<or> n < 63" by auto
      then show "bit (drop_bit 1 (push_bit 1 v)) n = bit v n"
        using False by (simp only: bit_drop_bit_eq push_bit_1_iff o_apply) auto
    qed
    moreover have "\<not> bit (push_bit 1 v) 0" by (simp only: push_bit_1_iff) simp
    ultimately show ?thesis by (simp only: odd if_False)
  qed
qed

lemma reads_svarint: "reads pb_decode_svarint v (varint (unat (zigzag v)))"
  unfolding pb_decode_svarint_def
  using reads_next_return [OF reads_varint [of "zigzag v"], of "\<lambda>z. if z AND 1 \<noteq> 0 then NOT (drop_bit 1 z) else drop_bit 1 z"]
  unfolding zigzag_back .

definition fixed32_bytes :: "u32 \<Rightarrow> bytes" where
  "fixed32_bytes v = map (\<lambda>i. ucast (drop_bit (8 * i) v AND 0xff)) [0..<4]"

definition fixed64_bytes :: "u64 \<Rightarrow> bytes" where
  "fixed64_bytes v = map (\<lambda>i. ucast (drop_bit (8 * i) v AND 0xff)) [0..<8]"

lemma length_fixed32_bytes: "length (fixed32_bytes v) = 4" and length_fixed64_bytes: "length (fixed64_bytes w) = 8"
  by (simp_all add: fixed32_bytes_def fixed64_bytes_def)

lemma bit_ff: "bit (0xff :: 'a::len word) n \<longleftrightarrow> n < 8 \<and> n < LENGTH('a)"
proof -
  have "(0xff :: 'a word) = mask 8" by (simp add: mask_numeral)
  then show ?thesis by (simp only: bit_mask_iff) auto
qed

lemma bit_byte_of: "bit (ucast (ucast (drop_bit k v AND 0xff :: 'a::len word) :: byte) :: 'a word) n \<longleftrightarrow> n < 8 \<and> n < LENGTH('a) \<and> bit v (k + n)"
proof -
  have "bit (drop_bit k v AND 0xff) n \<longleftrightarrow> bit v (k + n) \<and> n < 8 \<and> n < LENGTH('a)"
    by (simp only: bit_and_iff bit_ff bit_drop_bit_eq o_apply)
  then show ?thesis by (simp only: bit_ucast_iff) (auto dest: bit_imp_le_length)
qed

lemma bit_placed_byte:
  "bit (push_bit k (ucast (ucast (drop_bit k v AND 0xff :: 'a::len word) :: byte)) :: 'a word) n \<longleftrightarrow> k \<le> n \<and> n < k + 8 \<and> bit v n"
  by (auto simp: bit_push_bit_iff bit_byte_of dest: bit_imp_le_length)

lemma upt_4: "[0..<4] = [0, 1, 2, 3 :: nat]" and upt_8: "[0..<8] = [0, 1, 2, 3, 4, 5, 6, 7 :: nat]"
  by (simp_all add: upt_rec)

lemma reads_fixed32: "reads pb_decode_fixed32 v (fixed32_bytes v)"
proof -
  let ?b = "\<lambda>i. ucast (ucast (drop_bit i v AND 0xff) :: byte) :: u32"
  let ?f = "fixed32_bytes v"
  have nth: "?f ! 0 = ucast (drop_bit 0 v AND 0xff)"
      "?f ! 1 = ucast (drop_bit 8 v AND 0xff)"
      "?f ! 2 = ucast (drop_bit 16 v AND 0xff)"
      "?f ! 3 = ucast (drop_bit 24 v AND 0xff)"
    by (simp_all add: fixed32_bytes_def)
  have f: "reads pb_decode_fixed32 (push_bit 0 (ucast (?f ! 0)) OR push_bit 8 (ucast (?f ! 1)) OR push_bit 16 (ucast (?f ! 2)) OR push_bit 24 (ucast (?f ! 3))) ?f"
    unfolding pb_decode_fixed32_def by (intro reads_next_return reads_read' length_fixed32_bytes)
  have "reads pb_decode_fixed32 (push_bit 0 (?b 0) OR push_bit 8 (?b 8) OR push_bit 16 (?b 16) OR push_bit 24 (?b 24))
      (fixed32_bytes v)"
    using f unfolding nth .
  moreover have "push_bit 0 (?b 0) OR push_bit 8 (?b 8) OR push_bit 16 (?b 16) OR push_bit 24 (?b 24) = v" (is "?v = v")
  proof (rule bit_word_eqI)
    fix n assume "n < LENGTH(32)"
    then have "n < 32" by simp
    then show "bit ?v n = bit v n"
      unfolding bit_or_iff bit_placed_byte by (cases "bit v n"; simp only: simp_thms; linarith)
  qed
  ultimately show ?thesis by (simp only:)
qed

lemma reads_fixed64: "reads pb_decode_fixed64 v (fixed64_bytes v)"
proof -
  let ?b = "\<lambda>i. ucast (ucast (drop_bit i v AND 0xff) :: byte) :: u64"
  let ?v = "push_bit 0 (?b 0) OR push_bit 8 (?b 8) OR push_bit 16 (?b 16) OR push_bit 24 (?b 24) OR
      push_bit 32 (?b 32) OR push_bit 40 (?b 40) OR push_bit 48 (?b 48) OR push_bit 56 (?b 56)"
  let ?f = "fixed64_bytes v"
  have nth: "?f ! 0 = ucast (drop_bit 0 v AND 0xff)"
      "?f ! 1 = ucast (drop_bit 8 v AND 0xff)"
      "?f ! 2 = ucast (drop_bit 16 v AND 0xff)"
      "?f ! 3 = ucast (drop_bit 24 v AND 0xff)"
      "?f ! 4 = ucast (drop_bit 32 v AND 0xff)"
      "?f ! 5 = ucast (drop_bit 40 v AND 0xff)"
      "?f ! 6 = ucast (drop_bit 48 v AND 0xff)"
      "?f ! 7 = ucast (drop_bit 56 v AND 0xff)"
    by (simp_all add: fixed64_bytes_def)
  have f: "reads pb_decode_fixed64 (push_bit 0 (ucast (?f ! 0)) OR push_bit 8 (ucast (?f ! 1)) OR push_bit 16 (ucast (?f ! 2)) OR push_bit 24 (ucast (?f ! 3)) OR push_bit 32 (ucast (?f ! 4)) OR push_bit 40 (ucast (?f ! 5)) OR push_bit 48 (ucast (?f ! 6)) OR push_bit 56 (ucast (?f ! 7))) ?f"
    unfolding pb_decode_fixed64_def by (intro reads_next_return reads_read' length_fixed64_bytes)
  have "reads pb_decode_fixed64 ?v (fixed64_bytes v)"
    using f unfolding nth .
  moreover have "?v = v"
  proof (rule bit_word_eqI)
    fix n assume "n < LENGTH(64)"
    then have "n < 64" by simp
    then show "bit ?v n = bit v n"
      unfolding bit_or_iff bit_placed_byte by (cases "bit v n"; simp only: simp_thms; linarith)
  qed
  ultimately show ?thesis by (simp only:)
qed

section \<open>Writing exactly an encoding\<close>

text \<open>
  \<open>w\<close> writes \<open>bs\<close> when there is room for it, fails when there is none, and counts it on a sizing
  stream.
\<close>

definition emits :: "'s pb_writer \<Rightarrow> bytes \<Rightarrow> bool" where
  "emits w bs \<longleftrightarrow> (\<forall>s ds.
     (out_sink s = Sizing \<longrightarrow> bytes_written s + length bs < 2 ^ 64 \<longrightarrow>
        w s = (True, s\<lparr>bytes_written := bytes_written s + length bs\<rparr>)) \<and>
     (out_sink s = Written ds \<longrightarrow> bytes_written s + length bs \<le> max_size s \<longrightarrow> max_size s < 2 ^ 64 \<longrightarrow>
        w s = (True, s\<lparr>out_sink := Written (ds @ bs), bytes_written := bytes_written s + length bs\<rparr>)) \<and>
     (out_sink s = Written ds \<longrightarrow> bytes_written s \<le> max_size s \<longrightarrow> max_size s < bytes_written s + length bs \<longrightarrow>
        max_size s < 2 ^ 64 \<longrightarrow> length bs < 2 ^ 64 \<longrightarrow> \<not> fst (w s)))"

lemma emitsI:
  assumes "\<And>s. out_sink s = Sizing \<Longrightarrow> bytes_written s + length bs < 2 ^ 64 \<Longrightarrow>
      w s = (True, s\<lparr>bytes_written := bytes_written s + length bs\<rparr>)"
    and "\<And>s ds. out_sink s = Written ds \<Longrightarrow> bytes_written s + length bs \<le> max_size s \<Longrightarrow> max_size s < 2 ^ 64 \<Longrightarrow>
      w s = (True, s\<lparr>out_sink := Written (ds @ bs), bytes_written := bytes_written s + length bs\<rparr>)"
    and "\<And>s ds. out_sink s = Written ds \<Longrightarrow> bytes_written s \<le> max_size s \<Longrightarrow> max_size s < bytes_written s + length bs \<Longrightarrow>
      max_size s < 2 ^ 64 \<Longrightarrow> length bs < 2 ^ 64 \<Longrightarrow> \<not> fst (w s)"
  shows "emits w bs"
  unfolding emits_def using assms by blast

lemma emits_sizing:
  "emits w bs \<Longrightarrow> out_sink s = Sizing \<Longrightarrow> bytes_written s + length bs < 2 ^ 64 \<Longrightarrow>
     w s = (True, s\<lparr>bytes_written := bytes_written s + length bs\<rparr>)"
  by (simp add: emits_def)

lemma emits_written:
  "emits w bs \<Longrightarrow> out_sink s = Written ds \<Longrightarrow> bytes_written s + length bs \<le> max_size s \<Longrightarrow> max_size s < 2 ^ 64 \<Longrightarrow>
     w s = (True, s\<lparr>out_sink := Written (ds @ bs), bytes_written := bytes_written s + length bs\<rparr>)"
  by (simp add: emits_def)

lemma emits_full:
  "emits w bs \<Longrightarrow> out_sink s = Written ds \<Longrightarrow> bytes_written s \<le> max_size s \<Longrightarrow> max_size s < bytes_written s + length bs \<Longrightarrow>
     max_size s < 2 ^ 64 \<Longrightarrow> length bs < 2 ^ 64 \<Longrightarrow> \<not> fst (w s)"
  by (simp add: emits_def)

lemma size_add_wraps: "a < 2 ^ 64 \<Longrightarrow> b < 2 ^ 64 \<Longrightarrow> 2 ^ 64 \<le> a + b \<Longrightarrow> 0 < b \<Longrightarrow> size_add a b < a"
proof -
  assume h: "a < 2 ^ 64" "b < 2 ^ 64" "2 ^ 64 \<le> a + b" "0 < b"
  have "a + b - 2 ^ 64 < 2 ^ 64" using h by linarith
  then have "(a + b) mod 2 ^ 64 = a + b - 2 ^ 64" using h(3) by (simp only: le_mod_geq mod_less)
  then show "size_add a b < a" using h by (simp only: size_add_def)
qed

lemma emits_pb_write: "emits (pb_write bs (length bs)) bs"
proof (rule emitsI)
  fix s :: "'a pb_ostream" and ds
  assume s: "out_sink s = Written ds" "bytes_written s \<le> max_size s" "max_size s < bytes_written s + length bs"
    "max_size s < 2 ^ 64" "length bs < 2 ^ 64"
  have "size_add (bytes_written s) (length bs) < bytes_written s \<or> size_add (bytes_written s) (length bs) > max_size s"
  proof (cases "bytes_written s + length bs < 2 ^ 64")
    case True
    then have "size_add (bytes_written s) (length bs) = bytes_written s + length bs"
      unfolding size_add_def by (rule mod_less)
    with s(3) show ?thesis by simp
  next
    case False
    then show ?thesis using s by (intro disjI1 size_add_wraps) linarith+
  qed
  then show "\<not> fst (pb_write bs (length bs) s)" using s(1-3) by (auto simp: pb_write_def)
qed (auto simp: pb_write_def size_add_def call_sink_def buf_write_def)

lemma emits_pb_write': "length bs = n \<Longrightarrow> emits (pb_write bs n) bs"
  using emits_pb_write by blast

lemma emits_next:
  assumes "emits w1 bs" and "emits w2 cs"
  shows "emits (next_write w1 w2) (bs @ cs)"
proof (rule emitsI)
  fix s :: "'a pb_ostream" and ds
  assume s: "out_sink s = Sizing" "bytes_written s + length (bs @ cs) < 2 ^ 64"
  show "next_write w1 w2 s = (True, s\<lparr>bytes_written := bytes_written s + length (bs @ cs)\<rparr>)"
    using s emits_sizing [OF assms(1), of s] emits_sizing [OF assms(2), of "s\<lparr>bytes_written := bytes_written s + length bs\<rparr>"]
    by (simp add: next_write_def add.assoc)
next
  fix s :: "'a pb_ostream" and ds
  assume s: "out_sink s = Written ds" "bytes_written s + length (bs @ cs) \<le> max_size s" "max_size s < 2 ^ 64"
  show "next_write w1 w2 s = (True, s\<lparr>out_sink := Written (ds @ bs @ cs), bytes_written := bytes_written s + length (bs @ cs)\<rparr>)"
    using s emits_written [OF assms(1), of s]
      emits_written [OF assms(2), of "s\<lparr>out_sink := Written (ds @ bs), bytes_written := bytes_written s + length bs\<rparr>"]
    by (simp add: next_write_def add.assoc)
next
  fix s :: "'a pb_ostream" and ds
  assume s: "out_sink s = Written ds" "bytes_written s \<le> max_size s" "max_size s < bytes_written s + length (bs @ cs)"
    "max_size s < 2 ^ 64" "length (bs @ cs) < 2 ^ 64"
  show "\<not> fst (next_write w1 w2 s)"
  proof (cases "bytes_written s + length bs \<le> max_size s")
    case True
    then show ?thesis
      using s emits_written [OF assms(1), of s]
        emits_full [OF assms(2), of "s\<lparr>out_sink := Written (ds @ bs), bytes_written := bytes_written s + length bs\<rparr>"]
      by (simp add: next_write_def add.assoc)
  next
    case False
    then have "\<not> fst (w1 s)" using s by (intro emits_full [OF assms(1)]) auto
    then show ?thesis by (auto simp: next_write_def split: prod.splits bool.splits)
  qed
qed

definition clear_last :: "bytes \<Rightarrow> bytes" where
  "clear_last b = b[length b - 1 := b ! (length b - 1) AND 0x7f]"

lemma length_clear_last: "length (clear_last b) = length b"
  by (simp add: clear_last_def)

lemma clear_last_Cons: "bs \<noteq> [] \<Longrightarrow> clear_last (b # bs) = b # clear_last bs"
  by (cases bs) (simp_all add: clear_last_def)

lemma varint_digits_eq:
  "0 < n \<Longrightarrow> n < 2 ^ 64 \<Longrightarrow> clear_last (varint_digits (of_nat n)) = varint n \<and> varint_digits (of_nat n) \<noteq> []"
proof (induction n rule: varint.induct)
  case (1 n)
  define v :: u64 where "v = of_nat n"
  have u: "unat v = n" using 1(3) by (simp add: v_def unat_of_nat take_bit_nat_eq_self)
  then have v0: "v \<noteq> 0" using 1(2) by auto
  define d :: byte where "d = ucast ((v AND 0x7f) OR 0x80)"
  have d: "varint_digits v = d # varint_digits (drop_bit 7 v)"
    using v0 by (subst varint_digits.simps) (simp add: d_def)
  have nxt: "drop_bit 7 v = of_nat (n div 128)"
    by (rule of_nat_eqI) (simp add: unat_drop_bit u)
  have low: "unat (ucast v AND 0x7f :: byte) = n mod 128"
    by (simp only: low_bits_byte unat_ucast u) (simp add: mod_mod_cancel)
  have dv: "d = 0x80 OR (ucast v AND 0x7f)"
    by (rule bit_word_eqI) (auto simp: d_def bit_simps)
  have ud: "unat d = 128 + n mod 128"
    unfolding dv using low by (subst unat_high_bit_or) simp_all
  then have lo: "unat (d AND 0x7f) = n mod 128" by (simp add: low_bits_byte)
  show ?case
  proof (cases "n < 128")
    case True
    have "drop_bit 7 v = 0" using nxt True by simp
    then have one: "varint_digits v = [d]" using d by (subst (asm) (2) varint_digits.simps) simp
    have "d AND 0x7f = of_nat n" using lo True by (intro of_nat_eqI) simp
    then show ?thesis using one True by (simp add: clear_last_def varint_small flip: v_def)
  next
    case False
    have "d = of_nat (128 + n mod 128)" using ud by (intro of_nat_eqI)
    then show ?thesis
      using 1(1) [OF False] 1(3) False d nxt by (simp add: clear_last_Cons varint_large flip: v_def del: of_nat_add)
  qed
qed

lemma emits_varint: "emits (pb_encode_varint v) (varint (unat v))"
proof (cases "v \<le> 0x7f")
  case True
  then have n: "unat v < 128" by (simp add: word_le_nat_alt)
  have "ucast v = (of_nat (unat v) :: byte)" by simp
  then have "varint (unat v) = [ucast v]" by (simp only: varint_small [OF n])
  then show ?thesis using True emits_pb_write [of "[ucast v]"] by (simp add: pb_encode_varint_def)
next
  case False
  then have "0 < unat v" by (simp add: word_le_nat_alt)
  moreover have "unat v < 2 ^ 64" using unsigned_less [of v, where 'a = nat] by simp
  ultimately have "clear_last (varint_digits v) = varint (unat v)"
    using varint_digits_eq [of "unat v"] by simp
  then show ?thesis
    using False emits_pb_write' [OF length_clear_last [of "varint_digits v"]]
    by (simp add: pb_encode_varint_def clear_last_def Let_def)
qed

lemma emits_svarint: "emits (pb_encode_svarint v) (varint (unat (zigzag v)))"
  using emits_varint [of "zigzag v"] by (simp only: pb_encode_svarint_def zigzag_def)

lemma emits_fixed32: "emits (pb_encode_fixed32 v) (fixed32_bytes v)"
  using emits_pb_write' [OF length_fixed32_bytes [of v]]
  by (simp add: pb_encode_fixed32_def fixed32_bytes_def upt_4)

lemma emits_fixed64: "emits (pb_encode_fixed64 v) (fixed64_bytes v)"
  using emits_pb_write' [OF length_fixed64_bytes [of v]]
  by (simp add: pb_encode_fixed64_def fixed64_bytes_def upt_8)

lemma emits_string:
  assumes "length bs < 2 ^ 64"
  shows "emits (pb_encode_string bs (length bs)) (varint (length bs) @ bs)"
proof -
  have "unat (of_nat (length bs) :: u64) = length bs"
    using assms by (simp add: unat_of_nat take_bit_nat_eq_self)
  then show ?thesis
    unfolding pb_encode_string_def
    using emits_next [OF emits_varint [of "of_nat (length bs)"] emits_pb_write [of bs]] by simp
qed

section \<open>Tags and strings\<close>

definition wire_ok :: "pb_wire_type \<Rightarrow> bool" where
  "wire_ok wt = (case wt of PB_WT_other n \<Rightarrow> n \<in> {3, 4, 6, 7} | _ \<Rightarrow> True)"

text \<open>A field's tag: its number takes 29 bits and is not zero.\<close>

definition tag_ok :: "pb_wire_type \<times> u32 \<Rightarrow> bool" where
  "tag_ok t = (wire_ok (fst t) \<and> 0 < unat (snd t) \<and> unat (snd t) < 2 ^ 29)"

definition tag_number :: "pb_wire_type \<times> u32 \<Rightarrow> nat" where
  "tag_number t = unat (snd t) * 8 + unat (wire_number (fst t))"

definition decode_tag :: "(pb_wire_type \<times> u32, 's) pb_reader" where
  "decode_tag s = (case pb_decode_tag s of (r, _, s') \<Rightarrow> (r, s'))"

lemma wire_number_less: "wire_ok wt \<Longrightarrow> unat (wire_number wt) < 8"
  by (auto simp: wire_ok_def wire_number_def split: pb_wire_type.splits)

lemma wire_number_back: "wire_ok wt \<Longrightarrow> wire_type_of (of_nat (unat (wire_number wt))) = wt"
  by (auto simp: wire_ok_def wire_number_def wire_type_of_def split: pb_wire_type.splits)

lemma unat_encoded_tag:
  assumes "tag_ok (wt, f)"
  shows "unat (push_bit 3 (ucast f) OR wire_number wt) = tag_number (wt, f)"
proof -
  have f: "unat (ucast f :: u64) = unat f" by (rule unat_ucast_up) simp
  have "unat (push_bit 3 (ucast f) OR wire_number wt) = unat (ucast f :: u64) * 2 ^ 3 + unat (wire_number wt)"
    using assms wire_number_less [of wt] f by (intro unat_push_bit_or) (simp_all add: tag_ok_def)
  then show ?thesis by (simp add: tag_number_def f)
qed

lemma emits_tag: "tag_ok (wt, f) \<Longrightarrow> emits (pb_encode_tag wt f) (varint (tag_number (wt, f)))"
  using emits_varint [of "push_bit 3 (ucast f) OR wire_number wt"]
  by (simp only: pb_encode_tag_def unat_encoded_tag)

lemma reads_tag:
  assumes "tag_ok (wt, f)"
  shows "reads decode_tag (wt, f) (varint (tag_number (wt, f)))"
proof -
  define n where "n = tag_number (wt, f)"
  have w: "unat (wire_number wt) < 8" using assms by (simp add: tag_ok_def wire_number_less)
  have n: "n = unat f * 8 + unat (wire_number wt)" by (simp add: n_def tag_number_def)
  have lt: "n < 2 ^ 32" "0 < n" using assms w n by (simp_all add: tag_ok_def)
  define v :: u32 where "v = of_nat n"
  have u: "unat v = n" using lt(1) by (simp add: v_def unat_of_nat take_bit_nat_eq_self)
  have v0: "v \<noteq> 0" using u lt(2) by auto
  have "unat (v AND 7) = unat (wire_number wt)"
    using unat_and_mask [of v 3] w by (simp add: mask_numeral u n)
  then have "v AND 7 = of_nat (unat (wire_number wt))" by (rule of_nat_eqI)
  then have wt: "wire_type_of (v AND 7) = wt" using wire_number_back assms by (simp add: tag_ok_def)
  have "unat (drop_bit 3 v) = unat f" using w by (simp add: unat_drop_bit u n)
  then have f: "drop_bit 3 v = f" by (simp add: word_unat_eq_iff)
  show ?thesis unfolding reads_def
  proof (intro allI impI)
    fix s :: "'a pb_istream" and rs
    assume s: "in_source s = Buffer (varint (tag_number (wt, f)) @ rs)" "length (varint (tag_number (wt, f))) \<le> bytes_left s"
    show "decode_tag s = (Some (wt, f), s\<lparr>in_source := Buffer rs, bytes_left := bytes_left s - length (varint (tag_number (wt, f)))\<rparr>)"
      unfolding decode_tag_def pb_decode_tag_def varint32_eof [OF lt(1) s [folded n_def]]
      using wt f v0 by (simp flip: v_def n_def)
  qed
qed

text \<open>A string that is read through a substream: its bytes, and the parent right behind it.\<close>

definition decode_string :: "(bytes, 's) pb_reader" where
  "decode_string =
     next_read pb_make_string_substream
       (\<lambda>sub s. case pb_read True (bytes_left sub) sub of
          (None, _) \<Rightarrow> (None, s)
        | (Some data, sub') \<Rightarrow> next_read (pb_close_string_substream sub') (\<lambda>_ s. (Some data, s)) s)"

lemma reads_string:
  assumes "length bs < 2 ^ 32"
  shows "reads decode_string bs (varint (length bs) @ bs)"
  unfolding reads_def
proof (intro allI impI)
  fix s :: "'a pb_istream" and rs
  assume s: "in_source s = Buffer ((varint (length bs) @ bs) @ rs)" "length (varint (length bs) @ bs) \<le> bytes_left s"
  let ?n = "of_nat (length bs) :: u32"
  have u: "unat ?n = length bs" using assms by (simp add: unat_of_nat take_bit_nat_eq_self)
  let ?s = "s\<lparr>in_source := Buffer (bs @ rs), bytes_left := bytes_left s - length (varint (length bs))\<rparr>"
  let ?sub = "?s\<lparr>bytes_left := length bs\<rparr>"
  have "pb_decode_varint32 s = (Some ?n, ?s)"
    using s by (intro readsD [OF reads_varint32 [OF assms]]) simp_all
  then have mk: "pb_make_string_substream s = (Some ?sub, ?s\<lparr>bytes_left := bytes_left ?s - length bs\<rparr>)"
    using s(2) u by (simp add: pb_make_string_substream_def next_read_def)
  have "pb_read True (length bs) ?sub = (Some bs, ?sub\<lparr>in_source := Buffer rs, bytes_left := bytes_left ?sub - length bs\<rparr>)"
    by (rule readsD [OF reads_read]) simp_all
  with mk show "decode_string s = (Some bs, s\<lparr>in_source := Buffer rs, bytes_left := bytes_left s - length (varint (length bs) @ bs)\<rparr>)"
    by (simp add: decode_string_def next_read_def pb_close_string_substream_def)
qed

end
