(* ===== verification/Pb_Props.thy ===== *)
theory Pb_Props
  imports Pb_Codec
begin

text \<open>
  Sequences of items on nanopb streams: the contract that every pair of a writer and a reader keeps,
  skipping, the window of an input stream and the buffer of an output stream, and the properties.
\<close>

section \<open>The contract of a writer and its reader\<close>

text \<open>\<open>rd (kind x)\<close> reads what \<open>wr x\<close> writes, the bytes \<open>enc x\<close>.\<close>

locale pb_codec =
  fixes wr :: "'x \<Rightarrow> 's pb_writer"
    and rd :: "'k \<Rightarrow> ('x, 't) pb_reader"
    and kind :: "'x \<Rightarrow> 'k"
    and enc :: "'x \<Rightarrow> bytes"
    and ok :: "'x \<Rightarrow> bool"
  assumes wr_emits: "ok x \<Longrightarrow> emits (wr x) (enc x)"
    and rd_reads: "ok x \<Longrightarrow> reads (rd (kind x)) x (enc x)"
begin

primrec wr_all :: "'x list \<Rightarrow> 's pb_writer" where
  "wr_all [] = (\<lambda>s. (True, s))"
| "wr_all (x # xs) = next_write (wr x) (wr_all xs)"

primrec rd_all :: "'k list \<Rightarrow> ('x list, 't) pb_reader" where
  "rd_all [] = (\<lambda>s. (Some [], s))"
| "rd_all (k # ks) = next_read (rd k) (\<lambda>x. next_read (rd_all ks) (\<lambda>xs s. (Some (x # xs), s)))"

lemma wr_all_emits: "list_all ok xs \<Longrightarrow> emits (wr_all xs) (concat (map enc xs))"
proof (induction xs)
  case Nil
  show ?case by (auto intro!: emitsI)
next
  case (Cons x xs)
  then show ?case by (simp add: emits_next wr_emits)
qed

lemma rd_all_reads: "list_all ok xs \<Longrightarrow> reads (rd_all (map kind xs)) xs (concat (map enc xs))"
proof (induction xs)
  case Nil
  show ?case by (simp add: reads_return)
next
  case (Cons x xs)
  then have "reads (next_read (rd_all (map kind xs)) (\<lambda>xs s. (Some (x # xs), s))) (x # xs) (concat (map enc xs))"
    by (intro reads_next_return) simp_all
  moreover have "reads (rd (kind x)) x (enc x)" using Cons.prems by (simp add: rd_reads)
  ultimately show ?case by (simp add: reads_next)
qed

lemma roundtrip:
  assumes "list_all ok xs" and "length (concat (map enc xs)) \<le> n" and "n < 2 ^ 64"
  shows "\<exists>s. wr_all xs (pb_ostream_from_buffer n) = (True, s) \<and> out_sink s = Written (concat (map enc xs)) \<and>
    bytes_written s = length (concat (map enc xs))"
  using emits_written [OF wr_all_emits [OF assms(1)], of "pb_ostream_from_buffer n" "[]"] assms(2,3)
  by (simp add: pb_ostream_from_buffer_def)

lemma read_back:
  assumes "list_all ok xs"
  shows "rd_all (map kind xs) (pb_istream_from_buffer (concat (map enc xs) @ rest) (length (concat (map enc xs)) + m)) =
    (Some xs, pb_istream_from_buffer rest m)"
  using readsD [OF rd_all_reads [OF assms],
      of "pb_istream_from_buffer (concat (map enc xs) @ rest) (length (concat (map enc xs)) + m)" rest]
  by (simp add: pb_istream_from_buffer_def)

lemma sizing:
  assumes "list_all ok xs" and "length (concat (map enc xs)) < 2 ^ 64"
  shows "wr_all xs PB_OSTREAM_SIZING = (True, PB_OSTREAM_SIZING\<lparr>bytes_written := length (concat (map enc xs))\<rparr>)"
  using emits_sizing [OF wr_all_emits [OF assms(1)], of PB_OSTREAM_SIZING] assms(2)
  by (simp add: PB_OSTREAM_SIZING_def)

lemma too_long:
  assumes "list_all ok xs" and "n < length (concat (map enc xs))" and "length (concat (map enc xs)) < 2 ^ 64"
  shows "\<not> fst (wr_all xs (pb_ostream_from_buffer n))"
  using emits_full [OF wr_all_emits [OF assms(1)], of "pb_ostream_from_buffer n" "[]"] assms(2,3)
  by (simp add: pb_ostream_from_buffer_def)

end

section \<open>The items of a message\<close>

datatype pb_item = Varint u64 | Svarint u64 | Fixed32 u32 | Fixed64 u64 | Tag pb_wire_type u32 | String bytes

datatype pb_kind = Varint_kind | Svarint_kind | Fixed32_kind | Fixed64_kind | Tag_kind | String_kind

fun item_kind :: "pb_item \<Rightarrow> pb_kind" where
  "item_kind (Varint _) = Varint_kind"
| "item_kind (Svarint _) = Svarint_kind"
| "item_kind (Fixed32 _) = Fixed32_kind"
| "item_kind (Fixed64 _) = Fixed64_kind"
| "item_kind (Tag _ _) = Tag_kind"
| "item_kind (String _) = String_kind"

fun write_item :: "pb_item \<Rightarrow> 's pb_writer" where
  "write_item (Varint v) = pb_encode_varint v"
| "write_item (Svarint v) = pb_encode_svarint v"
| "write_item (Fixed32 v) = pb_encode_fixed32 v"
| "write_item (Fixed64 v) = pb_encode_fixed64 v"
| "write_item (Tag wt f) = pb_encode_tag wt f"
| "write_item (String bs) = pb_encode_string bs (length bs)"

definition fmap_read :: "('a \<Rightarrow> 'b) \<Rightarrow> ('a, 's) pb_reader \<Rightarrow> ('b, 's) pb_reader" where
  "fmap_read f r = next_read r (\<lambda>x s. (Some (f x), s))"

fun read_item :: "pb_kind \<Rightarrow> (pb_item, 's) pb_reader" where
  "read_item Varint_kind = fmap_read Varint pb_decode_varint"
| "read_item Svarint_kind = fmap_read Svarint pb_decode_svarint"
| "read_item Fixed32_kind = fmap_read Fixed32 pb_decode_fixed32"
| "read_item Fixed64_kind = fmap_read Fixed64 pb_decode_fixed64"
| "read_item Tag_kind = fmap_read (\<lambda>(wt, f). Tag wt f) decode_tag"
| "read_item String_kind = fmap_read String decode_string"

fun item_bytes :: "pb_item \<Rightarrow> bytes" where
  "item_bytes (Varint v) = varint (unat v)"
| "item_bytes (Svarint v) = varint (unat (zigzag v))"
| "item_bytes (Fixed32 v) = fixed32_bytes v"
| "item_bytes (Fixed64 v) = fixed64_bytes v"
| "item_bytes (Tag wt f) = varint (tag_number (wt, f))"
| "item_bytes (String bs) = varint (length bs) @ bs"

text \<open>A tag has a field number of 29 bits that is not zero; a string is shorter than \<open>2 ^ 32\<close>.\<close>

fun item_ok :: "pb_item \<Rightarrow> bool" where
  "item_ok (Tag wt f) = tag_ok (wt, f)"
| "item_ok (String bs) = (length bs < 2 ^ 32)"
| "item_ok _ = True"

lemma write_item_emits:
  assumes "item_ok x"
  shows "emits (write_item x) (item_bytes x)"
proof (cases x)
  case (String bs)
  then have "length bs < 2 ^ 64" using assms power_strict_increasing [of 32 64 "2 :: nat"] by simp
  with String show ?thesis by (simp add: emits_string)
qed (use assms in \<open>simp_all add: emits_varint emits_svarint emits_fixed32 emits_fixed64 emits_tag\<close>)

lemma read_item_reads: "item_ok x \<Longrightarrow> reads (read_item (item_kind x)) x (item_bytes x)"
proof (cases x)
  case (Tag wt f)
  assume "item_ok x"
  then show ?thesis using Tag reads_next_return [OF reads_tag [of wt f], of "\<lambda>(wt, f). Tag wt f"]
    by (simp add: fmap_read_def)
next
  case (String bs)
  assume "item_ok x"
  then have "length bs < 2 ^ 32" using String by simp
  then show ?thesis using String reads_next_return [OF reads_string [of bs], of String]
    by (simp add: fmap_read_def)
qed (auto simp: fmap_read_def intro: reads_next_return reads_varint reads_svarint reads_fixed32 reads_fixed64)

interpretation items: pb_codec write_item read_item item_kind item_bytes item_ok
  by unfold_locales (rule write_item_emits read_item_reads; assumption)+

primrec write_items :: "pb_item list \<Rightarrow> 's pb_writer" where
  "write_items [] = (\<lambda>s. (True, s))"
| "write_items (x # xs) = next_write (write_item x) (write_items xs)"

primrec read_items :: "pb_kind list \<Rightarrow> (pb_item list, 's) pb_reader" where
  "read_items [] = (\<lambda>s. (Some [], s))"
| "read_items (k # ks) = next_read (read_item k) (\<lambda>x. next_read (read_items ks) (\<lambda>xs s. (Some (x # xs), s)))"

lemma write_items_eq: "items.wr_all = write_items"
proof
  fix xs show "items.wr_all xs = write_items xs" by (induction xs) simp_all
qed

lemma read_items_eq: "items.rd_all = read_items"
proof
  fix ks show "items.rd_all ks = read_items ks" by (induction ks) simp_all
qed

section \<open>Skipping\<close>

lemma pb_skip_varint_next:
  "pb_skip_varint = next_read (pb_read True 1) (\<lambda>d. if d ! 0 AND 0x80 \<noteq> 0 then pb_skip_varint else (\<lambda>s. (Some (), s)))"
proof
  fix s :: "'s pb_istream"
  show "pb_skip_varint s = next_read (pb_read True 1) (\<lambda>d. if d ! 0 AND 0x80 \<noteq> 0 then pb_skip_varint else (\<lambda>s. (Some (), s))) s"
    by (subst pb_skip_varint.simps) (simp add: next_read_def split: prod.split option.split)
qed

lemma reads_read_1: "reads (f [b]) y cs \<Longrightarrow> reads (next_read (pb_read wanted 1) f) y (b # cs)"
proof -
  assume "reads (f [b]) y cs"
  moreover have "reads (pb_read wanted 1) [b] [b]" by (rule reads_read') simp
  ultimately show ?thesis using reads_next [of "pb_read wanted 1" "[b]" "[b]" f y cs] by simp
qed

lemma reads_skip_varint: "reads pb_skip_varint () (varint n)"
proof (induction n rule: varint.induct)
  case (1 n)
  show ?case
  proof (cases "n < 128")
    case True
    show ?thesis
      unfolding varint_small [OF True] using varint_byte(3) [OF True]
      by (subst pb_skip_varint_next) (intro reads_read_1, simp add: reads_return)
  next
    case False
    show ?thesis
      unfolding varint_large [OF leI [OF False]] using varint_byte(1) [of n] 1 [OF False]
      by (subst pb_skip_varint_next) (intro reads_read_1, simp del: of_nat_add)
  qed
qed

lemma reads_skip: "length bs = n \<Longrightarrow> reads (next_read (pb_read wanted n) (\<lambda>_ s. (Some (), s))) () bs"
  by (rule reads_next_return [OF reads_read'])

text \<open>The wire type of an item's encoding; a tag is skipped like the varint it is.\<close>

fun item_wire :: "pb_item \<Rightarrow> pb_wire_type" where
  "item_wire (Varint _) = PB_WT_VARINT"
| "item_wire (Svarint _) = PB_WT_VARINT"
| "item_wire (Fixed32 _) = PB_WT_32BIT"
| "item_wire (Fixed64 _) = PB_WT_64BIT"
| "item_wire (Tag _ _) = PB_WT_VARINT"
| "item_wire (String _) = PB_WT_STRING"

lemma reads_skip_string:
  assumes "length bs < 2 ^ 32"
  shows "reads pb_skip_string () (varint (length bs) @ bs)"
proof -
  have "unat (of_nat (length bs) :: u32) = length bs" using assms by (simp add: unat_of_nat take_bit_nat_eq_self)
  then show ?thesis unfolding pb_skip_string_def
    by (intro reads_next [OF reads_varint32 [OF assms]]) (simp add: reads_skip)
qed

lemma reads_skip_field: "item_ok x \<Longrightarrow> reads (pb_skip_field (item_wire x)) () (item_bytes x)"
  by (cases x) (simp_all add: pb_skip_field_def reads_skip_varint reads_skip_string reads_skip length_fixed32_bytes length_fixed64_bytes)

section \<open>The window of an input stream\<close>

text \<open>
  From a stream over a buffer to a later one: some of its bytes have been consumed and are no longer
  counted as left, and nothing else of the buffer was touched.
\<close>

definition advances :: "'s pb_istream \<Rightarrow> 's pb_istream \<Rightarrow> bool" where
  "advances s s' \<longleftrightarrow> (\<forall>bs. in_source s = Buffer bs \<longrightarrow>
     (\<exists>k \<le> bytes_left s. in_source s' = Buffer (drop k bs) \<and> bytes_left s' = bytes_left s - k))"

lemma advances_refl [simp]: "advances s s"
  by (auto simp: advances_def intro: exI [of _ 0])

lemma advances_trans: "advances s s' \<Longrightarrow> advances s' s'' \<Longrightarrow> advances s s''"
  unfolding advances_def
proof (intro allI impI)
  fix bs
  assume a: "\<forall>bs. in_source s = Buffer bs \<longrightarrow> (\<exists>k\<le>bytes_left s. in_source s' = Buffer (drop k bs) \<and> bytes_left s' = bytes_left s - k)"
    "\<forall>bs. in_source s' = Buffer bs \<longrightarrow> (\<exists>k\<le>bytes_left s'. in_source s'' = Buffer (drop k bs) \<and> bytes_left s'' = bytes_left s' - k)"
    "in_source s = Buffer bs"
  then obtain k where k: "k \<le> bytes_left s" "in_source s' = Buffer (drop k bs)" "bytes_left s' = bytes_left s - k" by blast
  with a(2) obtain l where "l \<le> bytes_left s'" "in_source s'' = Buffer (drop l (drop k bs))" "bytes_left s'' = bytes_left s' - l"
    by blast
  with k show "\<exists>k\<le>bytes_left s. in_source s'' = Buffer (drop k bs) \<and> bytes_left s'' = bytes_left s - k"
    by (intro exI [of _ "k + l"]) (auto simp: add.commute)
qed

lemma advances_set_error [simp]: "advances s (in_set_error m s') = advances s s'"
  by (simp add: advances_def in_set_error_def)

definition in_window :: "('a, 's) pb_reader \<Rightarrow> bool" where
  "in_window r \<longleftrightarrow> (\<forall>s. advances s (snd (r s)))"

lemma in_window_next:
  assumes "in_window r" and "\<And>x. in_window (f x)"
  shows "in_window (next_read r f)"
  unfolding in_window_def
proof
  fix s :: "'a pb_istream"
  obtain v s' where r: "r s = (v, s')" by fastforce
  then have a: "advances s s'" using assms(1) by (metis in_window_def snd_conv)
  show "advances s (snd (next_read r f s))"
  proof (cases v)
    case (Some x)
    have "advances s' (snd (f x s'))" using assms(2) by (simp add: in_window_def)
    with a show ?thesis using r Some by (auto simp: next_read_def intro: advances_trans)
  qed (use r a in \<open>simp add: next_read_def\<close>)
qed

lemma in_window_return [simp]: "in_window (\<lambda>s. (v, s))" "in_window (\<lambda>s. (v, in_set_error m s))"
  by (simp_all add: in_window_def)

lemma in_windowD: "in_window r \<Longrightarrow> r s = (v, s') \<Longrightarrow> advances s s'"
  unfolding in_window_def by (metis snd_conv)

lemma advance_by: "n \<le> l \<Longrightarrow> \<exists>k\<le>l. drop n bs = drop k bs \<and> l - n = l - k"
  by blast

lemma in_window_chunk [simp]: "in_window (pb_read_chunk wanted n)"
  unfolding in_window_def pb_read_chunk_def
  by (auto simp: call_source_def advances_def in_set_error_def buf_read_def intro!: advance_by split: source.splits prod.splits bool.splits)

lemma in_window_readbyte [simp]: "in_window pb_readbyte"
  unfolding in_window_def pb_readbyte_def
  by (auto simp: call_source_def advances_def in_set_error_def buf_read_def intro!: advance_by split: source.splits prod.splits bool.splits)

lemma in_window_skip_chunks: "advances s (snd (pb_skip_chunks n s))"
proof (induction n s rule: pb_skip_chunks.induct)
  case (1 n s)
  show ?case
  proof (cases "n > 16")
    case True
    obtain v s' where r: "pb_read_chunk True 16 s = (v, s')" by fastforce
    have "advances s s'" by (rule in_windowD [OF in_window_chunk r])
    with 1 [OF True] r show ?thesis
      using True by (subst pb_skip_chunks.simps) (auto simp: next_read_def split: option.splits intro: advances_trans)
  next
    case False
    moreover have "advances s (snd (pb_read_chunk True n s))" by (rule in_window_chunk [unfolded in_window_def, rule_format])
    ultimately show ?thesis by (subst pb_skip_chunks.simps) simp
  qed
qed

lemma in_window_read [simp]: "in_window (pb_read wanted n)"
  unfolding in_window_def pb_read_def
  by (auto simp: in_window_skip_chunks in_window_chunk [unfolded in_window_def, rule_format])

lemma in_window_varint32_loop: "advances s (snd (varint32_loop r k s))"
proof (induction r k s rule: varint32_loop.induct)
  case (1 r k s)
  obtain v s' where b: "pb_readbyte s = (v, s')" by fastforce
  have a: "advances s s'" by (rule in_windowD [OF in_window_readbyte b])
  show ?case
  proof (cases v)
    case None
    then show ?thesis using a b by (subst varint32_loop.simps) simp
  next
    case (Some x)
    show ?thesis
      using a 1 [OF b [symmetric] Some] unfolding b Some
      by (subst varint32_loop.simps) (auto simp: b Some Let_def intro: advances_trans)
  qed
qed

lemma in_window_varint64_loop: "advances s (snd (varint64_loop r k s))"
proof (induction r k s rule: varint64_loop.induct)
  case (1 r k s)
  obtain v s' where b: "pb_readbyte s = (v, s')" by fastforce
  have a: "advances s s'" by (rule in_windowD [OF in_window_readbyte b])
  show ?case
  proof (cases v)
    case None
    then show ?thesis using a b by (subst varint64_loop.simps) simp
  next
    case (Some x)
    show ?thesis
      using a 1 [OF _ b [symmetric] Some]
      by (subst varint64_loop.simps) (auto simp: b Some Let_def intro: advances_trans)
  qed
qed

lemma in_window_varint [simp]: "in_window pb_decode_varint"
  by (simp add: in_window_def pb_decode_varint_def in_window_varint64_loop)

lemma in_window_varint32_eof: "advances s (snd (snd (pb_decode_varint32_eof s)))"
proof -
  obtain v s' where b: "pb_readbyte s = (v, s')" by fastforce
  have a: "advances s s'" by (rule in_windowD [OF in_window_readbyte b])
  obtain w s'' where l: "varint32_loop (ucast (the v AND 0x7f)) 7 s' = (w, s'')" by fastforce
  have "advances s' s''" using in_window_varint32_loop [of s' "ucast (the v AND 0x7f)" 7] l by simp
  with a have "advances s s''" by (rule advances_trans)
  with a b l show ?thesis
    by (auto simp: pb_decode_varint32_eof_def split: option.splits)
qed

lemma in_window_varint32 [simp]: "in_window pb_decode_varint32"
  unfolding in_window_def
proof
  fix s :: "'a pb_istream"
  show "advances s (snd (pb_decode_varint32 s))"
    using in_window_varint32_eof [of s] by (auto simp: pb_decode_varint32_def split: prod.splits)
qed

lemma in_window_decode_tag [simp]: "in_window decode_tag"
  unfolding in_window_def
proof
  fix s :: "'a pb_istream"
  show "advances s (snd (decode_tag s))"
    using in_window_varint32_eof [of s]
    by (auto simp: decode_tag_def pb_decode_tag_def split: prod.splits option.splits)
qed

lemma in_window_skip_varint: "advances s (snd (pb_skip_varint s))"
proof (induction s rule: pb_skip_varint.induct)
  case (1 s)
  obtain v s' where b: "pb_read True 1 s = (v, s')" by fastforce
  have a: "advances s s'" by (rule in_windowD [OF in_window_read b])
  show ?case
  proof (cases v)
    case None
    then show ?thesis using a b by (subst pb_skip_varint.simps) simp
  next
    case (Some x)
    show ?thesis
      using a 1 [OF b [symmetric] Some]
      by (subst pb_skip_varint.simps) (auto simp: b [unfolded One_nat_def] Some intro: advances_trans)
  qed
qed

lemma in_window_skip_field [simp]: "in_window (pb_skip_field wt)"
proof (cases wt)
  case PB_WT_VARINT
  then show ?thesis by (simp add: pb_skip_field_def in_window_def in_window_skip_varint)
qed (auto simp: pb_skip_field_def pb_skip_string_def intro!: in_window_next)

lemma in_window_raw_varint: "advances s (snd (read_raw_varint m n buf s))"
proof (induction m n buf s rule: read_raw_varint.induct)
  case (1 m n buf s)
  obtain v s' where b: "pb_read True 1 s = (v, s')" by fastforce
  have a: "advances s s'" by (rule in_windowD [OF in_window_read b])
  show ?case
  proof (cases v)
    case None
    then show ?thesis using a b by (subst read_raw_varint.simps) simp
  next
    case (Some x)
    show ?thesis
      using a 1 [OF _ b [symmetric] Some]
      by (subst read_raw_varint.simps) (auto simp: b [unfolded One_nat_def] Some intro: advances_trans)
  qed
qed

lemma in_window_raw_value [simp]: "in_window (read_raw_value wt m)"
  by (cases wt) (simp_all add: read_raw_value_def in_window_raw_varint in_window_def
      in_window_read [unfolded in_window_def, rule_format])

text \<open>A string that was made and closed: the parent stands behind what was consumed of it.\<close>

lemma in_window_string [simp]: "in_window decode_string"
  unfolding in_window_def
proof
  fix s :: "'a pb_istream"
  obtain v s1 where v: "pb_decode_varint32 s = (v, s1)" by fastforce
  have a: "advances s s1" by (rule in_windowD [OF in_window_varint32 v])
  show "advances s (snd (decode_string s))"
  proof (cases v)
    case None
    then show ?thesis using a v by (simp add: decode_string_def pb_make_string_substream_def next_read_def)
  next
    case (Some n)
    show ?thesis
    proof (cases "bytes_left s1 < unat n")
      case True
      then show ?thesis using a v Some by (simp add: decode_string_def pb_make_string_substream_def next_read_def)
    next
      case False
      have "advances s1 (snd (decode_string s))"
        unfolding advances_def
      proof (intro allI impI)
        fix bs assume "in_source s1 = Buffer bs"
        then have "in_source (snd (decode_string s)) = Buffer (drop (unat n) bs) \<and> bytes_left (snd (decode_string s)) = bytes_left s1 - unat n"
          using v Some False
          by (simp add: decode_string_def pb_make_string_substream_def next_read_def pb_read_def pb_read_chunk_def
              call_source_def buf_read_def pb_close_string_substream_def)
        then show "\<exists>k\<le>bytes_left s1. in_source (snd (decode_string s)) = Buffer (drop k bs) \<and>
            bytes_left (snd (decode_string s)) = bytes_left s1 - k"
          using False by (intro exI [of _ "unat n"]) simp
      qed
      with a show ?thesis by (rule advances_trans)
    qed
  qed
qed

lemma in_window_fmap [simp]: "in_window r \<Longrightarrow> in_window (fmap_read f r)"
  unfolding fmap_read_def by (rule in_window_next) simp_all

lemma in_window_numbers [simp]:
  "in_window pb_decode_svarint" "in_window pb_decode_fixed32" "in_window pb_decode_fixed64"
  by (auto simp: pb_decode_svarint_def pb_decode_fixed32_def pb_decode_fixed64_def intro!: in_window_next)

lemma in_window_item [simp]: "in_window (read_item k)"
  by (cases k) simp_all

text \<open>Any sequence of calls on a stream; the client stops at the first that fails.\<close>

datatype pb_read_call = Read bool nat | Read_item pb_kind | Skip_field pb_wire_type | Read_raw pb_wire_type nat

fun run_read :: "pb_read_call \<Rightarrow> (unit, 's) pb_reader" where
  "run_read (Read wanted n) = fmap_read (\<lambda>_. ()) (pb_read wanted n)"
| "run_read (Read_item k) = fmap_read (\<lambda>_. ()) (read_item k)"
| "run_read (Skip_field wt) = pb_skip_field wt"
| "run_read (Read_raw wt m) = fmap_read (\<lambda>_. ()) (read_raw_value wt m)"

primrec run_reads :: "pb_read_call list \<Rightarrow> (unit, 's) pb_reader" where
  "run_reads [] = (\<lambda>s. (Some (), s))"
| "run_reads (c # cs) = next_read (run_read c) (\<lambda>_. run_reads cs)"

lemma in_window_run_read: "in_window (run_read c)"
  by (cases c) simp_all

lemma in_window_run_reads: "in_window (run_reads cs)"
  by (induction cs) (auto intro: in_window_next in_window_run_read)

section \<open>The buffer of an output stream\<close>

definition out_inv :: "'s pb_ostream \<Rightarrow> bool" where
  "out_inv s = (max_size s < 2 ^ 64 \<and> (case out_sink s of Written ds \<Rightarrow> length ds = bytes_written s \<and> bytes_written s \<le> max_size s | _ \<Rightarrow> True))"

definition in_buffer :: "'s pb_writer \<Rightarrow> bool" where
  "in_buffer w \<longleftrightarrow> (\<forall>s. out_inv s \<longrightarrow> out_inv (snd (w s)) \<and> max_size (snd (w s)) = max_size s)"

lemma in_bufferD:
  "in_buffer w \<Longrightarrow> w s = (b, s') \<Longrightarrow> out_inv s \<Longrightarrow> out_inv s' \<and> max_size s' = max_size s"
  unfolding in_buffer_def by (metis snd_conv)

lemma in_buffer_next: "in_buffer w1 \<Longrightarrow> in_buffer w2 \<Longrightarrow> in_buffer (next_write w1 w2)"
  unfolding in_buffer_def next_write_def by (auto split: prod.splits bool.splits; metis snd_conv)

lemma in_buffer_return: "in_buffer (\<lambda>s. (b, s))"
  by (simp add: in_buffer_def)

lemma size_add_exact:
  assumes "a < 2 ^ 64" and "b < 2 ^ 64" and "\<not> size_add a b < a"
  shows "size_add a b = a + b"
proof (cases "a + b < 2 ^ 64")
  case True
  then show ?thesis unfolding size_add_def by (rule mod_less)
next
  case False
  moreover have "b \<noteq> 0" using False assms(1) by auto
  ultimately have "size_add a b < a" using assms(1,2) by (intro size_add_wraps) auto
  with assms(3) show ?thesis by simp
qed

lemma in_buffer_write:
  assumes "n \<le> length bs" and "n < 2 ^ 64"
  shows "in_buffer (pb_write bs n)"
  unfolding in_buffer_def
proof (intro allI impI)
  fix s :: "'a pb_ostream"
  assume inv: "out_inv s"
  show "out_inv (snd (pb_write bs n s)) \<and> max_size (snd (pb_write bs n s)) = max_size s"
  proof (cases "out_sink s")
    case (Written ds)
    then have lt: "bytes_written s < 2 ^ 64" using inv by (simp add: out_inv_def)
    show ?thesis
    proof (cases "size_add (bytes_written s) n < bytes_written s \<or> size_add (bytes_written s) n > max_size s")
      case True
      show ?thesis
      proof (cases "n = 0")
        case True
        have "size_add (bytes_written s) 0 = bytes_written s" using lt by (simp add: size_add_def)
        then show ?thesis using True inv Written by (simp add: pb_write_def out_inv_def)
      qed (use True inv Written in \<open>simp add: pb_write_def out_inv_def out_set_error_def\<close>)
    next
      case False
      then have "size_add (bytes_written s) n = bytes_written s + n" using lt assms(2) by (intro size_add_exact) auto
      then show ?thesis using False inv Written assms(1)
        by (cases "n = 0") (simp_all add: pb_write_def out_inv_def call_sink_def buf_write_def)
    qed
  qed (use inv in \<open>auto simp: pb_write_def out_inv_def call_sink_def out_set_error_def split: prod.splits bool.splits\<close>)
qed

lemma in_buffer_varint: "in_buffer (pb_encode_varint v)"
proof -
  have "unat v < 2 ^ 64" using unsigned_less [of v, where 'a = nat] by simp
  then have len: "length (varint (unat v)) \<le> 10" by (rule length_varint_64)
  show ?thesis
  proof (cases "v \<le> 0x7f")
    case False
    then have "0 < unat v" by (simp add: word_le_nat_alt)
    then have eq: "clear_last (varint_digits v) = varint (unat v)"
      using varint_digits_eq [of "unat v"] \<open>unat v < 2 ^ 64\<close> by simp
    then have "length (varint_digits v) = length (varint (unat v))" by (metis length_clear_last)
    then have "length (varint_digits v) < 2 ^ 64" using len by simp
    then have "in_buffer (pb_write (clear_last (varint_digits v)) (length (varint_digits v)))"
      by (intro in_buffer_write) (simp_all add: length_clear_last)
    then show ?thesis using False by (simp add: pb_encode_varint_def clear_last_def Let_def)
  qed (simp add: pb_encode_varint_def in_buffer_write)
qed

text \<open>A string whose length fits \<^verbatim>\<open>size_t\<close>.\<close>

definition item_sized :: "pb_item \<Rightarrow> bool" where
  "item_sized x = (case x of String bs \<Rightarrow> length bs < 2 ^ 64 | _ \<Rightarrow> True)"

lemma in_buffer_item: "item_sized x \<Longrightarrow> in_buffer (write_item x)"
  by (cases x) (auto simp: item_sized_def pb_encode_svarint_def pb_encode_fixed32_def pb_encode_fixed64_def
      pb_encode_tag_def pb_encode_string_def intro!: in_buffer_varint in_buffer_next in_buffer_write)

lemma in_buffer_items: "list_all item_sized xs \<Longrightarrow> in_buffer (write_items xs)"
  by (induction xs) (simp_all add: in_buffer_return in_buffer_next in_buffer_item)

section \<open>Properties\<close>

text \<open>
  C28. Whatever sequence of numbers, tags and strings is written into a buffer that has room for it
  (field numbers of 29 bits, strings shorter than \<open>2 ^ 32\<close>), reading the same kinds from the bytes
  written gives the same sequence, leaves the bytes behind them and sets no error.
\<close>

theorem pb_items_roundtrip:
  assumes "list_all item_ok xs" and "length (concat (map item_bytes xs)) \<le> n" and "n < 2 ^ 64"
  shows "\<exists>s bs. write_items xs (pb_ostream_from_buffer n) = (True, s :: 's pb_ostream) \<and> out_sink s = Written bs \<and>
    bytes_written s = length bs \<and>
    read_items (map item_kind xs) (pb_istream_from_buffer (bs @ rest) (length bs + m)) =
      (Some xs, pb_istream_from_buffer rest m :: 't pb_istream)"
proof -
  obtain s :: "'s pb_ostream" where "write_items xs (pb_ostream_from_buffer n) = (True, s)"
    "out_sink s = Written (concat (map item_bytes xs))" "bytes_written s = length (concat (map item_bytes xs))"
    using items.roundtrip [OF assms] unfolding write_items_eq by blast
  moreover have "read_items (map item_kind xs) (pb_istream_from_buffer (concat (map item_bytes xs) @ rest)
      (length (concat (map item_bytes xs)) + m)) = (Some xs, pb_istream_from_buffer rest m :: 't pb_istream)"
    using items.read_back [OF assms(1)] unfolding read_items_eq .
  ultimately show ?thesis by blast
qed

lemma pb_items_roundtrip_witness:
  "\<exists>s bs. write_items [Tag PB_WT_STRING 3, String [1, 2], Svarint (- 5), Fixed32 7] (pb_ostream_from_buffer 20) = (True, s) \<and>
    out_sink s = Written bs \<and> bytes_written s = length bs \<and>
    read_items [Tag_kind, String_kind, Svarint_kind, Fixed32_kind] (pb_istream_from_buffer (bs @ [9]) (length bs + 1)) =
      (Some [Tag PB_WT_STRING 3, String [1, 2], Svarint (- 5), Fixed32 7], pb_istream_from_buffer [9] 1)"
proof -
  have z: "unat (zigzag (- 5)) = 9" by (simp add: zigzag_def push_bit_eq_mult)
  have l: "length (varint k) = 1" if "k < 128" for k using varint_small [OF that] by simp
  have "list_all item_ok [Tag PB_WT_STRING 3, String [1, 2], Svarint (- 5), Fixed32 7]"
    by (simp add: tag_ok_def wire_ok_def)
  moreover have "length (concat (map item_bytes [Tag PB_WT_STRING 3, String [1, 2], Svarint (- 5), Fixed32 7])) \<le> 20"
    by (simp add: z l tag_number_def wire_number_def length_fixed32_bytes)
  ultimately show ?thesis
    using pb_items_roundtrip [of "[Tag PB_WT_STRING 3, String [1, 2], Svarint (- 5), Fixed32 7]" 20 "[9]" 1] by simp
qed

text \<open>
  C29. The sizing stream counts exactly what a stream over a buffer writes: a sequence of items is
  written into a buffer of \<open>n\<close> bytes exactly if the size that the sizing stream counted is at most
  \<open>n\<close>, and that is then the number of bytes written.
\<close>

theorem pb_sizing_is_exact:
  fixes sz s :: "'s pb_ostream"
  assumes "list_all item_ok xs" and "length (concat (map item_bytes xs)) < 2 ^ 64" and "n < 2 ^ 64"
    and "write_items xs PB_OSTREAM_SIZING = (ok, sz)" and "write_items xs (pb_ostream_from_buffer n) = (ok', s)"
  shows "ok \<and> (ok' \<longleftrightarrow> bytes_written sz \<le> n) \<and> (ok' \<longrightarrow> bytes_written s = bytes_written sz)"
proof -
  have "write_items xs PB_OSTREAM_SIZING = (True, PB_OSTREAM_SIZING\<lparr>bytes_written := length (concat (map item_bytes xs))\<rparr> :: 's pb_ostream)"
    using items.sizing [OF assms(1,2)] unfolding write_items_eq .
  then have sz: "ok" "bytes_written sz = length (concat (map item_bytes xs))"
    using assms(4) by auto
  show ?thesis
  proof (cases "length (concat (map item_bytes xs)) \<le> n")
    case True
    then obtain s' :: "'s pb_ostream" where "write_items xs (pb_ostream_from_buffer n) = (True, s')"
      "bytes_written s' = length (concat (map item_bytes xs))"
      using items.roundtrip [OF assms(1) True assms(3)] unfolding write_items_eq by blast
    then show ?thesis using True assms(5) sz by simp
  next
    case False
    then have "n < length (concat (map item_bytes xs))" by simp
    then have "\<not> fst (write_items xs (pb_ostream_from_buffer n :: 's pb_ostream))"
      by (rule items.too_long [OF assms(1) _ assms(2), unfolded write_items_eq])
    then show ?thesis using False sz assms(5) by simp
  qed
qed

lemma pb_sizing_is_exact_witness:
  "\<exists>ok sz ok' s. write_items [Fixed64 1] PB_OSTREAM_SIZING = (ok, sz :: 's pb_ostream) \<and> write_items [Fixed64 1] (pb_ostream_from_buffer 7) = (ok', s :: 's pb_ostream) \<and>
     ok \<and> (ok' \<longleftrightarrow> bytes_written sz \<le> 7) \<and> (ok' \<longrightarrow> bytes_written s = bytes_written sz)"
proof -
  obtain ok sz ok' s where w: "write_items [Fixed64 1] PB_OSTREAM_SIZING = (ok, sz :: 's pb_ostream)"
    "write_items [Fixed64 1] (pb_ostream_from_buffer 7) = (ok', s :: 's pb_ostream)" by fastforce
  have "list_all item_ok [Fixed64 1]" "length (concat (map item_bytes [Fixed64 1])) < 2 ^ 64" "(7 :: nat) < 2 ^ 64"
    by (simp_all add: length_fixed64_bytes)
  from pb_sizing_is_exact [OF this w] w show ?thesis by blast
qed

text \<open>
  C30. Reading never leaves the window of the stream: whatever the bytes are and whichever reads,
  skips, tags, strings and substreams follow one another, succeeding or failing, the stream stands
  \<open>k\<close> bytes further in the same buffer, with \<open>k\<close> at most the bytes that were left, and counts
  exactly \<open>k\<close> fewer as left.
\<close>

theorem pb_reads_stay_in_window:
  assumes "in_source s = Buffer bs"
  shows "\<exists>k \<le> bytes_left s. in_source (snd (run_reads cs s)) = Buffer (drop k bs) \<and>
    bytes_left (snd (run_reads cs s)) = bytes_left s - k"
  using in_window_run_reads [of cs] assms unfolding in_window_def advances_def by blast

lemma pb_reads_stay_in_window_witness:
  "\<exists>k \<le> 3. in_source (snd (run_reads [Read_item String_kind, Skip_field PB_WT_VARINT] (pb_istream_from_buffer [0x85, 1, 2, 3] 3 :: 's pb_istream)))
      = Buffer (drop k [0x85, 1, 2, 3]) \<and>
    bytes_left (snd (run_reads [Read_item String_kind, Skip_field PB_WT_VARINT] (pb_istream_from_buffer [0x85, 1, 2, 3] 3 :: 's pb_istream))) = 3 - k"
proof -
  let ?s = "pb_istream_from_buffer [0x85, 1, 2, 3] 3 :: 's pb_istream"
  have "in_source ?s = Buffer [0x85, 1, 2, 3]" and left: "bytes_left ?s = 3"
    by (simp_all add: pb_istream_from_buffer_def)
  then show ?thesis
    using pb_reads_stay_in_window [of ?s "[0x85, 1, 2, 3]" "[Read_item String_kind, Skip_field PB_WT_VARINT]"]
    by (simp only: left)
qed

text \<open>
  C31. Writing never leaves the buffer: after any sequence of items on a stream over a buffer, the
  last of them failing or not, the bytes in the buffer are those counted as written and no more than
  its size.
\<close>

theorem pb_writes_stay_in_buffer:
  assumes "n < 2 ^ 64" and "list_all item_sized xs"
    and "write_items xs (pb_ostream_from_buffer n) = (ok, s)" and "out_sink s = Written ds"
  shows "length ds = bytes_written s \<and> length ds \<le> n"
proof -
  have "out_inv (pb_ostream_from_buffer n)" using assms(1) by (simp add: out_inv_def pb_ostream_from_buffer_def)
  from in_bufferD [OF in_buffer_items [OF assms(2)] assms(3) this]
  have "out_inv s" "max_size s = n" by (simp_all add: pb_ostream_from_buffer_def)
  then show ?thesis using assms(4) by (simp add: out_inv_def)
qed

lemma pb_writes_stay_in_buffer_witness:
  "\<exists>ok s ds. write_items [Fixed32 1, Fixed64 2] (pb_ostream_from_buffer 7) = (ok, s :: unit pb_ostream) \<and>
     out_sink s = Written ds \<and> length ds = bytes_written s \<and> length ds \<le> 7"
proof -
  obtain ok s where w: "write_items [Fixed32 1, Fixed64 2] (pb_ostream_from_buffer 7) = (ok, s :: unit pb_ostream)"
    by fastforce
  then have "out_sink s = Written [1, 0, 0, 0]"
    by (auto simp: next_write_def pb_encode_fixed32_def pb_encode_fixed64_def pb_write_def pb_ostream_from_buffer_def
        size_add_def call_sink_def buf_write_def out_set_error_def)
  moreover have "(7 :: nat) < 2 ^ 64" "list_all item_sized [Fixed32 1, Fixed64 2]" by (simp_all add: item_sized_def)
  ultimately show ?thesis using pb_writes_stay_in_buffer [OF _ _ w] w by blast
qed

text \<open>
  A field that the reader does not know is skipped exactly: \<open>pb_skip_field\<close> with the wire type
  of an encoded item consumes the bytes of that item and nothing else.
\<close>

theorem pb_skip_field_skips_item:
  assumes "item_ok x"
  shows "pb_skip_field (item_wire x) (pb_istream_from_buffer (item_bytes x @ rest) (length (item_bytes x) + m)) =
    (Some (), pb_istream_from_buffer rest m)"
  using readsD [OF reads_skip_field [OF assms], of "pb_istream_from_buffer (item_bytes x @ rest) (length (item_bytes x) + m)" rest]
  by (simp add: pb_istream_from_buffer_def)

lemma pb_skip_field_skips_item_witness:
  "pb_skip_field PB_WT_STRING (pb_istream_from_buffer ((varint 2 @ [7, 8]) @ [9]) (length (varint 2 @ [7, 8]) + 1)) =
    (Some (), pb_istream_from_buffer [9] 1)"
proof -
  have "item_ok (String [7, 8])" by simp
  from pb_skip_field_skips_item [OF this, of "[9]" 1] show ?thesis by (simp add: numeral_2_eq_2)
qed

text \<open>
  The 32-bit decoder counts bits in an 8-bit variable, which wraps: 37 bytes \<open>0x80\<close> and a \<open>0x01\<close>,
  a varint of 260 bits, decode as 8, while the 64-bit decoder refuses them.
\<close>

theorem pb_decode_varint32_bitpos_wraps:
  "fst (pb_decode_varint32 (pb_istream_from_buffer (replicate 37 0x80 @ [1]) 38 :: unit pb_istream)) = Some 8 \<and>
   fst (pb_decode_varint (pb_istream_from_buffer (replicate 37 0x80 @ [1]) 38 :: unit pb_istream)) = None"
  by code_simp

end
