(* ===== verification/Modes.thy ===== *)
theory Modes
  imports Cbs
begin

text \<open>
  The stream modes of \<^verbatim>\<open>crypto/fipsmodule/modes\<close>: \<^verbatim>\<open>ctr.c\<close>, \<^verbatim>\<open>ofb.c\<close> and \<^verbatim>\<open>cfb.c\<close>, with the
  word accesses of \<^verbatim>\<open>modes/internal.h\<close>. The block cipher under its key (\<^verbatim>\<open>block128_f\<close> and
  \<^verbatim>\<open>AES_KEY\<close>) is an argument of the model: a function on blocks of 16 bytes. A call takes the state
  that the caller keeps between calls (\<^verbatim>\<open>ivec\<close>, \<^verbatim>\<open>ecount_buf\<close>, \<^verbatim>\<open>*num\<close>) and the input and returns
  the output and the new state; input and output do not overlap, or are the same buffer.
\<close>

section \<open>Word accesses\<close>

text \<open>\<^verbatim>\<open>memcpy\<close> between bytes and a word of a little-endian target.\<close>

definition load_le :: "bytes \<Rightarrow> 'a::len word" where
  "load_le bs = foldr (\<lambda>b w. push_bit 8 w OR ucast b) bs 0"

definition store_le :: "nat \<Rightarrow> 'a::len word \<Rightarrow> bytes" where
  "store_le n w = map (\<lambda>i. ucast (drop_bit (8 * i) w)) [0..<n]"

definition load_word_le :: "bytes \<Rightarrow> u64" where
  "load_word_le bs = load_le (take 8 bs)"

definition store_word_le :: "bytes \<Rightarrow> nat \<Rightarrow> u64 \<Rightarrow> bytes" where
  "store_word_le out off v = write_at out off (store_le 8 v)"

definition GETU32 :: "bytes \<Rightarrow> u32" where
  "GETU32 bs = CRYPTO_bswap4 (load_le (take 4 bs))"

definition PUTU32 :: "bytes \<Rightarrow> nat \<Rightarrow> u32 \<Rightarrow> bytes" where
  "PUTU32 out off v = write_at out off (store_le 4 (CRYPTO_bswap4 v))"

text \<open>The loop over the words of a block: \<open>out[n..] = a[n..] ^ b[n..]\<close>.\<close>

function xor_words :: "nat \<Rightarrow> bytes \<Rightarrow> bytes \<Rightarrow> bytes \<Rightarrow> bytes" where
  "xor_words n out a b =
     (if n < 16
      then xor_words (n + 8) (store_word_le out n (load_word_le (drop n a) XOR load_word_le (drop n b))) a b
      else out)"
  by pat_completeness auto
termination by (relation "measure (\<lambda>(n, _). 16 - n)") auto

declare xor_words.simps [simp del]

section \<open>Counter mode\<close>

text \<open>The loop of \<^verbatim>\<open>ctr128_inc\<close> and \<^verbatim>\<open>ctr96_inc\<close>, with the carry in \<open>c\<close>.\<close>

fun ctr_inc_loop :: "nat \<Rightarrow> u32 \<Rightarrow> bytes \<Rightarrow> bytes" where
  "ctr_inc_loop 0 c ctr = ctr"
| "ctr_inc_loop (Suc n) c ctr =
     (let c' = c + ucast (ctr ! n) in ctr_inc_loop n (drop_bit 8 c') (ctr[n := ucast c']))"

definition ctr128_inc :: "bytes \<Rightarrow> bytes" where
  "ctr128_inc = ctr_inc_loop 16 1"

definition ctr96_inc :: "bytes \<Rightarrow> bytes" where
  "ctr96_inc = ctr_inc_loop 12 1"

record ctr_state =
  ivec :: bytes
  ecount_buf :: bytes
  num :: nat

text \<open>\<^verbatim>\<open>while (n && len)\<close>: what is left of the current key stream; then the bytes of a last block.\<close>

fun xor_head :: "bytes \<Rightarrow> nat \<Rightarrow> bytes \<Rightarrow> bytes \<Rightarrow> nat \<times> bytes \<times> bytes" where
  "xor_head ks n out [] = (n, out, [])"
| "xor_head ks n out (b # inp) =
     (if n = 0 then (n, out, b # inp) else xor_head ks ((n + 1) mod 16) (out @ [b XOR ks ! n]) inp)"

fun xor_tail :: "bytes \<Rightarrow> nat \<Rightarrow> bytes \<Rightarrow> bytes \<Rightarrow> nat \<times> bytes" where
  "xor_tail ks n out [] = (n, out)"
| "xor_tail ks n out (b # inp) = xor_tail ks (n + 1) (out @ [b XOR ks ! n]) inp"

function ctr_blocks :: "(bytes \<Rightarrow> bytes) \<Rightarrow> ctr_state \<Rightarrow> bytes \<Rightarrow> bytes \<Rightarrow> ctr_state \<times> bytes \<times> bytes" where
  "ctr_blocks block s out inp =
     (if length inp \<ge> 16 then
        let s' = s\<lparr>ecount_buf := block (ivec s), ivec := ctr128_inc (ivec s), num := 0\<rparr>
        in ctr_blocks block s' (out @ xor_words 0 (replicate 16 0) (take 16 inp) (ecount_buf s')) (drop 16 inp)
      else (s, out, inp))"
  by pat_completeness auto
termination by (relation "measure (\<lambda>(_, _, _, inp). length inp)") auto

declare ctr_blocks.simps [simp del]

definition CRYPTO_ctr128_encrypt :: "(bytes \<Rightarrow> bytes) \<Rightarrow> ctr_state \<Rightarrow> bytes \<Rightarrow> bytes \<times> ctr_state" where
  "CRYPTO_ctr128_encrypt block s inp =
     (let (n, out, inp1) = xor_head (ecount_buf s) (num s) [] inp;
          (s1, out1, inp2) = ctr_blocks block (s\<lparr>num := n\<rparr>) out inp1
      in if inp2 = [] then (out1, s1)
         else let s2 = s1\<lparr>ecount_buf := block (ivec s1), ivec := ctr128_inc (ivec s1)\<rparr>;
                  (n2, out2) = xor_tail (ecount_buf s2) (num s2) out1 inp2
              in (out2, s2\<lparr>num := n2\<rparr>))"

text \<open>
  The version for a function \<open>func\<close> that encrypts many blocks with a 32-bit counter: \<open>func inp n iv\<close>
  is the output for the first \<open>n\<close> blocks of \<open>inp\<close>. \<open>blocks_chunk\<close> is how many blocks a round takes and
  the counter after it.
\<close>

definition blocks_chunk :: "nat \<Rightarrow> u32 \<Rightarrow> nat \<times> u32" where
  "blocks_chunk len ctr32 =
     (let blocks = len div 16;
          blocks = (if blocks > 2 ^ 28 then 2 ^ 28 else blocks);
          ctr32' = ctr32 + of_nat blocks
      in if unat ctr32' < blocks then (blocks - unat ctr32', 0) else (blocks, ctr32'))"

lemma blocks_chunk_pos:
  assumes "16 \<le> len"
  shows "0 < fst (blocks_chunk len c)" and "fst (blocks_chunk len c) \<le> len div 16"
proof -
  have "0 < len div 16" using assms by (simp add: div_greater_zero_iff)
  then show "0 < fst (blocks_chunk len c)" "fst (blocks_chunk len c) \<le> len div 16"
    by (auto simp: blocks_chunk_def Let_def)
qed

function ctr32_blocks ::
  "(bytes \<Rightarrow> nat \<Rightarrow> bytes \<Rightarrow> bytes) \<Rightarrow> u32 \<Rightarrow> ctr_state \<Rightarrow> bytes \<Rightarrow> bytes \<Rightarrow> u32 \<times> ctr_state \<times> bytes \<times> bytes" where
  "ctr32_blocks func ctr32 s out inp =
     (if length inp \<ge> 16 then
        let (blocks, ctr32') = blocks_chunk (length inp) ctr32;
            out' = out @ func inp blocks (ivec s);
            iv = PUTU32 (ivec s) 12 ctr32';
            iv' = (if ctr32' = 0 then ctr96_inc iv else iv)
        in ctr32_blocks func ctr32' (s\<lparr>ivec := iv'\<rparr>) out' (drop (blocks * 16) inp)
      else (ctr32, s, out, inp))"
  by pat_completeness auto
termination
proof (relation "measure (\<lambda>(_, _, _, _, inp). length inp)", goal_cases)
  case (2 func ctr32 s out inp x blocks ctr32')
  then have "0 < blocks" using blocks_chunk_pos(1) [of "length inp" ctr32] by (metis fst_conv)
  with 2 show ?case by simp
qed simp

declare ctr32_blocks.simps [simp del]

definition CRYPTO_ctr128_encrypt_ctr32 ::
  "(bytes \<Rightarrow> nat \<Rightarrow> bytes \<Rightarrow> bytes) \<Rightarrow> ctr_state \<Rightarrow> bytes \<Rightarrow> bytes \<times> ctr_state" where
  "CRYPTO_ctr128_encrypt_ctr32 func s inp =
     (let (n, out, inp1) = xor_head (ecount_buf s) (num s) [] inp;
          (ctr32, s1, out1, inp2) = ctr32_blocks func (GETU32 (drop 12 (ivec s))) (s\<lparr>num := n\<rparr>) out inp1
      in if inp2 = [] then (out1, s1)
         else let ks = func (replicate 16 0) 1 (ivec s1);
                  ctr32' = ctr32 + 1;
                  iv = PUTU32 (ivec s1) 12 ctr32';
                  s2 = s1\<lparr>ecount_buf := ks, ivec := (if ctr32' = 0 then ctr96_inc iv else iv)\<rparr>;
                  (n2, out2) = xor_tail ks (num s2) out1 inp2
              in (out2, s2\<lparr>num := n2\<rparr>))"

section \<open>Output feedback\<close>

text \<open>The state of OFB and CFB: \<^verbatim>\<open>ivec\<close> and \<^verbatim>\<open>*num\<close>.\<close>

record fb_state =
  fb_ivec :: bytes
  fb_num :: nat

function ofb_blocks :: "(bytes \<Rightarrow> bytes) \<Rightarrow> fb_state \<Rightarrow> bytes \<Rightarrow> bytes \<Rightarrow> fb_state \<times> bytes \<times> bytes" where
  "ofb_blocks block s out inp =
     (if length inp \<ge> 16 then
        let iv = block (fb_ivec s)
        in ofb_blocks block (s\<lparr>fb_ivec := iv, fb_num := 0\<rparr>)
             (out @ xor_words (fb_num s) (replicate 16 0) (take 16 inp) iv) (drop 16 inp)
      else (s, out, inp))"
  by pat_completeness auto
termination by (relation "measure (\<lambda>(_, _, _, inp). length inp)") auto

declare ofb_blocks.simps [simp del]

definition CRYPTO_ofb128_encrypt :: "(bytes \<Rightarrow> bytes) \<Rightarrow> fb_state \<Rightarrow> bytes \<Rightarrow> bytes \<times> fb_state" where
  "CRYPTO_ofb128_encrypt block s inp =
     (let (n, out, inp1) = xor_head (fb_ivec s) (fb_num s) [] inp;
          (s1, out1, inp2) = ofb_blocks block (s\<lparr>fb_num := n\<rparr>) out inp1
      in if inp2 = [] then (out1, s1)
         else let iv = block (fb_ivec s1); (n2, out2) = xor_tail iv (fb_num s1) out1 inp2
              in (out2, s1\<lparr>fb_ivec := iv, fb_num := n2\<rparr>))"

section \<open>Cipher feedback\<close>

fun cfb_head :: "bool \<Rightarrow> fb_state \<Rightarrow> bytes \<Rightarrow> bytes \<Rightarrow> fb_state \<times> bytes \<times> bytes" where
  "cfb_head enc s out [] = (s, out, [])"
| "cfb_head enc s out (b # inp) =
     (let n = fb_num s; x = fb_ivec s ! n XOR b in
      if n = 0 then (s, out, b # inp)
      else cfb_head enc \<lparr>fb_ivec = (fb_ivec s)[n := (if enc then x else b)], fb_num = (n + 1) mod 16\<rparr> (out @ [x]) inp)"

text \<open>
  One block: \<open>iv\<close> is the encrypted \<^verbatim>\<open>ivec\<close>. Encrypting stores the sum into \<^verbatim>\<open>ivec\<close> and \<^verbatim>\<open>out\<close>,
  decrypting the input word into \<^verbatim>\<open>ivec\<close> and the sum into \<^verbatim>\<open>out\<close>.
\<close>

function cfb_words :: "bool \<Rightarrow> nat \<Rightarrow> bytes \<Rightarrow> bytes \<Rightarrow> bytes \<Rightarrow> bytes \<times> bytes" where
  "cfb_words enc n iv out inp =
     (if n < 16 then
        let t = load_word_le (drop n inp); x = load_word_le (drop n iv) XOR t
        in cfb_words enc (n + 8) (store_word_le iv n (if enc then x else t)) (store_word_le out n x) inp
      else (iv, out))"
  by pat_completeness auto
termination by (relation "measure (\<lambda>(_, n, _). 16 - n)") auto

declare cfb_words.simps [simp del]

function cfb_blocks :: "(bytes \<Rightarrow> bytes) \<Rightarrow> bool \<Rightarrow> fb_state \<Rightarrow> bytes \<Rightarrow> bytes \<Rightarrow> fb_state \<times> bytes \<times> bytes" where
  "cfb_blocks block enc s out inp =
     (if length inp \<ge> 16 then
        let (iv, o') = cfb_words enc (fb_num s) (block (fb_ivec s)) (replicate 16 0) (take 16 inp)
        in cfb_blocks block enc \<lparr>fb_ivec = iv, fb_num = 0\<rparr> (out @ o') (drop 16 inp)
      else (s, out, inp))"
  by pat_completeness auto
termination by (relation "measure (\<lambda>(_, _, _, _, inp). length inp)") auto

declare cfb_blocks.simps [simp del]

fun cfb_tail :: "bool \<Rightarrow> fb_state \<Rightarrow> bytes \<Rightarrow> bytes \<Rightarrow> fb_state \<times> bytes" where
  "cfb_tail enc s out [] = (s, out)"
| "cfb_tail enc s out (b # inp) =
     (let n = fb_num s; x = fb_ivec s ! n XOR b
      in cfb_tail enc \<lparr>fb_ivec = (fb_ivec s)[n := (if enc then x else b)], fb_num = n + 1\<rparr> (out @ [x]) inp)"

definition CRYPTO_cfb128_encrypt :: "(bytes \<Rightarrow> bytes) \<Rightarrow> bool \<Rightarrow> fb_state \<Rightarrow> bytes \<Rightarrow> bytes \<times> fb_state" where
  "CRYPTO_cfb128_encrypt block enc s inp =
     (let (s0, out, inp1) = cfb_head enc s [] inp;
          (s1, out1, inp2) = cfb_blocks block enc s0 out inp1
      in if inp2 = [] then (out1, s1)
         else let (s2, out2) = cfb_tail enc (s1\<lparr>fb_ivec := block (fb_ivec s1)\<rparr>) out1 inp2 in (out2, s2))"

text \<open>
  \<^verbatim>\<open>cfbr_encrypt_block\<close>: the results are the output bytes and the new \<^verbatim>\<open>ivec\<close>. \<^verbatim>\<open>ovec\<close> holds the old
  \<^verbatim>\<open>ivec\<close>, then the ciphertext, and a byte that is read and shifted out.
\<close>

definition cfbr_encrypt_block :: "(bytes \<Rightarrow> bytes) \<Rightarrow> nat \<Rightarrow> bool \<Rightarrow> bytes \<Rightarrow> bytes \<Rightarrow> bytes \<times> bytes" where
  "cfbr_encrypt_block block nbits enc iv inp =
     (if nbits = 0 \<or> nbits > 128 then ([], iv)
      else
        let iv' = block iv;
            n = (nbits + 7) div 8;
            out = map (\<lambda>i. inp ! i XOR iv' ! i) [0..<n];
            ovec = write_at (iv @ replicate 17 0) 16 (if enc then out else take n inp);
            rem = nbits mod 8;
            k = nbits div 8
        in (out, if rem = 0 then take 16 (drop k ovec)
                 else map (\<lambda>i. push_bit rem (ovec ! (i + k)) OR drop_bit (8 - rem) (ovec ! (i + k + 1))) [0..<16]))"

text \<open>The bit-by-bit mode reads and writes the bits from the top of each byte; \<open>out\<close> is the output buffer.\<close>

definition cfb1_bit :: "(bytes \<Rightarrow> bytes) \<Rightarrow> bool \<Rightarrow> bytes \<Rightarrow> bytes \<times> bytes \<Rightarrow> nat \<Rightarrow> bytes \<times> bytes" where
  "cfb1_bit block enc inp s n =
     (let (out, iv) = s;
          c = (if inp ! (n div 8) AND push_bit (7 - n mod 8) 1 \<noteq> 0 then 0x80 else 0);
          (d, iv') = cfbr_encrypt_block block 1 enc iv [c];
          byte = (out ! (n div 8) AND NOT (push_bit (7 - n mod 8) 1)) OR drop_bit (n mod 8) (d ! 0 AND 0x80)
      in (out[n div 8 := byte], iv'))"

definition CRYPTO_cfb128_1_encrypt :: "(bytes \<Rightarrow> bytes) \<Rightarrow> bool \<Rightarrow> bytes \<Rightarrow> nat \<Rightarrow> bytes \<Rightarrow> bytes \<Rightarrow> bytes \<times> bytes" where
  "CRYPTO_cfb128_1_encrypt block enc inp bits out iv = foldl (cfb1_bit block enc inp) (out, iv) [0..<bits]"

fun CRYPTO_cfb128_8_encrypt :: "(bytes \<Rightarrow> bytes) \<Rightarrow> bool \<Rightarrow> bytes \<Rightarrow> bytes \<Rightarrow> bytes \<times> bytes" where
  "CRYPTO_cfb128_8_encrypt block enc iv [] = ([], iv)"
| "CRYPTO_cfb128_8_encrypt block enc iv (b # inp) =
     (let (o1, iv1) = cfbr_encrypt_block block 8 enc iv [b];
          (o2, iv2) = CRYPTO_cfb128_8_encrypt block enc iv1 inp
      in (o1 @ o2, iv2))"

end
