(* ===== verification/Modes_Streams.thy ===== *)
theory Modes_Streams
  imports Modes
begin

text \<open>
  CTR, OFB and CFB encrypt one byte after the other: each function is a run of a step on bytes, so
  a message may be cut anywhere between calls, and decryption undoes encryption.
\<close>

section \<open>Word accesses\<close>

abbreviation xor_bytes :: "bytes \<Rightarrow> bytes \<Rightarrow> bytes" where
  "xor_bytes \<equiv> map2 (XOR)"

lemma bit_load_le:
  "bit (load_le bs :: 'a::len word) k \<longleftrightarrow> k < LENGTH('a) \<and> k div 8 < length bs \<and> bit (bs ! (k div 8)) (k mod 8)"
proof (induction bs arbitrary: k)
  case Nil
  show ?case by (simp add: load_le_def)
next
  case (Cons b bs)
  have eq: "load_le (b # bs) = push_bit 8 (load_le bs) OR (ucast b :: 'a word)" by (simp add: load_le_def)
  show ?case
  proof (cases "k < 8")
    case True
    then show ?thesis unfolding eq by (auto simp: bit_or_iff bit_push_bit_iff bit_ucast_iff)
  next
    case False
    then obtain j where k: "k = j + 8" by (metis add.commute le_Suc_ex not_less)
    then have d: "k div 8 = Suc (j div 8)" "k mod 8 = j mod 8" by simp_all
    have "\<not> bit b k" using False by (auto dest: bit_imp_le_length)
    then show ?thesis unfolding eq d using Cons.IH [of j] k
      by (auto simp: bit_or_iff bit_push_bit_iff bit_ucast_iff dest: bit_imp_le_length)
  qed
qed

lemma length_store_le [simp]: "length (store_le n w) = n"
  by (simp add: store_le_def)

lemma store_load_le:
  assumes "length bs = n" and "8 * n \<le> LENGTH('a::len)"
  shows "store_le n (load_le bs :: 'a word) = bs"
proof (rule nth_equalityI)
  fix i assume "i < length (store_le n (load_le bs :: 'a word))"
  then have i: "i < n" by simp
  show "store_le n (load_le bs :: 'a word) ! i = bs ! i"
  proof (rule bit_word_eqI)
    fix j assume "j < LENGTH(8)"
    then have j: "j < 8" by simp
    then have "(8 * i + j) div 8 = i" "(8 * i + j) mod 8 = j" "8 * i + j < LENGTH('a)" using i assms(2) by auto
    then show "bit (store_le n (load_le bs :: 'a word) ! i) j = bit (bs ! i) j"
      using i j assms(1) by (simp add: store_le_def bit_ucast_iff bit_drop_bit_eq bit_load_le)
  qed
qed (simp add: assms(1))

lemma load_le_xor:
  assumes "length a = length b"
  shows "(load_le a :: 'a::len word) XOR load_le b = load_le (xor_bytes a b)"
proof (rule bit_word_eqI)
  fix k assume "k < LENGTH('a)"
  then show "bit ((load_le a :: 'a word) XOR load_le b) k = bit (load_le (xor_bytes a b) :: 'a word) k"
    using assms by (auto simp: bit_xor_iff bit_load_le)
qed

lemma store_word_le_xor:
  assumes "n + 8 \<le> length a" and "n + 8 \<le> length b"
  shows "store_word_le out n (load_word_le (drop n a) XOR load_word_le (drop n b)) =
    write_at out n (take 8 (drop n (xor_bytes a b)))"
  using assms by (simp add: store_word_le_def load_word_le_def load_le_xor store_load_le take_zip drop_zip take_map drop_map)

lemma length_16_split: "length (xs :: 'a list) = 16 \<Longrightarrow> take 8 xs @ take 8 (drop 8 xs) = xs"
  by (metis append_take_drop_id length_drop diff_add_inverse2 numeral_Bit0 take_all order_refl add_diff_cancel_left')

lemma write_at_halves:
  assumes "length out = 16" and "length xs = 16"
  shows "write_at (write_at out 0 (take 8 xs)) 8 (take 8 (drop 8 xs)) = xs"
proof -
  have "write_at (write_at out 0 (take 8 xs)) 8 (take 8 (drop 8 xs)) = take 8 xs @ take 8 (drop 8 xs)"
    using assms by (simp add: write_at_def)
  also have "\<dots> = xs" using assms(2) by (rule length_16_split)
  finally show ?thesis .
qed

lemma xor_words_eq:
  assumes "length out = 16" and "length a = 16" and "length b = 16"
  shows "xor_words 0 out a b = xor_bytes a b"
proof -
  have "xor_words 0 out a b = write_at (write_at out 0 (take 8 (xor_bytes a b))) 8 (take 8 (drop 8 (xor_bytes a b)))"
    using assms store_word_le_xor [of 0 a b] store_word_le_xor [of 8 a b]
    by (simp add: xor_words.simps)
  also have "\<dots> = xor_bytes a b" using assms by (intro write_at_halves) simp_all
  finally show ?thesis .
qed

section \<open>Byte streams\<close>

primrec run :: "('s \<Rightarrow> byte \<Rightarrow> byte \<times> 's) \<Rightarrow> 's \<Rightarrow> bytes \<Rightarrow> bytes \<times> 's" where
  "run step s [] = ([], s)"
| "run step s (b # bs) = (let (x, s1) = step s b; (xs, s2) = run step s1 bs in (x # xs, s2))"

lemma run_append:
  "run step s (xs @ ys) = (let (a, s1) = run step s xs; (b, s2) = run step s1 ys in (a @ b, s2))"
  by (induction xs arbitrary: s) (simp_all add: Let_def split: prod.split)

lemma length_run [simp]: "length (fst (run step s xs)) = length xs"
  by (induction xs arbitrary: s) (simp_all add: Let_def split_beta)

text \<open>A sequence of calls, each with the state that the one before has left.\<close>

primrec run_calls :: "('s \<Rightarrow> bytes \<Rightarrow> bytes \<times> 's) \<Rightarrow> 's \<Rightarrow> bytes list \<Rightarrow> bytes \<times> 's" where
  "run_calls crypt s [] = ([], s)"
| "run_calls crypt s (xs # xss) = (let (a, s1) = crypt s xs; (b, s2) = run_calls crypt s1 xss in (a @ b, s2))"

text \<open>A mode of operation: a function on messages that runs a step on their bytes.\<close>

locale stream_mode =
  fixes crypt :: "'s \<Rightarrow> bytes \<Rightarrow> bytes \<times> 's"
    and step :: "'s \<Rightarrow> byte \<Rightarrow> byte \<times> 's"
    and ok :: "'s \<Rightarrow> bool"
  assumes crypt_run: "ok s \<Longrightarrow> crypt s xs = run step s xs"
    and ok_step: "ok s \<Longrightarrow> ok (snd (step s b))"
begin

lemma ok_run: "ok s \<Longrightarrow> ok (snd (run step s xs))"
proof (induction xs arbitrary: s)
  case (Cons b xs)
  obtain x s1 where st: "step s b = (x, s1)" by fastforce
  with ok_step [OF Cons.prems, of b] have "ok s1" by simp
  from Cons.IH [OF this] st show ?case by (simp add: Let_def split_beta)
qed simp

lemma calls_run: "ok s \<Longrightarrow> run_calls crypt s xss = run step s (concat xss)"
proof (induction xss arbitrary: s)
  case (Cons xs xss)
  obtain a s1 where a: "run step s xs = (a, s1)" by fastforce
  with ok_run [OF Cons.prems, of xs] have "ok s1" by simp
  with Cons.IH [of s1] Cons.prems a show ?case by (simp add: crypt_run run_append)
qed simp

lemma calls_once: "ok s \<Longrightarrow> run_calls crypt s xss = crypt s (concat xss)"
  by (simp add: calls_run crypt_run)

end

text \<open>A mode and its inverse: the decryption step returns the byte and reaches the same state.\<close>

locale invertible_mode = E: stream_mode enc estep ok + D: stream_mode dec dstep ok
  for enc dec :: "'s \<Rightarrow> bytes \<Rightarrow> bytes \<times> 's" and estep dstep ok +
  assumes step_back: "ok s \<Longrightarrow> estep s b = (c, s') \<Longrightarrow> dstep s c = (b, s')"
begin

lemma run_back: "ok s \<Longrightarrow> run estep s xs = (ys, s') \<Longrightarrow> run dstep s ys = (xs, s')"
proof (induction xs arbitrary: s ys)
  case (Cons b xs)
  obtain c s1 where st: "estep s b = (c, s1)" by fastforce
  obtain zs s2 where r: "run estep s1 xs = (zs, s2)" by fastforce
  have "ok s1" using E.ok_step [OF Cons.prems(1), of b] st by simp
  moreover have ys: "ys = c # zs" "s' = s2" using Cons.prems(2) st r by simp_all
  ultimately have "run dstep s1 zs = (xs, s2)" using Cons.IH [of s1 zs] r by simp
  then show ?case using step_back [OF Cons.prems(1) st] ys by simp
qed simp

lemma decrypts:
  assumes "ok s" and "run_calls enc s xss = (c, s')" and "concat yss = c"
  shows "run_calls dec s yss = (concat xss, s')"
  using assms run_back [of s "concat xss" c s'] by (simp add: E.calls_run D.calls_run)

end

section \<open>Key streams\<close>

text \<open>
  CTR and OFB add a key stream: \<open>ks s\<close> is the current block of it, \<open>pos s\<close> how much of it was used,
  and \<open>refresh\<close> computes the next one. The laws about \<open>blocks\<close> and \<open>crypt\<close> are the code.
\<close>

locale keystream =
  fixes ks :: "'s \<Rightarrow> bytes" and pos :: "'s \<Rightarrow> nat" and set_pos :: "nat \<Rightarrow> 's \<Rightarrow> 's" and refresh :: "'s \<Rightarrow> 's"
    and ok :: "'s \<Rightarrow> bool"
    and step :: "'s \<Rightarrow> byte \<Rightarrow> byte \<times> 's"
    and blocks :: "'s \<Rightarrow> bytes \<Rightarrow> bytes \<Rightarrow> 's \<times> bytes \<times> bytes"
    and crypt :: "'s \<Rightarrow> bytes \<Rightarrow> bytes \<times> 's"
  assumes ks_set [simp]: "ks (set_pos n s) = ks s"
    and pos_set [simp]: "pos (set_pos n s) = n"
    and set_set [simp]: "set_pos m (set_pos n s) = set_pos m s"
    and set_same [simp]: "set_pos (pos s) s = s"
    and refresh_set [simp]: "refresh (set_pos n s) = set_pos n (refresh s)"
    and pos_refresh [simp]: "pos (refresh s) = pos s"
    and ok_ks: "ok s \<Longrightarrow> length (ks s) = 16" and ok_pos: "ok s \<Longrightarrow> pos s < 16"
    and ok_set: "ok s \<Longrightarrow> n < 16 \<Longrightarrow> ok (set_pos n s)" and ok_refresh: "ok s \<Longrightarrow> ok (refresh s)"
    and step_eq: "step s b =
      (let s' = (if pos s = 0 then refresh s else s) in (b XOR ks s' ! pos s, set_pos ((pos s + 1) mod 16) s'))"
    and blocks_eq: "pos s = 0 \<or> length inp < 16 \<Longrightarrow> blocks s out inp =
      (if length inp \<ge> 16 then blocks (set_pos 0 (refresh s)) (out @ xor_words 0 (replicate 16 0) (take 16 inp) (ks (refresh s))) (drop 16 inp)
       else (s, out, inp))"
    and crypt_eq: "crypt s inp =
      (let (n, out, inp1) = xor_head (ks s) (pos s) [] inp;
           (s1, out1, inp2) = blocks (set_pos n s) out inp1
       in if inp2 = [] then (out1, s1)
          else let s2 = refresh s1; (n2, out2) = xor_tail (ks s2) (pos s2) out1 inp2 in (out2, set_pos n2 s2))"
begin

lemma ok_step: "ok s \<Longrightarrow> ok (snd (step s b))"
  by (simp add: step_eq Let_def ok_set ok_refresh)

lemma run_head:
  "ok s \<Longrightarrow> xor_head (ks s) (pos s) out inp = (n, out', rest) \<Longrightarrow>
     n < 16 \<and> (n = 0 \<or> rest = []) \<and>
     (\<exists>o1. out' = out @ o1 \<and> run step s inp = (let (o2, s') = run step (set_pos n s) rest in (o1 @ o2, s')))"
proof (induction inp arbitrary: s out)
  case Nil
  then have "pos s < 16" by (intro ok_pos)
  with Nil show ?case by auto
next
  case (Cons b inp)
  show ?case
  proof (cases "pos s = 0")
    case True
    then have "set_pos 0 s = s" using set_same [of s] by simp
    then show ?thesis using True Cons.prems by (auto simp: split_beta Let_def)
  next
    case False
    let ?s = "set_pos ((pos s + 1) mod 16) s"
    have "ok ?s" using Cons.prems(1) by (simp add: ok_set)
    moreover have "xor_head (ks ?s) (pos ?s) (out @ [b XOR ks s ! pos s]) inp = (n, out', rest)"
      using Cons.prems(2) False by simp
    ultimately have "n < 16 \<and> (n = 0 \<or> rest = []) \<and>
        (\<exists>o1. out' = (out @ [b XOR ks s ! pos s]) @ o1 \<and> run step ?s inp = (let (o2, s') = run step (set_pos n ?s) rest in (o1 @ o2, s')))"
      by (rule Cons.IH)
    moreover have "step s b = (b XOR ks s ! pos s, ?s)" using False by (simp add: step_eq)
    ultimately show ?thesis by (auto simp: split_beta Let_def)
  qed
qed

lemma run_within:
  "ok s \<Longrightarrow> 0 < pos s \<Longrightarrow> pos s + length bs \<le> 16 \<Longrightarrow>
     run step s bs = (xor_bytes bs (drop (pos s) (ks s)), set_pos ((pos s + length bs) mod 16) s)"
proof (induction bs arbitrary: s)
  case Nil
  then show ?case using ok_pos [of s] by simp
next
  case (Cons b bs)
  have st: "step s b = (b XOR ks s ! pos s, set_pos ((pos s + 1) mod 16) s)" using Cons.prems by (simp add: step_eq)
  have "drop (pos s) (ks s) = ks s ! pos s # drop (Suc (pos s)) (ks s)"
    using Cons.prems ok_ks [of s] by (intro Cons_nth_drop_Suc [symmetric]) simp
  moreover have "run step (set_pos ((pos s + 1) mod 16) s) bs =
      (xor_bytes bs (drop (Suc (pos s)) (ks s)), set_pos ((pos s + length (b # bs)) mod 16) s)"
  proof (cases "bs = []")
    case False
    then have "pos s + 1 < 16" using Cons.prems(3) by (cases bs) auto
    then show ?thesis using Cons.IH [of "set_pos (pos s + 1) s"] Cons.prems by (simp add: ok_set)
  qed simp
  ultimately show ?case using st by simp
qed

lemma run_first:
  assumes "ok s" and "pos s = 0" and "bs \<noteq> []" and "length bs \<le> 16"
  shows "run step s bs = (xor_bytes bs (ks (refresh s)), set_pos (length bs mod 16) (refresh s))"
proof (cases bs)
  case (Cons b bs')
  let ?s = "set_pos (Suc 0) (refresh s)"
  have ok: "ok ?s" using assms(1) by (simp add: ok_set ok_refresh)
  have "step s b = (b XOR ks (refresh s) ! 0, ?s)" using assms(2) by (simp add: step_eq Let_def)
  moreover have "run step ?s bs' = (xor_bytes bs' (drop 1 (ks (refresh s))), set_pos (length bs mod 16) (refresh s))"
    using run_within [OF ok, of bs'] assms(4) Cons by simp
  moreover have "ks (refresh s) = ks (refresh s) ! 0 # drop 1 (ks (refresh s))"
    using ok_ks [OF ok_refresh [OF assms(1)]] Cons_nth_drop_Suc [of 0 "ks (refresh s)"] by simp
  then have "xor_bytes (b # bs') (ks (refresh s)) = (b XOR ks (refresh s) ! 0) # xor_bytes bs' (drop 1 (ks (refresh s)))"
    by (metis list.simps(9) old.prod.case zip_Cons_Cons)
  ultimately show ?thesis using Cons by simp
qed (use assms in simp)

lemma run_blocks:
  "ok s \<Longrightarrow> pos s = 0 \<Longrightarrow> blocks s out inp = (s1, out1, rest) \<Longrightarrow>
     ok s1 \<and> pos s1 = 0 \<and> length rest < 16 \<and>
     (\<exists>o1. out1 = out @ o1 \<and> run step s inp = (let (o2, s') = run step s1 rest in (o1 @ o2, s')))"
proof (induction inp arbitrary: s out rule: length_induct)
  case (1 inp)
  show ?case
  proof (cases "16 \<le> length inp")
    case True
    let ?s = "set_pos 0 (refresh s)"
    let ?o = "xor_bytes (take 16 inp) (ks (refresh s))"
    have ok: "ok ?s" using 1(2) by (simp add: ok_set ok_refresh)
    have "xor_words 0 (replicate 16 0) (take 16 inp) (ks (refresh s)) = ?o"
      using True ok_ks [OF ok] by (simp add: xor_words_eq)
    then have bl: "blocks ?s (out @ ?o) (drop 16 inp) = (s1, out1, rest)" using 1(3,4) True blocks_eq [of s inp out] by simp
    have "length (drop 16 inp) < length inp" using True by simp
    from 1(1) [rule_format, OF this ok pos_set bl] have IH: "ok s1 \<and> pos s1 = 0 \<and> length rest < 16 \<and>
        (\<exists>o1. out1 = (out @ ?o) @ o1 \<and> run step ?s (drop 16 inp) = (let (o2, s') = run step s1 rest in (o1 @ o2, s')))" .
    have l: "length (take 16 inp) = 16" using True by simp
    then have "take 16 inp \<noteq> []" by auto
    from run_first [OF 1(2,3) this] have "run step s (take 16 inp) = (?o, ?s)" unfolding l by simp
    then have "run step s inp = (let (b, s2) = run step ?s (drop 16 inp) in (?o @ b, s2))"
      using run_append [of step s "take 16 inp" "drop 16 inp"] by simp
    with IH show ?thesis by (auto simp: split_beta Let_def)
  next
    case False
    then have "blocks s out inp = (s, out, inp)" using blocks_eq [of s inp out] by simp
    then show ?thesis using 1(2-4) False by (auto simp: split_beta Let_def)
  qed
qed

lemma xor_tail_eq: "n + length inp \<le> length k \<Longrightarrow> xor_tail k n out inp = (n + length inp, out @ xor_bytes inp (drop n k))"
proof (induction inp arbitrary: n out)
  case (Cons b inp)
  have "drop n k = k ! n # drop (Suc n) k" using Cons.prems by (intro Cons_nth_drop_Suc [symmetric]) simp
  with Cons show ?case by simp
qed simp

theorem crypt_run: "ok s \<Longrightarrow> crypt s inp = run step s inp"
proof -
  assume ok: "ok s"
  obtain n out inp1 where h: "xor_head (ks s) (pos s) [] inp = (n, out, inp1)" by (metis prod_cases3)
  from run_head [OF ok h] have n: "n < 16" "n = 0 \<or> inp1 = []"
    and r1: "run step s inp = (let (o2, s') = run step (set_pos n s) inp1 in (out @ o2, s'))" by auto
  obtain s1 out1 inp2 where b: "blocks (set_pos n s) out inp1 = (s1, out1, inp2)" by (metis prod_cases3)
  have okn: "ok (set_pos n s)" using ok n(1) by (simp add: ok_set)
  show ?thesis
  proof (cases "inp1 = []")
    case True
    then have "s1 = set_pos n s" "out1 = out" "inp2 = []" using b blocks_eq [of "set_pos n s" inp1 out] by simp_all
    then show ?thesis using r1 h b True by (simp add: crypt_eq)
  next
    case False
    then have "pos (set_pos n s) = 0" using n(2) by simp
    from run_blocks [OF okn this b] have s1: "ok s1" "pos s1 = 0" "length inp2 < 16"
      and r2: "\<exists>o1. out1 = out @ o1 \<and> run step (set_pos n s) inp1 = (let (o2, s') = run step s1 inp2 in (o1 @ o2, s'))" by auto
    have r: "run step s inp = (let (o2, s') = run step s1 inp2 in (out1 @ o2, s'))"
      using r1 r2 by (auto simp: split_beta Let_def)
    show ?thesis
    proof (cases "inp2 = []")
      case True
      then show ?thesis using r h b by (simp add: crypt_eq)
    next
      case False
      have "run step s1 inp2 = (xor_bytes inp2 (ks (refresh s1)), set_pos (length inp2) (refresh s1))"
        using run_first [OF s1(1,2) False] s1(3) by simp
      moreover have "xor_tail (ks (refresh s1)) 0 out1 inp2 = (length inp2, out1 @ xor_bytes inp2 (ks (refresh s1)))"
        using xor_tail_eq [of 0 inp2 "ks (refresh s1)" out1] s1 ok_ks [OF ok_refresh [OF s1(1)]] by simp
      ultimately show ?thesis using r h b False s1(2) by (simp add: crypt_eq Let_def)
    qed
  qed
qed

end

end
