(* ===== verification/Modes_Cfb.thy ===== *)
theory Modes_Cfb
  imports Modes_Streams
begin

text \<open>
  The modes on the model's definitions: CTR and OFB as key streams, CFB by the same argument with
  the feedback, and CFB on single bytes; each is interpreted as a mode that its decryption inverts.
\<close>

definition block_ok :: "(bytes \<Rightarrow> bytes) \<Rightarrow> bool" where
  "block_ok block \<longleftrightarrow> (\<forall>x. length x = 16 \<longrightarrow> length (block x) = 16)"

lemma block_okD: "block_ok block \<Longrightarrow> length x = 16 \<Longrightarrow> length (block x) = 16"
  by (simp add: block_ok_def)

section \<open>Counter mode\<close>

definition ctr_refresh :: "(bytes \<Rightarrow> bytes) \<Rightarrow> ctr_state \<Rightarrow> ctr_state" where
  "ctr_refresh block s = s\<lparr>ecount_buf := block (ivec s), ivec := ctr128_inc (ivec s)\<rparr>"

definition ctr_step :: "(bytes \<Rightarrow> bytes) \<Rightarrow> ctr_state \<Rightarrow> byte \<Rightarrow> byte \<times> ctr_state" where
  "ctr_step block s b =
     (let s' = (if num s = 0 then ctr_refresh block s else s)
      in (b XOR ecount_buf s' ! num s, s'\<lparr>num := (num s + 1) mod 16\<rparr>))"

definition ctr_ok :: "(bytes \<Rightarrow> bytes) \<Rightarrow> ctr_state \<Rightarrow> bool" where
  "ctr_ok block s \<longleftrightarrow> block_ok block \<and> length (ivec s) = 16 \<and> length (ecount_buf s) = 16 \<and> num s < 16"

lemma length_ctr_inc_loop [simp]: "length (ctr_inc_loop n c ctr) = length ctr"
  by (induction n c ctr rule: ctr_inc_loop.induct) (simp_all add: Let_def)

lemma length_ctr_inc [simp]: "length (ctr128_inc ctr) = length ctr" "length (ctr96_inc ctr) = length ctr"
  by (simp_all add: ctr128_inc_def ctr96_inc_def)

interpretation ctr_key: keystream ecount_buf num "\<lambda>n s. s\<lparr>num := n\<rparr>" "ctr_refresh block" "ctr_ok block" "ctr_step block"
  "ctr_blocks block" "CRYPTO_ctr128_encrypt block" for block
proof
  show "ctr_blocks block s out inp =
      (if 16 \<le> length inp then ctr_blocks block ((ctr_refresh block s)\<lparr>num := 0\<rparr>)
         (out @ xor_words 0 (replicate 16 0) (take 16 inp) (ecount_buf (ctr_refresh block s))) (drop 16 inp) else (s, out, inp))"
    for s out inp by (subst ctr_blocks.simps) (simp add: ctr_refresh_def Let_def)
  show "CRYPTO_ctr128_encrypt block s inp =
      (let (n, out, inp1) = xor_head (ecount_buf s) (num s) [] inp; (s1, out1, inp2) = ctr_blocks block (s\<lparr>num := n\<rparr>) out inp1
       in if inp2 = [] then (out1, s1)
          else let s2 = ctr_refresh block s1; (n2, out2) = xor_tail (ecount_buf s2) (num s2) out1 inp2 in (out2, s2\<lparr>num := n2\<rparr>))"
    for s inp by (simp add: CRYPTO_ctr128_encrypt_def ctr_refresh_def Let_def cong: if_cong)
qed (auto simp: ctr_ok_def ctr_refresh_def ctr_step_def block_ok_def)

section \<open>Output feedback\<close>

definition ofb_refresh :: "(bytes \<Rightarrow> bytes) \<Rightarrow> fb_state \<Rightarrow> fb_state" where
  "ofb_refresh block s = s\<lparr>fb_ivec := block (fb_ivec s)\<rparr>"

definition ofb_step :: "(bytes \<Rightarrow> bytes) \<Rightarrow> fb_state \<Rightarrow> byte \<Rightarrow> byte \<times> fb_state" where
  "ofb_step block s b =
     (let s' = (if fb_num s = 0 then ofb_refresh block s else s)
      in (b XOR fb_ivec s' ! fb_num s, s'\<lparr>fb_num := (fb_num s + 1) mod 16\<rparr>))"

definition fb_ok :: "(bytes \<Rightarrow> bytes) \<Rightarrow> fb_state \<Rightarrow> bool" where
  "fb_ok block s \<longleftrightarrow> block_ok block \<and> length (fb_ivec s) = 16 \<and> fb_num s < 16"

interpretation ofb_key: keystream fb_ivec fb_num "\<lambda>n s. s\<lparr>fb_num := n\<rparr>" "ofb_refresh block" "fb_ok block" "ofb_step block"
  "ofb_blocks block" "CRYPTO_ofb128_encrypt block" for block
proof
  show "ofb_blocks block s out inp =
      (if 16 \<le> length inp then ofb_blocks block ((ofb_refresh block s)\<lparr>fb_num := 0\<rparr>)
         (out @ xor_words 0 (replicate 16 0) (take 16 inp) (fb_ivec (ofb_refresh block s))) (drop 16 inp) else (s, out, inp))"
    if "fb_num s = 0 \<or> length inp < 16" for s out inp
    using that by (subst ofb_blocks.simps) (auto simp: ofb_refresh_def Let_def)
  show "CRYPTO_ofb128_encrypt block s inp =
      (let (n, out, inp1) = xor_head (fb_ivec s) (fb_num s) [] inp; (s1, out1, inp2) = ofb_blocks block (s\<lparr>fb_num := n\<rparr>) out inp1
       in if inp2 = [] then (out1, s1)
          else let s2 = ofb_refresh block s1; (n2, out2) = xor_tail (fb_ivec s2) (fb_num s2) out1 inp2 in (out2, s2\<lparr>fb_num := n2\<rparr>))"
    for s inp by (simp add: CRYPTO_ofb128_encrypt_def ofb_refresh_def Let_def cong: if_cong)
qed (auto simp: fb_ok_def ofb_refresh_def ofb_step_def block_ok_def)

section \<open>Cipher feedback\<close>

definition cfb_step :: "(bytes \<Rightarrow> bytes) \<Rightarrow> bool \<Rightarrow> fb_state \<Rightarrow> byte \<Rightarrow> byte \<times> fb_state" where
  "cfb_step block enc s b =
     (let iv = (if fb_num s = 0 then block (fb_ivec s) else fb_ivec s); x = iv ! fb_num s XOR b
      in (x, \<lparr>fb_ivec = iv[fb_num s := (if enc then x else b)], fb_num = (fb_num s + 1) mod 16\<rparr>))"

lemma cfb_ok_step: "fb_ok block s \<Longrightarrow> fb_ok block (snd (cfb_step block enc s b))"
  by (auto simp: fb_ok_def cfb_step_def Let_def block_ok_def)

text \<open>What \<open>xs\<close> is written into \<^verbatim>\<open>ivec\<close> for the input \<open>bs\<close>.\<close>

abbreviation feed :: "bool \<Rightarrow> bytes \<Rightarrow> bytes \<Rightarrow> bytes" where
  "feed enc xs bs \<equiv> (if enc then xs else bs)"

lemma write_at_Cons: "n < length iv \<Longrightarrow> write_at (iv[n := y]) (Suc n) ys = write_at iv n (y # ys)"
  by (simp add: write_at_def take_Suc_conv_app_nth take_update_cancel)

lemma cfb_run_within:
  "fb_ok block s \<Longrightarrow> 0 < fb_num s \<Longrightarrow> fb_num s + length bs \<le> 16 \<Longrightarrow>
     run (cfb_step block enc) s bs =
       (xor_bytes (drop (fb_num s) (fb_ivec s)) bs,
        \<lparr>fb_ivec = write_at (fb_ivec s) (fb_num s) (feed enc (xor_bytes (drop (fb_num s) (fb_ivec s)) bs) bs),
         fb_num = (fb_num s + length bs) mod 16\<rparr>)"
proof (induction bs arbitrary: s)
  case Nil
  then show ?case by (cases s) (simp add: fb_ok_def)
next
  case (Cons b bs)
  let ?n = "fb_num s" and ?iv = "fb_ivec s"
  let ?x = "?iv ! ?n XOR b"
  let ?s = "\<lparr>fb_ivec = ?iv[?n := feed enc [?x] [b] ! 0], fb_num = (?n + 1) mod 16\<rparr>"
  have st: "cfb_step block enc s b = (?x, ?s)" using Cons.prems by (simp add: cfb_step_def Let_def)
  have n: "?n < length ?iv" using Cons.prems by (simp add: fb_ok_def)
  have d: "drop ?n ?iv = ?iv ! ?n # drop (Suc ?n) ?iv" using n by (rule Cons_nth_drop_Suc [symmetric])
  have "run (cfb_step block enc) ?s bs =
      (xor_bytes (drop (Suc ?n) ?iv) bs,
       \<lparr>fb_ivec = write_at (fb_ivec ?s) (Suc ?n) (feed enc (xor_bytes (drop (Suc ?n) ?iv) bs) bs), fb_num = (?n + length (b # bs)) mod 16\<rparr>)"
  proof (cases "bs = []")
    case False
    then have lt: "?n + 1 < 16" using Cons.prems(3) by (cases bs) auto
    have "fb_ok block ?s" using cfb_ok_step [OF Cons.prems(1), of enc b] st by simp
    with Cons.IH [of ?s] Cons.prems(3) lt show ?thesis by simp
  qed simp
  with st d n show ?case by (cases enc) (simp_all add: write_at_Cons)
qed

lemma cfb_run_first:
  assumes "fb_ok block s" and "fb_num s = 0" and "bs \<noteq> []" and "length bs \<le> 16"
  shows "run (cfb_step block enc) s bs =
    (xor_bytes (block (fb_ivec s)) bs,
     \<lparr>fb_ivec = write_at (block (fb_ivec s)) 0 (feed enc (xor_bytes (block (fb_ivec s)) bs) bs), fb_num = length bs mod 16\<rparr>)"
proof (cases bs)
  case (Cons b bs')
  let ?iv = "block (fb_ivec s)"
  let ?x = "?iv ! 0 XOR b"
  let ?s = "\<lparr>fb_ivec = ?iv[0 := feed enc [?x] [b] ! 0], fb_num = 1\<rparr>"
  have n: "0 < length ?iv" using assms(1) by (simp add: fb_ok_def block_okD)
  have st: "cfb_step block enc s b = (?x, ?s)" using assms(2) by (simp add: cfb_step_def Let_def)
  have "fb_ok block ?s" using cfb_ok_step [OF assms(1), of enc b] st by simp
  moreover have d: "?iv = ?iv ! 0 # drop 1 ?iv" using Cons_nth_drop_Suc [OF n] by simp
  have x: "xor_bytes ?iv (b # bs') = ?x # xor_bytes (drop 1 ?iv) bs'"
    by (subst d) simp
  ultimately have "run (cfb_step block enc) ?s bs' = (xor_bytes (drop 1 ?iv) bs',
     \<lparr>fb_ivec = write_at (fb_ivec ?s) (Suc 0) (feed enc (xor_bytes (drop 1 ?iv) bs') bs'), fb_num = length bs mod 16\<rparr>)"
    using cfb_run_within [of block ?s bs' enc] assms(4) Cons by simp
  with st x n show ?thesis unfolding Cons by (cases enc) (simp_all add: write_at_Cons)
qed (use assms in simp)

lemma cfb_words_eq:
  assumes "length iv = 16" and "length out = 16" and "length inp = 16"
  shows "cfb_words enc 0 iv out inp = (feed enc (xor_bytes iv inp) inp, xor_bytes iv inp)"
proof -
  let ?x = "xor_bytes iv inp"
  let ?f = "feed enc ?x inp"
  have t: "store_word_le o' n (load_word_le (drop n inp)) = write_at o' n (take 8 (drop n inp))" if "n + 8 \<le> 16" for o' n
    using that assms(3) by (simp add: store_word_le_def load_word_le_def store_load_le)
  have x: "store_word_le o' n (load_word_le (drop n iv) XOR load_word_le (drop n inp)) = write_at o' n (take 8 (drop n ?x))"
    if "n + 8 \<le> 16" for o' n using that assms(1,3) by (simp add: store_word_le_xor)
  have d: "drop 8 (write_at iv 0 (take 8 ?f)) = drop 8 iv"
    using assms(1,3) by (simp add: write_at_def)
  have "cfb_words enc 0 iv out inp = cfb_words enc 8 (write_at iv 0 (take 8 ?f)) (write_at out 0 (take 8 ?x)) inp"
    using t [of 0 iv] x [of 0 iv] x [of 0 out] by (cases enc; subst cfb_words.simps; simp add: Let_def)
  also have "\<dots> = cfb_words enc 16 (write_at (write_at iv 0 (take 8 ?f)) 8 (take 8 (drop 8 ?f)))
      (write_at (write_at out 0 (take 8 ?x)) 8 (take 8 (drop 8 ?x))) inp"
    using t [of 8 "write_at iv 0 (take 8 ?f)"] x [of 8 "write_at iv 0 (take 8 ?f)"] x [of 8 "write_at out 0 (take 8 ?x)"] d
    by (cases enc; subst cfb_words.simps; simp add: Let_def)
  also have "\<dots> = (write_at (write_at iv 0 (take 8 ?f)) 8 (take 8 (drop 8 ?f)),
      write_at (write_at out 0 (take 8 ?x)) 8 (take 8 (drop 8 ?x)))"
    by (subst cfb_words.simps) simp
  also have "\<dots> = (?f, ?x)" using assms write_at_halves [of iv ?f] write_at_halves [of out ?x] by simp
  finally show ?thesis .
qed

lemma cfb_head_run:
  "fb_num s < 16 \<Longrightarrow> cfb_head enc s out inp = (s', out', rest) \<Longrightarrow>
     (fb_num s' = 0 \<or> rest = []) \<and>
     (\<exists>o1. out' = out @ o1 \<and> run (cfb_step block enc) s inp = (let (o2, s2) = run (cfb_step block enc) s' rest in (o1 @ o2, s2)))"
proof (induction inp arbitrary: s out)
  case Nil
  then show ?case by auto
next
  case (Cons b inp)
  show ?case
  proof (cases "fb_num s = 0")
    case True
    then show ?thesis using Cons.prems by (auto simp: split_beta Let_def)
  next
    case False
    let ?x = "fb_ivec s ! fb_num s XOR b"
    let ?s = "\<lparr>fb_ivec = (fb_ivec s)[fb_num s := (if enc then ?x else b)], fb_num = (fb_num s + 1) mod 16\<rparr>"
    have "fb_num ?s < 16" by simp
    moreover have "cfb_head enc ?s (out @ [?x]) inp = (s', out', rest)" using Cons.prems(2) False by (simp add: Let_def)
    ultimately have "(fb_num s' = 0 \<or> rest = []) \<and> (\<exists>o1. out' = (out @ [?x]) @ o1 \<and>
        run (cfb_step block enc) ?s inp = (let (o2, s2) = run (cfb_step block enc) s' rest in (o1 @ o2, s2)))"
      by (rule Cons.IH)
    moreover have "cfb_step block enc s b = (?x, ?s)" using False by (simp add: cfb_step_def Let_def)
    ultimately show ?thesis by (auto simp: split_beta Let_def)
  qed
qed

lemma cfb_head_ok: "fb_ok block s \<Longrightarrow> cfb_head enc s out inp = (s', out', rest) \<Longrightarrow> fb_ok block s'"
  by (induction enc s out inp rule: cfb_head.induct) (auto simp: fb_ok_def Let_def split: if_splits)

lemma cfb_blocks_run:
  "fb_ok block s \<Longrightarrow> fb_num s = 0 \<Longrightarrow> cfb_blocks block enc s out inp = (s1, out1, rest) \<Longrightarrow>
     fb_ok block s1 \<and> fb_num s1 = 0 \<and> length rest < 16 \<and>
     (\<exists>o1. out1 = out @ o1 \<and> run (cfb_step block enc) s inp = (let (o2, s') = run (cfb_step block enc) s1 rest in (o1 @ o2, s')))"
proof (induction inp arbitrary: s out rule: length_induct)
  case (1 inp)
  let ?st = "cfb_step block enc"
  show ?case
  proof (cases "16 \<le> length inp")
    case True
    let ?iv = "block (fb_ivec s)"
    let ?x = "xor_bytes ?iv (take 16 inp)"
    let ?s = "\<lparr>fb_ivec = feed enc ?x (take 16 inp), fb_num = 0\<rparr>"
    have iv: "length ?iv = 16" using 1(2) by (simp add: fb_ok_def block_okD)
    then have ok: "fb_ok block ?s" using 1(2) True by (simp add: fb_ok_def)
    have l: "length (take 16 inp) = 16" using True by simp
    have "cfb_words enc 0 ?iv (replicate 16 0) (take 16 inp) = (feed enc ?x (take 16 inp), ?x)"
      using iv l by (intro cfb_words_eq) simp_all
    then have bl: "cfb_blocks block enc ?s (out @ ?x) (drop 16 inp) = (s1, out1, rest)"
      using 1(3,4) True by (subst (asm) cfb_blocks.simps) simp
    have "length (drop 16 inp) < length inp" using True by simp
    from 1(1) [rule_format, OF this ok _ bl] have IH: "fb_ok block s1 \<and> fb_num s1 = 0 \<and> length rest < 16 \<and>
        (\<exists>o1. out1 = (out @ ?x) @ o1 \<and> run ?st ?s (drop 16 inp) = (let (o2, s') = run ?st s1 rest in (o1 @ o2, s')))"
      by simp
    have "take 16 inp \<noteq> []" using l by auto
    moreover have "write_at ?iv 0 (feed enc ?x (take 16 inp)) = feed enc ?x (take 16 inp)"
      using iv l by (simp add: write_at_def)
    ultimately have "run ?st s (take 16 inp) = (?x, ?s)"
      using cfb_run_first [OF 1(2,3), of "take 16 inp" enc] unfolding l by simp
    then have "run ?st s inp = (let (b, s2) = run ?st ?s (drop 16 inp) in (?x @ b, s2))"
      using run_append [of ?st s "take 16 inp" "drop 16 inp"] by simp
    with IH show ?thesis by (auto simp: split_beta Let_def)
  next
    case False
    then have "cfb_blocks block enc s out inp = (s, out, inp)" by (subst cfb_blocks.simps) simp
    then show ?thesis using 1(2-4) False by (auto simp: split_beta Let_def)
  qed
qed

lemma cfb_tail_eq:
  "fb_num s + length inp \<le> length (fb_ivec s) \<Longrightarrow> cfb_tail enc s out inp =
     (\<lparr>fb_ivec = write_at (fb_ivec s) (fb_num s) (feed enc (xor_bytes (drop (fb_num s) (fb_ivec s)) inp) inp),
       fb_num = fb_num s + length inp\<rparr>, out @ xor_bytes (drop (fb_num s) (fb_ivec s)) inp)"
proof (induction inp arbitrary: s out)
  case Nil
  show ?case by (cases s) simp
next
  case (Cons b inp)
  have "drop (fb_num s) (fb_ivec s) = fb_ivec s ! fb_num s # drop (Suc (fb_num s)) (fb_ivec s)"
    using Cons.prems by (intro Cons_nth_drop_Suc [symmetric]) simp
  with Cons show ?case by (cases enc) (simp_all add: Let_def write_at_Cons)
qed

lemma cfb_crypt_run:
  assumes "fb_ok block s"
  shows "CRYPTO_cfb128_encrypt block enc s inp = run (cfb_step block enc) s inp"
proof -
  let ?st = "cfb_step block enc"
  obtain s0 out inp1 where h: "cfb_head enc s [] inp = (s0, out, inp1)" by (metis prod_cases3)
  have ok0: "fb_ok block s0" using assms h by (rule cfb_head_ok)
  have "fb_num s < 16" using assms by (simp add: fb_ok_def)
  from cfb_head_run [OF this h] have n: "fb_num s0 = 0 \<or> inp1 = []"
    and r1: "run ?st s inp = (let (o2, s') = run ?st s0 inp1 in (out @ o2, s'))" by auto
  obtain s1 out1 inp2 where b: "cfb_blocks block enc s0 out inp1 = (s1, out1, inp2)" by (metis prod_cases3)
  show ?thesis
  proof (cases "inp1 = []")
    case True
    then have "s1 = s0" "out1 = out" "inp2 = []" using b by (simp_all add: cfb_blocks.simps)
    then show ?thesis using r1 h b True by (simp add: CRYPTO_cfb128_encrypt_def)
  next
    case False
    then have "fb_num s0 = 0" using n by simp
    from cfb_blocks_run [OF ok0 this b] have s1: "fb_ok block s1" "fb_num s1 = 0" "length inp2 < 16"
      and r2: "\<exists>o1. out1 = out @ o1 \<and> run ?st s0 inp1 = (let (o2, s') = run ?st s1 inp2 in (o1 @ o2, s'))" by auto
    have r: "run ?st s inp = (let (o2, s') = run ?st s1 inp2 in (out1 @ o2, s'))"
      using r1 r2 by (auto simp: split_beta Let_def)
    show ?thesis
    proof (cases "inp2 = []")
      case True
      then show ?thesis using r h b by (simp add: CRYPTO_cfb128_encrypt_def)
    next
      case False
      have "length (block (fb_ivec s1)) = 16" using s1(1) by (simp add: fb_ok_def block_okD)
      then show ?thesis
        using r h b False s1(2,3) cfb_run_first [OF s1(1,2) False, of enc]
          cfb_tail_eq [of "s1\<lparr>fb_ivec := block (fb_ivec s1)\<rparr>" inp2 enc out1]
        by (simp add: CRYPTO_cfb128_encrypt_def)
    qed
  qed
qed

end
