(* ===== verification/Modes_Ctr32.thy ===== *)
theory Modes_Ctr32
  imports Modes_Cfb
begin

text \<open>
  \<^verbatim>\<open>CRYPTO_ctr128_encrypt_ctr32\<close> against \<^verbatim>\<open>CRYPTO_ctr128_encrypt\<close>: the counter as a number of 128 bits,
  its lower 32 bits, and the carry into the upper 96.
\<close>

section \<open>Counters as numbers\<close>

lemma mod_mult_add:
  fixes x m b l :: nat
  assumes "l < b"
  shows "(x mod m) * b + l = (x * b + l) mod (m * b)"
proof -
  have "(x * b + l) mod (m * b) = (x * b + l) mod (b * m)" by (simp add: mult.commute)
  also have "\<dots> = b * ((x * b + l) div b mod m) + (x * b + l) mod b" by (rule mod_mult2_eq)
  also have "\<dots> = (x mod m) * b + l" using assms by (simp add: mult.commute)
  finally show ?thesis by simp
qed

lemma be_val_take_Suc: "n < length ctr \<Longrightarrow> be_val (take (Suc n) ctr) = be_val (take n ctr) * 256 + unat (ctr ! n)"
  by (simp add: take_Suc_conv_app_nth be_val_append)

lemma ctr_inc_loop_val:
  "n \<le> length ctr \<Longrightarrow> unat c \<le> 1 \<Longrightarrow>
     be_val (take n (ctr_inc_loop n c ctr)) = (be_val (take n ctr) + unat c) mod 256 ^ n \<and>
     drop n (ctr_inc_loop n c ctr) = drop n ctr"
proof (induction n arbitrary: c ctr)
  case 0
  then show ?case by simp
next
  case (Suc n)
  let ?c = "c + ucast (ctr ! n) :: u32"
  let ?ctr = "ctr[n := ucast ?c]"
  have u: "unat (ucast (ctr ! n) :: u32) = unat (ctr ! n)" by (rule unat_ucast_up) simp
  have lt: "unat (ctr ! n) < 256" by simp
  then have "unat c + unat (ctr ! n) < 4294967296" using Suc.prems(2) by linarith
  then have c: "unat ?c = unat c + unat (ctr ! n)" using u
    by (subst unat_add_lem [THEN iffD1]) simp_all
  have low: "unat (ucast ?c :: byte) = (unat c + unat (ctr ! n)) mod 256"
    using c by (simp add: unat_ucast)
  have carry: "unat (drop_bit 8 ?c) = (unat c + unat (ctr ! n)) div 256"
    using c by (simp add: unat_drop_bit)
  moreover have "unat c + unat (ctr ! n) < 2 * 256" using Suc.prems(2) lt by linarith
  then have "(unat c + unat (ctr ! n)) div 256 < 2" by (rule less_mult_imp_div_less)
  ultimately have "unat (drop_bit 8 ?c) \<le> 1" by simp
  with Suc.IH [of ?ctr "drop_bit 8 ?c"] Suc.prems(1)
  have v: "be_val (take n (ctr_inc_loop n (drop_bit 8 ?c) ?ctr)) = (be_val (take n ctr) + unat (drop_bit 8 ?c)) mod 256 ^ n"
    and d: "drop n (ctr_inc_loop n (drop_bit 8 ?c) ?ctr) = drop n ?ctr" by simp_all
  let ?r = "ctr_inc_loop n (drop_bit 8 ?c) ?ctr"
  have r: "ctr_inc_loop (Suc n) c ctr = ?r" by (simp add: Let_def)
  have n: "n < length ctr" using Suc.prems(1) by simp
  have "?r ! n = drop n ?r ! 0" using n by simp
  then have rn: "?r ! n = ucast ?c" using n unfolding d by simp
  have "be_val (take (Suc n) ?r) = (be_val (take n ctr) + unat (drop_bit 8 ?c)) mod 256 ^ n * 256 + (unat c + unat (ctr ! n)) mod 256"
    using n by (simp add: be_val_take_Suc v rn low)
  also have "\<dots> = ((be_val (take n ctr) + unat (drop_bit 8 ?c)) * 256 + (unat c + unat (ctr ! n)) mod 256) mod (256 ^ n * 256)"
    by (rule mod_mult_add) simp
  also have "(be_val (take n ctr) + unat (drop_bit 8 ?c)) * 256 + (unat c + unat (ctr ! n)) mod 256 = be_val (take (Suc n) ctr) + unat c"
    using n by (simp add: be_val_take_Suc carry algebra_simps)
  finally have "be_val (take (Suc n) ?r) = (be_val (take (Suc n) ctr) + unat c) mod 256 ^ Suc n" by (simp add: mult.commute)
  moreover have "drop (Suc n) ?r = drop (Suc n) ctr"
  proof -
    have "drop (Suc n) ?r = drop 1 (drop n ?r)" by simp
    also have "\<dots> = drop (Suc n) ctr" unfolding d by simp
    finally show ?thesis .
  qed
  ultimately show ?case unfolding r by blast
qed

lemma ctr128_inc_val: "length ctr = 16 \<Longrightarrow> be_val (ctr128_inc ctr) = (be_val ctr + 1) mod 2 ^ 128"
  using ctr_inc_loop_val [of 16 ctr 1] length_ctr_inc_loop [of 16 1 ctr] by (simp add: ctr128_inc_def)

lemma ctr96_inc_val:
  assumes "length ctr = 16"
  shows "be_val (ctr96_inc ctr) = (be_val (take 12 ctr) + 1) mod 2 ^ 96 * 2 ^ 32 + be_val (drop 12 ctr)"
proof -
  have "be_val (ctr96_inc ctr) = be_val (take 12 (ctr96_inc ctr) @ drop 12 (ctr96_inc ctr))" by simp
  also have "\<dots> = be_val (take 12 (ctr96_inc ctr)) * 256 ^ length (drop 12 (ctr96_inc ctr)) + be_val (drop 12 (ctr96_inc ctr))"
    by (rule be_val_append)
  finally show ?thesis using assms ctr_inc_loop_val [of 12 ctr 1] by (simp add: ctr96_inc_def)
qed

lemma ctr128_inc_pow_val:
  "length ctr = 16 \<Longrightarrow> length ((ctr128_inc ^^ k) ctr) = 16 \<and> be_val ((ctr128_inc ^^ k) ctr) = (be_val ctr + k) mod 2 ^ 128"
proof (induction k)
  case 0
  then show ?case using be_val_less [of ctr] by simp
next
  case (Suc k)
  then show ?case by (simp add: ctr128_inc_val mod_simps)
qed

section \<open>The lower 32 bits\<close>

lemma bit_ff00: "bit (0xff00ff00 :: u32) k \<longleftrightarrow> k < 32 \<and> odd (k div 8)"
  and bit_00ff: "bit (0x00ff00ff :: u32) k \<longleftrightarrow> k < 32 \<and> even (k div 8)"
proof -
  have eq: "(0xff00ff00 :: u32) = push_bit 24 (mask 8) OR push_bit 8 (mask 8)"
    "(0x00ff00ff :: u32) = push_bit 16 (mask 8) OR mask 8" by (simp_all add: mask_numeral)
  have "k < 8 \<or> 8 \<le> k \<and> k < 16 \<or> 16 \<le> k \<and> k < 24 \<or> 24 \<le> k \<and> k < 32 \<or> 32 \<le> k" by linarith
  moreover have "8 \<le> k \<Longrightarrow> k < 16 \<Longrightarrow> k div 8 = 1" "16 \<le> k \<Longrightarrow> k < 24 \<Longrightarrow> k div 8 = 2" "24 \<le> k \<Longrightarrow> k < 32 \<Longrightarrow> k div 8 = 3"
    by (simp_all add: div_nat_eqI)
  ultimately show "bit (0xff00ff00 :: u32) k \<longleftrightarrow> k < 32 \<and> odd (k div 8)"
    "bit (0x00ff00ff :: u32) k \<longleftrightarrow> k < 32 \<and> even (k div 8)"
    unfolding eq by (auto simp: bit_or_iff bit_push_bit_iff bit_mask_iff)
qed

text \<open>The bits of a byte-swapped word.\<close>

lemma bit_bswap4: "k < 32 \<Longrightarrow> bit (CRYPTO_bswap4 x) k = bit x (8 * (3 - k div 8) + k mod 8)"
proof -
  assume k: "k < 32"
  define y where "y = drop_bit 16 x OR push_bit 16 x"
  have y: "bit y j \<longleftrightarrow> bit x (16 + j) \<or> 16 \<le> j \<and> j < 32 \<and> bit x (j - 16)" for j
    unfolding y_def by (auto simp: bit_or_iff bit_drop_bit_eq bit_push_bit_iff)
  have x: "\<not> bit x j" if "32 \<le> j" for j using that by (auto dest: bit_imp_le_length)
  have "bit (CRYPTO_bswap4 x) k \<longleftrightarrow>
      bit y (8 + k) \<and> 8 + k < 32 \<and> odd ((8 + k) div 8) \<or> 8 \<le> k \<and> bit y (k - 8) \<and> even ((k - 8) div 8)"
    unfolding CRYPTO_bswap4_def Let_def y_def [symmetric] bit_or_iff bit_drop_bit_eq bit_push_bit_iff bit_and_iff
      bit_ff00 bit_00ff o_apply using k by auto
  also have "\<dots> \<longleftrightarrow> bit x (8 * (3 - k div 8) + k mod 8)"
  proof -
    consider "k div 8 = 0" | "k div 8 = 1" | "k div 8 = 2" | "k div 8 = 3" using k by linarith
    then show ?thesis
    proof cases
      case 1
      then have "k < 8" by simp
      then have "(8 + k) div 8 = 1" by (simp add: div_nat_eqI)
      with \<open>k < 8\<close> show ?thesis by (simp add: y add.commute)
    next
      case 2
      then have r: "8 \<le> k" "k < 16" "k mod 8 = k - 8" by (auto simp: minus_mult_div_eq_mod [symmetric])
      then have "(k - 8) div 8 = 0" "(8 + k) div 8 = 2" by (simp_all add: div_nat_eqI)
      moreover have "\<not> 16 \<le> k - 8" using r by linarith
      ultimately show ?thesis using r 2 by (simp add: y)
    next
      case 3
      then have r: "16 \<le> k" "k < 24" "k mod 8 = k - 16" by (auto simp: minus_mult_div_eq_mod [symmetric])
      then have "(k - 8) div 8 = 1" "(8 + k) div 8 = 3" by (simp_all add: div_nat_eqI)
      then show ?thesis using r 3 x by (simp add: y)
    next
      case 4
      then have r: "24 \<le> k" "k mod 8 = k - 24" by (auto simp: minus_mult_div_eq_mod [symmetric])
      then have "(k - 8) div 8 = 2" using k by (simp add: div_nat_eqI)
      moreover have "16 \<le> k - 8" "k - 8 < 32" using r k by linarith+
      ultimately show ?thesis using r 4 k x by (simp add: y)
    qed
  qed
  finally show ?thesis .
qed

lemma store_le_bswap4: "store_le 4 (CRYPTO_bswap4 x) = rev (store_le 4 x)"
proof (rule nth_equalityI)
  fix i assume "i < length (store_le 4 (CRYPTO_bswap4 x))"
  then have i: "i < 4" by simp
  show "store_le 4 (CRYPTO_bswap4 x) ! i = rev (store_le 4 x) ! i"
  proof (rule bit_word_eqI)
    fix j assume "j < LENGTH(8)"
    then have j: "j < 8" by simp
    then have "(8 * i + j) div 8 = i" "(8 * i + j) mod 8 = j" "8 * i + j < 32" using i by auto
    then show "bit (store_le 4 (CRYPTO_bswap4 x) ! i) j = bit (rev (store_le 4 x) ! i) j"
      using i j by (simp add: rev_nth store_le_def bit_ucast_iff bit_drop_bit_eq bit_bswap4)
  qed
qed simp

lemma load_store_le: "load_le (store_le 4 w) = (w :: u32)"
proof (rule bit_word_eqI)
  fix k assume "k < LENGTH(32)"
  then have "k div 8 < 4" by simp
  then show "bit (load_le (store_le 4 w) :: u32) k = bit w k"
    using \<open>k < LENGTH(32)\<close> by (simp add: bit_load_le store_le_def bit_ucast_iff bit_drop_bit_eq)
qed

lemma unat_load_le: "8 * length bs \<le> LENGTH('a::len) \<Longrightarrow> unat (load_le bs :: 'a word) = le_val bs"
proof (induction bs)
  case Nil
  show ?case by (simp add: load_le_def le_val_def)
next
  case (Cons b bs)
  have IH: "unat (load_le bs :: 'a word) = le_val bs" using Cons by simp
  have "le_val bs < 256 ^ length bs" using be_val_less [of "rev bs"] by (simp add: le_val_def)
  also have "(256 :: nat) ^ length bs = 2 ^ (8 * length bs)" by (simp add: power_mult)
  also have "\<dots> \<le> 2 ^ (LENGTH('a) - 8)" using Cons.prems by (intro power_increasing) auto
  finally have "unat (load_le bs :: 'a word) < 2 ^ (LENGTH('a) - 8)" using IH by simp
  moreover have "LENGTH(8) \<le> LENGTH('a)" using Cons.prems by simp
  then have u: "unat (ucast b :: 'a word) = unat b" by (rule unat_ucast_up)
  ultimately have "unat (push_bit 8 (load_le bs) OR ucast b :: 'a word) = unat (load_le bs :: 'a word) * 2 ^ 8 + unat b"
    using Cons.prems unat_push_bit_or [of "ucast b :: 'a word" 8 "load_le bs"] by simp
  moreover have "load_le (b # bs) = push_bit 8 (load_le bs) OR (ucast b :: 'a word)" by (simp add: load_le_def)
  ultimately show ?case by (simp add: IH le_val_def be_val_append)
qed

lemma unat_GETU32: "length bs = 4 \<Longrightarrow> unat (GETU32 bs) = be_val bs"
proof -
  assume l: "length bs = 4"
  have "store_le 4 (CRYPTO_bswap4 (load_le bs)) = store_le 4 (load_le (rev bs) :: u32)"
    using l by (simp add: store_le_bswap4 store_load_le)
  then have "CRYPTO_bswap4 (load_le bs) = load_le (rev bs)" by (metis load_store_le)
  then show ?thesis using l by (simp add: GETU32_def unat_load_le le_val_def)
qed

lemma PUTU32_eq: "length iv = 16 \<Longrightarrow> PUTU32 iv 12 v = take 12 iv @ be_bytes 4 (unat v)"
proof -
  assume l: "length iv = 16"
  have "be_val (rev (store_le 4 v)) = unat (load_le (store_le 4 v) :: u32)"
    by (simp add: unat_load_le le_val_def)
  then have "be_bytes 4 (unat v) = rev (store_le 4 v)"
    by (intro be_bytes_unique) (simp_all add: load_store_le)
  then show ?thesis using l by (simp add: PUTU32_def write_at_def store_le_bswap4)
qed

section \<open>The counter after some blocks\<close>

text \<open>The counter block for the \<open>i\<close>-th block from \<open>iv\<close>, as a function that counts in 32 bits has it.\<close>

definition ctr32_block :: "bytes \<Rightarrow> nat \<Rightarrow> bytes" where
  "ctr32_block iv i = PUTU32 iv 12 (GETU32 (drop 12 iv) + of_nat i)"

lemma be_val_split: "length iv = 16 \<Longrightarrow> be_val iv = be_val (take 12 iv) * 2 ^ 32 + be_val (drop 12 iv)"
  using be_val_append [of "take 12 iv" "drop 12 iv"] by simp

lemma be_val_inj: "length a = length b \<Longrightarrow> be_val a = be_val b \<Longrightarrow> a = b"
  by (metis be_bytes_unique)

lemma GETU32_less: "unat (GETU32 bs) < 2 ^ 32"
  using unsigned_less [of "GETU32 bs", where 'a = nat] by simp

lemma unat_add_of_nat: "unat c + i < 2 ^ 32 \<Longrightarrow> unat (c + of_nat i :: u32) = unat c + i"
proof -
  assume h: "unat c + i < 2 ^ 32"
  then have "i < 2 ^ 32" by linarith
  then have i: "unat (of_nat i :: u32) = i" by (simp add: unat_of_nat take_bit_nat_eq_self)
  have "(2 :: nat) ^ LENGTH(32) = 2 ^ 32" by simp
  then have "unat c + unat (of_nat i :: u32) < 2 ^ LENGTH(32)" using h unfolding i by linarith
  then have "unat (c + of_nat i :: u32) = unat c + unat (of_nat i :: u32)" by (rule unat_add_lem [THEN iffD1])
  then show ?thesis unfolding i .
qed

lemma counter_in_range:
  assumes "length iv = 16" and "unat (GETU32 (drop 12 iv)) + i < 2 ^ 32"
  shows "(ctr128_inc ^^ i) iv = ctr32_block iv i"
proof (rule be_val_inj)
  let ?c = "be_val (drop 12 iv)"
  have c: "unat (GETU32 (drop 12 iv)) = ?c" using assms(1) by (simp add: unat_GETU32)
  have v: "unat (GETU32 (drop 12 iv) + of_nat i) = ?c + i" using unat_add_of_nat [OF assms(2)] by (simp add: c)
  have "be_val (take 12 iv) < 256 ^ length (take 12 iv)" by (rule be_val_less)
  then have t: "be_val (take 12 iv) < 2 ^ 96" using assms(1) by simp
  then have "be_val (take 12 iv) * 2 ^ 32 + 2 ^ 32 \<le> 2 ^ 96 * 2 ^ 32"
    using mult_le_mono1 [of "be_val (take 12 iv) + 1" "2 ^ 96" "2 ^ 32"] by (simp add: algebra_simps)
  then have "be_val (take 12 iv) * 2 ^ 32 + (?c + i) < 2 ^ 128" using assms(2) c by simp
  then have "be_val ((ctr128_inc ^^ i) iv) = be_val (take 12 iv) * 2 ^ 32 + (?c + i)"
    using assms(1) ctr128_inc_pow_val [of iv i] be_val_split [of iv] by simp
  moreover have "be_val (ctr32_block iv i) = be_val (take 12 iv) * 2 ^ 32 + (?c + i)"
    using assms c by (simp add: ctr32_block_def PUTU32_eq v be_val_append be_val_be_bytes_small)
  ultimately show "be_val ((ctr128_inc ^^ i) iv) = be_val (ctr32_block iv i)" by simp
  show "length ((ctr128_inc ^^ i) iv) = length (ctr32_block iv i)"
    using assms(1) ctr128_inc_pow_val [of iv i] by (simp add: ctr32_block_def PUTU32_eq)
qed

lemma counter_wraps:
  assumes "length iv = 16" and "unat (GETU32 (drop 12 iv)) + i = 2 ^ 32"
  shows "(ctr128_inc ^^ i) iv = ctr96_inc (PUTU32 iv 12 0)"
proof (rule be_val_inj)
  let ?iv = "PUTU32 iv 12 0"
  have c: "unat (GETU32 (drop 12 iv)) = be_val (drop 12 iv)" using assms(1) by (simp add: unat_GETU32)
  have iv: "length ?iv = 16" "take 12 ?iv = take 12 iv" "be_val (drop 12 ?iv) = 0"
    using assms(1) by (simp_all add: PUTU32_eq be_val_be_bytes)
  have "be_val ((ctr128_inc ^^ i) iv) = (be_val (take 12 iv) * 2 ^ 32 + (be_val (drop 12 iv) + i)) mod 2 ^ 128"
    using assms(1) ctr128_inc_pow_val [of iv i] be_val_split [of iv] by (simp add: add.assoc)
  also have "\<dots> = ((be_val (take 12 iv) + 1) * 2 ^ 32 + 0) mod (2 ^ 96 * 2 ^ 32)"
  proof -
    have e: "be_val (drop 12 iv) + i = 2 ^ 32" using assms(2) c by (simp only:)
    have "be_val (take 12 iv) * 2 ^ 32 + 2 ^ 32 = (be_val (take 12 iv) + 1) * 2 ^ 32 + 0"
      by (simp only: add_mult_distrib mult_1 add_0_right)
    moreover have "(2 :: nat) ^ 128 = 2 ^ 96 * 2 ^ 32" by simp
    ultimately show ?thesis unfolding e by (simp only:)
  qed
  also have "\<dots> = (be_val (take 12 iv) + 1) mod 2 ^ 96 * 2 ^ 32 + 0" by (rule mod_mult_add [symmetric]) simp
  finally show "be_val ((ctr128_inc ^^ i) iv) = be_val (ctr96_inc ?iv)" using ctr96_inc_val [OF iv(1)] iv(2,3) by simp
  show "length ((ctr128_inc ^^ i) iv) = length (ctr96_inc ?iv)"
    using assms(1) ctr128_inc_pow_val [of iv i] iv(1) by simp
qed

section \<open>The equivalence\<close>

text \<open>
  What the code relies on of a \<^verbatim>\<open>ctr128_f\<close>: it adds the encrypted counter blocks, counting in the
  lower 32 bits of \<open>iv\<close> and leaving \<open>iv\<close> alone.
\<close>

definition ctr32_func_ok :: "(bytes \<Rightarrow> bytes) \<Rightarrow> (bytes \<Rightarrow> nat \<Rightarrow> bytes \<Rightarrow> bytes) \<Rightarrow> bool" where
  "ctr32_func_ok block func \<longleftrightarrow> (\<forall>inp n iv. length iv = 16 \<longrightarrow> n * 16 \<le> length inp \<longrightarrow>
     func inp n iv = concat (map (\<lambda>i. xor_bytes (take 16 (drop (16 * i) inp)) (block (ctr32_block iv i))) [0..<n]))"

text \<open>Blocks from a counter of 128 bits.\<close>

definition ctr_out :: "(bytes \<Rightarrow> bytes) \<Rightarrow> bytes \<Rightarrow> nat \<Rightarrow> bytes \<Rightarrow> bytes" where
  "ctr_out block iv n inp =
     concat (map (\<lambda>i. xor_bytes (take 16 (drop (16 * i) inp)) (block ((ctr128_inc ^^ i) iv))) [0..<n])"

text \<open>States that agree on all that a later call reads: the key stream matters while some of it is left.\<close>

definition ctr_agree :: "ctr_state \<Rightarrow> ctr_state \<Rightarrow> bool" where
  "ctr_agree s t \<longleftrightarrow> ivec s = ivec t \<and> num s = num t \<and> (num s \<noteq> 0 \<longrightarrow> ecount_buf s = ecount_buf t)"

lemma blocks_chunk_cases:
  assumes "16 \<le> len" and "blocks_chunk len c = (n, c')"
  shows "0 < n \<and> n * 16 \<le> len \<and> (unat c + n < 2 ^ 32 \<and> c' = c + of_nat n \<and> c' \<noteq> 0 \<or> unat c + n = 2 ^ 32 \<and> c' = 0)"
proof -
  define b where "b = min (len div 16) (2 ^ 28)"
  have b: "0 < b" "b * 16 \<le> len" "b < 2 ^ 32" using assms(1) by (auto simp: b_def min_def)
  have bc: "blocks_chunk len c = (if unat (c + of_nat b) < b then (b - unat (c + of_nat b), 0) else (b, c + of_nat b))"
    by (simp add: blocks_chunk_def Let_def b_def min_def)
  have c: "unat c < 2 ^ 32" using unsigned_less [of c, where 'a = nat] by simp
  show ?thesis
  proof (cases "unat c + b < 2 ^ 32")
    case True
    then have u: "unat (c + of_nat b) = unat c + b" by (rule unat_add_of_nat)
    then have "n = b" "c' = c + of_nat b" using assms(2) bc by auto
    moreover have "c + of_nat b \<noteq> 0" using u b(1) by (metis add_is_0 less_numeral_extra(3) unsigned_0)
    ultimately show ?thesis using True b by simp
  next
    case False
    have "unat (of_nat b :: u32) = b" using b(3) by (simp add: unat_of_nat take_bit_nat_eq_self)
    then have u: "unat (c + of_nat b) = (unat c + b) mod 2 ^ 32" by (simp add: unat_word_ariths)
    also have "(unat c + b) mod 2 ^ 32 = unat c + b - 2 ^ 32"
      using False c b(3) by (subst le_mod_geq) (simp_all only: not_less, intro mod_less, linarith)
    finally have u: "unat (c + of_nat b) = unat c + b - 2 ^ 32" .
    with c have lt: "unat (c + of_nat b) < b" using b(1) False by linarith
    then have n: "n = b - unat (c + of_nat b)" "c' = 0" using assms(2) bc by simp_all
    then have "unat c + n = 2 ^ 32" using u c False by linarith
    moreover have "n \<le> b" "0 < n" using n(1) lt by simp_all
    ultimately show ?thesis using b(2) n(2) by simp
  qed
qed

lemma GETU32_PUTU32: "length iv = 16 \<Longrightarrow> GETU32 (drop 12 (PUTU32 iv 12 v)) = v"
proof -
  assume l: "length iv = 16"
  have "unat v < 256 ^ 4" using unsigned_less [of v, where 'a = nat] by simp
  then have "unat (GETU32 (drop 12 (PUTU32 iv 12 v))) = unat v"
    using l by (simp add: PUTU32_eq unat_GETU32 be_val_be_bytes_small)
  then show ?thesis by (simp only: word_unat_eq_iff)
qed

lemma length_PUTU32: "length iv = 16 \<Longrightarrow> length (PUTU32 iv 12 v) = 16"
  by (simp add: PUTU32_eq)

text \<open>The counter after a chunk, and its lower 32 bits.\<close>

lemma counter_after_chunk:
  assumes "length iv = 16" and "16 \<le> len" and "blocks_chunk len (GETU32 (drop 12 iv)) = (n, c')"
  shows "(if c' = 0 then ctr96_inc (PUTU32 iv 12 c') else PUTU32 iv 12 c') = (ctr128_inc ^^ n) iv \<and>
    GETU32 (drop 12 ((ctr128_inc ^^ n) iv)) = c' \<and> (\<forall>i<n. (ctr128_inc ^^ i) iv = ctr32_block iv i)"
proof -
  let ?c = "GETU32 (drop 12 iv)"
  note n = blocks_chunk_cases [OF assms(2,3)]
  have range: "(ctr128_inc ^^ i) iv = ctr32_block iv i" if "i < n" for i
    using that n by (intro counter_in_range [OF assms(1)]) linarith
  show ?thesis
  proof (cases "c' = 0")
    case True
    then have "unat ?c + n = 2 ^ 32" using n by blast
    then have eq: "(ctr128_inc ^^ n) iv = ctr96_inc (PUTU32 iv 12 0)" by (rule counter_wraps [OF assms(1)])
    have "drop 12 (ctr96_inc (PUTU32 iv 12 0)) = drop 12 (PUTU32 iv 12 0)"
      using ctr_inc_loop_val [of 12 "PUTU32 iv 12 0" 1] length_PUTU32 [OF assms(1)] by (simp add: ctr96_inc_def)
    then show ?thesis using True eq range GETU32_PUTU32 [OF assms(1)] by simp
  next
    case False
    then have "unat ?c + n < 2 ^ 32" "c' = ?c + of_nat n" using n by auto
    then have "(ctr128_inc ^^ n) iv = PUTU32 iv 12 c'"
      using counter_in_range [OF assms(1), of n] by (simp add: ctr32_block_def)
    then show ?thesis using False range GETU32_PUTU32 [OF assms(1)] by simp
  qed
qed

lemma ctr_out_Suc:
  "ctr_out block iv (Suc n) inp = ctr_out block iv n inp @ xor_bytes (take 16 (drop (16 * n) inp)) (block ((ctr128_inc ^^ n) iv))"
  by (simp add: ctr_out_def)

lemma ctr_blocks_ahead:
  assumes "ctr_ok block t" and "num t = 0"
  shows "n * 16 \<le> length inp \<Longrightarrow> \<exists>e. length e = 16 \<and>
    ctr_blocks block t out inp =
      ctr_blocks block (t\<lparr>ecount_buf := e, ivec := (ctr128_inc ^^ n) (ivec t)\<rparr>) (out @ ctr_out block (ivec t) n inp) (drop (16 * n) inp)"
proof (induction n)
  case 0
  have "ctr_blocks block t out inp = ctr_blocks block (t\<lparr>ecount_buf := ecount_buf t, ivec := (ctr128_inc ^^ 0) (ivec t)\<rparr>) (out @ ctr_out block (ivec t) 0 inp) (drop (16 * 0) inp)"
    by (simp add: ctr_out_def)
  then show ?case using assms(1) by (auto simp: ctr_ok_def)
next
  case (Suc n)
  let ?iv = "(ctr128_inc ^^ n) (ivec t)"
  from Suc obtain e where e: "ctr_blocks block t out inp =
      ctr_blocks block (t\<lparr>ecount_buf := e, ivec := ?iv\<rparr>) (out @ ctr_out block (ivec t) n inp) (drop (16 * n) inp)" by auto
  have len: "length (block ?iv) = 16"
    using assms(1) ctr128_inc_pow_val [of "ivec t" n] by (simp add: ctr_ok_def block_okD)
  have "16 \<le> length (drop (16 * n) inp)" using Suc.prems by simp
  moreover have "xor_words 0 (replicate 16 0) (take 16 (drop (16 * n) inp)) (block ?iv) =
      xor_bytes (take 16 (drop (16 * n) inp)) (block ?iv)" using Suc.prems len by (simp add: xor_words_eq)
  ultimately have "ctr_blocks block (t\<lparr>ecount_buf := e, ivec := ?iv\<rparr>) (out @ ctr_out block (ivec t) n inp) (drop (16 * n) inp) =
      ctr_blocks block (t\<lparr>ecount_buf := block ?iv, ivec := (ctr128_inc ^^ Suc n) (ivec t)\<rparr>)
        (out @ ctr_out block (ivec t) (Suc n) inp) (drop (16 * Suc n) inp)"
    using assms(2) by (subst ctr_blocks.simps) (cases t, simp add: Let_def ctr_out_Suc add.commute)
  then show ?case using e len by auto
qed

lemma ctr32_blocks_agree:
  assumes "ctr32_func_ok block func"
  shows "ctr_ok block t \<Longrightarrow> num t = 0 \<Longrightarrow> ctr_agree s t \<Longrightarrow>
    \<exists>s1 t1 out1 rest. ctr32_blocks func (GETU32 (drop 12 (ivec s))) s out inp = (GETU32 (drop 12 (ivec s1)), s1, out1, rest) \<and>
      ctr_blocks block t out inp = (t1, out1, rest) \<and> ctr_agree s1 t1 \<and> ctr_ok block t1 \<and> num t1 = 0"
proof (induction inp arbitrary: s t out rule: length_induct)
  case (1 inp)
  have iv: "length (ivec t) = 16" "ivec s = ivec t" using 1(2,4) by (auto simp: ctr_ok_def ctr_agree_def)
  show ?case
  proof (cases "16 \<le> length inp")
    case True
    obtain n c' where ch: "blocks_chunk (length inp) (GETU32 (drop 12 (ivec t))) = (n, c')" by fastforce
    note n = blocks_chunk_cases [OF True ch]
    note after = counter_after_chunk [OF iv(1) True ch]
    let ?iv = "(ctr128_inc ^^ n) (ivec t)"
    have "func inp n (ivec t) = ctr_out block (ivec t) n inp"
      unfolding ctr_out_def using assms iv(1) n after by (auto simp: ctr32_func_ok_def intro!: arg_cong [of _ _ concat] map_cong)
    then have l: "ctr32_blocks func (GETU32 (drop 12 (ivec s))) s out inp =
        ctr32_blocks func (GETU32 (drop 12 ?iv)) (s\<lparr>ivec := ?iv\<rparr>) (out @ ctr_out block (ivec t) n inp) (drop (n * 16) inp)"
      using True ch after iv(2) by (subst ctr32_blocks.simps) (simp add: Let_def)
    obtain e where e: "length e = 16" "ctr_blocks block t out inp =
        ctr_blocks block (t\<lparr>ecount_buf := e, ivec := ?iv\<rparr>) (out @ ctr_out block (ivec t) n inp) (drop (n * 16) inp)"
      using ctr_blocks_ahead [OF 1(2,3), of n inp out] n by (auto simp: mult.commute)
    have "0 < n" "0 < length inp" using n True by linarith+
    then have "length (drop (n * 16) inp) < length inp" by simp
    moreover have "ctr_ok block (t\<lparr>ecount_buf := e, ivec := ?iv\<rparr>)"
      using 1(2) e(1) ctr128_inc_pow_val [OF iv(1), of n] by (simp add: ctr_ok_def)
    moreover have "num (t\<lparr>ecount_buf := e, ivec := ?iv\<rparr>) = 0" using 1(3) by simp
    moreover have "ctr_agree (s\<lparr>ivec := ?iv\<rparr>) (t\<lparr>ecount_buf := e, ivec := ?iv\<rparr>)" using 1(3,4) by (simp add: ctr_agree_def)
    ultimately have "\<exists>s1 t1 out1 rest.
        ctr32_blocks func (GETU32 (drop 12 (ivec (s\<lparr>ivec := ?iv\<rparr>)))) (s\<lparr>ivec := ?iv\<rparr>) (out @ ctr_out block (ivec t) n inp) (drop (n * 16) inp)
          = (GETU32 (drop 12 (ivec s1)), s1, out1, rest) \<and>
        ctr_blocks block (t\<lparr>ecount_buf := e, ivec := ?iv\<rparr>) (out @ ctr_out block (ivec t) n inp) (drop (n * 16) inp) = (t1, out1, rest) \<and>
        ctr_agree s1 t1 \<and> ctr_ok block t1 \<and> num t1 = 0"
      by (rule 1(1) [rule_format])
    then show ?thesis unfolding l e(2) by simp
  next
    case False
    then have "ctr32_blocks func (GETU32 (drop 12 (ivec s))) s out inp = (GETU32 (drop 12 (ivec s)), s, out, inp)"
      "ctr_blocks block t out inp = (t, out, inp)"
      by (subst ctr32_blocks.simps ctr_blocks.simps, simp)+
    then show ?thesis using 1(2-4) by blast
  qed
qed

lemma blocks_chunk_16: "blocks_chunk 16 c = (1, c + 1)"
proof -
  have "unat (c + 1) < 1 \<longleftrightarrow> c + 1 = 0" by (auto simp only: less_one unat_eq_zero)
  moreover have "blocks_chunk 16 c = (if unat (c + 1) < 1 then (1 - unat (c + 1), 0) else (1, c + 1))"
    by (simp add: blocks_chunk_def Let_def)
  ultimately show ?thesis by (cases "c + 1 = 0") (simp_all only: if_True if_False unsigned_0 diff_zero refl simp_thms)
qed

lemma xor_zeros: "length bs = 16 \<Longrightarrow> xor_bytes (replicate 16 0) bs = bs"
  by (rule nth_equalityI) simp_all

lemma ctr32_call_agree:
  assumes f: "ctr32_func_ok block func" and ok: "ctr_ok block t" and ag: "ctr_agree s t"
  shows "\<exists>s' t' out. CRYPTO_ctr128_encrypt_ctr32 func s inp = (out, s') \<and> CRYPTO_ctr128_encrypt block t inp = (out, t') \<and> ctr_agree s' t'"
proof -
  obtain n out inp1 where h: "xor_head (ecount_buf t) (num t) [] inp = (n, out, inp1)" by (metis prod_cases3)
  have hs: "xor_head (ecount_buf s) (num s) [] inp = (n, out, inp1)"
  proof (cases "num t = 0")
    case True
    have "xor_head k 0 [] inp = (0, [], inp)" for k by (cases inp) simp_all
    then show ?thesis using h ag True by (simp add: ctr_agree_def)
  qed (use h ag in \<open>simp add: ctr_agree_def\<close>)
  have n: "n < 16" "n = 0 \<or> inp1 = []" using ctr_key.run_head [OF ok h] by auto
  let ?s = "s\<lparr>num := n\<rparr>" and ?t = "t\<lparr>num := n\<rparr>"
  have ok1: "ctr_ok block ?t" using ok n(1) by (simp add: ctr_ok_def)
  show ?thesis
  proof (cases "inp1 = []")
    case True
    have "num t = 0 \<Longrightarrow> n = 0" using h by (cases inp) auto
    then have "ctr_agree ?s ?t" using ag by (auto simp: ctr_agree_def)
    then show ?thesis using h hs True
      by (simp add: CRYPTO_ctr128_encrypt_ctr32_def CRYPTO_ctr128_encrypt_def ctr32_blocks.simps ctr_blocks.simps)
  next
    case False
    then have n0: "n = 0" using n by simp
    then have "ctr_agree ?s ?t" using ag by (simp add: ctr_agree_def)
    from ctr32_blocks_agree [OF f ok1 _ this, of out inp1] n0 obtain s1 t1 out1 rest where
      b: "ctr32_blocks func (GETU32 (drop 12 (ivec ?s))) ?s out inp1 = (GETU32 (drop 12 (ivec s1)), s1, out1, rest)"
        "ctr_blocks block ?t out inp1 = (t1, out1, rest)" and t1: "ctr_agree s1 t1" "ctr_ok block t1" "num t1 = 0"
      by auto
    show ?thesis
    proof (cases "rest = []")
      case True
      then show ?thesis using h hs b t1(1) n0
        by (simp add: CRYPTO_ctr128_encrypt_ctr32_def CRYPTO_ctr128_encrypt_def)
    next
      case False
      have iv: "length (ivec t1) = 16" "ivec s1 = ivec t1" "num s1 = num t1" using t1 by (auto simp: ctr_ok_def ctr_agree_def)
      define c where "c = GETU32 (drop 12 (ivec t1))"
      let ?iv = "if c + 1 = 0 then ctr96_inc (PUTU32 (ivec t1) 12 (c + 1)) else PUTU32 (ivec t1) 12 (c + 1)"
      have bc: "blocks_chunk 16 c = (1, c + 1)" by (rule blocks_chunk_16)
      from counter_after_chunk [OF iv(1) order_refl, of 1 "c + 1"] bc
      have "?iv = ctr128_inc (ivec t1)" "ivec t1 = ctr32_block (ivec t1) 0"
        by (simp_all add: c_def)
      moreover have ks: "func (replicate 16 0) 1 (ivec t1) = block (ivec t1)"
      proof -
        have "func (replicate 16 0) 1 (ivec t1) = xor_bytes (replicate 16 0) (block (ctr32_block (ivec t1) 0))"
          using f iv(1) by (simp add: ctr32_func_ok_def)
        moreover have "length (block (ivec t1)) = 16" using t1(2) by (simp add: ctr_ok_def block_okD)
        ultimately show ?thesis using \<open>ivec t1 = ctr32_block (ivec t1) 0\<close> xor_zeros by simp
      qed
      moreover obtain n2 out2 where "xor_tail (block (ivec t1)) (num t1) out1 rest = (n2, out2)" by fastforce
      ultimately show ?thesis using h hs b n0 False iv
        by (simp add: CRYPTO_ctr128_encrypt_ctr32_def CRYPTO_ctr128_encrypt_def Let_def ctr_agree_def flip: c_def)
    qed
  qed
qed

lemma ctr32_calls_agree:
  assumes f: "ctr32_func_ok block func"
  shows "ctr_ok block t \<Longrightarrow> ctr_agree s t \<Longrightarrow>
    fst (run_calls (CRYPTO_ctr128_encrypt_ctr32 func) s xss) = fst (run_calls (CRYPTO_ctr128_encrypt block) t xss)"
proof (induction xss arbitrary: s t)
  case (Cons xs xss)
  obtain s' t' out where c: "CRYPTO_ctr128_encrypt_ctr32 func s xs = (out, s')" "CRYPTO_ctr128_encrypt block t xs = (out, t')"
    "ctr_agree s' t'" using ctr32_call_agree [OF f Cons.prems] by blast
  have "ctr_ok block (snd (run (ctr_step block) t xs))"
    using Cons.prems(1)
  proof (induction xs arbitrary: t)
    case (Cons b xs)
    then show ?case using ctr_key.ok_step [OF Cons.prems, of b] by (simp add: Let_def split_beta)
  qed simp
  then have "ctr_ok block t'" using c(2) ctr_key.crypt_run [OF Cons.prems(1), of xs] by simp
  with Cons.IH [OF this c(3)] c(1,2) show ?case by (simp add: split_beta Let_def)
qed simp

end
