(* ===== verification/Modes_Props.thy ===== *)
theory Modes_Props
  imports Modes_Ctr32
begin

text \<open>
  The stream modes as modes that their decryption inverts, and their properties.
\<close>

section \<open>Interpretations\<close>

interpretation ctr: invertible_mode "CRYPTO_ctr128_encrypt block" "CRYPTO_ctr128_encrypt block" "ctr_step block" "ctr_step block"
  "ctr_ok block" for block
proof
  show "CRYPTO_ctr128_encrypt block s xs = run (ctr_step block) s xs" if "ctr_ok block s" for s xs
    using that by (rule ctr_key.crypt_run)
  show "ctr_ok block (snd (ctr_step block s b))" if "ctr_ok block s" for s b using that by (rule ctr_key.ok_step)
  show "ctr_step block s c = (b, s')" if "ctr_ok block s" "ctr_step block s b = (c, s')" for s b c s'
    using that(2) by (auto simp: ctr_step_def Let_def xor.assoc)
qed

interpretation ofb: invertible_mode "CRYPTO_ofb128_encrypt block" "CRYPTO_ofb128_encrypt block" "ofb_step block" "ofb_step block"
  "fb_ok block" for block
proof
  show "CRYPTO_ofb128_encrypt block s xs = run (ofb_step block) s xs" if "fb_ok block s" for s xs
    using that by (rule ofb_key.crypt_run)
  show "fb_ok block (snd (ofb_step block s b))" if "fb_ok block s" for s b using that by (rule ofb_key.ok_step)
  show "ofb_step block s c = (b, s')" if "fb_ok block s" "ofb_step block s b = (c, s')" for s b c s'
    using that(2) by (auto simp: ofb_step_def Let_def xor.assoc)
qed

lemma xor_back: "(a XOR (a XOR b)) = (b :: byte)"
  by (simp flip: xor.assoc)

interpretation cfb: invertible_mode "CRYPTO_cfb128_encrypt block True" "CRYPTO_cfb128_encrypt block False"
  "cfb_step block True" "cfb_step block False" "fb_ok block" for block
proof
  show "CRYPTO_cfb128_encrypt block True s xs = run (cfb_step block True) s xs" if "fb_ok block s" for s xs
    using that by (rule cfb_crypt_run)
  show "CRYPTO_cfb128_encrypt block False s xs = run (cfb_step block False) s xs" if "fb_ok block s" for s xs
    using that by (rule cfb_crypt_run)
  show "fb_ok block (snd (cfb_step block True s b))" if "fb_ok block s" for s b using that by (rule cfb_ok_step)
  show "fb_ok block (snd (cfb_step block False s b))" if "fb_ok block s" for s b using that by (rule cfb_ok_step)
  show "cfb_step block False s c = (b, s')" if "fb_ok block s" "cfb_step block True s b = (c, s')" for s b c s'
    using that(2) by (auto simp: cfb_step_def Let_def xor_back)
qed

text \<open>CFB on bytes: the state is \<^verbatim>\<open>ivec\<close>, shifted by one byte at each step.\<close>

definition cfb8_step :: "(bytes \<Rightarrow> bytes) \<Rightarrow> bool \<Rightarrow> bytes \<Rightarrow> byte \<Rightarrow> byte \<times> bytes" where
  "cfb8_step block enc iv b = (let x = b XOR block iv ! 0 in (x, drop 1 iv @ [if enc then x else b]))"

definition cfb8_ok :: "(bytes \<Rightarrow> bytes) \<Rightarrow> bytes \<Rightarrow> bool" where
  "cfb8_ok block iv \<longleftrightarrow> block_ok block \<and> length iv = 16"

lemma cfb8_block:
  assumes "length iv = 16"
  shows "cfbr_encrypt_block block 8 enc iv [b] = (let (x, iv') = cfb8_step block enc iv b in ([x], iv'))"
proof -
  have "take 16 (drop 1 (write_at (iv @ replicate 17 0) 16 [c])) = drop 1 iv @ [c]" for c
    using assms by (simp add: write_at_def)
  then show ?thesis by (simp add: cfbr_encrypt_block_def cfb8_step_def Let_def)
qed

lemma cfb8_ok_step: "cfb8_ok block iv \<Longrightarrow> cfb8_ok block (snd (cfb8_step block enc iv b))"
  by (simp add: cfb8_ok_def cfb8_step_def Let_def)

lemma cfb8_run: "cfb8_ok block iv \<Longrightarrow> CRYPTO_cfb128_8_encrypt block enc iv xs = run (cfb8_step block enc) iv xs"
proof (induction xs arbitrary: iv)
  case (Cons b xs)
  have "length iv = 16" using Cons.prems by (simp add: cfb8_ok_def)
  then show ?case using Cons.IH [OF cfb8_ok_step [OF Cons.prems, of enc b]] by (simp add: cfb8_block split_beta Let_def)
qed simp

interpretation cfb8: invertible_mode "CRYPTO_cfb128_8_encrypt block True" "CRYPTO_cfb128_8_encrypt block False"
  "cfb8_step block True" "cfb8_step block False" "cfb8_ok block" for block
proof
  show "CRYPTO_cfb128_8_encrypt block False s xs = run (cfb8_step block False) s xs" if "cfb8_ok block s" for s xs
    using that by (rule cfb8_run)
  show "CRYPTO_cfb128_8_encrypt block True s xs = run (cfb8_step block True) s xs" if "cfb8_ok block s" for s xs
    using that by (rule cfb8_run)
  show "cfb8_ok block (snd (cfb8_step block False s b))" if "cfb8_ok block s" for s b using that by (rule cfb8_ok_step)
  show "cfb8_ok block (snd (cfb8_step block True s b))" if "cfb8_ok block s" for s b using that by (rule cfb8_ok_step)
  show "cfb8_step block False s c = (b, s')" if "cfb8_ok block s" "cfb8_step block True s b = (c, s')" for s b c s'
    using that(2) by (auto simp: cfb8_step_def Let_def xor.assoc)
qed

section \<open>Properties\<close>

text \<open>\<open>dec\<close> undoes \<open>enc\<close> from the state \<open>s\<close>, however both are cut into calls.\<close>

definition undoes :: "('s \<Rightarrow> bytes \<Rightarrow> bytes \<times> 's) \<Rightarrow> ('s \<Rightarrow> bytes \<Rightarrow> bytes \<times> 's) \<Rightarrow> 's \<Rightarrow> bool" where
  "undoes dec enc s \<longleftrightarrow> (\<forall>xss yss c s'. run_calls enc s xss = (c, s') \<longrightarrow> concat yss = c \<longrightarrow>
     run_calls dec s yss = (concat xss, s'))"

text \<open>
  C32. In counter, output feedback and cipher feedback mode (on blocks and on bytes), for every block
  function from 16 to 16 bytes: however a message is cut into calls, and however the ciphertext is
  cut into calls, decrypting from the same initial state gives the message back and ends in the
  state in which the encryption ended.
\<close>

theorem stream_modes_roundtrip:
  assumes "block_ok block"
  shows "(\<forall>s. ctr_ok block s \<longrightarrow> undoes (CRYPTO_ctr128_encrypt block) (CRYPTO_ctr128_encrypt block) s) \<and>
    (\<forall>s. fb_ok block s \<longrightarrow> undoes (CRYPTO_ofb128_encrypt block) (CRYPTO_ofb128_encrypt block) s) \<and>
    (\<forall>s. fb_ok block s \<longrightarrow> undoes (CRYPTO_cfb128_encrypt block False) (CRYPTO_cfb128_encrypt block True) s) \<and>
    (\<forall>iv. length iv = 16 \<longrightarrow> undoes (CRYPTO_cfb128_8_encrypt block False) (CRYPTO_cfb128_8_encrypt block True) iv)"
  unfolding undoes_def
  by (intro conjI allI impI; erule (2) ctr.decrypts ofb.decrypts cfb.decrypts cfb8.decrypts [unfolded cfb8_ok_def, OF conjI [OF assms]])

lemma stream_modes_roundtrip_witness:
  "\<exists>c s'. run_calls (CRYPTO_cfb128_encrypt rev True) \<lparr>fb_ivec = replicate 16 7, fb_num = 0\<rparr> [[1, 2, 3], [4]] = (c, s') \<and>
    run_calls (CRYPTO_cfb128_encrypt rev False) \<lparr>fb_ivec = replicate 16 7, fb_num = 0\<rparr> [take 1 c, drop 1 c] = ([1, 2, 3, 4], s')"
proof -
  let ?s = "\<lparr>fb_ivec = replicate 16 7, fb_num = 0\<rparr>"
  obtain c s' where c: "run_calls (CRYPTO_cfb128_encrypt rev True) ?s [[1, 2, 3], [4]] = (c, s')" by fastforce
  have b: "block_ok rev" by (simp add: block_ok_def)
  then have "fb_ok rev ?s" by (simp add: fb_ok_def)
  then have "undoes (CRYPTO_cfb128_encrypt rev False) (CRYPTO_cfb128_encrypt rev True) ?s"
    using stream_modes_roundtrip [OF b] by blast
  moreover have "concat [take 1 c, drop 1 c] = c" by simp
  ultimately have "run_calls (CRYPTO_cfb128_encrypt rev False) ?s [take 1 c, drop 1 c] = (concat [[1, 2, 3], [4]], s')"
    using c unfolding undoes_def by blast
  then show ?thesis using c by auto
qed

text \<open>
  C33. The counter mode for functions that encrypt many blocks with a 32-bit counter computes the
  same output as the counter mode with the 128-bit counter, for every state that a caller may keep
  and every sequence of calls, past the overflow of the lower 32 bits.
\<close>

theorem ctr32_equals_ctr:
  assumes "ctr32_func_ok block func" and "ctr_ok block s"
  shows "fst (run_calls (CRYPTO_ctr128_encrypt_ctr32 func) s xss) = fst (run_calls (CRYPTO_ctr128_encrypt block) s xss)"
  using ctr32_calls_agree [OF assms(1,2)] by (simp add: ctr_agree_def)

text \<open>A \<^verbatim>\<open>ctr128_f\<close> for the block function that is the identity, one block at a time.\<close>

definition plain_ctr32 :: "bytes \<Rightarrow> nat \<Rightarrow> bytes \<Rightarrow> bytes" where
  "plain_ctr32 inp n iv = concat (map (\<lambda>i. xor_bytes (take 16 (drop (16 * i) inp)) (ctr32_block iv i)) [0..<n])"

lemma ctr32_equals_ctr_witness:
  "fst (run_calls (CRYPTO_ctr128_encrypt_ctr32 plain_ctr32) \<lparr>ivec = replicate 16 0xff, ecount_buf = replicate 16 0, num = 0\<rparr> [replicate 40 1])
   = fst (run_calls (CRYPTO_ctr128_encrypt id) \<lparr>ivec = replicate 16 0xff, ecount_buf = replicate 16 0, num = 0\<rparr> [replicate 40 1])"
proof (rule ctr32_equals_ctr)
  show "ctr32_func_ok id plain_ctr32" by (simp add: ctr32_func_ok_def plain_ctr32_def)
  show "ctr_ok id \<lparr>ivec = replicate 16 0xff, ecount_buf = replicate 16 0, num = 0\<rparr>"
    by (simp add: ctr_ok_def block_ok_def)
qed

end
