(* ===== verification/Modes_Cbc.thy ===== *)
theory Modes_Cbc
  imports Modes_Cfb
begin

text \<open>
  \<^verbatim>\<open>crypto/fipsmodule/modes/cbc.c\<close> on a memory of bytes: the input, the output and \<^verbatim>\<open>ivec\<close> are
  addresses, so that the overlapping buffers that the code allows are part of the model. The block
  cipher under its key is a function on blocks of 16 bytes.
\<close>

section \<open>Memory\<close>

type_synonym mem = "nat \<Rightarrow> byte"

definition load :: "mem \<Rightarrow> nat \<Rightarrow> nat \<Rightarrow> bytes" where
  "load m a n = map (\<lambda>i. m (a + i)) [0..<n]"

definition store :: "mem \<Rightarrow> nat \<Rightarrow> bytes \<Rightarrow> mem" where
  "store m a bs = (\<lambda>x. if a \<le> x \<and> x < a + length bs then bs ! (x - a) else m x)"

lemma length_load [simp]: "length (load m a n) = n"
  by (simp add: load_def)

lemma nth_load: "i < n \<Longrightarrow> load m a n ! i = m (a + i)"
  by (simp add: load_def)

lemma load_store_same [simp]: "length bs = n \<Longrightarrow> load (store m a bs) a n = bs"
  by (rule nth_equalityI) (simp_all add: nth_load store_def)

lemma load_store_disjoint: "b + n \<le> a \<or> a + length bs \<le> b \<Longrightarrow> load (store m a bs) b n = load m b n"
  by (rule nth_equalityI) (auto simp: nth_load store_def)

lemma load_split: "load m a (k + n) = load m a k @ load m (a + k) n"
  by (rule nth_equalityI) (auto simp: nth_load nth_append)

lemma store_append: "store (store m a xs) (a + length xs) ys = store m a (xs @ ys)"
  by (rule ext) (auto simp: store_def nth_append)

lemma store_outside: "x < a \<or> a + length bs \<le> x \<Longrightarrow> store m a bs x = m x"
  by (auto simp: store_def)

lemma store_commute:
  "a + length xs \<le> b \<or> b + length ys \<le> a \<Longrightarrow> store (store m a xs) b ys = store (store m b ys) a xs"
  by (rule ext) (auto simp: store_def)

lemma load_cong: "(\<And>i. i < n \<Longrightarrow> m (a + i) = m' (a + i)) \<Longrightarrow> load m a n = load m' a n"
  by (rule nth_equalityI) (simp_all add: nth_load)

section \<open>Encryption\<close>

text \<open>The loop over the words of a block: \<open>out[n..] = a[n..] ^ b[n..]\<close>.\<close>

function cbc_xor_words :: "nat \<Rightarrow> mem \<Rightarrow> nat \<Rightarrow> nat \<Rightarrow> nat \<Rightarrow> mem" where
  "cbc_xor_words n m out a b =
     (if n < 16 then
        cbc_xor_words (n + 8) (store m (out + n) (store_le 8 (load_word_le (load m (a + n) 8) XOR load_word_le (load m (b + n) 8)))) out a b
      else m)"
  by pat_completeness auto
termination by (relation "measure (\<lambda>(n, _). 16 - n)") auto

declare cbc_xor_words.simps [simp del]

text \<open>The results are the memory, the pointers and the length that are left, and the pointer \<^verbatim>\<open>iv\<close>.\<close>

function cbc_encrypt_blocks ::
  "(bytes \<Rightarrow> bytes) \<Rightarrow> mem \<Rightarrow> nat \<Rightarrow> nat \<Rightarrow> nat \<Rightarrow> nat \<Rightarrow> mem \<times> nat \<times> nat \<times> nat \<times> nat" where
  "cbc_encrypt_blocks block m inp out len iv =
     (if len \<ge> 16 then
        let m1 = cbc_xor_words 0 m out inp iv;
            m2 = store m1 out (block (load m1 out 16))
        in cbc_encrypt_blocks block m2 (inp + 16) (out + 16) (len - 16) out
      else (m, inp, out, len, iv))"
  by pat_completeness auto
termination by (relation "measure (\<lambda>(_, _, _, _, len, _). len)") auto

declare cbc_encrypt_blocks.simps [simp del]

text \<open>The bytes of a partial block: \<open>n\<close> counts them, the rest of the block is \<^verbatim>\<open>iv\<close>.\<close>

fun cbc_pad_bytes :: "nat \<Rightarrow> nat \<Rightarrow> mem \<Rightarrow> nat \<Rightarrow> nat \<Rightarrow> nat \<Rightarrow> nat \<Rightarrow> mem" where
  "cbc_pad_bytes 0 n m inp out len iv = m"
| "cbc_pad_bytes (Suc k) n m inp out len iv =
     cbc_pad_bytes k (n + 1)
       (store m (out + n) [if n < len then m (inp + n) XOR m (iv + n) else m (iv + n)]) inp out len iv"

function cbc_encrypt_tail :: "(bytes \<Rightarrow> bytes) \<Rightarrow> mem \<Rightarrow> nat \<Rightarrow> nat \<Rightarrow> nat \<Rightarrow> nat \<Rightarrow> mem \<times> nat" where
  "cbc_encrypt_tail block m inp out len iv =
     (if len = 0 then (m, iv)
      else
        let m1 = cbc_pad_bytes 16 0 m inp out len iv;
            m2 = store m1 out (block (load m1 out 16))
        in if len \<le> 16 then (m2, out)
           else cbc_encrypt_tail block m2 (inp + 16) (out + 16) (len - 16) out)"
  by pat_completeness auto
termination by (relation "measure (\<lambda>(_, _, _, _, len, _). len)") auto

declare cbc_encrypt_tail.simps [simp del]

definition CRYPTO_cbc128_encrypt :: "(bytes \<Rightarrow> bytes) \<Rightarrow> nat \<Rightarrow> nat \<Rightarrow> nat \<Rightarrow> nat \<Rightarrow> mem \<Rightarrow> mem" where
  "CRYPTO_cbc128_encrypt block inp out len ivp m =
     (let (m1, inp1, out1, len1, iv1) = cbc_encrypt_blocks block m inp out len ivp;
          (m2, iv2) = cbc_encrypt_tail block m1 inp1 out1 len1 iv1
      in store m2 ivp (load m2 iv2 16))"

section \<open>Decryption\<close>

text \<open>Into \<open>out\<close> directly, with \<^verbatim>\<open>iv\<close> pointing to the previous block of the input.\<close>

function cbc_decrypt_direct ::
  "(bytes \<Rightarrow> bytes) \<Rightarrow> mem \<Rightarrow> nat \<Rightarrow> nat \<Rightarrow> nat \<Rightarrow> nat \<Rightarrow> mem \<times> nat \<times> nat \<times> nat \<times> nat" where
  "cbc_decrypt_direct block m inp out len iv =
     (if len \<ge> 16 then
        let m1 = store m out (block (load m inp 16));
            m2 = cbc_xor_words 0 m1 out out iv
        in cbc_decrypt_direct block m2 (inp + 16) (out + 16) (len - 16) inp
      else (m, inp, out, len, iv))"
  by pat_completeness auto
termination by (relation "measure (\<lambda>(_, _, _, _, len, _). len)") auto

declare cbc_decrypt_direct.simps [simp del]

text \<open>Through \<^verbatim>\<open>tmp\<close>, keeping each word of the input in \<^verbatim>\<open>ivec\<close> before it may be overwritten.\<close>

function cbc_tmp_words :: "nat \<Rightarrow> bytes \<Rightarrow> mem \<Rightarrow> nat \<Rightarrow> nat \<Rightarrow> nat \<Rightarrow> mem" where
  "cbc_tmp_words n tmp m inp out ivp =
     (if n < 16 then
        let c = load_word_le (load m (inp + n) 8);
            m1 = store m (out + n) (store_le 8 (load_word_le (drop n tmp) XOR load_word_le (load m (ivp + n) 8)));
            m2 = store m1 (ivp + n) (store_le 8 c)
        in cbc_tmp_words (n + 8) tmp m2 inp out ivp
      else m)"
  by pat_completeness auto
termination by (relation "measure (\<lambda>(n, _). 16 - n)") auto

declare cbc_tmp_words.simps [simp del]

function cbc_decrypt_tmp ::
  "(bytes \<Rightarrow> bytes) \<Rightarrow> mem \<Rightarrow> nat \<Rightarrow> nat \<Rightarrow> nat \<Rightarrow> nat \<Rightarrow> mem \<times> nat \<times> nat \<times> nat" where
  "cbc_decrypt_tmp block m inp out len ivp =
     (if len \<ge> 16 then
        cbc_decrypt_tmp block (cbc_tmp_words 0 (block (load m inp 16)) m inp out ivp) (inp + 16) (out + 16) (len - 16) ivp
      else (m, inp, out, len))"
  by pat_completeness auto
termination by (relation "measure (\<lambda>(_, _, _, _, len, _). len)") auto

declare cbc_decrypt_tmp.simps [simp del]

fun cbc_tail_bytes :: "nat \<Rightarrow> nat \<Rightarrow> bytes \<Rightarrow> mem \<Rightarrow> nat \<Rightarrow> nat \<Rightarrow> nat \<Rightarrow> nat \<Rightarrow> mem" where
  "cbc_tail_bytes 0 n tmp m inp out len ivp = m"
| "cbc_tail_bytes (Suc k) n tmp m inp out len ivp =
     (let c = m (inp + n);
          m1 = (if n < len then store m (out + n) [tmp ! n XOR m (ivp + n)] else m)
      in cbc_tail_bytes k (n + 1) tmp (store m1 (ivp + n) [c]) inp out len ivp)"

text \<open>A block of more than 16 bytes goes round the loop again without the second part.\<close>

function cbc_decrypt_tail :: "(bytes \<Rightarrow> bytes) \<Rightarrow> mem \<Rightarrow> nat \<Rightarrow> nat \<Rightarrow> nat \<Rightarrow> nat \<Rightarrow> mem" where
  "cbc_decrypt_tail block m inp out len ivp =
     (if len = 0 then m
      else let m1 = cbc_tail_bytes 16 0 (block (load m inp 16)) m inp out len ivp
           in if len \<le> 16 then m1 else cbc_decrypt_tail block m1 (inp + 16) (out + 16) (len - 16) ivp)"
  by pat_completeness auto
termination by (relation "measure (\<lambda>(_, _, _, _, len, _). len)") auto

declare cbc_decrypt_tail.simps [simp del]

text \<open>\<open>None\<close> is the failed assertion: overlapping buffers with the output ahead of the input.\<close>

definition CRYPTO_cbc128_decrypt :: "(bytes \<Rightarrow> bytes) \<Rightarrow> nat \<Rightarrow> nat \<Rightarrow> nat \<Rightarrow> nat \<Rightarrow> mem \<Rightarrow> mem option" where
  "CRYPTO_cbc128_decrypt block inp out len ivp m =
     (if \<not> (inp \<ge> out \<or> inp + len \<le> out) then None
      else
        let (m1, inp1, out1, len1) =
          (if inp \<ge> 32 \<and> out \<le> inp - 32 \<or> inp < out
           then let (m', inp', out', len', iv) = cbc_decrypt_direct block m inp out len ivp
                in (store m' ivp (load m' iv 16), inp', out', len')
           else cbc_decrypt_tmp block m inp out len ivp)
        in Some (cbc_decrypt_tail block m1 inp1 out1 len1 ivp))"

section \<open>Blocks\<close>

lemma xor_word: "length a = 8 \<Longrightarrow> length b = 8 \<Longrightarrow> store_le 8 (load_word_le a XOR load_word_le b) = xor_bytes a b"
  by (simp add: load_word_le_def load_le_xor store_load_le)

lemma load_16: "load m a 16 = load m a 8 @ load m (a + 8) 8"
  using load_split [of m a 8 8] by simp

lemma store_16:
  assumes "length xs = 8"
  shows "store (store m a xs) (a + 8) ys = store m a (xs @ ys)"
  using store_append [of m a xs ys] assms by simp

lemma xor_append: "length a = length c \<Longrightarrow> xor_bytes (a @ b) (c @ d) = xor_bytes a c @ xor_bytes b d"
  by (simp add: zip_append)

text \<open>The word loop, when each operand is disjoint from the output or not behind it.\<close>

lemma cbc_xor_words_eq:
  assumes "out \<le> a \<or> a + 16 \<le> out" and "out \<le> b \<or> b + 16 \<le> out"
  shows "cbc_xor_words 0 m out a b = store m out (xor_bytes (load m a 16) (load m b 16))"
proof -
  let ?x0 = "xor_bytes (load m a 8) (load m b 8)" and ?x1 = "xor_bytes (load m (a + 8) 8) (load m (b + 8) 8)"
  let ?m = "store m out ?x0"
  have d: "load ?m (a + 8) 8 = load m (a + 8) 8" "load ?m (b + 8) 8 = load m (b + 8) 8"
    using assms by (auto intro!: load_store_disjoint)
  have "cbc_xor_words 0 m out a b = cbc_xor_words 8 ?m out a b"
    by (subst cbc_xor_words.simps) (simp add: xor_word)
  also have "\<dots> = store ?m (out + 8) ?x1"
    using d by (subst cbc_xor_words.simps) (simp add: xor_word cbc_xor_words.simps)
  also have "\<dots> = store m out (?x0 @ ?x1)" by (rule store_16) simp
  finally show ?thesis by (simp add: load_16 xor_append)
qed

text \<open>The word loop through \<open>tmp\<close>, when the output is not ahead of the input and \<open>ivp\<close> is apart.\<close>

lemma cbc_tmp_words_eq:
  assumes "out \<le> inp" and "ivp + 16 \<le> out \<or> inp + 16 \<le> ivp" and "length tmp = 16"
  shows "cbc_tmp_words 0 tmp m inp out ivp =
    store (store m out (xor_bytes tmp (load m ivp 16))) ivp (load m inp 16)"
proof -
  let ?x0 = "xor_bytes (take 8 tmp) (load m ivp 8)" and ?x1 = "xor_bytes (drop 8 tmp) (load m (ivp + 8) 8)"
  let ?c0 = "load m inp 8" and ?c1 = "load m (inp + 8) 8"
  let ?m = "store (store m out ?x0) ivp ?c0"
  have w: "load_word_le tmp = load_word_le (take 8 tmp)" by (simp add: load_word_le_def)
  have l: "length ?x0 = 8" "length ?c0 = 8" "length ?x1 = 8" using assms(3) by simp_all
  have d: "load ?m (inp + 8) 8 = ?c1" "load ?m (ivp + 8) 8 = load m (ivp + 8) 8"
    using assms(1,2) l by (auto simp: load_store_disjoint)
  have "cbc_tmp_words 0 tmp m inp out ivp = cbc_tmp_words 8 tmp ?m inp out ivp"
    using assms by (subst cbc_tmp_words.simps) (simp add: Let_def w xor_word load_word_le_def [of "load m inp 8"] store_load_le
        load_word_le_def [of "load (store m out _) inp 8"] load_store_disjoint)
  also have "\<dots> = store (store ?m (out + 8) ?x1) (ivp + 8) ?c1"
    using assms(3) d by (subst cbc_tmp_words.simps)
      (simp add: Let_def xor_word cbc_tmp_words.simps load_word_le_def [of "load m (inp + 8) 8"] store_load_le)
  also have "store ?m (out + 8) ?x1 = store (store (store m out ?x0) (out + 8) ?x1) ivp ?c0"
    using assms(1,2) l by (intro store_commute) auto
  also have "store (store m out ?x0) (out + 8) ?x1 = store m out (?x0 @ ?x1)" using l(1) by (rule store_16)
  also have "store (store (store m out (?x0 @ ?x1)) ivp ?c0) (ivp + 8) ?c1 = store (store m out (?x0 @ ?x1)) ivp (?c0 @ ?c1)"
    using l(2) by (rule store_16)
  also have "?x0 @ ?x1 = xor_bytes tmp (load m ivp 16)"
    using assms(3) xor_append [of "take 8 tmp" "load m ivp 8" "drop 8 tmp" "load m (ivp + 8) 8"] by (simp add: load_16)
  finally show ?thesis by (simp add: load_16)
qed

section \<open>The mode on lists\<close>

text \<open>The mode as it is specified, on full blocks; the second result is the last block of ciphertext.\<close>

fun cbc_enc :: "(bytes \<Rightarrow> bytes) \<Rightarrow> bytes \<Rightarrow> nat \<Rightarrow> bytes \<Rightarrow> bytes \<times> bytes" where
  "cbc_enc block iv 0 xs = ([], iv)"
| "cbc_enc block iv (Suc k) xs =
     (let c = block (xor_bytes (take 16 xs) iv); (cs, iv') = cbc_enc block c k (drop 16 xs) in (c @ cs, iv'))"

fun cbc_dec :: "(bytes \<Rightarrow> bytes) \<Rightarrow> bytes \<Rightarrow> nat \<Rightarrow> bytes \<Rightarrow> bytes \<times> bytes" where
  "cbc_dec block iv 0 xs = ([], iv)"
| "cbc_dec block iv (Suc k) xs =
     (let (ps, iv') = cbc_dec block (take 16 xs) k (drop 16 xs) in (xor_bytes (block (take 16 xs)) iv @ ps, iv'))"

lemma take_16_load: "take 16 (load m a (16 + n)) = load m a 16" "drop 16 (load m a (16 + n)) = load m (a + 16) n"
  by (simp_all add: load_split)

lemma length_cbc_dec: "block_ok block \<Longrightarrow> length iv = 16 \<Longrightarrow> length xs = 16 * k \<Longrightarrow>
    length (fst (cbc_dec block iv k xs)) = 16 * k \<and> length (snd (cbc_dec block iv k xs)) = 16"
proof (induction k arbitrary: iv xs)
  case (Suc k)
  then have "length (take 16 xs) = 16" "length (drop 16 xs) = 16 * k" by simp_all
  with Suc.IH [OF Suc.prems(1), of "take 16 xs" "drop 16 xs"] Suc.prems(1,2) show ?case
    by (simp add: split_beta Let_def block_okD)
qed simp

text \<open>Where nothing is written nothing changes.\<close>

definition frame :: "mem \<Rightarrow> mem \<Rightarrow> nat \<Rightarrow> nat \<Rightarrow> bool" where
  "frame m m' a n \<longleftrightarrow> (\<forall>x. x < a \<or> a + n \<le> x \<longrightarrow> m' x = m x)"

lemma frame_load: "frame m m' a n \<Longrightarrow> b + k \<le> a \<or> a + n \<le> b \<Longrightarrow> load m' b k = load m b k"
  by (rule load_cong) (auto simp: frame_def)

lemma cbc_direct_eq:
  assumes "block_ok block"
  shows "out + 32 \<le> inp \<or> inp + 16 * k \<le> out \<Longrightarrow> iv + 16 \<le> out \<or> out + 16 \<le> iv \<Longrightarrow>
    \<exists>m' iv'. cbc_decrypt_direct block m inp out (16 * k) iv = (m', inp + 16 * k, out + 16 * k, 0, iv') \<and>
      (load m' out (16 * k), load m' iv' 16) = cbc_dec block (load m iv 16) k (load m inp (16 * k)) \<and> frame m m' out (16 * k)"
proof (induction k arbitrary: m inp out iv)
  case 0
  show ?case by (subst cbc_decrypt_direct.simps) (simp add: frame_def load_def)
next
  case (Suc k)
  let ?b = "block (load m inp 16)"
  let ?m1 = "store m out ?b"
  let ?p = "xor_bytes ?b (load m iv 16)"
  let ?m2 = "store ?m1 out ?p"
  have b: "length ?b = 16" using assms by (simp add: block_okD)
  have "load ?m1 iv 16 = load m iv 16" using Suc.prems(2) b by (intro load_store_disjoint) auto
  then have w: "cbc_xor_words 0 ?m1 out out iv = ?m2"
    using Suc.prems(2) b by (subst cbc_xor_words_eq) auto
  have "out + 16 + 32 \<le> inp + 16 \<or> inp + 16 + 16 * k \<le> out + 16" "inp + 16 \<le> out + 16 \<or> out + 16 + 16 \<le> inp"
    using Suc.prems(1) by auto
  from Suc.IH [OF this, of ?m2] obtain m' iv' where
    r: "cbc_decrypt_direct block ?m2 (inp + 16) (out + 16) (16 * k) inp = (m', inp + 16 + 16 * k, out + 16 + 16 * k, 0, iv')" and
    v: "(load m' (out + 16) (16 * k), load m' iv' 16) = cbc_dec block (load ?m2 inp 16) k (load ?m2 (inp + 16) (16 * k))" and
    fr: "frame ?m2 m' (out + 16) (16 * k)" by blast
  have f2: "frame m ?m2 out 16" using b by (auto simp: frame_def store_outside)
  have "load ?m2 inp 16 = load m inp 16" "load ?m2 (inp + 16) (16 * k) = load m (inp + 16) (16 * k)"
    using Suc.prems(1) by (auto intro!: frame_load [OF f2])
  moreover have "load m' out 16 = ?p"
    using frame_load [OF fr, of out 16] b by simp
  moreover have "frame m m' out (16 * Suc k)" using fr f2 unfolding frame_def by auto
  ultimately show ?case
    using r v w load_split [of m' out 16 "16 * k"] load_split [of m inp 16 "16 * k"]
    by (subst cbc_decrypt_direct.simps) (auto simp: Let_def split_beta prod_eq_iff)
qed

lemma cbc_tmp_eq:
  assumes "block_ok block"
  shows "out \<le> inp \<Longrightarrow> ivp + 16 \<le> out \<or> inp + 16 * k \<le> ivp \<Longrightarrow>
    \<exists>m'. cbc_decrypt_tmp block m inp out (16 * k) ivp = (m', inp + 16 * k, out + 16 * k, 0) \<and>
      (load m' out (16 * k), load m' ivp 16) = cbc_dec block (load m ivp 16) k (load m inp (16 * k)) \<and>
      (\<forall>x. (x < out \<or> out + 16 * k \<le> x) \<and> (x < ivp \<or> ivp + 16 \<le> x) \<longrightarrow> m' x = m x)"
proof (induction k arbitrary: m inp out)
  case 0
  show ?case by (subst cbc_decrypt_tmp.simps) (simp add: load_def)
next
  case (Suc k)
  let ?b = "block (load m inp 16)"
  let ?p = "xor_bytes ?b (load m ivp 16)"
  let ?m2 = "store (store m out ?p) ivp (load m inp 16)"
  have b: "length ?b = 16" using assms by (simp add: block_okD)
  then have p: "length ?p = 16" by simp
  have w: "cbc_tmp_words 0 ?b m inp out ivp = ?m2"
    using Suc.prems b by (intro cbc_tmp_words_eq) auto
  have "out + 16 \<le> inp + 16" "ivp + 16 \<le> out + 16 \<or> inp + 16 + 16 * k \<le> ivp" using Suc.prems by auto
  from Suc.IH [OF this, of ?m2] obtain m' where
    r: "cbc_decrypt_tmp block ?m2 (inp + 16) (out + 16) (16 * k) ivp = (m', inp + 16 + 16 * k, out + 16 + 16 * k, 0)" and
    v: "(load m' (out + 16) (16 * k), load m' ivp 16) = cbc_dec block (load ?m2 ivp 16) k (load ?m2 (inp + 16) (16 * k))" and
    fr: "\<forall>x. (x < out + 16 \<or> out + 16 + 16 * k \<le> x) \<and> (x < ivp \<or> ivp + 16 \<le> x) \<longrightarrow> m' x = ?m2 x" by blast
  have "load ?m2 ivp 16 = load m inp 16" by simp
  moreover have "load ?m2 (inp + 16) (16 * k) = load m (inp + 16) (16 * k)"
    using Suc.prems p by (auto simp: load_store_disjoint)
  moreover have "load m' out 16 = load ?m2 out 16"
    using fr Suc.prems by (intro load_cong) auto
  moreover have "load ?m2 out 16 = ?p"
  proof -
    have "load ?m2 out 16 = load (store m out ?p) out 16" using Suc.prems by (intro load_store_disjoint) auto
    also have "\<dots> = ?p" using p by (rule load_store_same)
    finally show ?thesis .
  qed
  moreover have "\<forall>x. (x < out \<or> out + 16 * Suc k \<le> x) \<and> (x < ivp \<or> ivp + 16 \<le> x) \<longrightarrow> m' x = m x"
    using fr p by (auto simp: store_outside)
  ultimately show ?case
    using r v w load_split [of m' out 16 "16 * k"] load_split [of m inp 16 "16 * k"]
    by (subst cbc_decrypt_tmp.simps) (auto simp: Let_def split_beta prod_eq_iff)
qed

text \<open>Two ranges of memory that do not meet.\<close>

definition apart :: "nat \<Rightarrow> nat \<Rightarrow> nat \<Rightarrow> nat \<Rightarrow> bool" where
  "apart a n b k \<longleftrightarrow> a + n \<le> b \<or> b + k \<le> a"

lemma cbc_decrypt_eq:
  assumes "block_ok block" and al: "out \<le> inp \<or> inp + 16 * k \<le> out"
    and iv: "apart ivp 16 out (16 * k)" "apart ivp 16 inp (16 * k)"
  shows "\<exists>m'. CRYPTO_cbc128_decrypt block inp out (16 * k) ivp m = Some m' \<and>
    (load m' out (16 * k), load m' ivp 16) = cbc_dec block (load m ivp 16) k (load m inp (16 * k)) \<and>
    (\<forall>x. (x < out \<or> out + 16 * k \<le> x) \<and> (x < ivp \<or> ivp + 16 \<le> x) \<longrightarrow> m' x = m x)"
proof (cases "inp \<ge> 32 \<and> out \<le> inp - 32 \<or> inp < out")
  case True
  then have p: "out + 32 \<le> inp \<or> inp + 16 * k \<le> out" using al by auto
  show ?thesis
  proof (cases "k = 0")
    case True
    have "cbc_decrypt_direct block m inp out 0 ivp = (m, inp, out, 0, ivp)" by (simp add: cbc_decrypt_direct.simps)
    moreover have "store m ivp (load m ivp 16) = m" by (rule ext) (auto simp: store_def nth_load)
    ultimately show ?thesis using True \<open>inp \<ge> 32 \<and> out \<le> inp - 32 \<or> inp < out\<close> al
      by (simp add: CRYPTO_cbc128_decrypt_def cbc_decrypt_tail.simps load_def)
  next
    case False
    then have q: "ivp + 16 \<le> out \<or> out + 16 \<le> ivp" using iv(1) by (auto simp: apart_def)
    from cbc_direct_eq [OF assms(1) p q, of m] obtain m' iv' where
      r: "cbc_decrypt_direct block m inp out (16 * k) ivp = (m', inp + 16 * k, out + 16 * k, 0, iv')" and
      v: "(load m' out (16 * k), load m' iv' 16) = cbc_dec block (load m ivp 16) k (load m inp (16 * k))" and
      fr: "frame m m' out (16 * k)" by blast
    let ?m = "store m' ivp (load m' iv' 16)"
    have "CRYPTO_cbc128_decrypt block inp out (16 * k) ivp m = Some ?m"
      using True al r by (simp add: CRYPTO_cbc128_decrypt_def cbc_decrypt_tail.simps)
    moreover have "load ?m out (16 * k) = load m' out (16 * k)"
      using iv(1) by (intro load_store_disjoint) (auto simp: apart_def)
    moreover have "(x < out \<or> out + 16 * k \<le> x) \<and> (x < ivp \<or> ivp + 16 \<le> x) \<longrightarrow> ?m x = m x" for x
      using fr by (auto simp: frame_def store_outside)
    ultimately show ?thesis using v by (intro exI [of _ ?m]) simp
  qed
next
  case False
  then have o: "out \<le> inp" "inp < out + 32" by auto
  have "ivp + 16 \<le> out \<or> inp + 16 * k \<le> ivp \<or> k = 0" using iv o by (cases k) (auto simp: apart_def)
  then show ?thesis
  proof (cases "k = 0")
    case True
    have "CRYPTO_cbc128_decrypt block inp out (16 * k) ivp m = Some m"
      unfolding CRYPTO_cbc128_decrypt_def if_not_P [OF False] using True o(1)
      by (simp add: cbc_decrypt_tmp.simps cbc_decrypt_tail.simps)
    then show ?thesis using True by (simp add: load_def)
  next
    case k: False
    with \<open>ivp + 16 \<le> out \<or> inp + 16 * k \<le> ivp \<or> k = 0\<close> have q: "ivp + 16 \<le> out \<or> inp + 16 * k \<le> ivp" by blast
    from cbc_tmp_eq [OF assms(1) o(1) q, of m] obtain m' where
      r: "cbc_decrypt_tmp block m inp out (16 * k) ivp = (m', inp + 16 * k, out + 16 * k, 0)" and
      v: "(load m' out (16 * k), load m' ivp 16) = cbc_dec block (load m ivp 16) k (load m inp (16 * k)) \<and>
        (\<forall>x. (x < out \<or> out + 16 * k \<le> x) \<and> (x < ivp \<or> ivp + 16 \<le> x) \<longrightarrow> m' x = m x)" by blast
    have "CRYPTO_cbc128_decrypt block inp out (16 * k) ivp m = Some m'"
      unfolding CRYPTO_cbc128_decrypt_def if_not_P [OF False] using o(1) r by (simp add: cbc_decrypt_tail.simps)
    with v show ?thesis by blast
  qed
qed

section \<open>Encryption and the round trip\<close>

lemma cbc_encrypt_blocks_eq:
  assumes "block_ok block"
  shows "out \<le> inp \<or> inp + 16 * k \<le> out \<Longrightarrow> iv + 16 \<le> out \<or> out + 16 \<le> iv \<Longrightarrow>
    \<exists>m' iv'. cbc_encrypt_blocks block m inp out (16 * k) iv = (m', inp + 16 * k, out + 16 * k, 0, iv') \<and>
      (load m' out (16 * k), load m' iv' 16) = cbc_enc block (load m iv 16) k (load m inp (16 * k)) \<and> frame m m' out (16 * k)"
proof (induction k arbitrary: m inp out iv)
  case 0
  show ?case by (subst cbc_encrypt_blocks.simps) (simp add: frame_def load_def)
next
  case (Suc k)
  let ?x = "xor_bytes (load m inp 16) (load m iv 16)"
  let ?m2 = "store (store m out ?x) out (block ?x)"
  have b: "length (block ?x) = 16" using assms by (simp add: block_okD)
  have w: "cbc_xor_words 0 m out inp iv = store m out ?x" using Suc.prems by (intro cbc_xor_words_eq) auto
  have "out + 16 \<le> inp + 16 \<or> inp + 16 + 16 * k \<le> out + 16" "out + 16 \<le> out + 16 \<or> out + 16 + 16 \<le> out"
    using Suc.prems(1) by auto
  from Suc.IH [OF this, of ?m2] obtain m' iv' where
    r: "cbc_encrypt_blocks block ?m2 (inp + 16) (out + 16) (16 * k) out = (m', inp + 16 + 16 * k, out + 16 + 16 * k, 0, iv')" and
    v: "(load m' (out + 16) (16 * k), load m' iv' 16) = cbc_enc block (load ?m2 out 16) k (load ?m2 (inp + 16) (16 * k))" and
    fr: "frame ?m2 m' (out + 16) (16 * k)" by blast
  have f2: "frame m ?m2 out 16" using b by (auto simp: frame_def store_outside)
  have "load ?m2 out 16 = block ?x" using b by (rule load_store_same)
  moreover have "load ?m2 (inp + 16) (16 * k) = load m (inp + 16) (16 * k)"
    using Suc.prems(1) by (auto intro!: frame_load [OF f2])
  moreover have "load m' out 16 = load ?m2 out 16" using frame_load [OF fr, of out 16] by simp
  moreover have "frame m m' out (16 * Suc k)" using fr f2 unfolding frame_def by auto
  ultimately show ?case
    using r v w load_split [of m' out 16 "16 * k"] load_split [of m inp 16 "16 * k"]
    by (subst cbc_encrypt_blocks.simps) (auto simp: Let_def split_beta prod_eq_iff)
qed

lemma cbc_encrypt_eq:
  assumes "block_ok block" and al: "out \<le> inp \<or> inp + 16 * k \<le> out" and iv: "apart ivp 16 out (16 * k)"
  shows "let m' = CRYPTO_cbc128_encrypt block inp out (16 * k) ivp m in
    (load m' out (16 * k), load m' ivp 16) = cbc_enc block (load m ivp 16) k (load m inp (16 * k)) \<and>
    (\<forall>x. (x < out \<or> out + 16 * k \<le> x) \<and> (x < ivp \<or> ivp + 16 \<le> x) \<longrightarrow> m' x = m x)"
proof (cases "k = 0")
  case True
  moreover have "store m ivp (load m ivp 16) = m" by (rule ext) (auto simp: store_def nth_load)
  ultimately show ?thesis
    by (simp add: CRYPTO_cbc128_encrypt_def cbc_encrypt_blocks.simps cbc_encrypt_tail.simps load_def)
next
  case False
  then have q: "ivp + 16 \<le> out \<or> out + 16 \<le> ivp" using iv by (auto simp: apart_def)
  from cbc_encrypt_blocks_eq [OF assms(1) al q, of m] obtain m' iv' where
    r: "cbc_encrypt_blocks block m inp out (16 * k) ivp = (m', inp + 16 * k, out + 16 * k, 0, iv')" and
    v: "(load m' out (16 * k), load m' iv' 16) = cbc_enc block (load m ivp 16) k (load m inp (16 * k))" and
    fr: "frame m m' out (16 * k)" by blast
  let ?m = "store m' ivp (load m' iv' 16)"
  have "CRYPTO_cbc128_encrypt block inp out (16 * k) ivp m = ?m"
    using r by (simp add: CRYPTO_cbc128_encrypt_def cbc_encrypt_tail.simps)
  moreover have "load ?m out (16 * k) = load m' out (16 * k)"
    using iv by (intro load_store_disjoint) (auto simp: apart_def)
  moreover have "(x < out \<or> out + 16 * k \<le> x) \<and> (x < ivp \<or> ivp + 16 \<le> x) \<longrightarrow> ?m x = m x" for x
    using fr by (auto simp: frame_def store_outside)
  ultimately show ?thesis using v by (simp add: Let_def)
qed

lemma cbc_dec_enc:
  assumes "block_ok E" and "\<And>x. length x = 16 \<Longrightarrow> D (E x) = x"
  shows "length iv = 16 \<Longrightarrow> length xs = 16 * k \<Longrightarrow> cbc_enc E iv k xs = (c, iv') \<Longrightarrow> cbc_dec D iv k c = (xs, iv')"
proof (induction k arbitrary: iv xs c)
  case (Suc k)
  let ?x = "xor_bytes (take 16 xs) iv"
  have l: "length ?x = 16" "length (E ?x) = 16" using Suc.prems assms(1) by (simp_all add: block_okD)
  obtain cs iv2 where r: "cbc_enc E (E ?x) k (drop 16 xs) = (cs, iv2)" by fastforce
  then have c: "c = E ?x @ cs" "iv' = iv2" using Suc.prems(3) by simp_all
  then have "cbc_dec D (E ?x) k cs = (drop 16 xs, iv')" using Suc.IH [OF l(2), of "drop 16 xs" cs] r Suc.prems(2) by simp
  moreover have "xor_bytes ?x iv = take 16 xs"
    using Suc.prems by (intro nth_equalityI) (simp_all add: xor.assoc)
  ultimately show ?case using c(1) l assms(2) [OF l(1)] by (simp add: Let_def)
qed simp

section \<open>Properties\<close>

text \<open>
  C34. Decryption of whole blocks in CBC mode computes the mode on the input as it was before the
  call, wherever the assertion allows the output to lie: apart from the input, on top of it, or
  overlapping its front by any number of bytes. It leaves the last block of ciphertext in \<^verbatim>\<open>ivec\<close> and
  writes nothing but the output and \<^verbatim>\<open>ivec\<close>.
\<close>

theorem cbc_decrypt_overlapping:
  assumes "block_ok block" and "out \<le> inp \<or> inp + 16 * k \<le> out"
    and "apart ivp 16 out (16 * k)" and "apart ivp 16 inp (16 * k)"
  shows "\<exists>m'. CRYPTO_cbc128_decrypt block inp out (16 * k) ivp m = Some m' \<and>
    (load m' out (16 * k), load m' ivp 16) = cbc_dec block (load m ivp 16) k (load m inp (16 * k)) \<and>
    (\<forall>x. (x < out \<or> out + 16 * k \<le> x) \<and> (x < ivp \<or> ivp + 16 \<le> x) \<longrightarrow> m' x = m x)"
  using assms by (rule cbc_decrypt_eq)

lemma cbc_decrypt_overlapping_witness:
  "\<exists>m'. CRYPTO_cbc128_decrypt rev 105 100 (16 * 2) 0 (\<lambda>x. of_nat x) = Some m' \<and>
    (load m' 100 (16 * 2), load m' 0 16) = cbc_dec rev (load (\<lambda>x. of_nat x) 0 16) 2 (load (\<lambda>x. of_nat x) 105 (16 * 2)) \<and>
    (\<forall>x. (x < 100 \<or> 100 + 16 * 2 \<le> x) \<and> (x < 0 \<or> 0 + 16 \<le> x) \<longrightarrow> m' x = of_nat x)"
  by (rule cbc_decrypt_overlapping) (simp_all add: block_ok_def apart_def)

text \<open>
  C35. Encrypting whole blocks in CBC mode and decrypting the ciphertext with the inverse block
  function from the same initial vector gives the input back, and both leave the same \<^verbatim>\<open>ivec\<close>; for
  each of the two calls the output may lie on top of the input or behind its start.
\<close>

theorem cbc_roundtrip:
  assumes "block_ok E" and "block_ok D" and "\<And>x. length x = 16 \<Longrightarrow> D (E x) = x"
    and "out \<le> inp \<or> inp + 16 * k \<le> out" and "apart ivp 16 out (16 * k)"
    and m1: "m1 = CRYPTO_cbc128_encrypt E inp out (16 * k) ivp m"
    and m2: "load m2 src (16 * k) = load m1 out (16 * k)" "load m2 ivp2 16 = load m ivp 16"
    and "dst \<le> src \<or> src + 16 * k \<le> dst" and "apart ivp2 16 dst (16 * k)" and "apart ivp2 16 src (16 * k)"
  shows "\<exists>m3. CRYPTO_cbc128_decrypt D src dst (16 * k) ivp2 m2 = Some m3 \<and>
    load m3 dst (16 * k) = load m inp (16 * k) \<and> load m3 ivp2 16 = load m1 ivp 16"
proof -
  obtain c iv' where e: "cbc_enc E (load m ivp 16) k (load m inp (16 * k)) = (c, iv')" by fastforce
  have c: "load m1 out (16 * k) = c" "load m1 ivp 16 = iv'"
    using cbc_encrypt_eq [OF assms(1,4,5), of m] e unfolding m1 by (simp_all add: Let_def)
  have "cbc_dec D (load m ivp 16) k c = (load m inp (16 * k), iv')"
    using cbc_dec_enc [OF assms(1,3) _ _ e] by simp
  then show ?thesis
    using cbc_decrypt_eq [OF assms(2,9,10,11), of m2] c unfolding m2 by auto
qed

lemma cbc_roundtrip_witness:
  "let m1 = CRYPTO_cbc128_encrypt rev 100 100 (16 * 2) 0 (\<lambda>x. of_nat x); m2 = store m1 0 (load (\<lambda>x. of_nat x) 0 16)
   in \<exists>m3. CRYPTO_cbc128_decrypt rev 100 90 (16 * 2) 0 m2 = Some m3 \<and>
      load m3 90 (16 * 2) = load (\<lambda>x. of_nat x) 100 (16 * 2) \<and> load m3 0 16 = load m1 0 16"
  unfolding Let_def
proof (rule cbc_roundtrip [of rev rev 100 100 2 0])
  show "load (store (CRYPTO_cbc128_encrypt rev 100 100 (16 * 2) 0 of_nat) 0 (load of_nat 0 16)) 100 (16 * 2) =
      load (CRYPTO_cbc128_encrypt rev 100 100 (16 * 2) 0 of_nat) 100 (16 * 2)"
    by (rule load_store_disjoint) simp
qed (simp_all add: block_ok_def apart_def)

end
