(* ===== verification/Lhash.thy ===== *)
theory Lhash
  imports Prelude "HOL-Library.Multiset"
begin

text \<open>
  \<^verbatim>\<open>crypto/lhash/lhash.c\<close>: a hash table with chains. A chain is a list of items; \<^verbatim>\<open>malloc\<close> is the
  argument \<open>alloc\<close>, which says for a size whether it succeeds. Freeing leaves no trace in the model.
  The last section relates the table to a map from keys (up to the comparison function) to elements.
\<close>

section \<open>State\<close>

definition kMinNumBuckets :: nat where "kMinNumBuckets = 16"
definition kMaxAverageChainLength :: nat where "kMaxAverageChainLength = 2"
definition kMinAverageChainLength :: nat where "kMinAverageChainLength = 1"

record 'a lhash_item =
  it_data :: 'a
  it_hash :: u32

record 'a lhash =
  num_items :: nat
  buckets :: "'a lhash_item list list"
  num_buckets :: nat
  callback_depth :: nat
  lh_comp :: "'a \<Rightarrow> 'a \<Rightarrow> int"
  lh_hash :: "'a \<Rightarrow> u32"

definition lh_new :: "(nat \<Rightarrow> bool) \<Rightarrow> ('a \<Rightarrow> u32) \<Rightarrow> ('a \<Rightarrow> 'a \<Rightarrow> int) \<Rightarrow> 'a lhash option" where
  "lh_new alloc hash cmp =
     (if \<not> alloc 56 then None
      else if \<not> alloc (size_mul 8 kMinNumBuckets) then None
      else Some \<lparr>num_items = 0, buckets = replicate kMinNumBuckets [], num_buckets = kMinNumBuckets, callback_depth = 0,
             lh_comp = cmp, lh_hash = hash\<rparr>)"

definition lh_num_items :: "'a lhash \<Rightarrow> nat" where
  "lh_num_items lh = num_items lh"

section \<open>Looking up\<close>

text \<open>
  The place a pointer to a pointer stands for: the bucket and how many items of its chain come
  before. At the end of the chain it points to a \<^verbatim>\<open>NULL\<close> pointer.
\<close>

fun chain_place :: "('i \<Rightarrow> bool) \<Rightarrow> 'i list \<Rightarrow> nat" where
  "chain_place p [] = 0"
| "chain_place p (cur # rest) = (if p cur then 0 else Suc (chain_place p rest))"

definition get_next_ptr_and_hash :: "'a lhash \<Rightarrow> 'a \<Rightarrow> u32 \<times> nat \<times> nat" where
  "get_next_ptr_and_hash lh data =
     (let hash = lh_hash lh data; i = unat hash mod num_buckets lh
      in (hash, i, chain_place (\<lambda>cur. lh_comp lh (it_data cur) data = 0) (buckets lh ! i)))"

definition get_next_ptr_by_key :: "'a lhash \<Rightarrow> 'k \<Rightarrow> u32 \<Rightarrow> ('k \<Rightarrow> 'a \<Rightarrow> int) \<Rightarrow> nat \<times> nat" where
  "get_next_ptr_by_key lh key key_hash cmp_key =
     (let i = unat key_hash mod num_buckets lh
      in (i, chain_place (\<lambda>cur. cmp_key key (it_data cur) = 0) (buckets lh ! i)))"

text \<open>\<^verbatim>\<open>*next_ptr\<close>.\<close>

definition item_at :: "'a lhash \<Rightarrow> nat \<Rightarrow> nat \<Rightarrow> 'a lhash_item option" where
  "item_at lh i k = (let chain = buckets lh ! i in if k < length chain then Some (chain ! k) else None)"

definition lh_retrieve :: "'a lhash \<Rightarrow> 'a \<Rightarrow> 'a option" where
  "lh_retrieve lh data = (case get_next_ptr_and_hash lh data of (_, i, k) \<Rightarrow> map_option it_data (item_at lh i k))"

definition lh_retrieve_key :: "'a lhash \<Rightarrow> 'k \<Rightarrow> u32 \<Rightarrow> ('k \<Rightarrow> 'a \<Rightarrow> int) \<Rightarrow> 'a option" where
  "lh_retrieve_key lh key key_hash cmp_key =
     (case get_next_ptr_by_key lh key key_hash cmp_key of (i, k) \<Rightarrow> map_option it_data (item_at lh i k))"

section \<open>Resizing\<close>

text \<open>Moving an item to the front of its new chain.\<close>

definition move_item :: "nat \<Rightarrow> 'a lhash_item list list \<Rightarrow> 'a lhash_item \<Rightarrow> 'a lhash_item list list" where
  "move_item new_num_buckets new_buckets cur =
     (let new_bucket = unat (it_hash cur) mod new_num_buckets
      in new_buckets[new_bucket := cur # new_buckets ! new_bucket])"

definition lh_rebucket :: "(nat \<Rightarrow> bool) \<Rightarrow> nat \<Rightarrow> 'a lhash \<Rightarrow> 'a lhash" where
  "lh_rebucket alloc new_num_buckets lh =
     (let alloc_size = size_mul 8 new_num_buckets in
      if alloc_size div 8 \<noteq> new_num_buckets then lh
      else if \<not> alloc alloc_size then lh
      else lh\<lparr>buckets := foldl (foldl (move_item new_num_buckets)) (replicate new_num_buckets []) (buckets lh),
              num_buckets := new_num_buckets\<rparr>)"

definition lh_maybe_resize :: "(nat \<Rightarrow> bool) \<Rightarrow> 'a lhash \<Rightarrow> 'a lhash" where
  "lh_maybe_resize alloc lh =
     (if callback_depth lh > 0 then lh
      else
        let avg_chain_length = num_items lh div num_buckets lh in
        if avg_chain_length > kMaxAverageChainLength then
          (let new_num_buckets = size_mul (num_buckets lh) 2
           in if new_num_buckets > num_buckets lh then lh_rebucket alloc new_num_buckets lh else lh)
        else if avg_chain_length < kMinAverageChainLength \<and> num_buckets lh > kMinNumBuckets then
          (let new_num_buckets = num_buckets lh div 2
           in lh_rebucket alloc (if new_num_buckets < kMinNumBuckets then kMinNumBuckets else new_num_buckets) lh)
        else lh)"

section \<open>Changing\<close>

text \<open>The results of \<^verbatim>\<open>lh_insert\<close>: the return value, \<^verbatim>\<open>*old_data\<close> and the table.\<close>

definition lh_insert :: "(nat \<Rightarrow> bool) \<Rightarrow> 'a \<Rightarrow> 'a lhash \<Rightarrow> bool \<times> 'a option \<times> 'a lhash" where
  "lh_insert alloc data lh =
     (case get_next_ptr_and_hash lh data of
        (hash, i, k) \<Rightarrow>
          (case item_at lh i k of
             Some item \<Rightarrow> (True, Some (it_data item),
                           lh\<lparr>buckets := (buckets lh)[i := (buckets lh ! i)[k := item\<lparr>it_data := data\<rparr>]]\<rparr>)
           | None \<Rightarrow>
               if \<not> alloc 24 then (False, None, lh)
               else (True, None,
                     lh_maybe_resize alloc
                       (lh\<lparr>buckets := (buckets lh)[i := take k (buckets lh ! i) @ [\<lparr>it_data = data, it_hash = hash\<rparr>]],
                           num_items := size_add (num_items lh) 1\<rparr>))))"

definition lh_delete :: "(nat \<Rightarrow> bool) \<Rightarrow> 'a \<Rightarrow> 'a lhash \<Rightarrow> 'a option \<times> 'a lhash" where
  "lh_delete alloc data lh =
     (case get_next_ptr_and_hash lh data of
        (_, i, k) \<Rightarrow>
          (case item_at lh i k of
             None \<Rightarrow> (None, lh)
           | Some item \<Rightarrow>
               (Some (it_data item),
                lh_maybe_resize alloc
                  (lh\<lparr>buckets := (buckets lh)[i := take k (buckets lh ! i) @ drop (k + 1) (buckets lh ! i)],
                      num_items := size_add (num_items lh) (2 ^ 64 - 1)\<rparr>))))"

text \<open>
  \<^verbatim>\<open>lh_doall_arg\<close> for a function that changes what \<^verbatim>\<open>arg\<close> points to and leaves the table alone. The
  depth is an \<^verbatim>\<open>unsigned\<close> counter that saturates.
\<close>

definition lh_doall_arg :: "(nat \<Rightarrow> bool) \<Rightarrow> ('a \<Rightarrow> 'arg \<Rightarrow> 'arg) \<Rightarrow> 'arg \<Rightarrow> 'a lhash \<Rightarrow> 'arg \<times> 'a lhash" where
  "lh_doall_arg alloc func arg lh =
     (let lh1 = (if callback_depth lh < 2 ^ 32 - 1 then lh\<lparr>callback_depth := callback_depth lh + 1\<rparr> else lh);
          arg' = foldl (foldl (\<lambda>a cur. func (it_data cur) a)) arg (buckets lh1);
          lh2 = (if callback_depth lh1 < 2 ^ 32 - 1 then lh1\<lparr>callback_depth := callback_depth lh1 - 1\<rparr> else lh1)
      in (arg', lh_maybe_resize alloc lh2))"

text \<open>\<^verbatim>\<open>OPENSSL_hash32\<close>, and \<^verbatim>\<open>lh_strhash\<close> on the characters before the terminating zero.\<close>

definition OPENSSL_hash32 :: "bytes \<Rightarrow> u32" where
  "OPENSSL_hash32 inp = foldl (\<lambda>h b. (h XOR ucast b) * 16777619) 2166136261 inp"

definition lh_strhash :: "bytes option \<Rightarrow> u32" where
  "lh_strhash c = (case c of None \<Rightarrow> 0 | Some s \<Rightarrow> OPENSSL_hash32 (takeWhile (\<lambda>b. b \<noteq> 0) s))"

section \<open>Well-formed tables\<close>

text \<open>The contract of the functions given to \<^verbatim>\<open>lh_new\<close>: an equivalence, and equal elements hash alike.\<close>

definition eq_ok :: "('a \<Rightarrow> 'a \<Rightarrow> int) \<Rightarrow> ('a \<Rightarrow> u32) \<Rightarrow> bool" where
  "eq_ok cmp hash \<longleftrightarrow> equivp (\<lambda>x y. cmp x y = 0) \<and> (\<forall>x y. cmp x y = 0 \<longrightarrow> hash x = hash y)"

text \<open>All items, in any order; the elements equal to one.\<close>

abbreviation items :: "'a lhash \<Rightarrow> 'a lhash_item list" where
  "items lh \<equiv> concat (buckets lh)"

definition equals :: "'a lhash \<Rightarrow> 'a \<Rightarrow> 'a set" where
  "equals lh x = {y. lh_comp lh x y = 0}"

text \<open>Every item is in the bucket of its hash value, and no two elements are equal.\<close>

definition lh_wf :: "'a lhash \<Rightarrow> bool" where
  "lh_wf lh \<longleftrightarrow> eq_ok (lh_comp lh) (lh_hash lh) \<and> kMinNumBuckets \<le> num_buckets lh \<and> length (buckets lh) = num_buckets lh \<and>
     (\<forall>i<num_buckets lh. \<forall>it\<in>set (buckets lh ! i). it_hash it = lh_hash lh (it_data it) \<and> unat (it_hash it) mod num_buckets lh = i) \<and>
     distinct (map (\<lambda>it. equals lh (it_data it)) (items lh)) \<and>
     num_items lh = length (items lh) mod 2 ^ 64"

lemma lh_wfD:
  assumes "lh_wf lh"
  shows "eq_ok (lh_comp lh) (lh_hash lh)" "0 < num_buckets lh" "16 \<le> num_buckets lh" "length (buckets lh) = num_buckets lh"
    "\<And>i it. i < num_buckets lh \<Longrightarrow> it \<in> set (buckets lh ! i) \<Longrightarrow> it_hash it = lh_hash lh (it_data it) \<and> unat (it_hash it) mod num_buckets lh = i"
    "distinct (map (\<lambda>it. equals lh (it_data it)) (items lh))" "num_items lh = length (items lh) mod 2 ^ 64"
proof -
  note w = assms [unfolded lh_wf_def kMinNumBuckets_def]
  show "eq_ok (lh_comp lh) (lh_hash lh)" "16 \<le> num_buckets lh" "length (buckets lh) = num_buckets lh"
    "distinct (map (\<lambda>it. equals lh (it_data it)) (items lh))" "num_items lh = length (items lh) mod 2 ^ 64" using w by blast+
  show "0 < num_buckets lh" using w by simp
  show "it_hash it = lh_hash lh (it_data it) \<and> unat (it_hash it) mod num_buckets lh = i"
    if "i < num_buckets lh" "it \<in> set (buckets lh ! i)" for i it using w that by blast
qed

lemma eq_ok_equals:
  assumes "eq_ok (lh_comp lh) (lh_hash lh)"
  shows "equals lh x = equals lh y \<longleftrightarrow> lh_comp lh x y = 0"
proof -
  have "equivp (\<lambda>x y. lh_comp lh x y = 0)" using assms by (simp add: eq_ok_def)
  from equivp_def [THEN iffD1, OF this, rule_format, of x y] show ?thesis by (auto simp: equals_def fun_eq_iff)
qed

lemma eq_ok_refl: "eq_ok cmp hash \<Longrightarrow> cmp x x = 0"
  and eq_ok_sym: "eq_ok cmp hash \<Longrightarrow> cmp x y = 0 \<Longrightarrow> cmp y x = 0"
  and eq_ok_trans: "eq_ok cmp hash \<Longrightarrow> cmp x y = 0 \<Longrightarrow> cmp y z = 0 \<Longrightarrow> cmp x z = 0"
  unfolding eq_ok_def by (meson equivp_reflp equivp_symp equivp_transp)+

section \<open>Chains and buckets\<close>

lemma chain_place_le: "chain_place p xs \<le> length xs"
  by (induction xs) simp_all

lemma chain_place_found: "chain_place p xs < length xs \<Longrightarrow> p (xs ! chain_place p xs)"
  by (induction xs) (simp_all split: if_splits)

lemma chain_place_missing: "chain_place p xs = length xs \<longleftrightarrow> (\<forall>x\<in>set xs. \<not> p x)"
  by (induction xs) auto

text \<open>Exchanging one chain for another.\<close>

lemma mset_update_chain:
  assumes "i < length bs"
  obtains rest where "mset (concat bs) = mset (bs ! i @ rest)" "\<And>c. mset (concat (bs[i := c])) = mset (c @ rest)"
proof
  show "mset (concat bs) = mset (bs ! i @ concat (take i bs @ drop (Suc i) bs))"
    by (subst id_take_nth_drop [OF assms]) simp
  show "mset (concat (bs[i := c])) = mset (c @ concat (take i bs @ drop (Suc i) bs))" for c
    using assms by (simp add: upd_conv_take_nth_drop)
qed

lemma distinct_mset_cong: "mset xs = mset ys \<Longrightarrow> distinct (map f xs) \<longleftrightarrow> distinct (map f ys)"
  by (metis mset_map mset_eq_imp_distinct_iff)

lemma find_item:
  assumes wf: "lh_wf lh" and g: "get_next_ptr_and_hash lh x = (hash, i, k)"
  shows "hash = lh_hash lh x" "i < length (buckets lh)" "i = unat (lh_hash lh x) mod num_buckets lh"
    "item_at lh i k = Some it \<Longrightarrow> k < length (buckets lh ! i) \<and> it = buckets lh ! i ! k \<and> it \<in> set (items lh) \<and> lh_comp lh (it_data it) x = 0"
    "item_at lh i k = None \<Longrightarrow> k = length (buckets lh ! i) \<and> (\<forall>it\<in>set (items lh). lh_comp lh (it_data it) x \<noteq> 0)"
proof -
  let ?p = "\<lambda>cur. lh_comp lh (it_data cur) x = 0"
  show h: "hash = lh_hash lh x" and i: "i = unat (lh_hash lh x) mod num_buckets lh"
    using g by (auto simp: get_next_ptr_and_hash_def Let_def)
  have k: "k = chain_place ?p (buckets lh ! i)"
    using g by (auto simp: get_next_ptr_and_hash_def Let_def)
  show l: "i < length (buckets lh)" using i lh_wfD(2,4) [OF wf] by simp
  show "k < length (buckets lh ! i) \<and> it = buckets lh ! i ! k \<and> it \<in> set (items lh) \<and> ?p it" if "item_at lh i k = Some it"
  proof -
    have lt: "k < length (buckets lh ! i)" "it = buckets lh ! i ! k" using that by (auto simp: item_at_def Let_def split: if_splits)
    moreover have "it \<in> set (items lh)" using lt l by (auto intro!: bexI [of _ "buckets lh ! i"])
    moreover have "?p it" using chain_place_found [of ?p "buckets lh ! i"] lt k by simp
    ultimately show ?thesis by blast
  qed
  show "k = length (buckets lh ! i) \<and> (\<forall>it\<in>set (items lh). lh_comp lh (it_data it) x \<noteq> 0)" if "item_at lh i k = None"
  proof -
    have "k = length (buckets lh ! i)"
      using that chain_place_le [of ?p "buckets lh ! i"] k by (simp add: item_at_def Let_def split: if_splits)
    moreover have "\<not> ?p it" if it: "it \<in> set (items lh)" for it
    proof
      assume p: "?p it"
      obtain chain where "chain \<in> set (buckets lh)" "it \<in> set chain" using it by auto
      then obtain j where j: "j < length (buckets lh)" "it \<in> set (buckets lh ! j)" by (metis in_set_conv_nth)
      then have h: "it_hash it = lh_hash lh (it_data it)" "unat (it_hash it) mod num_buckets lh = j"
        using lh_wfD(5) [OF wf, of j it] unfolding lh_wfD(4) [OF wf] by blast+
      have "lh_hash lh (it_data it) = lh_hash lh x" using p lh_wfD(1) [OF wf] by (simp add: eq_ok_def)
      then have "i = j" using h i by simp
      moreover have "\<forall>it\<in>set (buckets lh ! i). \<not> ?p it"
        using k \<open>k = length (buckets lh ! i)\<close> chain_place_missing [of ?p "buckets lh ! i"] by simp
      ultimately show False using p j(2) by blast
    qed
    ultimately show ?thesis by blast
  qed
qed

text \<open>What looking up returns.\<close>

definition elements :: "'a lhash \<Rightarrow> 'a set" where
  "elements lh = it_data ` set (items lh)"

lemma elements_unique:
  assumes "lh_wf lh" "x \<in> elements lh" "y \<in> elements lh" "lh_comp lh x y = 0"
  shows "x = y"
proof -
  obtain a b where ab: "a \<in> set (items lh)" "b \<in> set (items lh)" "x = it_data a" "y = it_data b"
    using assms(2,3) by (auto simp: elements_def)
  then have "equals lh (it_data a) = equals lh (it_data b)" using assms(4) eq_ok_equals [OF lh_wfD(1) [OF assms(1)]] by simp
  moreover have "inj_on (\<lambda>it. equals lh (it_data it)) (set (items lh))" using lh_wfD(6) [OF assms(1)] by (simp add: distinct_map)
  ultimately have "a = b" using ab by (auto dest: inj_onD)
  with ab show ?thesis by simp
qed

lemma lh_retrieve_iff:
  assumes "lh_wf lh"
  shows "lh_retrieve lh x = Some y \<longleftrightarrow> y \<in> elements lh \<and> lh_comp lh y x = 0"
proof -
  obtain hash i k where g: "get_next_ptr_and_hash lh x = (hash, i, k)" by (metis prod_cases3)
  note f = find_item [OF assms g]
  show ?thesis
  proof (cases "item_at lh i k")
    case None
    then show ?thesis using f(5) g by (auto simp: lh_retrieve_def elements_def)
  next
    case (Some it)
    then have r: "lh_retrieve lh x = Some (it_data it)" using g by (simp add: lh_retrieve_def)
    have it: "it_data it \<in> elements lh" "lh_comp lh (it_data it) x = 0" using f(4) [OF Some] by (auto simp: elements_def)
    show ?thesis
    proof
      assume "y \<in> elements lh \<and> lh_comp lh y x = 0"
      moreover then have "lh_comp lh (it_data it) y = 0"
        using it(2) lh_wfD(1) [OF assms] by (meson eq_ok_sym eq_ok_trans)
      ultimately show "lh_retrieve lh x = Some y" using r elements_unique [OF assms it(1)] by blast
    qed (use r it in auto)
  qed
qed

section \<open>Resizing keeps the items\<close>

lemma foldl_concat: "foldl (foldl f) a xss = foldl f a (concat xss)"
  by (induction xss arbitrary: a) simp_all

definition placed :: "nat \<Rightarrow> 'a lhash_item list list \<Rightarrow> bool" where
  "placed n bs \<longleftrightarrow> length bs = n \<and> (\<forall>i<n. \<forall>it\<in>set (bs ! i). unat (it_hash it) mod n = i)"

lemma move_item_ok:
  assumes "placed n bs" and "0 < n"
  shows "placed n (move_item n bs it) \<and> mset (concat (move_item n bs it)) = mset (it # concat bs)"
proof -
  let ?i = "unat (it_hash it) mod n"
  have i: "?i < length bs" using assms by (simp add: placed_def)
  then obtain rest where "mset (concat bs) = mset (bs ! ?i @ rest)" "mset (concat (bs[?i := it # bs ! ?i])) = mset ((it # bs ! ?i) @ rest)"
    by (rule mset_update_chain) blast
  moreover have "placed n (bs[?i := it # bs ! ?i])"
    using assms(1) by (auto simp: placed_def nth_list_update)
  ultimately show ?thesis by (simp add: move_item_def Let_def)
qed

lemma move_items_ok:
  assumes "0 < n"
  shows "placed n bs \<Longrightarrow> placed n (foldl (move_item n) bs its) \<and> mset (concat (foldl (move_item n) bs its)) = mset (its @ concat bs)"
proof (induction its arbitrary: bs)
  case (Cons it its)
  have m: "placed n (move_item n bs it)" "mset (concat (move_item n bs it)) = mset (it # concat bs)"
    using move_item_ok [OF Cons.prems assms] by blast+
  show ?case using Cons.IH [OF m(1)] m(2) by simp
qed simp

text \<open>Two tables with the same elements and functions.\<close>

definition same_items :: "'a lhash \<Rightarrow> 'a lhash \<Rightarrow> bool" where
  "same_items lh lh' \<longleftrightarrow> lh_comp lh' = lh_comp lh \<and> lh_hash lh' = lh_hash lh \<and> num_items lh' = num_items lh \<and>
     callback_depth lh' = callback_depth lh \<and> mset (items lh') = mset (items lh)"

lemma same_items_refl [simp]: "same_items lh lh"
  by (simp add: same_items_def)

lemma same_items_elements: "same_items lh lh' \<Longrightarrow> elements lh' = elements lh"
  by (metis elements_def same_items_def set_mset_mset)

lemma lh_rebucket_ok:
  assumes "lh_wf lh" and "16 \<le> n"
  shows "lh_wf (lh_rebucket alloc n lh) \<and> same_items lh (lh_rebucket alloc n lh)"
proof (cases "lh_rebucket alloc n lh = lh")
  case True
  then show ?thesis using assms(1) by simp
next
  case False
  let ?bs = "foldl (move_item n) (replicate n []) (items lh)"
  have r: "lh_rebucket alloc n lh = lh\<lparr>buckets := ?bs, num_buckets := n\<rparr>"
    using False by (auto simp: lh_rebucket_def Let_def foldl_concat)
  have "placed n (replicate n [])" by (simp add: placed_def)
  from move_items_ok [OF _ this, of "items lh"] assms(2)
  have bs: "placed n ?bs" "mset (concat ?bs) = mset (items lh)" by simp_all
  have "set (concat ?bs) = set (items lh)" using bs(2) by (metis set_mset_mset)
  have h: "it_hash it = lh_hash lh (it_data it)" if "i < n" "it \<in> set (?bs ! i)" for i it
  proof -
    have "it \<in> set (concat ?bs)" using that bs(1) by (auto simp: placed_def)
    then have "it \<in> set (items lh)" using \<open>set (concat ?bs) = set (items lh)\<close> by blast
    then obtain chain where "chain \<in> set (buckets lh)" "it \<in> set chain" by auto
    then obtain j where "j < length (buckets lh)" "it \<in> set (buckets lh ! j)" by (metis in_set_conv_nth)
    then show ?thesis using lh_wfD(4) [OF assms(1)] lh_wfD(5) [OF assms(1), of j it] by simp
  qed
  have "length (concat ?bs) = length (items lh)" using bs(2) by (metis size_mset)
  moreover have "distinct (map (\<lambda>it. equals lh (it_data it)) (concat ?bs))"
    using distinct_mset_cong [OF bs(2)] lh_wfD(6) [OF assms(1)] by blast
  ultimately show ?thesis
    using bs h assms(2) lh_wfD(1,7) [OF assms(1)] unfolding r
    by (auto simp: lh_wf_def same_items_def placed_def equals_def kMinNumBuckets_def)
qed

lemma lh_maybe_resize_ok:
  assumes "lh_wf lh"
  shows "lh_wf (lh_maybe_resize alloc lh) \<and> same_items lh (lh_maybe_resize alloc lh)"
proof -
  have "16 \<le> size_mul (num_buckets lh) 2 \<Longrightarrow> lh_wf (lh_rebucket alloc (size_mul (num_buckets lh) 2) lh) \<and>
      same_items lh (lh_rebucket alloc (size_mul (num_buckets lh) 2) lh)" using assms by (intro lh_rebucket_ok)
  moreover have "lh_wf (lh_rebucket alloc (if n < kMinNumBuckets then kMinNumBuckets else n) lh) \<and>
      same_items lh (lh_rebucket alloc (if n < kMinNumBuckets then kMinNumBuckets else n) lh)" for n
    using assms by (intro lh_rebucket_ok) (simp_all add: kMinNumBuckets_def)
  ultimately show ?thesis using assms lh_wfD(3) [OF assms] by (auto simp: lh_maybe_resize_def Let_def)
qed

section \<open>Each operation\<close>

lemma lh_wfI:
  assumes "lh_wf lh" and "length bs = length (buckets lh)"
    and "\<And>i it. i < length bs \<Longrightarrow> it \<in> set (bs ! i) \<Longrightarrow> it_hash it = lh_hash lh (it_data it) \<and> unat (it_hash it) mod num_buckets lh = i"
    and "distinct (map (\<lambda>it. equals lh (it_data it)) (concat bs))" and "n = length (concat bs) mod 2 ^ 64"
  shows "lh_wf (lh\<lparr>buckets := bs, num_items := n\<rparr>)"
proof -
  let ?l = "lh\<lparr>buckets := bs, num_items := n\<rparr>"
  have e: "equals ?l = equals lh" by (simp add: equals_def fun_eq_iff)
  have f: "lh_comp ?l = lh_comp lh" "lh_hash ?l = lh_hash lh" "num_buckets ?l = num_buckets lh" "buckets ?l = bs" "num_items ?l = n"
    by simp_all
  have l: "length bs = num_buckets lh" using assms(2) lh_wfD(4) [OF assms(1)] by simp
  show ?thesis unfolding lh_wf_def kMinNumBuckets_def e f
    using lh_wfD(1,3) [OF assms(1)] l assms(3-5) [unfolded l] by blast
qed

text \<open>A changed chain: its items are in place, and \<open>its\<close> are the items the table then has.\<close>

lemma update_chain_wf:
  assumes wf: "lh_wf lh" and i: "i < length (buckets lh)"
    and c: "\<And>it. it \<in> set c \<Longrightarrow> it_hash it = lh_hash lh (it_data it) \<and> unat (it_hash it) mod num_buckets lh = i"
    and eq: "mset (concat ((buckets lh)[i := c])) = mset its"
    and d: "distinct (map (\<lambda>it. equals lh (it_data it)) its)" and n: "n = length its mod 2 ^ 64"
  shows "lh_wf (lh\<lparr>buckets := (buckets lh)[i := c], num_items := n\<rparr>)"
proof (rule lh_wfI [OF wf])
  show "it_hash it = lh_hash lh (it_data it) \<and> unat (it_hash it) mod num_buckets lh = j"
    if "j < length ((buckets lh)[i := c])" "it \<in> set ((buckets lh)[i := c] ! j)" for j it
  proof (cases "j = i")
    case True
    then have "it \<in> set c" using that i by simp
    then show ?thesis using c unfolding True by blast
  next
    case False
    then have "j < num_buckets lh" "it \<in> set (buckets lh ! j)" using that lh_wfD(4) [OF wf] by simp_all
    then show ?thesis by (rule lh_wfD(5) [OF wf])
  qed
  show "distinct (map (\<lambda>it. equals lh (it_data it)) (concat ((buckets lh)[i := c])))"
    using distinct_mset_cong [OF eq] d by blast
  show "n = length (concat ((buckets lh)[i := c])) mod 2 ^ 64"
    using n arg_cong [OF eq, of size] by simp
qed simp

text \<open>The other items, when an element equal to \<open>x\<close> is in the table.\<close>

lemma other_items:
  assumes wf: "lh_wf lh" and g: "get_next_ptr_and_hash lh x = (hash, i, k)" and it: "item_at lh i k = Some item"
  obtains others where "mset (items lh) = mset (item # others)"
    "\<And>j. mset (concat ((buckets lh)[i := (buckets lh ! i)[k := j]])) = mset (j # others)"
    "mset (concat ((buckets lh)[i := take k (buckets lh ! i) @ drop (k + 1) (buckets lh ! i)])) = mset others"
    "distinct (map (\<lambda>it. equals lh (it_data it)) (item # others))"
    "elements lh = insert (it_data item) (it_data ` set others)" "it_data item \<notin> it_data ` set others"
proof -
  note f = find_item [OF wf g]
  let ?ch = "buckets lh ! i"
  have k: "k < length ?ch" "?ch ! k = item" using f(4) [OF it] by simp_all
  obtain rest where m: "mset (items lh) = mset (?ch @ rest)" "\<And>c. mset (concat ((buckets lh)[i := c])) = mset (c @ rest)"
    using f(2) by (rule mset_update_chain) blast
  let ?r = "take k ?ch @ drop (k + 1) ?ch @ rest"
  have "mset ?ch = mset (item # take k ?ch @ drop (k + 1) ?ch)"
    using k by (subst id_take_nth_drop [of k ?ch]) auto
  then have 1: "mset (items lh) = mset (item # ?r)" using m(1) by simp
  have d: "distinct (map (\<lambda>it. equals lh (it_data it)) (item # ?r))"
    using lh_wfD(6) [OF wf] distinct_mset_cong [OF 1] by blast
  have "set (items lh) = set (item # ?r)" using 1 by (rule mset_eq_setD)
  then have e: "elements lh = insert (it_data item) (it_data ` set ?r)" unfolding elements_def by (simp only: list.set image_insert)
  show thesis
  proof (rule that [OF 1 _ _ d e])
    show "mset (concat ((buckets lh)[i := ?ch[k := j]])) = mset (j # ?r)" for j
      using m(2) [of "?ch[k := j]"] k by (simp add: upd_conv_take_nth_drop)
    show "mset (concat ((buckets lh)[i := take k ?ch @ drop (k + 1) ?ch])) = mset ?r"
      using m(2) [of "take k ?ch @ drop (k + 1) ?ch"] by simp
    show "it_data item \<notin> it_data ` set ?r" using d by force
  qed
qed

text \<open>The items of a chain are in their place.\<close>

lemma in_place:
  assumes "lh_wf lh" "i < length (buckets lh)" "it \<in> set (buckets lh ! i)"
  shows "it_hash it = lh_hash lh (it_data it) \<and> unat (it_hash it) mod num_buckets lh = i"
  using lh_wfD(5) [OF assms(1) _ assms(3)] assms(2) unfolding lh_wfD(4) [OF assms(1)] by blast

lemma insert_replaces:
  assumes wf: "lh_wf lh" and g: "get_next_ptr_and_hash lh x = (hash, i, k)" and it: "item_at lh i k = Some item"
    and lh': "lh' = lh\<lparr>buckets := (buckets lh)[i := (buckets lh ! i)[k := item\<lparr>it_data := x\<rparr>]]\<rparr>"
  shows "lh_wf lh' \<and> elements lh' = insert x (elements lh - {it_data item})"
proof -
  note f = find_item [OF wf g]
  let ?ch = "buckets lh ! i" and ?x = "item\<lparr>it_data := x\<rparr>"
  have item: "item \<in> set ?ch" "lh_comp lh (it_data item) x = 0" using f(4) [OF it] by auto
  obtain others where o: "mset (items lh) = mset (item # others)"
      "mset (concat ((buckets lh)[i := ?ch[k := ?x]])) = mset (?x # others)"
      "distinct (map (\<lambda>it. equals lh (it_data it)) (item # others))"
      "elements lh = insert (it_data item) (it_data ` set others)" "it_data item \<notin> it_data ` set others"
    by (rule other_items [OF wf g it]) blast
  have "equals lh (it_data item) = equals lh x" using eq_ok_equals [OF lh_wfD(1) [OF wf]] item(2) by blast
  then have d: "distinct (map (\<lambda>it. equals lh (it_data it)) (?x # others))" using o(3) by simp
  have n: "num_items lh = length (?x # others) mod 2 ^ 64"
    using lh_wfD(7) [OF wf] arg_cong [OF o(1), of size] by simp
  have p: "it_hash j = lh_hash lh (it_data j) \<and> unat (it_hash j) mod num_buckets lh = i" if j: "j \<in> set (?ch[k := ?x])" for j
  proof -
    have "j \<in> set ?ch \<or> j = ?x" using j set_update_subset_insert [of ?ch k ?x] by blast
    moreover have "lh_hash lh (it_data item) = lh_hash lh x" using item(2) lh_wfD(1) [OF wf] by (simp add: eq_ok_def)
    ultimately show ?thesis using in_place [OF wf f(2)] item(1) by fastforce
  qed
  have "lh_wf (lh\<lparr>buckets := (buckets lh)[i := ?ch[k := ?x]], num_items := num_items lh\<rparr>)"
    by (rule update_chain_wf [OF wf f(2) p o(2) d n])
  moreover have "lh\<lparr>buckets := (buckets lh)[i := ?ch[k := ?x]], num_items := num_items lh\<rparr> = lh'" by (simp add: lh')
  moreover have "elements lh' = it_data ` set (?x # others)"
    using mset_eq_setD [OF o(2)] by (simp add: elements_def lh')
  ultimately show ?thesis using o(4,5) by simp
qed

lemma insert_adds:
  assumes wf: "lh_wf lh" and g: "get_next_ptr_and_hash lh x = (hash, i, k)" and it: "item_at lh i k = None"
    and lh': "lh' = lh\<lparr>buckets := (buckets lh)[i := take k (buckets lh ! i) @ [\<lparr>it_data = x, it_hash = hash\<rparr>]],
                       num_items := size_add (num_items lh) 1\<rparr>"
  shows "lh_wf lh' \<and> elements lh' = insert x (elements lh)"
proof -
  note f = find_item [OF wf g]
  let ?ch = "buckets lh ! i" and ?x = "\<lparr>it_data = x, it_hash = hash\<rparr>"
  have k: "take k ?ch = ?ch" using f(5) [OF it] by simp
  obtain rest where m: "mset (items lh) = mset (?ch @ rest)" "\<And>c. mset (concat ((buckets lh)[i := c])) = mset (c @ rest)"
    using f(2) by (rule mset_update_chain) blast
  have 1: "mset (concat ((buckets lh)[i := ?ch @ [?x]])) = mset (?x # items lh)" using m by simp
  have "equals lh (it_data it) \<noteq> equals lh x" if "it \<in> set (items lh)" for it
    using f(5) [OF it] that eq_ok_equals [OF lh_wfD(1) [OF wf]] by blast
  then have d: "distinct (map (\<lambda>it. equals lh (it_data it)) (?x # items lh))"
    using lh_wfD(6) [OF wf] by fastforce
  have n: "size_add (num_items lh) 1 = length (?x # items lh) mod 2 ^ 64"
    using lh_wfD(7) [OF wf] by (simp add: size_add_def mod_simps)
  have p: "it_hash j = lh_hash lh (it_data j) \<and> unat (it_hash j) mod num_buckets lh = i" if j: "j \<in> set (?ch @ [?x])" for j
    using that in_place [OF wf f(2)] f(1,3) by fastforce
  have "lh_wf lh'" unfolding lh' k by (rule update_chain_wf [OF wf f(2) p 1 d n])
  moreover have "elements lh' = it_data ` set (?x # items lh)"
    using mset_eq_setD [OF 1] by (simp add: elements_def lh' k)
  ultimately show ?thesis by (simp add: elements_def)
qed

lemma delete_removes:
  assumes wf: "lh_wf lh" and g: "get_next_ptr_and_hash lh x = (hash, i, k)" and it: "item_at lh i k = Some item"
    and lh': "lh' = lh\<lparr>buckets := (buckets lh)[i := take k (buckets lh ! i) @ drop (k + 1) (buckets lh ! i)],
                       num_items := size_add (num_items lh) (2 ^ 64 - 1)\<rparr>"
  shows "lh_wf lh' \<and> elements lh' = elements lh - {it_data item}"
proof -
  note f = find_item [OF wf g]
  let ?ch = "buckets lh ! i"
  let ?c = "take k ?ch @ drop (k + 1) ?ch"
  obtain others where o: "mset (items lh) = mset (item # others)"
      "mset (concat ((buckets lh)[i := ?c])) = mset others"
      "distinct (map (\<lambda>it. equals lh (it_data it)) (item # others))"
      "elements lh = insert (it_data item) (it_data ` set others)" "it_data item \<notin> it_data ` set others"
    by (rule other_items [OF wf g it]) blast
  have d: "distinct (map (\<lambda>it. equals lh (it_data it)) others)" using o(3) by simp
  have "num_items lh = Suc (length others) mod 2 ^ 64"
    using lh_wfD(7) [OF wf] arg_cong [OF o(1), of size] by simp
  then have "size_add (num_items lh) (2 ^ 64 - 1) = (length others + 2 ^ 64) mod 2 ^ 64"
    by (simp add: size_add_def mod_simps)
  then have n: "size_add (num_items lh) (2 ^ 64 - 1) = length others mod 2 ^ 64" by simp
  have "set ?c \<subseteq> set ?ch" using set_take_subset [of k ?ch] set_drop_subset [of "k + 1" ?ch] by auto
  then have p: "it_hash j = lh_hash lh (it_data j) \<and> unat (it_hash j) mod num_buckets lh = i" if "j \<in> set ?c" for j
    using that in_place [OF wf f(2)] by blast
  have "lh_wf lh'" unfolding lh' by (rule update_chain_wf [OF wf f(2) p o(2) d n])
  moreover have "elements lh' = it_data ` set others"
    using mset_eq_setD [OF o(2)] by (simp add: elements_def lh')
  ultimately show ?thesis using o(4,5) by simp
qed

end
