(* ===== verification/Lhash_Dict.thy ===== *)
theory Lhash_Dict
  imports Lhash
begin

text \<open>
  The hash table as a dictionary: whatever is called, a table answers like a map from keys (elements
  up to the comparison function) to elements, and it neither crowds nor wastes its buckets.
\<close>

section \<open>Calls and answers\<close>

datatype 'a dict_call = Insert "nat \<Rightarrow> bool" 'a | Delete "nat \<Rightarrow> bool" 'a | Retrieve 'a | Doall "nat \<Rightarrow> bool"

datatype 'a dict_answer = Inserted bool "'a option" | Deleted "'a option" | Retrieved "'a option" | Visited "'a multiset"

text \<open>A visit that puts every element it is called with into a list.\<close>

definition lh_visit :: "(nat \<Rightarrow> bool) \<Rightarrow> 'a lhash \<Rightarrow> 'a multiset \<times> 'a lhash" where
  "lh_visit alloc lh = (case lh_doall_arg alloc (#) [] lh of (xs, lh') \<Rightarrow> (mset xs, lh'))"

fun lh_call :: "'a dict_call \<Rightarrow> 'a lhash \<Rightarrow> 'a dict_answer \<times> 'a lhash" where
  "lh_call (Insert alloc x) lh = (case lh_insert alloc x lh of (ok, old, lh') \<Rightarrow> (Inserted ok old, lh'))"
| "lh_call (Delete alloc x) lh = (case lh_delete alloc x lh of (old, lh') \<Rightarrow> (Deleted old, lh'))"
| "lh_call (Retrieve x) lh = (Retrieved (lh_retrieve lh x), lh)"
| "lh_call (Doall alloc) lh = (case lh_visit alloc lh of (xs, lh') \<Rightarrow> (Visited xs, lh'))"

text \<open>What a map up to \<open>eq\<close> answers; an item takes 24 bytes.\<close>

definition map_put :: "('a \<Rightarrow> 'a \<Rightarrow> bool) \<Rightarrow> 'a \<Rightarrow> 'a option \<Rightarrow> ('a \<Rightarrow> 'a option) \<Rightarrow> 'a \<Rightarrow> 'a option" where
  "map_put eq x v m = (\<lambda>y. if eq x y then v else m y)"

fun map_call :: "('a \<Rightarrow> 'a \<Rightarrow> bool) \<Rightarrow> 'a dict_call \<Rightarrow> ('a \<Rightarrow> 'a option) \<Rightarrow> 'a dict_answer \<times> ('a \<Rightarrow> 'a option)" where
  "map_call eq (Insert alloc x) m =
     (if m x = None \<and> \<not> alloc 24 then (Inserted False None, m) else (Inserted True (m x), map_put eq x (Some x) m))"
| "map_call eq (Delete alloc x) m = (Deleted (m x), map_put eq x None m)"
| "map_call eq (Retrieve x) m = (Retrieved (m x), m)"
| "map_call eq (Doall alloc) m = (Visited (mset_set {x. m x = Some x}), m)"

text \<open>The answers of a sequence of calls, and the last state.\<close>

fun run_calls :: "('c \<Rightarrow> 's \<Rightarrow> 'r \<times> 's) \<Rightarrow> 'c list \<Rightarrow> 's \<Rightarrow> 'r list \<times> 's" where
  "run_calls step [] s = ([], s)"
| "run_calls step (c # cs) s = (case step c s of (r, s1) \<Rightarrow> case run_calls step cs s1 of (rs, s2) \<Rightarrow> (r # rs, s2))"

section \<open>The interface\<close>

locale dictionary =
  fixes wf :: "'s \<Rightarrow> bool"
    and eq :: "'a \<Rightarrow> 'a \<Rightarrow> bool"
    and find :: "'s \<Rightarrow> 'a \<Rightarrow> 'a option"
    and step :: "'a dict_call \<Rightarrow> 's \<Rightarrow> 'a dict_answer \<times> 's"
  assumes step_wf: "wf s \<Longrightarrow> step c s = (r, s') \<Longrightarrow> wf s'"
    and step_map: "wf s \<Longrightarrow> step c s = (r, s') \<Longrightarrow> map_call eq c (find s) = (r, find s')"
begin

lemma run_map:
  assumes "wf s" "run_calls step cs s = (rs, s')"
  shows "wf s' \<and> run_calls (map_call eq) cs (find s) = (rs, find s')"
  using assms
proof (induction cs arbitrary: s rs)
  case (Cons c cs)
  obtain r s1 where c: "step c s = (r, s1)" by fastforce
  obtain rs' where "run_calls step cs s1 = (rs', s')" "rs = r # rs'" using Cons.prems(2) c by (auto split: prod.splits)
  then show ?case using Cons.IH [of s1 rs'] step_wf [OF Cons.prems(1) c] step_map [OF Cons.prems(1) c] by simp
qed simp

end

section \<open>The table provides it\<close>

definition table_of :: "('a \<Rightarrow> u32) \<Rightarrow> ('a \<Rightarrow> 'a \<Rightarrow> int) \<Rightarrow> 'a lhash \<Rightarrow> bool" where
  "table_of hash cmp lh \<longleftrightarrow> lh_wf lh \<and> lh_hash lh = hash \<and> lh_comp lh = cmp"

lemma lh_retrieve_same:
  assumes "lh_wf lh" "lh_wf lh'" "elements lh' = elements lh" "lh_comp lh' = lh_comp lh"
  shows "lh_retrieve lh' = lh_retrieve lh"
proof
  fix x
  have "lh_retrieve lh' x = Some y \<longleftrightarrow> lh_retrieve lh x = Some y" for y
    unfolding lh_retrieve_iff [OF assms(1)] lh_retrieve_iff [OF assms(2)] assms(3,4) ..
  then show "lh_retrieve lh' x = lh_retrieve lh x" by (metis not_None_eq)
qed

lemma lh_maybe_resize_retrieve:
  assumes "lh_wf lh"
  shows "lh_retrieve (lh_maybe_resize alloc lh) = lh_retrieve lh"
  using lh_maybe_resize_ok [OF assms, of alloc] same_items_elements [of lh "lh_maybe_resize alloc lh"]
  by (intro lh_retrieve_same [OF assms]) (auto simp: same_items_def)

lemma lh_maybe_resize_elements:
  assumes "lh_wf lh"
  shows "elements (lh_maybe_resize alloc lh) = elements lh"
  using lh_maybe_resize_ok [OF assms, of alloc] same_items_elements by blast

text \<open>The element found for \<open>x\<close> is replaced or removed.\<close>

lemma retrieve_put:
  assumes wf: "lh_wf lh" "lh_wf lh'" and c: "lh_comp lh' = lh_comp lh"
    and e: "elements lh' = set_option v \<union> {y \<in> elements lh. lh_comp lh y x \<noteq> 0}" and v: "v \<in> {None, Some x}"
  shows "lh_retrieve lh' = map_put (\<lambda>x y. lh_comp lh x y = 0) x v (lh_retrieve lh)"
proof
  fix z
  note [intro] = eq_ok_refl [OF lh_wfD(1) [OF wf(1)]] eq_ok_sym [OF lh_wfD(1) [OF wf(1)]] eq_ok_trans [OF lh_wfD(1) [OF wf(1)]]
  have "lh_retrieve lh' z = Some y \<longleftrightarrow> map_put (\<lambda>x y. lh_comp lh x y = 0) x v (lh_retrieve lh) z = Some y" for y
  proof (cases "lh_comp lh x z = 0")
    case True
    then have "y \<in> elements lh \<and> lh_comp lh y x \<noteq> 0 \<longrightarrow> lh_comp lh y z \<noteq> 0" by blast
    then show ?thesis using True v by (auto simp: lh_retrieve_iff [OF wf(2)] map_put_def e c)
  next
    case False
    then have "lh_comp lh y z = 0 \<longrightarrow> lh_comp lh y x \<noteq> 0" by blast
    then show ?thesis using False v
      by (auto simp: lh_retrieve_iff [OF wf(2)] lh_retrieve_iff [OF wf(1)] map_put_def e c)
  qed
  then show "lh_retrieve lh' z = map_put (\<lambda>x y. lh_comp lh x y = 0) x v (lh_retrieve lh) z"
    by (metis not_None_eq)
qed

text \<open>The functions given to \<^verbatim>\<open>lh_new\<close> and the depth stay.\<close>

lemma lh_maybe_resize_fields [simp]:
  "lh_comp (lh_maybe_resize alloc lh) = lh_comp lh" "lh_hash (lh_maybe_resize alloc lh) = lh_hash lh"
  "num_items (lh_maybe_resize alloc lh) = num_items lh" "callback_depth (lh_maybe_resize alloc lh) = callback_depth lh"
  by (simp_all add: lh_maybe_resize_def lh_rebucket_def Let_def)

lemma elements_after:
  assumes "lh_wf lh" "it \<in> elements lh" "lh_comp lh it x = 0"
  shows "{y \<in> elements lh. lh_comp lh y x \<noteq> 0} = elements lh - {it}"
proof -
  have "y = it" if "y \<in> elements lh" "lh_comp lh y x = 0" for y
  proof -
    have "lh_comp lh y it = 0" using that(2) assms(3) lh_wfD(1) [OF assms(1)] by (meson eq_ok_sym eq_ok_trans)
    then show ?thesis using elements_unique [OF assms(1) that(1) assms(2)] by blast
  qed
  then show ?thesis using assms(2,3) by blast
qed

lemma lh_insert_ok:
  assumes wf: "lh_wf lh" and c: "lh_insert alloc x lh = (ok, old, lh')"
  shows "lh_wf lh' \<and> lh_comp lh' = lh_comp lh \<and> lh_hash lh' = lh_hash lh \<and>
    map_call (\<lambda>x y. lh_comp lh x y = 0) (Insert alloc x) (lh_retrieve lh) = (Inserted ok old, lh_retrieve lh')"
proof -
  obtain hash i k where g: "get_next_ptr_and_hash lh x = (hash, i, k)" by (metis prod_cases3)
  note f = find_item [OF wf g]
  have r: "lh_retrieve lh x = map_option it_data (item_at lh i k)" by (simp add: lh_retrieve_def g)
  show ?thesis
  proof (cases "item_at lh i k")
    case (Some item)
    then have c: "ok" "old = Some (it_data item)" "lh' = lh\<lparr>buckets := (buckets lh)[i := (buckets lh ! i)[k := item\<lparr>it_data := x\<rparr>]]\<rparr>"
      using c by (simp_all add: lh_insert_def g)
    note e = insert_replaces [OF wf g Some c(3)]
    have "it_data item \<in> elements lh" "lh_comp lh (it_data item) x = 0" using f(4) [OF Some] by (auto simp: elements_def)
    then have "elements lh' = set_option (Some x) \<union> {y \<in> elements lh. lh_comp lh y x \<noteq> 0}"
      using e elements_after [OF wf] by simp
    then have "lh_retrieve lh' = map_put (\<lambda>x y. lh_comp lh x y = 0) x (Some x) (lh_retrieve lh)"
      using e by (intro retrieve_put [OF wf]) (simp_all add: c)
    then show ?thesis using e r Some c(1,2) by (simp add: c(3))
  next
    case None
    show ?thesis
    proof (cases "alloc 24")
      case False
      then show ?thesis using c r None wf by (simp add: lh_insert_def g)
    next
      case True
      define lh1 where "lh1 = lh\<lparr>buckets := (buckets lh)[i := take k (buckets lh ! i) @ [\<lparr>it_data = x, it_hash = hash\<rparr>]],
                       num_items := size_add (num_items lh) 1\<rparr>"
      have c: "ok" "old = None" "lh' = lh_maybe_resize alloc lh1"
        using c True None by (simp_all add: lh_insert_def g lh1_def)
      note e = insert_adds [OF wf g None lh1_def]
      have "{y \<in> elements lh. lh_comp lh y x \<noteq> 0} = elements lh" using f(5) [OF None] by (auto simp: elements_def)
      then have "lh_retrieve lh1 = map_put (\<lambda>x y. lh_comp lh x y = 0) x (Some x) (lh_retrieve lh)"
        using e by (intro retrieve_put [OF wf]) (simp_all add: lh1_def)
      then show ?thesis
        using e r None True c(1,2) lh_maybe_resize_ok [of lh1 alloc] lh_maybe_resize_retrieve [of lh1 alloc] by (simp add: c(3) lh1_def)
    qed
  qed
qed

lemma lh_delete_ok:
  assumes wf: "lh_wf lh" and c: "lh_delete alloc x lh = (old, lh')"
  shows "lh_wf lh' \<and> lh_comp lh' = lh_comp lh \<and> lh_hash lh' = lh_hash lh \<and>
    map_call (\<lambda>x y. lh_comp lh x y = 0) (Delete alloc x) (lh_retrieve lh) = (Deleted old, lh_retrieve lh')"
proof -
  obtain hash i k where g: "get_next_ptr_and_hash lh x = (hash, i, k)" by (metis prod_cases3)
  note f = find_item [OF wf g]
  have r: "lh_retrieve lh x = map_option it_data (item_at lh i k)" by (simp add: lh_retrieve_def g)
  show ?thesis
  proof (cases "item_at lh i k")
    case None
    then have c: "old = None" "lh' = lh" using c by (simp_all add: lh_delete_def g)
    have "{y \<in> elements lh. lh_comp lh y x \<noteq> 0} = elements lh" using f(5) [OF None] by (auto simp: elements_def)
    then have "lh_retrieve lh = map_put (\<lambda>x y. lh_comp lh x y = 0) x None (lh_retrieve lh)"
      by (intro retrieve_put [OF wf wf]) simp_all
    then show ?thesis using wf r None by (simp add: c)
  next
    case (Some item)
    define lh1 where "lh1 = lh\<lparr>buckets := (buckets lh)[i := take k (buckets lh ! i) @ drop (k + 1) (buckets lh ! i)],
                       num_items := size_add (num_items lh) (2 ^ 64 - 1)\<rparr>"
    have c: "old = Some (it_data item)" "lh' = lh_maybe_resize alloc lh1"
      using c Some by (simp_all add: lh_delete_def g lh1_def)
    note e = delete_removes [OF wf g Some lh1_def]
    have "it_data item \<in> elements lh" "lh_comp lh (it_data item) x = 0" using f(4) [OF Some] by (auto simp: elements_def)
    then have "elements lh1 = set_option None \<union> {y \<in> elements lh. lh_comp lh y x \<noteq> 0}"
      using e elements_after [OF wf] by simp
    then have "lh_retrieve lh1 = map_put (\<lambda>x y. lh_comp lh x y = 0) x None (lh_retrieve lh)"
      using e by (intro retrieve_put [OF wf]) (simp_all add: lh1_def)
    then show ?thesis
      using e r Some c(1) lh_maybe_resize_ok [of lh1 alloc] lh_maybe_resize_retrieve [of lh1 alloc] by (simp add: c(2) lh1_def)
  qed
qed

text \<open>Visiting: the depth comes back to what it was, but once it has reached its largest value.\<close>

lemma foldl_cons: "foldl (\<lambda>a cur. f cur # a) xs ys = rev (map f ys) @ xs"
  by (induction ys arbitrary: xs) simp_all

lemma lh_visit_eq:
  "lh_visit alloc lh = (image_mset it_data (mset (items lh)),
     lh_maybe_resize alloc (lh\<lparr>callback_depth := if callback_depth lh = 2 ^ 32 - 2 then 2 ^ 32 - 1 else callback_depth lh\<rparr>))"
proof -
  have id: "lh\<lparr>callback_depth := callback_depth lh\<rparr> = lh" by simp
  consider "callback_depth lh = 2 ^ 32 - 2" | "callback_depth lh < 2 ^ 32 - 2" | "callback_depth lh \<ge> 2 ^ 32 - 1" by linarith
  then show ?thesis
    by cases (simp_all add: lh_visit_def lh_doall_arg_def Let_def foldl_concat foldl_cons id del: lhash.update_convs)
qed

lemma lh_visit_ok:
  assumes wf: "lh_wf lh" and c: "lh_visit alloc lh = (xs, lh')"
  shows "lh_wf lh' \<and> lh_comp lh' = lh_comp lh \<and> lh_hash lh' = lh_hash lh \<and>
    map_call (\<lambda>x y. lh_comp lh x y = 0) (Doall alloc) (lh_retrieve lh) = (Visited xs, lh_retrieve lh')"
proof -
  obtain d where c: "xs = image_mset it_data (mset (items lh))" "lh' = lh_maybe_resize alloc (lh\<lparr>callback_depth := d\<rparr>)"
    using c unfolding lh_visit_eq by blast
  let ?l = "lh\<lparr>callback_depth := d\<rparr>"
  have f: "lh_comp ?l = lh_comp lh" "lh_hash ?l = lh_hash lh" "num_buckets ?l = num_buckets lh" "buckets ?l = buckets lh"
    "num_items ?l = num_items lh" by simp_all
  have "lh_wf ?l" using wf unfolding lh_wf_def equals_def f .
  moreover have "lh_retrieve ?l = lh_retrieve lh"
    by (intro lh_retrieve_same [OF wf \<open>lh_wf ?l\<close>]) (simp_all add: elements_def)
  moreover have "distinct (map it_data (items lh))"
    using lh_wfD(6) [OF wf] by (auto simp: distinct_map inj_on_def)
  then have "mset_set (set (map it_data (items lh))) = mset (map it_data (items lh))" by (rule mset_set_set)
  then have "xs = mset_set (elements lh)" unfolding c(1) elements_def set_map mset_map by (rule sym)
  moreover have "elements lh = {x. lh_retrieve lh x = Some x}"
    using eq_ok_refl [OF lh_wfD(1) [OF wf]] by (auto simp: lh_retrieve_iff [OF wf])
  ultimately show ?thesis using lh_maybe_resize_ok [of ?l alloc] lh_maybe_resize_retrieve [of ?l alloc] by (simp add: c(2))
qed

lemma lh_call_ok:
  assumes "lh_wf lh" and "lh_call c lh = (r, lh')"
  shows "lh_wf lh' \<and> lh_comp lh' = lh_comp lh \<and> lh_hash lh' = lh_hash lh \<and>
    map_call (\<lambda>x y. lh_comp lh x y = 0) c (lh_retrieve lh) = (r, lh_retrieve lh')"
proof (cases c)
  case (Insert alloc x)
  then show ?thesis using assms lh_insert_ok [OF assms(1)] by (auto simp del: map_call.simps split: prod.splits)
next
  case (Delete alloc x)
  then show ?thesis using assms lh_delete_ok [OF assms(1)] by (auto simp del: map_call.simps split: prod.splits)
next
  case (Doall alloc)
  then show ?thesis using assms lh_visit_ok [OF assms(1)] by (auto simp del: map_call.simps split: prod.splits)
qed (use assms in auto)

interpretation lh: dictionary "table_of hash cmp" "\<lambda>x y. cmp x y = 0" lh_retrieve lh_call for hash cmp
proof (unfold_locales, goal_cases)
  case (1 s c r s')
  then show ?case using lh_call_ok [of s c r s'] by (simp add: table_of_def)
next
  case (2 s c r s')
  then show ?case using lh_call_ok [of s c r s'] by (simp add: table_of_def)
qed

lemma lh_new_table:
  assumes "eq_ok cmp hash" "lh_new alloc hash cmp = Some lh"
  shows "table_of hash cmp lh" "lh_retrieve lh = Map.empty"
proof -
  have lh: "lh = \<lparr>num_items = 0, buckets = replicate 16 [], num_buckets = 16, callback_depth = 0, lh_comp = cmp, lh_hash = hash\<rparr>"
    using assms(2) by (simp add: lh_new_def kMinNumBuckets_def split: if_splits)
  have e: "items lh = []" by (simp add: lh)
  then have wf: "lh_wf lh" using assms(1) unfolding lh_wf_def by (simp add: kMinNumBuckets_def lh)
  then show "table_of hash cmp lh" by (simp add: table_of_def lh)
  show "lh_retrieve lh = Map.empty"
  proof
    fix x
    have "lh_retrieve lh x \<noteq> Some y" for y using lh_retrieve_iff [OF wf, of x y] e by (simp add: elements_def)
    then show "lh_retrieve lh x = None" by (metis not_None_eq)
  qed
qed

section \<open>The number of buckets\<close>

text \<open>Chains have fewer than three items on average, and there are at most as many buckets as items, but for the first 16.\<close>

definition balanced :: "'a lhash \<Rightarrow> bool" where
  "balanced lh \<longleftrightarrow> callback_depth lh = 0 \<and> 16 \<le> num_buckets lh \<and> num_items lh < 3 * num_buckets lh \<and>
     (num_buckets lh = 16 \<or> num_buckets lh \<le> num_items lh)"

lemma lh_rebucket_num_buckets:
  assumes "alloc (8 * n)" "n < 2 ^ 60"
  shows "num_buckets (lh_rebucket alloc n lh) = n"
  using assms by (simp add: lh_rebucket_def size_mul_def Let_def)

text \<open>One item more or fewer than a balanced table has.\<close>

lemma lh_maybe_resize_balanced:
  assumes b: "callback_depth lh = 0" "16 \<le> num_buckets lh" "num_items lh \<le> 3 * num_buckets lh"
      "num_buckets lh = 16 \<or> num_buckets lh \<le> num_items lh + 1"
    and a: "\<And>k. alloc k" and s: "num_items lh < 2 ^ 58"
  shows "balanced (lh_maybe_resize alloc lh)"
proof -
  let ?n = "num_buckets lh" and ?k = "num_items lh"
  have n: "?n < 2 ^ 59" using b s by auto
  have w: "size_mul ?n 2 = ?n * 2" using n by (simp add: size_mul_def)
  consider "?k = 3 * ?n" | "?k < 3 * ?n" "?n \<le> ?k \<or> ?n = 16" | "?k + 1 = ?n" "16 < ?n" using b by linarith
  then show ?thesis
  proof cases
    case 1
    then have "lh_maybe_resize alloc lh = lh_rebucket alloc (?n * 2) lh"
      using b by (simp add: lh_maybe_resize_def kMaxAverageChainLength_def w)
    then have "num_buckets (lh_maybe_resize alloc lh) = ?n * 2" using lh_rebucket_num_buckets [of alloc "?n * 2" lh, OF a] n by simp
    then show ?thesis using b 1 by (simp add: balanced_def)
  next
    case 2
    then have "?k div ?n \<le> 2" using b(2) less_mult_imp_div_less [of ?k 3 ?n] by simp
    moreover have "1 \<le> ?k div ?n \<or> ?n = 16" using 2 b(2) by (auto simp: div_greater_zero_iff Suc_le_eq)
    ultimately have "lh_maybe_resize alloc lh = lh"
      by (auto simp: lh_maybe_resize_def kMaxAverageChainLength_def kMinAverageChainLength_def kMinNumBuckets_def Let_def)
    then show ?thesis using b 2 by (auto simp: balanced_def)
  next
    case 3
    let ?m = "max 16 (?n div 2)"
    have "?k div ?n = 0" using 3 by simp
    then have "lh_maybe_resize alloc lh = lh_rebucket alloc ?m lh"
      using 3 b(1) by (auto simp: lh_maybe_resize_def kMaxAverageChainLength_def kMinAverageChainLength_def kMinNumBuckets_def Let_def max_def)
    moreover have "?m < 2 ^ 60" using n by auto
    ultimately have "num_buckets (lh_maybe_resize alloc lh) = ?m" using lh_rebucket_num_buckets [of alloc ?m lh, OF a] by simp
    then show ?thesis using b(1) 3 by (auto simp: balanced_def max_def)
  qed
qed

fun call_alloc :: "'a dict_call \<Rightarrow> nat \<Rightarrow> bool" where
  "call_alloc (Insert alloc x) = alloc"
| "call_alloc (Delete alloc x) = alloc"
| "call_alloc (Retrieve x) = (\<lambda>_. True)"
| "call_alloc (Doall alloc) = alloc"

lemma balancedD:
  assumes "balanced lh"
  shows "callback_depth lh = 0" "16 \<le> num_buckets lh" "num_items lh < 3 * num_buckets lh" "num_buckets lh = 16 \<or> num_buckets lh \<le> num_items lh"
  using assms by (simp_all add: balanced_def)

lemma length_items:
  assumes "lh_wf lh"
  shows "length (items lh) = card (elements lh)" "finite (elements lh)"
proof -
  have "distinct (map it_data (items lh))" using lh_wfD(6) [OF assms] by (auto simp: distinct_map inj_on_def)
  then show "length (items lh) = card (elements lh)" unfolding elements_def by (metis distinct_card length_map set_map)
  show "finite (elements lh)" by (simp add: elements_def)
qed

lemma lh_insert_balanced:
  assumes wf: "lh_wf lh" and b: "balanced lh" and a: "\<And>k. alloc k" and s: "card (elements lh) + 1 < 2 ^ 58"
    and c: "lh_insert alloc x lh = (ok, old, lh')"
  shows "balanced lh' \<and> card (elements lh') \<le> card (elements lh) + 1"
proof -
  obtain hash i k where g: "get_next_ptr_and_hash lh x = (hash, i, k)" by (metis prod_cases3)
  have ni: "num_items lh = card (elements lh)" using lh_wfD(7) [OF wf] s by (simp add: length_items(1) [OF wf])
  have ins: "card (insert x A) \<le> card (elements lh) + 1" if "A \<subseteq> elements lh" for A
    using that length_items(2) [OF wf] card_mono [of "elements lh" A] finite_subset [of A "elements lh"] by (simp add: card_insert_if)
  show ?thesis
  proof (cases "item_at lh i k")
    case (Some item)
    then have c: "lh' = lh\<lparr>buckets := (buckets lh)[i := (buckets lh ! i)[k := item\<lparr>it_data := x\<rparr>]]\<rparr>"
      using c by (simp add: lh_insert_def g)
    have "card (elements lh') \<le> card (elements lh) + 1"
      using insert_replaces [OF wf g Some c] ins [of "elements lh - {it_data item}"] by auto
    then show ?thesis using b by (simp add: c balanced_def)
  next
    case None
    define lh1 where "lh1 = lh\<lparr>buckets := (buckets lh)[i := take k (buckets lh ! i) @ [\<lparr>it_data = x, it_hash = hash\<rparr>]],
                     num_items := size_add (num_items lh) 1\<rparr>"
    have c: "lh' = lh_maybe_resize alloc lh1" using c None a by (simp add: lh_insert_def g lh1_def)
    note e = insert_adds [OF wf g None lh1_def]
    have l: "num_items lh1 = num_items lh + 1" "num_buckets lh1 = num_buckets lh" "callback_depth lh1 = callback_depth lh"
      using s by (simp_all add: lh1_def ni size_add_def)
    have "balanced (lh_maybe_resize alloc lh1)"
      by (rule lh_maybe_resize_balanced) (use balancedD [OF b] l s ni a in auto)
    moreover have "elements lh' = insert x (elements lh)"
      using e lh_maybe_resize_elements [of lh1 alloc] by (simp add: c)
    ultimately show ?thesis using ins [of "elements lh"] by (simp add: c)
  qed
qed

lemma lh_delete_balanced:
  assumes wf: "lh_wf lh" and b: "balanced lh" and a: "\<And>k. alloc k" and s: "card (elements lh) + 1 < 2 ^ 58"
    and c: "lh_delete alloc x lh = (old, lh')"
  shows "balanced lh' \<and> card (elements lh') \<le> card (elements lh)"
proof -
  obtain hash i k where g: "get_next_ptr_and_hash lh x = (hash, i, k)" by (metis prod_cases3)
  have ni: "num_items lh = card (elements lh)" using lh_wfD(7) [OF wf] s by (simp add: length_items(1) [OF wf])
  show ?thesis
  proof (cases "item_at lh i k")
    case None
    then show ?thesis using c b by (simp add: lh_delete_def g)
  next
    case (Some item)
    define lh1 where "lh1 = lh\<lparr>buckets := (buckets lh)[i := take k (buckets lh ! i) @ drop (k + 1) (buckets lh ! i)],
                       num_items := size_add (num_items lh) (2 ^ 64 - 1)\<rparr>"
    have c: "lh' = lh_maybe_resize alloc lh1" using c Some by (simp add: lh_delete_def g lh1_def)
    note e = delete_removes [OF wf g Some lh1_def]
    have "it_data item \<in> elements lh" using find_item(4) [OF wf g Some] by (auto simp: elements_def)
    then have pos: "0 < card (elements lh)" using length_items(2) [OF wf] by (auto simp: card_gt_0_iff)
    then have "num_items lh + (2 ^ 64 - 1) = (num_items lh - 1) + 2 ^ 64" by (simp add: ni)
    then have "size_add (num_items lh) (2 ^ 64 - 1) = (num_items lh - 1) mod 2 ^ 64"
      unfolding size_add_def by (simp only: mod_add_self2)
    also have "\<dots> = num_items lh - 1" using s ni by simp
    finally have "size_add (num_items lh) (2 ^ 64 - 1) = num_items lh - 1" .
    then have l: "num_items lh1 = num_items lh - 1" "num_buckets lh1 = num_buckets lh" "callback_depth lh1 = callback_depth lh"
      by (simp_all add: lh1_def)
    have "balanced (lh_maybe_resize alloc lh1)"
      by (rule lh_maybe_resize_balanced) (use balancedD [OF b] l s ni a pos in auto)
    moreover have "elements lh' = elements lh - {it_data item}"
      using e lh_maybe_resize_elements [of lh1 alloc] by (simp add: c)
    ultimately show ?thesis using card_mono [OF length_items(2) [OF wf], of "elements lh'"] by (auto simp: c)
  qed
qed

lemma lh_visit_balanced:
  assumes wf: "lh_wf lh" and b: "balanced lh" and a: "\<And>k. alloc k" and s: "card (elements lh) + 1 < 2 ^ 58"
    and c: "lh_visit alloc lh = (xs, lh')"
  shows "balanced lh' \<and> card (elements lh') \<le> card (elements lh)"
proof -
  have ni: "num_items lh = card (elements lh)" using lh_wfD(7) [OF wf] s by (simp add: length_items(1) [OF wf])
  have "lh\<lparr>callback_depth := 0\<rparr> = lh" using balancedD(1) [OF b] by (cases lh) simp
  then have "lh_maybe_resize alloc (lh\<lparr>callback_depth := 0\<rparr>) = lh_maybe_resize alloc lh" by (rule arg_cong)
  then have c: "lh' = lh_maybe_resize alloc lh" using c balancedD(1) [OF b] by (simp add: lh_visit_eq)
  have "balanced (lh_maybe_resize alloc lh)"
    by (rule lh_maybe_resize_balanced) (use balancedD [OF b] s ni a in auto)
  then show ?thesis using lh_maybe_resize_elements [OF wf, of alloc] by (simp add: c)
qed

lemma lh_call_balanced:
  assumes "lh_wf lh" "balanced lh" "\<And>k. call_alloc c k" "card (elements lh) + 1 < 2 ^ 58" "lh_call c lh = (r, lh')"
  shows "balanced lh' \<and> card (elements lh') \<le> card (elements lh) + 1"
proof (cases c)
  case (Insert alloc x)
  then show ?thesis using assms lh_insert_balanced [OF assms(1,2) _ assms(4), of alloc] by (auto split: prod.splits)
next
  case (Delete alloc x)
  then show ?thesis using assms lh_delete_balanced [OF assms(1,2) _ assms(4), of alloc] by (fastforce split: prod.splits)
next
  case (Doall alloc)
  then show ?thesis using assms lh_visit_balanced [OF assms(1,2) _ assms(4), of alloc] by (fastforce split: prod.splits)
qed (use assms in auto)

lemma lh_calls_balanced:
  assumes "lh_wf lh" "balanced lh" "\<And>c k. c \<in> set cs \<Longrightarrow> call_alloc c k" "card (elements lh) + length cs < 2 ^ 58"
    "run_calls lh_call cs lh = (rs, lh')"
  shows "balanced lh' \<and> card (elements lh') \<le> card (elements lh) + length cs"
  using assms
proof (induction cs arbitrary: lh rs)
  case (Cons c cs)
  obtain r lh1 where c: "lh_call c lh = (r, lh1)" by fastforce
  obtain rs' where rs: "run_calls lh_call cs lh1 = (rs', lh')" using Cons.prems(5) c by (auto split: prod.splits)
  have "balanced lh1 \<and> card (elements lh1) \<le> card (elements lh) + 1"
    by (rule lh_call_balanced [OF Cons.prems(1,2) _ _ c]) (use Cons.prems(3,4) in auto)
  moreover have "lh_wf lh1" using lh_call_ok [OF Cons.prems(1) c] by blast
  ultimately have "balanced lh' \<and> card (elements lh') \<le> card (elements lh1) + length cs" "card (elements lh1) \<le> card (elements lh) + 1"
    using Cons.IH [OF _ _ _ _ rs] Cons.prems(3,4) by auto
  then show ?case by simp
qed simp

section \<open>Properties\<close>

text \<open>
  C36. A table answers every sequence of insertions, deletions, look-ups and visits like a map from
  elements up to the comparison function, whatever collides, is resized or fails to be allocated:
  an insertion fails only when a new element finds no memory, and then changes nothing; a visit
  meets every element of the map once.
\<close>

theorem lh_calls_refine_map:
  assumes "eq_ok cmp hash" and "lh_new alloc hash cmp = Some lh" and "run_calls lh_call cs lh = (rs, lh')"
  shows "run_calls (map_call (\<lambda>x y. cmp x y = 0)) cs Map.empty = (rs, lh_retrieve lh')"
  using lh.run_map [OF lh_new_table(1) [OF assms(1,2)] assms(3)] lh_new_table(2) [OF assms(1,2)] by simp

lemma bytes_eq_ok: "eq_ok (\<lambda>x y. if x = y then 0 else 1) hash"
  by (auto simp: eq_ok_def intro!: equivpI reflpI sympI transpI)

lemma lh_calls_refine_map_witness:
  "\<exists>lh. lh_new (\<lambda>_. True) OPENSSL_hash32 (\<lambda>x y. if x = y then 0 else 1) = Some lh \<and>
     fst (run_calls lh_call [Insert (\<lambda>_. True) [1], Insert (\<lambda>_. False) [2], Insert (\<lambda>k. k = 24) [1],
            Retrieve [1], Retrieve [2], Delete (\<lambda>_. True) [1], Doall (\<lambda>_. True)] lh) =
     [Inserted True None, Inserted False None, Inserted True (Some [1]), Retrieved (Some [1]), Retrieved None,
      Deleted (Some [1]), Visited {#}]"
proof -
  obtain lh :: "bytes lhash" where lh: "lh_new (\<lambda>_. True) OPENSSL_hash32 (\<lambda>x y. if x = y then 0 else 1) = Some lh"
    by (simp add: lh_new_def)
  let ?cs = "[Insert (\<lambda>_. True) [1], Insert (\<lambda>_. False) [2], Insert (\<lambda>k. k = 24) [1],
            Retrieve [1], Retrieve [2], Delete (\<lambda>_. True) [1], Doall (\<lambda>_. True)]"
  obtain rs lh' where run: "run_calls lh_call ?cs lh = (rs, lh')" by fastforce
  show ?thesis using lh_calls_refine_map [OF bytes_eq_ok lh run] lh run by (auto simp: map_put_def)
qed

text \<open>
  C37. Every table that calls lead to is well-formed: each item lies in the bucket of its hash value,
  no two elements are equal, and the count is the number of items. When no allocation fails, the
  chains have fewer than three items on average and there are at most as many buckets as items, but
  for the first 16.
\<close>

theorem lh_calls_keep_type:
  assumes "eq_ok cmp hash" and "lh_new alloc hash cmp = Some lh" and "run_calls lh_call cs lh = (rs, lh')"
  shows "lh_wf lh' \<and> lh_hash lh' = hash \<and> lh_comp lh' = cmp \<and>
    ((\<forall>c\<in>set cs. \<forall>k. call_alloc c k) \<and> length cs < 2 ^ 58 \<longrightarrow> balanced lh')"
proof -
  note t = lh_new_table(1) [OF assms(1,2)]
  have "table_of hash cmp lh'" using lh.run_map [OF t assms(3)] by blast
  moreover have "balanced lh" "elements lh = {}"
    using assms(2) by (auto simp: lh_new_def balanced_def elements_def kMinNumBuckets_def split: if_splits)
  ultimately show ?thesis using t lh_calls_balanced [OF _ _ _ _ assms(3)] by (auto simp: table_of_def)
qed

lemma lh_calls_keep_type_witness:
  "\<exists>lh. lh_new (\<lambda>_. True) OPENSSL_hash32 (\<lambda>x y. if x = y then 0 else 1) = Some lh \<and>
     balanced (snd (run_calls lh_call (map (\<lambda>b. Insert (\<lambda>_. True) [b]) [1, 2, 3]) lh))"
proof -
  obtain lh :: "bytes lhash" where lh: "lh_new (\<lambda>_. True) OPENSSL_hash32 (\<lambda>x y. if x = y then 0 else 1) = Some lh"
    by (simp add: lh_new_def)
  let ?cs = "map (\<lambda>b. Insert (\<lambda>_. True) [b]) [1, 2, 3]"
  obtain rs lh' where run: "run_calls lh_call ?cs lh = (rs, lh')" by fastforce
  show ?thesis using lh_calls_keep_type [OF bytes_eq_ok lh run] lh run by simp
qed

end
