(* ===== verification/Pb_Iter.thy ===== *)
theory Pb_Iter
  imports Prelude
begin

text \<open>
  \<^verbatim>\<open>pb_common.c\<close>: the iterator of nanopb over the description of a message, and the macros of
  \<^verbatim>\<open>pb.h\<close> that describe a C struct, as the pods build them (\<^verbatim>\<open>PB_FIELD_32BIT\<close>). The description is
  an array that ends with an entry of tag 0; \<open>pos\<close> is an index into it. Addresses have 64 bits.
\<close>

section \<open>Descriptions of fields\<close>

unbundle bit_operations_syntax

type_synonym pb_addr = u64

record pb_field =
  f_tag :: u32
  f_type :: byte
  data_offset :: u32
  size_offset :: u32
  data_size :: u32
  array_size :: u32
  f_ptr :: pb_addr

definition PB_SIZE_MAX :: u32 where "PB_SIZE_MAX = - 1"
definition PB_LAST_FIELD :: pb_field where
  "PB_LAST_FIELD = \<lparr>f_tag = 0, f_type = 0, data_offset = 0, size_offset = 0, data_size = 0, array_size = 0, f_ptr = 0\<rparr>"

definition PB_ATYPE :: "byte \<Rightarrow> byte" where "PB_ATYPE x = x AND 0xC0"
definition PB_HTYPE :: "byte \<Rightarrow> byte" where "PB_HTYPE x = x AND 0x30"
definition PB_LTYPE :: "byte \<Rightarrow> byte" where "PB_LTYPE x = x AND 0x0F"

definition PB_HTYPE_REQUIRED :: byte where "PB_HTYPE_REQUIRED = 0x00"
definition PB_HTYPE_OPTIONAL :: byte where "PB_HTYPE_OPTIONAL = 0x10"
definition PB_HTYPE_REPEATED :: byte where "PB_HTYPE_REPEATED = 0x20"
definition PB_HTYPE_ONEOF :: byte where "PB_HTYPE_ONEOF = 0x30"

definition PB_ATYPE_STATIC :: byte where "PB_ATYPE_STATIC = 0x00"
definition PB_ATYPE_POINTER :: byte where "PB_ATYPE_POINTER = 0x80"
definition PB_ATYPE_CALLBACK :: byte where "PB_ATYPE_CALLBACK = 0x40"

definition PB_LTYPE_EXTENSION :: byte where "PB_LTYPE_EXTENSION = 0x09"

named_theorems pb_type_defs

declare PB_SIZE_MAX_def [pb_type_defs] PB_ATYPE_def [pb_type_defs] PB_HTYPE_def [pb_type_defs] PB_LTYPE_def [pb_type_defs]
  PB_HTYPE_REQUIRED_def [pb_type_defs] PB_HTYPE_OPTIONAL_def [pb_type_defs] PB_HTYPE_REPEATED_def [pb_type_defs]
  PB_HTYPE_ONEOF_def [pb_type_defs] PB_ATYPE_STATIC_def [pb_type_defs] PB_ATYPE_POINTER_def [pb_type_defs]
  PB_ATYPE_CALLBACK_def [pb_type_defs] PB_LTYPE_EXTENSION_def [pb_type_defs]

section \<open>The iterator\<close>

record pb_field_iter =
  it_fields :: "pb_field list"
  pos :: nat
  required_field_index :: u32
  dest_struct :: pb_addr
  pData :: pb_addr
  pSize :: pb_addr

definition field_of :: "pb_field_iter \<Rightarrow> pb_field" where
  "field_of iter = it_fields iter ! pos iter"

definition pb_field_iter_begin :: "pb_field list \<Rightarrow> pb_addr \<Rightarrow> bool \<times> pb_field_iter" where
  "pb_field_iter_begin flds dest =
     (let pd = dest + ucast (data_offset (flds ! 0)) in
      (f_tag (flds ! 0) \<noteq> 0,
       \<lparr>it_fields = flds, pos = 0, required_field_index = 0, dest_struct = dest, pData = pd,
        pSize = pd + scast (size_offset (flds ! 0))\<rparr>))"

definition pb_field_iter_next :: "pb_field_iter \<Rightarrow> bool \<times> pb_field_iter" where
  "pb_field_iter_next iter =
     (let prev_field = field_of iter in
      if f_tag prev_field = 0 then (False, iter)
      else
        let iter1 = iter\<lparr>pos := pos iter + 1\<rparr>; cur = field_of iter1 in
        if f_tag cur = 0 then (False, snd (pb_field_iter_begin (it_fields iter1) (dest_struct iter1)))
        else if PB_HTYPE (f_type prev_field) = PB_HTYPE_ONEOF \<and> PB_HTYPE (f_type cur) = PB_HTYPE_ONEOF \<and>
                data_offset cur = PB_SIZE_MAX
        then (True, iter1)
        else
          let prev_size =
                (if PB_ATYPE (f_type prev_field) = PB_ATYPE_STATIC \<and> PB_HTYPE (f_type prev_field) = PB_HTYPE_REPEATED
                 then ucast (data_size prev_field) * ucast (array_size prev_field)
                 else if PB_ATYPE (f_type prev_field) = PB_ATYPE_POINTER then 8
                 else ucast (data_size prev_field));
              index = (if PB_HTYPE (f_type prev_field) = PB_HTYPE_REQUIRED then required_field_index iter1 + 1
                       else required_field_index iter1);
              pd = pData iter1 + prev_size + ucast (data_offset cur)
          in (True, iter1\<lparr>required_field_index := index, pData := pd, pSize := pd + scast (size_offset cur)\<rparr>))"

text \<open>
  The loop of \<^verbatim>\<open>pb_field_iter_find\<close> and \<^verbatim>\<open>find_extension_field\<close>, which ends where it began; it has
  no value on an array on which it would not end.
\<close>

partial_function (option) iter_search :: "(pb_field \<Rightarrow> bool) \<Rightarrow> nat \<Rightarrow> pb_field_iter \<Rightarrow> (bool \<times> pb_field_iter) option" where
  "iter_search wanted start iter =
     (if wanted (field_of iter) then Some (True, iter)
      else
        let iter' = snd (pb_field_iter_next iter) in
        if pos iter' \<noteq> start then iter_search wanted start iter' else Some (False, iter'))"

definition pb_field_iter_find :: "pb_field_iter \<Rightarrow> u32 \<Rightarrow> (bool \<times> pb_field_iter) option" where
  "pb_field_iter_find iter tag =
     iter_search (\<lambda>f. f_tag f = tag \<and> PB_LTYPE (f_type f) \<noteq> PB_LTYPE_EXTENSION) (pos iter) iter"

definition find_extension_field :: "pb_field_iter \<Rightarrow> (bool \<times> pb_field_iter) option" where
  "find_extension_field iter = iter_search (\<lambda>f. PB_LTYPE (f_type f) = PB_LTYPE_EXTENSION) (pos iter) iter"

section \<open>Describing a struct\<close>

text \<open>
  A member of a struct and how the macros describe it: the rules and allocations of \<^verbatim>\<open>PB_FIELD\<close>,
  \<^verbatim>\<open>offsetof\<close>, the size of one element (\<^verbatim>\<open>m\<close>, \<^verbatim>\<open>m[0]\<close>), the number of elements of an array, and
  \<^verbatim>\<open>offsetof\<close> of \<^verbatim>\<open>has_m\<close>, \<^verbatim>\<open>m_count\<close> or \<^verbatim>\<open>which_u\<close>. The placement is that of the data offset macros.
\<close>

datatype pb_ltype = L_BOOL | L_VARINT | L_UVARINT | L_SVARINT | L_FIXED32 | L_FIXED64 | L_BYTES | L_STRING
  | L_SUBMESSAGE | L_EXTENSION | L_FIXED_LENGTH_BYTES

datatype pb_rule = Required | Optional | Singular | Repeated | Fixed_count | Oneof
datatype pb_allocation = Static | Pointer | Callback_field
datatype pb_placement = First | Other | Union

record pb_member =
  m_tag :: nat
  m_ltype :: pb_ltype
  m_rule :: pb_rule
  m_alloc :: pb_allocation
  m_place :: pb_placement
  m_offset :: nat
  m_item :: nat
  m_count :: nat
  m_size_at :: nat
  m_ptr :: pb_addr

definition ltype_code :: "pb_ltype \<Rightarrow> byte" where
  "ltype_code l = (case l of L_BOOL \<Rightarrow> 0x00 | L_VARINT \<Rightarrow> 0x01 | L_UVARINT \<Rightarrow> 0x02 | L_SVARINT \<Rightarrow> 0x03 | L_FIXED32 \<Rightarrow> 0x04
     | L_FIXED64 \<Rightarrow> 0x05 | L_BYTES \<Rightarrow> 0x06 | L_STRING \<Rightarrow> 0x07 | L_SUBMESSAGE \<Rightarrow> 0x08 | L_EXTENSION \<Rightarrow> 0x09 | L_FIXED_LENGTH_BYTES \<Rightarrow> 0x0A)"

definition rule_code :: "pb_rule \<Rightarrow> byte" where
  "rule_code r = (case r of Required \<Rightarrow> PB_HTYPE_REQUIRED | Optional \<Rightarrow> PB_HTYPE_OPTIONAL | Singular \<Rightarrow> PB_HTYPE_OPTIONAL
     | Repeated \<Rightarrow> PB_HTYPE_REPEATED | Fixed_count \<Rightarrow> PB_HTYPE_REPEATED | Oneof \<Rightarrow> PB_HTYPE_ONEOF)"

definition alloc_code :: "pb_allocation \<Rightarrow> byte" where
  "alloc_code a = (case a of Static \<Rightarrow> PB_ATYPE_STATIC | Pointer \<Rightarrow> PB_ATYPE_POINTER | Callback_field \<Rightarrow> PB_ATYPE_CALLBACK)"

text \<open>\<^verbatim>\<open>pb_membersize\<close> of the whole member.\<close>

definition pb_membersize :: "pb_member \<Rightarrow> nat" where
  "pb_membersize m = (case m_alloc m of
       Pointer \<Rightarrow> 8
     | Static \<Rightarrow> (if m_rule m = Repeated \<or> m_rule m = Fixed_count then m_item m * m_count m else m_item m)
     | Callback_field \<Rightarrow> m_item m)"

text \<open>Whether the member has a \<^verbatim>\<open>has_\<close>, \<^verbatim>\<open>_count\<close> or \<^verbatim>\<open>which_\<close> that \<open>size_offset\<close> leads to.\<close>

definition has_size_field :: "pb_member \<Rightarrow> bool" where
  "has_size_field m = (case m_rule m of
       Optional \<Rightarrow> m_alloc m = Static
     | Repeated \<Rightarrow> m_alloc m \<noteq> Callback_field
     | Oneof \<Rightarrow> True
     | _ \<Rightarrow> False)"

definition PB_DATAOFFSET :: "pb_member option \<Rightarrow> pb_member \<Rightarrow> u32" where
  "PB_DATAOFFSET prev m = (case m_place m of
       Union \<Rightarrow> PB_SIZE_MAX
     | First \<Rightarrow> of_nat (m_offset m)
     | Other \<Rightarrow> (case prev of None \<Rightarrow> of_nat (m_offset m)
                | Some p \<Rightarrow> of_int (int (m_offset m) - int (m_offset p) - int (pb_membersize p))))"

definition PB_FIELD :: "pb_member option \<Rightarrow> pb_member \<Rightarrow> pb_field" where
  "PB_FIELD prev m =
     \<lparr>f_tag = of_nat (m_tag m),
      f_type = alloc_code (m_alloc m) OR rule_code (m_rule m) OR ltype_code (m_ltype m),
      data_offset = PB_DATAOFFSET prev m,
      size_offset = (if has_size_field m then of_int (int (m_size_at m) - int (m_offset m)) else 0),
      data_size = of_nat (m_item m),
      array_size = (if m_alloc m = Static \<and> (m_rule m = Repeated \<or> m_rule m = Fixed_count) then of_nat (m_count m) else 0),
      f_ptr = m_ptr m\<rparr>"

fun fields_from :: "pb_member option \<Rightarrow> pb_member list \<Rightarrow> pb_field list" where
  "fields_from prev [] = [PB_LAST_FIELD]"
| "fields_from prev (m # ms) = PB_FIELD prev m # fields_from (Some m) ms"

definition pb_fields :: "pb_member list \<Rightarrow> pb_field list" where
  "pb_fields ms = fields_from None ms"

section \<open>Structs that the generator describes\<close>

text \<open>
  Members come in the order of their addresses, none overlaps the next; the members of a union
  share their address and their \<^verbatim>\<open>which_\<close>. A count, \<^verbatim>\<open>has_\<close> or \<^verbatim>\<open>which_\<close> is not at the address of its
  member. A struct has fewer than $2^{31}$ bytes.
\<close>

definition follows :: "pb_member \<Rightarrow> pb_member \<Rightarrow> bool" where
  "follows p m \<longleftrightarrow> (case m_place m of
       First \<Rightarrow> False
     | Other \<Rightarrow> m_offset p + pb_membersize p \<le> m_offset m
     | Union \<Rightarrow> m_rule p = Oneof \<and> m_rule m = Oneof \<and> m_offset m = m_offset p \<and> m_size_at m = m_size_at p)"

definition member_ok :: "pb_member \<Rightarrow> bool" where
  "member_ok m \<longleftrightarrow> 0 < m_tag m \<and> m_tag m < 2 ^ 29 \<and> m_offset m + pb_membersize m < 2 ^ 31 \<and> m_size_at m < 2 ^ 31 \<and>
     m_item m < 2 ^ 32 \<and> m_count m < 2 ^ 32 \<and> (has_size_field m \<longrightarrow> m_size_at m \<noteq> m_offset m)"

definition layout_ok :: "pb_member list \<Rightarrow> bool" where
  "layout_ok ms \<longleftrightarrow> ms \<noteq> [] \<and> m_place (hd ms) = First \<and> (\<forall>m\<in>set ms. member_ok m) \<and>
     (\<forall>p. p + 1 < length ms \<longrightarrow> follows (ms ! p) (ms ! (p + 1)))"

text \<open>Where the iterator is meant to be: at the member, with the number of required members before it.\<close>

definition size_field_at :: "pb_member \<Rightarrow> nat" where
  "size_field_at m = (if has_size_field m then m_size_at m else m_offset m)"

definition iter_at :: "pb_member list \<Rightarrow> pb_addr \<Rightarrow> nat \<Rightarrow> pb_field_iter" where
  "iter_at ms dest p =
     \<lparr>it_fields = pb_fields ms, pos = p,
      required_field_index = of_nat (length (filter (\<lambda>m. m_rule m = Required) (take p ms))),
      dest_struct = dest, pData = dest + of_nat (m_offset (ms ! p)), pSize = dest + of_nat (size_field_at (ms ! p))\<rparr>"

lemma length_fields_from [simp]: "length (fields_from prev ms) = length ms + 1"
  by (induction ms arbitrary: prev) simp_all

lemma fields_from_nth:
  "p < length ms \<Longrightarrow> fields_from prev ms ! p = PB_FIELD (if p = 0 then prev else Some (ms ! (p - 1))) (ms ! p)"
proof (induction ms arbitrary: prev p)
  case (Cons m ms)
  then show ?case by (cases p) (auto simp: nth_Cons split: nat.splits)
qed simp

lemma fields_from_last: "fields_from prev ms ! length ms = PB_LAST_FIELD"
  by (induction ms arbitrary: prev) simp_all

lemma type_of_member:
  "PB_HTYPE (f_type (PB_FIELD prev m)) = rule_code (m_rule m)"
  "PB_ATYPE (f_type (PB_FIELD prev m)) = alloc_code (m_alloc m)"
  "PB_LTYPE (f_type (PB_FIELD prev m)) = ltype_code (m_ltype m)"
  by (cases "m_alloc m"; cases "m_rule m"; cases "m_ltype m";
      simp add: PB_FIELD_def alloc_code_def rule_code_def ltype_code_def pb_type_defs)+

lemma rule_codes [simp]:
  "rule_code r = PB_HTYPE_ONEOF \<longleftrightarrow> r = Oneof" "rule_code r = PB_HTYPE_REPEATED \<longleftrightarrow> r = Repeated \<or> r = Fixed_count"
  "rule_code r = PB_HTYPE_REQUIRED \<longleftrightarrow> r = Required"
  by (cases r; simp add: rule_code_def pb_type_defs)+

lemma alloc_codes [simp]:
  "alloc_code a = PB_ATYPE_STATIC \<longleftrightarrow> a = Static" "alloc_code a = PB_ATYPE_POINTER \<longleftrightarrow> a = Pointer"
  by (cases a; simp add: alloc_code_def pb_type_defs)+

lemma ltype_codes [simp]: "ltype_code l = PB_LTYPE_EXTENSION \<longleftrightarrow> l = L_EXTENSION"
  by (cases l) (simp_all add: ltype_code_def pb_type_defs)

section \<open>Offsets as machine numbers\<close>

lemma ucast_small_nat: "n < 2 ^ 32 \<Longrightarrow> ucast (of_nat n :: u32) = (of_nat n :: u64)"
  by (simp add: word_unat_eq_iff unat_ucast_up unat_of_nat)

lemma scast_of_int:
  assumes "- (2 ^ 31) \<le> k" "k < 2 ^ 31"
  shows "scast (of_int k :: u32) = (of_int k :: u64)"
proof -
  have "sint (of_int k :: u32) = k" using assms by (simp add: sint_sbintrunc' signed_take_bit_int_eq_self_iff)
  then show ?thesis by (simp add: scast_eq)
qed

lemma size_offset_ok:
  assumes "member_ok m"
  shows "(dest :: pb_addr) + of_nat (m_offset m) + scast (size_offset (PB_FIELD prev m)) = dest + of_nat (size_field_at m)"
proof (cases "has_size_field m")
  case True
  have "scast (of_int (int (m_size_at m) - int (m_offset m)) :: u32) = (of_int (int (m_size_at m) - int (m_offset m)) :: u64)"
    using assms by (intro scast_of_int) (simp_all add: member_ok_def)
  moreover have "size_offset (PB_FIELD prev m) = of_int (int (m_size_at m) - int (m_offset m))" using True by (simp add: PB_FIELD_def)
  ultimately have "scast (size_offset (PB_FIELD prev m)) = (of_nat (m_size_at m) - of_nat (m_offset m) :: u64)"
    by (metis of_int_diff of_int_of_nat_eq)
  then show ?thesis using True by (simp add: size_field_at_def)
qed (simp add: PB_FIELD_def size_field_at_def scast_eq)

lemma pb_membersize_code:
  assumes "member_ok m"
  shows "(if alloc_code (m_alloc m) = PB_ATYPE_STATIC \<and> rule_code (m_rule m) = PB_HTYPE_REPEATED
          then ucast (data_size (PB_FIELD prev m)) * ucast (array_size (PB_FIELD prev m))
          else if alloc_code (m_alloc m) = PB_ATYPE_POINTER then 8
          else ucast (data_size (PB_FIELD prev m))) = (of_nat (pb_membersize m) :: u64)"
  using assms ucast_small_nat [of "m_item m"] ucast_small_nat [of "m_count m"]
  by (cases "m_alloc m") (auto simp: PB_FIELD_def pb_membersize_def member_ok_def)

section \<open>Each step\<close>

lemma layout_okD:
  assumes "layout_ok ms"
  shows "0 < length ms" "m_place (ms ! 0) = First" "\<And>p. p < length ms \<Longrightarrow> member_ok (ms ! p)"
    "\<And>p. p + 1 < length ms \<Longrightarrow> follows (ms ! p) (ms ! (p + 1))"
  using assms by (auto simp: layout_ok_def hd_conv_nth)

lemma field_of_iter_at:
  "p < length ms \<Longrightarrow> field_of (iter_at ms dest p) = PB_FIELD (if p = 0 then None else Some (ms ! (p - 1))) (ms ! p)"
  by (simp add: field_of_def iter_at_def pb_fields_def fields_from_nth)

lemma f_tag_PB_FIELD:
  assumes "member_ok m"
  shows "f_tag (PB_FIELD prev m) \<noteq> 0" "unat (f_tag (PB_FIELD prev m)) = m_tag m"
proof -
  have "m_tag m < 2 ^ 32" using assms by (simp add: member_ok_def)
  then show "unat (f_tag (PB_FIELD prev m)) = m_tag m" by (simp add: PB_FIELD_def unat_of_nat)
  then show "f_tag (PB_FIELD prev m) \<noteq> 0" using assms by (auto simp: member_ok_def)
qed

lemma pb_field_iter_begin_eq:
  assumes "layout_ok ms"
  shows "pb_field_iter_begin (pb_fields ms) dest = (True, iter_at ms dest 0)"
proof -
  let ?m = "ms ! 0"
  have m: "member_ok ?m" using layout_okD(1,3) [OF assms] by blast
  have f: "pb_fields ms ! 0 = PB_FIELD None ?m" using layout_okD(1) [OF assms] by (simp add: pb_fields_def fields_from_nth)
  have "data_offset (PB_FIELD None ?m) = of_nat (m_offset ?m)"
    using layout_okD(2) [OF assms] by (simp add: PB_FIELD_def PB_DATAOFFSET_def)
  then have "ucast (data_offset (PB_FIELD None ?m)) = (of_nat (m_offset ?m) :: u64)"
    using ucast_small_nat [of "m_offset ?m"] m by (simp add: member_ok_def)
  then show ?thesis
    using size_offset_ok [OF m, of dest None] f_tag_PB_FIELD(1) [OF m, of None]
    by (simp add: pb_field_iter_begin_def f iter_at_def Let_def)
qed

text \<open>Only the members of a union have the offset \<^verbatim>\<open>PB_SIZE_MAX\<close>.\<close>

lemma data_offset_Other:
  assumes "m_place m = Other" "m_offset p + pb_membersize p \<le> m_offset m" "member_ok m"
  shows "data_offset (PB_FIELD (Some p) m) \<noteq> PB_SIZE_MAX"
    "ucast (data_offset (PB_FIELD (Some p) m)) = (of_nat (m_offset m) - of_nat (m_offset p) - of_nat (pb_membersize p) :: u64)"
proof -
  let ?k = "m_offset m - m_offset p - pb_membersize p"
  have "m_offset m < 2 ^ 31" using assms(3) by (simp add: member_ok_def)
  then have k: "?k < 2 ^ 31" by linarith
  have "int (m_offset m) - int (m_offset p) - int (pb_membersize p) = int ?k" using assms(2) by simp
  then have d: "data_offset (PB_FIELD (Some p) m) = of_nat ?k"
    using assms(1) by (simp add: PB_FIELD_def PB_DATAOFFSET_def del: of_int_diff of_nat_diff)
  then have "unat (data_offset (PB_FIELD (Some p) m)) < 2 ^ 31" using k by (simp add: unat_of_nat)
  moreover have "unat PB_SIZE_MAX = 2 ^ 32 - 1" by (simp add: PB_SIZE_MAX_def unsigned_minus_1_eq_mask mask_eq_exp_minus_1)
  ultimately show "data_offset (PB_FIELD (Some p) m) \<noteq> PB_SIZE_MAX" by auto
  have "ucast (data_offset (PB_FIELD (Some p) m)) = (of_nat ?k :: u64)"
    unfolding d using k by (intro ucast_small_nat) simp
  then show "ucast (data_offset (PB_FIELD (Some p) m)) = (of_nat (m_offset m) - of_nat (m_offset p) - of_nat (pb_membersize p) :: u64)"
    using assms(2) by (simp add: of_nat_diff)
qed

lemma pb_field_iter_next_eq:
  assumes l: "layout_ok ms" and p: "p < length ms"
  shows "pb_field_iter_next (iter_at ms dest p) =
     (if p + 1 < length ms then (True, iter_at ms dest (p + 1)) else (False, iter_at ms dest 0))"
proof -
  let ?m = "ms ! p" and ?f = "field_of (iter_at ms dest p)"
  have m: "member_ok ?m" using layout_okD(3) [OF l p] .
  have tag: "f_tag ?f \<noteq> 0" using f_tag_PB_FIELD(1) [OF m] by (simp add: field_of_iter_at [OF p])
  show ?thesis
  proof (cases "p + 1 < length ms")
    case False
    then have "field_of (iter_at ms dest p\<lparr>pos := pos (iter_at ms dest p) + 1\<rparr>) = PB_LAST_FIELD"
      using p fields_from_last [of None ms] by (simp add: field_of_def iter_at_def pb_fields_def)
        (metis Suc_lessI)
    then show ?thesis
      using False tag pb_field_iter_begin_eq [OF l, of dest]
      by (simp add: pb_field_iter_next_def Let_def PB_LAST_FIELD_def) (simp add: iter_at_def)
  next
    case True
    let ?n = "ms ! (p + 1)"
    have n: "member_ok ?n" using layout_okD(3) [OF l True] .
    have fn: "field_of (iter_at ms dest p\<lparr>pos := pos (iter_at ms dest p) + 1\<rparr>) = PB_FIELD (Some ?m) ?n"
      using True by (simp add: field_of_def iter_at_def pb_fields_def fields_from_nth)
    note follows = layout_okD(4) [OF l True, unfolded follows_def]
    show ?thesis
    proof (cases "m_place ?n")
      case First
      then show ?thesis using follows by simp
    next
      case Union
      then have u: "m_rule ?m = Oneof" "m_rule ?n = Oneof" "m_offset ?n = m_offset ?m" "m_size_at ?n = m_size_at ?m"
        using follows by simp_all
      have "data_offset (PB_FIELD (Some ?m) ?n) = PB_SIZE_MAX" using Union by (simp add: PB_FIELD_def PB_DATAOFFSET_def)
      then have "pb_field_iter_next (iter_at ms dest p) = (True, iter_at ms dest p\<lparr>pos := p + 1\<rparr>)"
        using tag f_tag_PB_FIELD(1) [OF n] u fn
        by (simp add: pb_field_iter_next_def Let_def field_of_iter_at [OF p] type_of_member) (simp add: iter_at_def)
      moreover have "iter_at ms dest p\<lparr>pos := p + 1\<rparr> = iter_at ms dest (p + 1)"
        using u p by (simp add: iter_at_def take_Suc_conv_app_nth size_field_at_def has_size_field_def)
      ultimately show ?thesis using True by simp
    next
      case Other
      then have "m_offset ?m + pb_membersize ?m \<le> m_offset ?n" using follows by simp
      note d = data_offset_Other [OF Other this n]
      let ?i = "iter_at ms dest p" and ?F = "PB_FIELD (if p = 0 then None else Some (ms ! (p - 1))) ?m"
      let ?pd = "pData ?i + of_nat (pb_membersize ?m) + ucast (data_offset (PB_FIELD (Some ?m) ?n))"
      have pd: "?pd = dest + of_nat (m_offset ?n)" unfolding d(2) by (simp add: iter_at_def)
      have "pb_field_iter_next ?i =
          (True, ?i\<lparr>pos := p + 1, required_field_index := (if m_rule ?m = Required then required_field_index ?i + 1 else required_field_index ?i),
             pData := ?pd, pSize := ?pd + scast (size_offset (PB_FIELD (Some ?m) ?n))\<rparr>)"
        using tag f_tag_PB_FIELD(1) [OF n, of "Some ?m"] d(1) pb_membersize_code [OF m]
        unfolding pb_field_iter_next_def Let_def fn field_of_iter_at [OF p] type_of_member
        by simp (simp add: iter_at_def)
      then show ?thesis
        using True size_offset_ok [OF n, of dest "Some ?m"] unfolding pd
        by (simp add: iter_at_def take_Suc_conv_app_nth [OF p])
    qed
  qed
qed

section \<open>Searching\<close>

lemma pb_field_iter_next_circle:
  assumes "layout_ok ms" "p < length ms"
  shows "snd (pb_field_iter_next (iter_at ms dest p)) = iter_at ms dest ((p + 1) mod length ms)"
proof (cases "p + 1 < length ms")
  case False
  then have "p + 1 = length ms" using assms(2) by linarith
  then have "(p + 1) mod length ms = 0" by simp
  then show ?thesis using pb_field_iter_next_eq [OF assms, of dest] False by simp
qed (use pb_field_iter_next_eq [OF assms, of dest] in simp)

text \<open>The \<open>k\<close>th position from \<open>p\<close> around the circle of \<open>n\<close>.\<close>

lemma iter_search_circle:
  assumes l: "layout_ok ms" and p: "p < length ms" and k: "k < length ms"
    and none: "\<And>j. j < k \<Longrightarrow> \<not> wanted (field_of (iter_at ms dest ((p + j) mod length ms)))"
  shows "\<exists>found q. iter_search wanted p (iter_at ms dest ((p + k) mod length ms)) = Some (found, iter_at ms dest q) \<and> q < length ms \<and>
    (if found then wanted (field_of (iter_at ms dest q))
     else q = p \<and> (\<forall>j<length ms. \<not> wanted (field_of (iter_at ms dest ((p + j) mod length ms)))))"
  using k none
proof (induction "length ms - k" arbitrary: k)
  case (Suc d)
  let ?n = "length ms"
  let ?it = "iter_at ms dest ((p + k) mod ?n)"
  have q: "(p + k) mod ?n < ?n" using Suc.prems(1) by (intro mod_less_divisor) linarith
  show ?case
  proof (cases "wanted (field_of ?it)")
    case True
    then have "iter_search wanted p ?it = Some (True, ?it)" by (subst iter_search.simps) simp
    then show ?thesis using True q by (intro exI [of _ True] exI [of _ "(p + k) mod ?n"]) simp
  next
    case False
    have next1: "snd (pb_field_iter_next ?it) = iter_at ms dest ((p + (k + 1)) mod ?n)"
      using pb_field_iter_next_circle [OF l q, of dest] by (simp add: mod_simps add.assoc)
    have none: "\<not> wanted (field_of (iter_at ms dest ((p + j) mod ?n)))" if "j < k + 1" for j
      using that Suc.prems(2) [of j] False by (cases "j = k") auto
    show ?thesis
    proof (cases "k + 1 < ?n")
      case True
      have "(p + (k + 1)) mod ?n \<noteq> p"
      proof (cases "p + (k + 1) < ?n")
        case False
        then have "(p + (k + 1)) mod ?n = p + (k + 1) - ?n" using p True by (simp add: le_mod_geq)
        then show ?thesis using False True by linarith
      qed simp
      then have "pos (snd (pb_field_iter_next ?it)) \<noteq> p" unfolding next1 by (simp add: iter_at_def)
      then have "iter_search wanted p ?it = iter_search wanted p (iter_at ms dest ((p + (k + 1)) mod ?n))"
        using False unfolding next1 [symmetric] by (subst iter_search.simps) (simp add: Let_def)
      moreover have "d = ?n - (k + 1)" using Suc.hyps(2) by simp
      ultimately show ?thesis using Suc.hyps(1) [OF _ True none] by simp
    next
      case False2: False
      then have n: "k + 1 = ?n" using Suc.prems(1) by simp
      have "iter_search wanted p ?it = Some (False, iter_at ms dest p)"
        using False next1 p unfolding n by (subst iter_search.simps) (simp add: Let_def iter_at_def)
      then show ?thesis using none p unfolding n by (intro exI [of _ False] exI [of _ p]) simp
    qed
  qed
qed simp

lemma iter_search_ok:
  assumes l: "layout_ok ms" and p: "p < length ms"
  shows "\<exists>found q. iter_search wanted p (iter_at ms dest p) = Some (found, iter_at ms dest q) \<and> q < length ms \<and>
    (found \<longleftrightarrow> (\<exists>r<length ms. wanted (field_of (iter_at ms dest r)))) \<and>
    (if found then wanted (field_of (iter_at ms dest q)) else q = p)"
proof -
  let ?n = "length ms"
  have "(p + 0) mod ?n = p" using p by simp
  moreover have "0 < ?n" using p by linarith
  ultimately obtain found q where f: "iter_search wanted p (iter_at ms dest p) = Some (found, iter_at ms dest q)" "q < ?n"
      "if found then wanted (field_of (iter_at ms dest q))
       else q = p \<and> (\<forall>j<?n. \<not> wanted (field_of (iter_at ms dest ((p + j) mod ?n))))"
    using iter_search_circle [OF l p, of 0 wanted dest] by auto
  have "\<exists>j<?n. (p + j) mod ?n = r" if r: "r < ?n" for r
  proof (cases "p \<le> r")
    case True
    then show ?thesis using r by (intro exI [of _ "r - p"]) simp
  next
    case False
    then have "(p + (?n - p + r)) mod ?n = r" using p r by simp
    then show ?thesis using False p by (intro exI [of _ "?n - p + r"]) simp
  qed
  then have "found \<longleftrightarrow> (\<exists>r<?n. wanted (field_of (iter_at ms dest r)))" using f(2,3) by (cases found) fastforce+
  moreover have "if found then wanted (field_of (iter_at ms dest q)) else q = p" using f(3) by (cases found) simp_all
  ultimately show ?thesis using f(1,2) by blast
qed

section \<open>Iterators that calls lead to\<close>

inductive iter_reaches :: "pb_field list \<Rightarrow> pb_addr \<Rightarrow> pb_field_iter \<Rightarrow> bool" for descr dest where
  reaches_begin: "pb_field_iter_begin descr dest = (r, iter) \<Longrightarrow> iter_reaches descr dest iter"
| reaches_next: "iter_reaches descr dest iter \<Longrightarrow> pb_field_iter_next iter = (r, iter') \<Longrightarrow> iter_reaches descr dest iter'"
| reaches_find: "iter_reaches descr dest iter \<Longrightarrow> pb_field_iter_find iter tag = Some (r, iter') \<Longrightarrow> iter_reaches descr dest iter'"
| reaches_extension: "iter_reaches descr dest iter \<Longrightarrow> find_extension_field iter = Some (r, iter') \<Longrightarrow> iter_reaches descr dest iter'"

lemma pos_iter_at [simp]: "pos (iter_at ms dest p) = p"
  by (simp add: iter_at_def)

lemma iter_reaches_iter_at:
  assumes "iter_reaches (pb_fields ms) dest iter" "layout_ok ms"
  shows "\<exists>p<length ms. iter = iter_at ms dest p"
  using assms
proof (induction rule: iter_reaches.induct)
  case (reaches_begin r iter)
  then have "iter = iter_at ms dest 0" using pb_field_iter_begin_eq [of ms dest] by simp
  then show ?case using layout_okD(1) [OF reaches_begin(2)] by blast
next
  case (reaches_next iter r iter')
  then obtain p where "p < length ms" "iter = iter_at ms dest p" by blast
  then have "iter' = iter_at ms dest ((p + 1) mod length ms)" "(p + 1) mod length ms < length ms"
    using pb_field_iter_next_circle [OF reaches_next(4), of p dest] reaches_next(2)
      mod_less_divisor [OF layout_okD(1) [OF reaches_next(4)], of "p + 1"] by simp_all
  then show ?case by blast
next
  case (reaches_find iter tag r iter')
  then obtain p where "p < length ms" "iter = iter_at ms dest p" by blast
  then show ?case
    using iter_search_ok [OF reaches_find(4), of p "\<lambda>f. f_tag f = tag \<and> PB_LTYPE (f_type f) \<noteq> PB_LTYPE_EXTENSION" dest] reaches_find(2)
    by (auto simp: pb_field_iter_find_def)
next
  case (reaches_extension iter r iter')
  then obtain p where "p < length ms" "iter = iter_at ms dest p" by blast
  then show ?case
    using iter_search_ok [OF reaches_extension(4), of p "\<lambda>f. PB_LTYPE (f_type f) = PB_LTYPE_EXTENSION" dest] reaches_extension(2)
    by (auto simp: find_extension_field_def)
qed

text \<open>The entry of a member has its tag and type.\<close>

lemma wanted_iff:
  assumes "layout_ok ms" "p < length ms"
  shows "f_tag (field_of (iter_at ms dest p)) = tag \<longleftrightarrow> m_tag (ms ! p) = unat tag"
    "PB_LTYPE (f_type (field_of (iter_at ms dest p))) = PB_LTYPE_EXTENSION \<longleftrightarrow> m_ltype (ms ! p) = L_EXTENSION"
  by (simp add: field_of_iter_at [OF assms(2)] word_unat_eq_iff f_tag_PB_FIELD(2) [OF layout_okD(3) [OF assms]])
    (simp add: field_of_iter_at [OF assms(2)] type_of_member)

text \<open>
  C38. Over the description that the macros give of a struct, the iterator always stands at a member:
  it points to the member and to its count, \<^verbatim>\<open>has_\<close> or \<^verbatim>\<open>which_\<close> field, and counts the required
  members before it, wherever steps and searches have led it. A search ends, finds a member exactly
  if one has the tag, and stays where it was otherwise.
\<close>

theorem pb_iterator_at_members:
  assumes "layout_ok ms" and "iter_reaches (pb_fields ms) dest iter"
  shows "\<exists>m. pos iter < length ms \<and> m = ms ! pos iter \<and>
    pData iter = dest + of_nat (m_offset m) \<and>
    pSize iter = dest + of_nat (if has_size_field m then m_size_at m else m_offset m) \<and>
    required_field_index iter = of_nat (length (filter (\<lambda>m. m_rule m = Required) (take (pos iter) ms))) \<and>
    (\<exists>found iter'. pb_field_iter_find iter tag = Some (found, iter') \<and>
       (found \<longleftrightarrow> (\<exists>m\<in>set ms. m_tag m = unat tag \<and> m_ltype m \<noteq> L_EXTENSION)) \<and>
       (if found then m_tag (ms ! pos iter') = unat tag \<and> m_ltype (ms ! pos iter') \<noteq> L_EXTENSION else iter' = iter))"
proof -
  obtain p where p: "p < length ms" "iter = iter_at ms dest p" using iter_reaches_iter_at [OF assms(2,1)] by blast
  let ?w = "\<lambda>f. f_tag f = tag \<and> PB_LTYPE (f_type f) \<noteq> PB_LTYPE_EXTENSION"
  have w: "?w (field_of (iter_at ms dest r)) \<longleftrightarrow> m_tag (ms ! r) = unat tag \<and> m_ltype (ms ! r) \<noteq> L_EXTENSION" if "r < length ms" for r
    using wanted_iff [OF assms(1) that] by simp
  obtain found q where i: "iter_search ?w p (iter_at ms dest p) = Some (found, iter_at ms dest q)" "q < length ms"
      "found \<longleftrightarrow> (\<exists>r<length ms. ?w (field_of (iter_at ms dest r)))"
      "if found then ?w (field_of (iter_at ms dest q)) else q = p"
    using iter_search_ok [OF assms(1) p(1), of ?w dest] by blast
  have f: "pb_field_iter_find iter tag = Some (found, iter_at ms dest q)"
    "if found then m_tag (ms ! q) = unat tag \<and> m_ltype (ms ! q) \<noteq> L_EXTENSION else q = p"
    using i(1,4) w [OF i(2)] by (simp_all add: pb_field_iter_find_def p(2) split: if_splits)
  have e: "found \<longleftrightarrow> (\<exists>r<length ms. m_tag (ms ! r) = unat tag \<and> m_ltype (ms ! r) \<noteq> L_EXTENSION)"
    unfolding i(3) using w by blast
  have "found \<longleftrightarrow> (\<exists>m\<in>set ms. m_tag m = unat tag \<and> m_ltype m \<noteq> L_EXTENSION)"
    unfolding e by (metis in_set_conv_nth)
  then show ?thesis using f p by (auto simp: iter_at_def size_field_at_def)
qed

text \<open>
  The struct \<^verbatim>\<open>{bool has_a; uint32_t a; pb_size_t xs_count; uint32_t xs[3]; pb_size_t which_u; union {uint64_t b; uint32_t c;} u; bool r;}\<close>.
\<close>

definition sample_struct :: "pb_member list" where
  "sample_struct =
    [\<lparr>m_tag = 1, m_ltype = L_UVARINT, m_rule = Optional, m_alloc = Static, m_place = First, m_offset = 4, m_item = 4, m_count = 1, m_size_at = 0, m_ptr = 0\<rparr>,
     \<lparr>m_tag = 2, m_ltype = L_UVARINT, m_rule = Repeated, m_alloc = Static, m_place = Other, m_offset = 12, m_item = 4, m_count = 3, m_size_at = 8, m_ptr = 0\<rparr>,
     \<lparr>m_tag = 3, m_ltype = L_FIXED64, m_rule = Oneof, m_alloc = Static, m_place = Other, m_offset = 32, m_item = 8, m_count = 1, m_size_at = 24, m_ptr = 0\<rparr>,
     \<lparr>m_tag = 4, m_ltype = L_FIXED32, m_rule = Oneof, m_alloc = Static, m_place = Union, m_offset = 32, m_item = 4, m_count = 1, m_size_at = 24, m_ptr = 0\<rparr>,
     \<lparr>m_tag = 5, m_ltype = L_BOOL, m_rule = Required, m_alloc = Static, m_place = Other, m_offset = 40, m_item = 1, m_count = 1, m_size_at = 0, m_ptr = 0\<rparr>]"

lemma sample_struct_ok: "layout_ok sample_struct"
  unfolding layout_ok_def
proof (intro conjI allI impI ballI)
  show "follows (sample_struct ! p) (sample_struct ! (p + 1))" if "p + 1 < length sample_struct" for p
  proof -
    have "p \<in> {0, 1, 2, 3}" using that by (auto simp: sample_struct_def)
    then show ?thesis by (auto simp: sample_struct_def follows_def pb_membersize_def)
  qed
qed (auto simp: sample_struct_def member_ok_def pb_membersize_def)

lemma pb_iterator_at_members_witness:
  "\<exists>iter. pb_field_iter_find (snd (pb_field_iter_begin (pb_fields sample_struct) 0x1000)) 5 = Some (True, iter) \<and> pData iter = 0x1028"
proof -
  obtain r iter0 where b: "pb_field_iter_begin (pb_fields sample_struct) 0x1000 = (r, iter0)" by fastforce
  have r0: "iter_reaches (pb_fields sample_struct) 0x1000 iter0" using b by (rule reaches_begin)
  have "\<exists>m\<in>set sample_struct. m_tag m = unat (5 :: u32) \<and> m_ltype m \<noteq> L_EXTENSION" by (simp add: sample_struct_def)
  then obtain iter where f: "pb_field_iter_find iter0 5 = Some (True, iter)" "m_tag (sample_struct ! pos iter) = 5"
    using pb_iterator_at_members [OF sample_struct_ok r0, of 5] by auto
  have i: "pos iter < length sample_struct" "pData iter = 0x1000 + of_nat (m_offset (sample_struct ! pos iter))"
    using pb_iterator_at_members [OF sample_struct_ok reaches_find [OF r0 f(1)]] by blast+
  have "pos iter = 0 \<or> pos iter = 1 \<or> pos iter = 2 \<or> pos iter = 3 \<or> pos iter = 4" using i(1) by (auto simp: sample_struct_def)
  then have "pos iter = 4" using f(2) by (auto simp: sample_struct_def)
  then show ?thesis using f(1) i(2) b by (simp add: sample_struct_def)
qed

end
