(* ===== verification/Pb_Memory.thy ===== *)
theory Pb_Memory
  imports Pb_Iter Pb_Stream "HOL-Library.Monad_Syntax"
begin

text \<open>
  The memory that the message level of nanopb works on, what lies outside the library (the allocator
  and the functions of the client), and the parts of \<^verbatim>\<open>pb_decode.c\<close> that fill in defaults and release
  messages. Pointers have eight bytes and integers are little-endian, as on the platforms of the
  application. A value \<open>None\<close> is a call that has not returned: the fuel of a recursion over nested
  messages is used up, or a loop does not end, or a function pointer is \<^verbatim>\<open>NULL\<close>.
\<close>

section \<open>Memory\<close>

type_synonym pb_mem = "pb_addr \<Rightarrow> byte"

definition get_bytes :: "pb_mem \<Rightarrow> pb_addr \<Rightarrow> nat \<Rightarrow> bytes" where
  "get_bytes m a n = map (\<lambda>i. m (a + of_nat i)) [0..<n]"

definition put_bytes :: "pb_mem \<Rightarrow> pb_addr \<Rightarrow> bytes \<Rightarrow> pb_mem" where
  "put_bytes m a bs = (\<lambda>x. if unat (x - a) < length bs then bs ! unat (x - a) else m x)"

definition le_bytes :: "nat \<Rightarrow> nat \<Rightarrow> bytes" where
  "le_bytes k n = rev (be_bytes k n)"

definition le_val :: "bytes \<Rightarrow> nat" where
  "le_val bs = be_val (rev bs)"

abbreviation get_ptr :: "pb_mem \<Rightarrow> pb_addr \<Rightarrow> pb_addr" where
  "get_ptr m a \<equiv> of_nat (le_val (get_bytes m a 8))"

abbreviation put_ptr :: "pb_mem \<Rightarrow> pb_addr \<Rightarrow> pb_addr \<Rightarrow> pb_mem" where
  "put_ptr m a p \<equiv> put_bytes m a (le_bytes 8 (unat p))"

text \<open>A \<^verbatim>\<open>pb_size_t\<close>: a count or a tag.\<close>

abbreviation get_size :: "pb_mem \<Rightarrow> pb_addr \<Rightarrow> u32" where
  "get_size m a \<equiv> of_nat (le_val (get_bytes m a 4))"

abbreviation put_size :: "pb_mem \<Rightarrow> pb_addr \<Rightarrow> u32 \<Rightarrow> pb_mem" where
  "put_size m a n \<equiv> put_bytes m a (le_bytes 4 (unat n))"

section \<open>What lies outside\<close>

text \<open>
  \<open>descr p\<close> is the table of field descriptions at the address \<open>p\<close>; \<open>call_decode f field arg\<close> and
  \<open>call_extension f ext tag wire_type\<close> are the functions that function pointers of a message lead to;
  \<open>fixed_count_at n\<close> is where \<^verbatim>\<open>pb_decode_noinit\<close> with fuel \<open>n\<close> has its local variable \<^verbatim>\<open>fixed_count_size\<close>.
\<close>

type_synonym 's pb_op = "'s pb_istream \<Rightarrow> pb_mem \<Rightarrow> (bool \<times> 's pb_istream \<times> pb_mem) option"

record 's pb_env =
  descr :: "pb_addr \<Rightarrow> pb_field list"
  pb_realloc :: "pb_addr \<Rightarrow> nat \<Rightarrow> pb_mem \<Rightarrow> pb_addr \<times> pb_mem"
  pb_free :: "pb_addr \<Rightarrow> pb_mem \<Rightarrow> pb_mem"
  call_decode :: "pb_addr \<Rightarrow> pb_field \<Rightarrow> pb_addr \<Rightarrow> 's pb_op"
  call_extension :: "pb_addr \<Rightarrow> pb_addr \<Rightarrow> u32 \<Rightarrow> pb_wire_type \<Rightarrow> 's pb_op"
  fixed_count_at :: "nat \<Rightarrow> pb_addr"

section \<open>Loops\<close>

text \<open>\<^verbatim>\<open>do { f(&iter); } while (pb_field_iter_next(&iter));\<close>\<close>

partial_function (option) iter_each :: "(pb_field_iter \<Rightarrow> 'x \<Rightarrow> 'x option) \<Rightarrow> pb_field_iter \<Rightarrow> 'x \<Rightarrow> 'x option" where
  "iter_each f iter x =
     (case f iter x of
        None \<Rightarrow> None
      | Some x' \<Rightarrow> if fst (pb_field_iter_next iter) then iter_each f (snd (pb_field_iter_next iter)) x' else Some x')"

text \<open>A loop whose body goes on with a new state or leaves with a result.\<close>

partial_function (option) repeat_step :: "('st \<Rightarrow> ('st + 'r) option) \<Rightarrow> 'st \<Rightarrow> 'r option" where
  "repeat_step f st = (case f st of None \<Rightarrow> None | Some (Inl st') \<Rightarrow> repeat_step f st' | Some (Inr r) \<Rightarrow> Some r)"

text \<open>\<^verbatim>\<open>while (count--) { f(pItem); pItem += size; }\<close>\<close>

primrec each_item :: "(pb_addr \<Rightarrow> pb_mem \<Rightarrow> pb_mem option) \<Rightarrow> pb_addr \<Rightarrow> nat \<Rightarrow> pb_addr \<Rightarrow> pb_mem \<Rightarrow> pb_mem option" where
  "each_item f sz 0 item m = Some m"
| "each_item f sz (Suc count) item m = (case f item m of None \<Rightarrow> None | Some m' \<Rightarrow> each_item f sz count (item + sz) m')"

section \<open>Defaults\<close>

definition PB_LTYPE_LAST_PACKABLE :: byte where "PB_LTYPE_LAST_PACKABLE = 0x05"
definition PB_LTYPE_BYTES :: byte where "PB_LTYPE_BYTES = 0x06"
definition PB_LTYPE_STRING :: byte where "PB_LTYPE_STRING = 0x07"
definition PB_LTYPE_SUBMESSAGE :: byte where "PB_LTYPE_SUBMESSAGE = 0x08"

text \<open>
  \<^verbatim>\<open>pb_extension_t\<close> has its \<^verbatim>\<open>type\<close>, \<^verbatim>\<open>dest\<close>, \<^verbatim>\<open>next\<close> and \<^verbatim>\<open>found\<close> at the offsets 0, 8, 16 and 24, and
  \<^verbatim>\<open>pb_extension_type_t\<close> its \<^verbatim>\<open>decode\<close>, \<^verbatim>\<open>encode\<close> and \<^verbatim>\<open>arg\<close> at 0, 8 and 16.
\<close>

definition iter_from_extension :: "'s pb_env \<Rightarrow> pb_mem \<Rightarrow> pb_addr \<Rightarrow> pb_field_iter" where
  "iter_from_extension env m ext =
     (let fld = descr env (get_ptr m (get_ptr m ext + 16));
          dest = get_ptr m (ext + 8);
          iter = snd (pb_field_iter_begin fld dest)
      in iter\<lparr>pData := (if PB_ATYPE (f_type (fld ! 0)) = PB_ATYPE_POINTER then ext + 8 else dest), pSize := ext + 24\<rparr>)"

fun pb_field_set_to_default :: "'s pb_env \<Rightarrow> nat \<Rightarrow> pb_field_iter \<Rightarrow> pb_mem \<Rightarrow> pb_mem option"
  and extensions_set_to_default :: "'s pb_env \<Rightarrow> nat \<Rightarrow> pb_addr \<Rightarrow> pb_mem \<Rightarrow> pb_mem option"
  and pb_message_set_to_defaults :: "'s pb_env \<Rightarrow> nat \<Rightarrow> pb_field list \<Rightarrow> pb_addr \<Rightarrow> pb_mem \<Rightarrow> pb_mem option" where
  "pb_field_set_to_default env 0 iter m = None"
| "pb_field_set_to_default env (Suc n) iter m =
     (let fld = field_of iter; type = f_type fld in
      if PB_LTYPE type = PB_LTYPE_EXTENSION then extensions_set_to_default env n (get_ptr m (pData iter)) m
      else if PB_ATYPE type = PB_ATYPE_STATIC then
        let counted = PB_HTYPE type = PB_HTYPE_REPEATED \<or> PB_HTYPE type = PB_HTYPE_ONEOF;
            optional = PB_HTYPE type = PB_HTYPE_OPTIONAL \<and> pSize iter \<noteq> pData iter;
            m1 = (if optional then put_bytes m (pSize iter) [0] else if counted then put_size m (pSize iter) 0 else m)
        in if \<not> optional \<and> counted then Some m1
           else if PB_LTYPE type = PB_LTYPE_SUBMESSAGE then pb_message_set_to_defaults env n (descr env (f_ptr fld)) (pData iter) m1
           else if f_ptr fld \<noteq> 0 then Some (put_bytes m1 (pData iter) (get_bytes m1 (f_ptr fld) (unat (data_size fld))))
           else Some (put_bytes m1 (pData iter) (replicate (unat (data_size fld)) 0))
      else if PB_ATYPE type = PB_ATYPE_POINTER then
        let m1 = put_ptr m (pData iter) 0
        in Some (if PB_HTYPE type = PB_HTYPE_REPEATED \<or> PB_HTYPE type = PB_HTYPE_ONEOF then put_size m1 (pSize iter) 0 else m1)
      else Some m)"
| "extensions_set_to_default env 0 ext m = None"
| "extensions_set_to_default env (Suc n) ext m =
     (if ext = 0 then Some m
      else let m1 = put_bytes m (ext + 24) [0]
           in case pb_field_set_to_default env n (iter_from_extension env m1 ext) m1 of
                None \<Rightarrow> None
              | Some m2 \<Rightarrow> extensions_set_to_default env n (get_ptr m2 (ext + 16)) m2)"
| "pb_message_set_to_defaults env 0 flds dest m = None"
| "pb_message_set_to_defaults env (Suc n) flds dest m =
     (case pb_field_iter_begin flds dest of
        (False, _) \<Rightarrow> Some m
      | (True, iter) \<Rightarrow> iter_each (pb_field_set_to_default env n) iter m)"

section \<open>Releasing\<close>

text \<open>The items of a released submessage field: their address and their number.\<close>

definition release_items :: "pb_field_iter \<Rightarrow> pb_mem \<Rightarrow> pb_addr \<times> u32" where
  "release_items iter m =
     (let fld = field_of iter; type = f_type fld;
          item = (if PB_ATYPE type = PB_ATYPE_POINTER then get_ptr m (pData iter) else pData iter);
          count = (if PB_HTYPE type = PB_HTYPE_REPEATED then
                     let c = (if PB_ATYPE type = PB_ATYPE_STATIC \<and> pSize iter = pData iter then array_size fld
                              else get_size m (pSize iter))
                     in if PB_ATYPE type = PB_ATYPE_STATIC \<and> c > array_size fld then array_size fld else c
                   else 1)
      in (item, count))"

text \<open>\<^verbatim>\<open>pb_free(*pItem); *pItem++ = NULL;\<close>\<close>

definition free_pointer :: "'s pb_env \<Rightarrow> pb_addr \<Rightarrow> pb_mem \<Rightarrow> pb_mem" where
  "free_pointer env p m = put_ptr (pb_free env (get_ptr m p) m) p 0"

text \<open>What \<^verbatim>\<open>pb_release_single_field\<close> does at the end for a field with \<^verbatim>\<open>PB_ATYPE_POINTER\<close>.\<close>

definition release_pointer :: "'s pb_env \<Rightarrow> pb_field_iter \<Rightarrow> pb_mem \<Rightarrow> pb_mem option" where
  "release_pointer env iter m =
     (let type = f_type (field_of iter); repeated = (PB_HTYPE type = PB_HTYPE_REPEATED)
      in case (if repeated \<and> (PB_LTYPE type = PB_LTYPE_STRING \<or> PB_LTYPE type = PB_LTYPE_BYTES)
               then each_item (\<lambda>p m. Some (free_pointer env p m)) 8 (unat (get_size m (pSize iter))) (get_ptr m (pData iter)) m
               else Some m) of
           None \<Rightarrow> None
         | Some m1 \<Rightarrow>
             let m2 = (if repeated then put_size m1 (pSize iter) 0 else m1) in Some (free_pointer env (pData iter) m2))"

fun pb_release_single_field :: "'s pb_env \<Rightarrow> nat \<Rightarrow> pb_field_iter \<Rightarrow> pb_mem \<Rightarrow> pb_mem option"
  and release_extensions :: "'s pb_env \<Rightarrow> nat \<Rightarrow> pb_addr \<Rightarrow> pb_mem \<Rightarrow> pb_mem option"
  and pb_release :: "'s pb_env \<Rightarrow> nat \<Rightarrow> pb_field list \<Rightarrow> pb_addr \<Rightarrow> pb_mem \<Rightarrow> pb_mem option" where
  "pb_release_single_field env 0 iter m = None"
| "pb_release_single_field env (Suc n) iter m =
     (let fld = field_of iter; type = f_type fld in
      if PB_HTYPE type = PB_HTYPE_ONEOF \<and> get_size m (pSize iter) \<noteq> f_tag fld then Some m
      else
        case (if PB_LTYPE type = PB_LTYPE_EXTENSION then release_extensions env n (get_ptr m (pData iter)) m
              else if PB_LTYPE type = PB_LTYPE_SUBMESSAGE \<and> PB_ATYPE type \<noteq> PB_ATYPE_CALLBACK then
                case release_items iter m of
                  (item, count) \<Rightarrow>
                    if item \<noteq> 0 then each_item (pb_release env n (descr env (f_ptr fld))) (ucast (data_size fld)) (unat count) item m
                    else Some m
              else Some m) of
          None \<Rightarrow> None
        | Some m1 \<Rightarrow> if PB_ATYPE type = PB_ATYPE_POINTER then release_pointer env iter m1 else Some m1)"
| "release_extensions env 0 ext m = None"
| "release_extensions env (Suc n) ext m =
     (if ext = 0 then Some m
      else case pb_release_single_field env n (iter_from_extension env m ext) m of
             None \<Rightarrow> None
           | Some m1 \<Rightarrow> release_extensions env n (get_ptr m1 (ext + 16)) m1)"
| "pb_release env 0 flds dest m = None"
| "pb_release env (Suc n) flds dest m =
     (if dest = 0 then Some m
      else case pb_field_iter_begin flds dest of
             (False, _) \<Rightarrow> Some m
           | (True, iter) \<Rightarrow> iter_each (pb_release_single_field env n) iter m)"

end
