(* ===== verification/Pb_Message.thy ===== *)
theory Pb_Message
  imports Pb_Memory
begin

text \<open>
  The message decoder of \<^verbatim>\<open>pb_decode.c\<close>, with \<^verbatim>\<open>PB_ENABLE_MALLOC\<close>: the functions that decode a value of
  each type into memory, the handling of static, pointer and callback fields and of extensions, and
  the loop over the fields of a message. Fuel \<open>n\<close> bounds how deep messages are nested;
  \<open>noinit\<close> stands for \<^verbatim>\<open>pb_decode_noinit\<close> one level down.
\<close>

section \<open>Putting operations together\<close>

definition dec_read :: "('a, 's) pb_reader \<Rightarrow> ('a \<Rightarrow> 's pb_op) \<Rightarrow> 's pb_op" where
  "dec_read r f s m = (case r s of (None, s') \<Rightarrow> Some (False, s', m) | (Some x, s') \<Rightarrow> f x s' m)"

definition dec_error :: "string \<Rightarrow> 's pb_op" where
  "dec_error msg s m = Some (False, in_set_error msg s, m)"

definition then_op :: "'s pb_op \<Rightarrow> 's pb_op \<Rightarrow> 's pb_op" where
  "then_op a b s m = (case a s m of None \<Rightarrow> None | Some (ok, s', m') \<Rightarrow> if ok then b s' m' else Some (False, s', m'))"

text \<open>\<^verbatim>\<open>pb_read\<close> to an address. A callback that fails is taken to have stored nothing.\<close>

definition read_to :: "pb_addr \<Rightarrow> nat \<Rightarrow> 's pb_op" where
  "read_to dest n = dec_read (pb_read True n) (\<lambda>d s m. Some (True, s, put_bytes m dest d))"

type_synonym 's pb_decoder = "pb_field \<Rightarrow> pb_addr \<Rightarrow> 's pb_op"
type_synonym 's pb_noinit = "pb_field list \<Rightarrow> pb_addr \<Rightarrow> 's pb_op"

section \<open>Numbers\<close>

definition pb_dec_bool :: "'s pb_decoder" where
  "pb_dec_bool field dest =
     dec_read pb_decode_varint32 (\<lambda>v s m. Some (True, s, put_bytes m dest [if v \<noteq> 0 then 1 else 0]))"

text \<open>A number cast to \<open>k\<close> bytes and back.\<close>

definition clamp_signed :: "nat \<Rightarrow> u64 \<Rightarrow> u64" where
  "clamp_signed k v =
     (if k = 8 then v else if k = 4 then scast (ucast v :: u32) else if k = 2 then scast (ucast v :: u16) else scast (ucast v :: byte))"

definition clamp_unsigned :: "nat \<Rightarrow> u64 \<Rightarrow> u64" where
  "clamp_unsigned k v =
     (if k = 8 then v else if k = 4 then ucast (ucast v :: u32) else if k = 2 then ucast (ucast v :: u16) else ucast (ucast v :: byte))"

definition put_clamped :: "(nat \<Rightarrow> u64 \<Rightarrow> u64) \<Rightarrow> pb_field \<Rightarrow> pb_addr \<Rightarrow> u64 \<Rightarrow> 's pb_op" where
  "put_clamped clamp field dest v s m =
     (let k = unat (data_size field) in
      if k = 8 \<or> k = 4 \<or> k = 2 \<or> k = 1 then
        let clamped = clamp k v; m1 = put_bytes m dest (le_bytes k (unat clamped))
        in if clamped \<noteq> v then dec_error ''integer too large'' s m1 else Some (True, s, m1)
      else dec_error ''invalid data_size'' s m)"

definition pb_dec_varint :: "'s pb_decoder" where
  "pb_dec_varint field dest =
     dec_read pb_decode_varint
       (\<lambda>v. put_clamped clamp_signed field dest (if data_size field = 8 then v else scast (ucast v :: u32)))"

definition pb_dec_uvarint :: "'s pb_decoder" where
  "pb_dec_uvarint field dest = dec_read pb_decode_varint (put_clamped clamp_unsigned field dest)"

definition pb_dec_svarint :: "'s pb_decoder" where
  "pb_dec_svarint field dest = dec_read pb_decode_svarint (put_clamped clamp_signed field dest)"

definition pb_dec_fixed32 :: "'s pb_decoder" where
  "pb_dec_fixed32 field dest = dec_read pb_decode_fixed32 (\<lambda>v s m. Some (True, s, put_bytes m dest (le_bytes 4 (unat v))))"

definition pb_dec_fixed64 :: "'s pb_decoder" where
  "pb_dec_fixed64 field dest = dec_read pb_decode_fixed64 (\<lambda>v s m. Some (True, s, put_bytes m dest (le_bytes 8 (unat v))))"

section \<open>Bytes and strings\<close>

text \<open>The sizes of \<^verbatim>\<open>allocate_field\<close> are \<^verbatim>\<open>size_t\<close>.\<close>

definition allocate_field :: "'s pb_env \<Rightarrow> pb_addr \<Rightarrow> nat \<Rightarrow> nat \<Rightarrow> 's pb_op" where
  "allocate_field env p item_size count s m =
     (if item_size = 0 \<or> count = 0 then dec_error ''invalid size'' s m
      else if (item_size \<ge> 2 ^ 32 \<or> count \<ge> 2 ^ 32) \<and> size_max div count < item_size then dec_error ''size too large'' s m
      else case pb_realloc env (get_ptr m p) (size_mul count item_size) m of
             (ptr, m1) \<Rightarrow> if ptr = 0 then dec_error ''realloc failed'' s m1 else Some (True, s, put_ptr m1 p ptr))"

definition put_array :: "pb_addr \<Rightarrow> u32 \<Rightarrow> 's pb_op" where
  "put_array bdest sz s m = read_to (bdest + 4) (unat sz) s (put_size m bdest sz)"

definition pb_dec_bytes :: "'s pb_env \<Rightarrow> 's pb_decoder" where
  "pb_dec_bytes env field dest =
     dec_read pb_decode_varint32 (\<lambda>sz.
       if sz > PB_SIZE_MAX then dec_error ''bytes overflow''
       else
         let alloc_size = size_add (unat sz) 4 in
         if unat sz > alloc_size then dec_error ''size too large''
         else if PB_ATYPE (f_type field) = PB_ATYPE_POINTER then
           then_op (allocate_field env dest alloc_size 1) (\<lambda>s m. put_array (get_ptr m dest) sz s m)
         else if alloc_size > unat (data_size field) then dec_error ''bytes overflow''
         else put_array dest sz)"

text \<open>The terminating zero is stored whether the bytes could be read or not.\<close>

definition put_string :: "pb_addr \<Rightarrow> nat \<Rightarrow> 's pb_op" where
  "put_string dest n s m =
     (case read_to dest n s m of None \<Rightarrow> None | Some (status, s', m') \<Rightarrow> Some (status, s', put_bytes m' (dest + of_nat n) [0]))"

definition pb_dec_string :: "'s pb_env \<Rightarrow> 's pb_decoder" where
  "pb_dec_string env field dest =
     dec_read pb_decode_varint32 (\<lambda>sz.
       let alloc_size = unat (sz + 1) in
       if alloc_size < unat sz then dec_error ''size too large''
       else if PB_ATYPE (f_type field) = PB_ATYPE_POINTER then
         then_op (allocate_field env dest alloc_size 1) (\<lambda>s m. put_string (get_ptr m dest) (unat sz) s m)
       else if alloc_size > unat (data_size field) then dec_error ''string overflow''
       else put_string dest (unat sz))"

definition pb_dec_fixed_length_bytes :: "'s pb_decoder" where
  "pb_dec_fixed_length_bytes field dest =
     dec_read pb_decode_varint32 (\<lambda>sz.
       if sz > PB_SIZE_MAX then dec_error ''bytes overflow''
       else if sz = 0 then (\<lambda>s m. Some (True, s, put_bytes m dest (replicate (unat (data_size field)) 0)))
       else if sz \<noteq> data_size field then dec_error ''incorrect fixed length bytes size''
       else read_to dest (unat (data_size field)))"

section \<open>Submessages\<close>

text \<open>\<^verbatim>\<open>pb_decode\<close>: defaults first, and what has been allocated is released after an error.\<close>

definition decode_with :: "'s pb_env \<Rightarrow> nat \<Rightarrow> 's pb_noinit \<Rightarrow> 's pb_noinit" where
  "decode_with env n noinit flds dest s m =
     (case pb_message_set_to_defaults env n flds dest m of
        None \<Rightarrow> None
      | Some m1 \<Rightarrow>
          (case noinit flds dest s m1 of
             None \<Rightarrow> None
           | Some (status, s', m2) \<Rightarrow>
               if status then Some (True, s', m2)
               else (case pb_release env n flds dest m2 of None \<Rightarrow> None | Some m3 \<Rightarrow> Some (False, s', m3))))"

text \<open>Closing the substream after what was decoded from it.\<close>

definition close_after :: "bool \<times> 's pb_istream \<times> pb_mem \<Rightarrow> 's pb_istream \<Rightarrow> (bool \<times> 's pb_istream \<times> pb_mem) option" where
  "close_after r s =
     (case r of
        (status, sub, m) \<Rightarrow>
          (case pb_close_string_substream sub s of
             (None, s') \<Rightarrow> Some (False, s', m)
           | (Some _, s') \<Rightarrow> Some (status, s', m)))"

definition pb_dec_submessage :: "'s pb_env \<Rightarrow> nat \<Rightarrow> 's pb_noinit \<Rightarrow> 's pb_decoder" where
  "pb_dec_submessage env n noinit field dest =
     dec_read pb_make_string_substream (\<lambda>sub s m.
       if f_ptr field = 0 then dec_error ''invalid field descriptor'' s m
       else
         let decode = (if PB_HTYPE (f_type field) = PB_HTYPE_REPEATED then decode_with env n noinit else noinit)
         in case decode (descr env (f_ptr field)) dest sub m of None \<Rightarrow> None | Some r \<Rightarrow> close_after r s)"

definition PB_DECODERS :: "'s pb_env \<Rightarrow> nat \<Rightarrow> 's pb_noinit \<Rightarrow> byte \<Rightarrow> 's pb_decoder" where
  "PB_DECODERS env n noinit ltype =
     (if ltype = 0 then pb_dec_bool
      else if ltype = 1 then pb_dec_varint
      else if ltype = 2 then pb_dec_uvarint
      else if ltype = 3 then pb_dec_svarint
      else if ltype = 4 then pb_dec_fixed32
      else if ltype = 5 then pb_dec_fixed64
      else if ltype = 6 then pb_dec_bytes env
      else if ltype = 7 then pb_dec_string env
      else if ltype = 8 then pb_dec_submessage env n noinit
      else if ltype = 10 then pb_dec_fixed_length_bytes
      else (\<lambda>_ _ _ _. None))"

section \<open>Static fields\<close>

text \<open>One round of the loop over a packed array: the substream and the memory.\<close>

definition packed_static_step ::
  "'s pb_decoder \<Rightarrow> pb_field_iter \<Rightarrow> 's pb_istream \<times> pb_mem \<Rightarrow>
   (('s pb_istream \<times> pb_mem) + (bool \<times> 's pb_istream \<times> pb_mem)) option" where
  "packed_static_step func iter st =
     (case st of
        (sub, m) \<Rightarrow>
          let field = field_of iter; count = get_size m (pSize iter) in
          if bytes_left sub > 0 \<and> count < array_size field then
            (case func field (pData iter + ucast (data_size field * count)) sub m of
               None \<Rightarrow> None
             | Some (ok, sub', m') \<Rightarrow>
                 if ok then Some (Inl (sub', put_size m' (pSize iter) (get_size m' (pSize iter) + 1)))
                 else Some (Inr (False, sub', m')))
          else Some (Inr (True, sub, m)))"

definition decode_packed_static :: "'s pb_decoder \<Rightarrow> pb_field_iter \<Rightarrow> 's pb_op" where
  "decode_packed_static func iter =
     dec_read pb_make_string_substream (\<lambda>sub s m.
       case repeat_step (packed_static_step func iter) (sub, m) of
         None \<Rightarrow> None
       | Some (status, sub', m') \<Rightarrow>
           if bytes_left sub' \<noteq> 0 then dec_error ''array overflow'' s m' else close_after (status, sub', m') s)"

definition decode_static_field :: "'s pb_env \<Rightarrow> nat \<Rightarrow> 's pb_noinit \<Rightarrow> pb_wire_type \<Rightarrow> pb_field_iter \<Rightarrow> 's pb_op" where
  "decode_static_field env n noinit wire_type iter s m =
     (let field = field_of iter; type = f_type field; func = PB_DECODERS env n noinit (PB_LTYPE type) in
      if PB_HTYPE type = PB_HTYPE_REQUIRED then func field (pData iter) s m
      else if PB_HTYPE type = PB_HTYPE_OPTIONAL then
        func field (pData iter) s (if pSize iter \<noteq> pData iter then put_bytes m (pSize iter) [1] else m)
      else if PB_HTYPE type = PB_HTYPE_REPEATED then
        if wire_type = PB_WT_STRING \<and> PB_LTYPE type \<le> PB_LTYPE_LAST_PACKABLE then decode_packed_static func iter s m
        else
          let count = get_size m (pSize iter);
              item = pData iter + ucast (data_size field * count);
              m1 = put_size m (pSize iter) (count + 1)
          in if count \<ge> array_size field then dec_error ''array overflow'' s m1 else func field item s m1
      else
        case (if PB_LTYPE type = PB_LTYPE_SUBMESSAGE \<and> get_size m (pSize iter) \<noteq> f_tag field
              then pb_message_set_to_defaults env n (descr env (f_ptr field)) (pData iter)
                     (put_bytes m (pData iter) (replicate (unat (data_size field)) 0))
              else Some m) of
          None \<Rightarrow> None
        | Some m1 \<Rightarrow> func field (pData iter) s (put_size m1 (pSize iter) (f_tag field)))"

section \<open>Pointer fields\<close>

definition initialize_pointer_field :: "'s pb_env \<Rightarrow> nat \<Rightarrow> pb_field_iter \<Rightarrow> pb_addr \<Rightarrow> pb_mem \<Rightarrow> pb_mem option" where
  "initialize_pointer_field env n iter item m =
     (let field = field_of iter; ltype = PB_LTYPE (f_type field) in
      if ltype = PB_LTYPE_STRING \<or> ltype = PB_LTYPE_BYTES then Some (put_ptr m item 0)
      else if ltype = PB_LTYPE_SUBMESSAGE then
        pb_message_set_to_defaults env n (descr env (f_ptr field)) item (put_bytes m item (replicate (unat (data_size field)) 0))
      else Some m)"

text \<open>An entry is initialised, then decoded.\<close>

definition decode_item :: "'s pb_env \<Rightarrow> nat \<Rightarrow> 's pb_decoder \<Rightarrow> pb_field_iter \<Rightarrow> pb_addr \<Rightarrow> 's pb_op" where
  "decode_item env n func iter item s m =
     (case initialize_pointer_field env n iter item m of None \<Rightarrow> None | Some m1 \<Rightarrow> func (field_of iter) item s m1)"

text \<open>
  One round of the loop over a packed array: the substream, the stream (for its error message), the
  number of entries allocated and the memory. A division by zero has no value.
\<close>

definition packed_pointer_step ::
  "'s pb_env \<Rightarrow> nat \<Rightarrow> 's pb_decoder \<Rightarrow> pb_field_iter \<Rightarrow> 's pb_istream \<times> 's pb_istream \<times> nat \<times> pb_mem \<Rightarrow>
   (('s pb_istream \<times> 's pb_istream \<times> nat \<times> pb_mem) + (bool \<times> 's pb_istream \<times> 's pb_istream \<times> pb_mem)) option" where
  "packed_pointer_step env n func iter st =
     (case st of
        (sub, s, allocated, m) \<Rightarrow>
          let field = field_of iter; count = get_size m (pSize iter) in
          if bytes_left sub = 0 then Some (Inr (True, sub, s, m))
          else if count = PB_SIZE_MAX then Some (Inr (False, sub, s\<lparr>in_errmsg := Some ''too many array entries''\<rparr>, m))
          else
            let grow = unat count + 1 > allocated;
                remain = (bytes_left sub - 1) div unat (data_size field) + 1;
                allocated' = (if \<not> grow then allocated
                              else if remain < unat PB_SIZE_MAX - allocated then allocated + remain else allocated + 1)
            in if grow \<and> data_size field = 0 then None
               else case (if grow then allocate_field env (pData iter) (unat (data_size field)) allocated' sub m
                          else Some (True, sub, m)) of
                 None \<Rightarrow> None
               | Some (ok, sub1, m1) \<Rightarrow>
                   if \<not> ok then Some (Inr (False, sub1, s, m1))
                   else case decode_item env n func iter (get_ptr m1 (pData iter) + ucast (data_size field * count)) sub1 m1 of
                     None \<Rightarrow> None
                   | Some (ok, sub2, m2) \<Rightarrow>
                       if ok then Some (Inl (sub2, s, allocated', put_size m2 (pSize iter) (get_size m2 (pSize iter) + 1)))
                       else Some (Inr (False, sub2, s, m2)))"

definition decode_packed_pointer :: "'s pb_env \<Rightarrow> nat \<Rightarrow> 's pb_decoder \<Rightarrow> pb_field_iter \<Rightarrow> 's pb_op" where
  "decode_packed_pointer env n func iter s m =
     (let allocated = unat (get_size m (pSize iter)) in
      dec_read pb_make_string_substream (\<lambda>sub s m.
        case repeat_step (packed_pointer_step env n func iter) (sub, s, allocated, m) of
          None \<Rightarrow> None
        | Some (status, sub', s', m') \<Rightarrow> close_after (status, sub', m') s') s m)"

definition decode_pointer_field :: "'s pb_env \<Rightarrow> nat \<Rightarrow> 's pb_noinit \<Rightarrow> pb_wire_type \<Rightarrow> pb_field_iter \<Rightarrow> 's pb_op" where
  "decode_pointer_field env n noinit wire_type iter s m =
     (let field = field_of iter; type = f_type field; func = PB_DECODERS env n noinit (PB_LTYPE type);
          text = (PB_LTYPE type = PB_LTYPE_STRING \<or> PB_LTYPE type = PB_LTYPE_BYTES) in
      if PB_HTYPE type \<noteq> PB_HTYPE_REPEATED then
        case (if PB_LTYPE type = PB_LTYPE_SUBMESSAGE \<and> get_ptr m (pData iter) \<noteq> 0 then pb_release_single_field env n iter m
              else Some m) of
          None \<Rightarrow> None
        | Some m1 \<Rightarrow>
            let m2 = (if PB_HTYPE type = PB_HTYPE_ONEOF then put_size m1 (pSize iter) (f_tag field) else m1)
            in if text then func field (pData iter) s m2
               else then_op (allocate_field env (pData iter) (unat (data_size field)) 1)
                      (\<lambda>s m. decode_item env n func iter (get_ptr m (pData iter)) s m) s m2
      else if wire_type = PB_WT_STRING \<and> PB_LTYPE type \<le> PB_LTYPE_LAST_PACKABLE then decode_packed_pointer env n func iter s m
      else if get_size m (pSize iter) = PB_SIZE_MAX then dec_error ''too many array entries'' s m
      else
        then_op (allocate_field env (pData iter) (unat (data_size field)) (unat (get_size m (pSize iter) + 1)))
          (\<lambda>s m.
             let count = get_size m (pSize iter); item = get_ptr m (pData iter) + ucast (data_size field * count)
             in decode_item env n func iter item s (put_size m (pSize iter) (count + 1))) s m)"

section \<open>Callback fields\<close>

text \<open>The loop that calls the client's function until the substream is empty.\<close>

definition callback_step ::
  "'s pb_env \<Rightarrow> pb_field_iter \<Rightarrow> 's pb_istream \<times> pb_mem \<Rightarrow>
   (('s pb_istream \<times> pb_mem) + (bool \<times> 's pb_istream \<times> pb_mem)) option" where
  "callback_step env iter st =
     (case st of
        (sub, m) \<Rightarrow>
          (case call_decode env (get_ptr m (pData iter)) (field_of iter) (pData iter + 8) sub m of
             None \<Rightarrow> None
           | Some (ok, sub', m') \<Rightarrow>
               if \<not> ok then Some (Inr (False, sub', m'))
               else if bytes_left sub' \<noteq> 0 then Some (Inl (sub', m'))
               else Some (Inr (True, sub', m'))))"

text \<open>A value that is no string is copied to a buffer of ten bytes first.\<close>

definition decode_callback_field :: "'s pb_env \<Rightarrow> pb_wire_type \<Rightarrow> pb_field_iter \<Rightarrow> 's pb_op" where
  "decode_callback_field env wire_type iter s m =
     (if pData iter = 0 \<or> get_ptr m (pData iter) = 0 then
        dec_read (pb_skip_field wire_type) (\<lambda>_ s m. Some (True, s, m)) s m
      else if wire_type = PB_WT_STRING then
        dec_read pb_make_string_substream (\<lambda>sub s m.
          case repeat_step (callback_step env iter) (sub, m) of
            None \<Rightarrow> None
          | Some (ok, sub', m') \<Rightarrow>
              if ok then close_after (True, sub', m') s else dec_error ''callback failed'' s m') s m
      else
        dec_read (read_raw_value wire_type 10) (\<lambda>buffer s m.
          case call_decode env (get_ptr m (pData iter)) (field_of iter) (pData iter + 8)
                 (pb_istream_from_buffer buffer (length buffer)) m of
            None \<Rightarrow> None
          | Some (ok, _, m') \<Rightarrow> Some (ok, s, m')) s m)"

section \<open>Any field\<close>

text \<open>The results are the return value, the iterator, the stream and the memory.\<close>

definition pb_release_union_field ::
  "'s pb_env \<Rightarrow> nat \<Rightarrow> pb_field_iter \<Rightarrow> 's pb_istream \<Rightarrow> pb_mem \<Rightarrow> (bool \<times> pb_field_iter \<times> 's pb_istream \<times> pb_mem) option" where
  "pb_release_union_field env n iter s m =
     (let old_tag = get_size m (pSize iter); new_tag = f_tag (field_of iter) in
      if old_tag = 0 \<or> old_tag = new_tag then Some (True, iter, s, m)
      else case pb_field_iter_find iter old_tag of
        None \<Rightarrow> None
      | Some (found, iter1) \<Rightarrow>
          if \<not> found then Some (False, iter1, in_set_error ''invalid union tag'' s, m)
          else case pb_release_single_field env n iter1 m of
            None \<Rightarrow> None
          | Some m1 \<Rightarrow>
              (case pb_field_iter_find iter1 new_tag of
                 None \<Rightarrow> None
               | Some (found, iter2) \<Rightarrow>
                   if found then Some (True, iter2, s, m1)
                   else Some (False, iter2, in_set_error ''iterator error'' s, m1)))"

text \<open>\<open>decode_field\<close> changes the iterator on the way, so it is a result too.\<close>

definition decode_field ::
  "'s pb_env \<Rightarrow> nat \<Rightarrow> 's pb_noinit \<Rightarrow> pb_wire_type \<Rightarrow> pb_field_iter \<Rightarrow> 's pb_istream \<Rightarrow> pb_mem \<Rightarrow>
   (pb_field_iter \<times> bool \<times> 's pb_istream \<times> pb_mem) option" where
  "decode_field env n noinit wire_type iter s m =
     (case (if PB_HTYPE (f_type (field_of iter)) = PB_HTYPE_ONEOF then pb_release_union_field env n iter s m
            else Some (True, iter, s, m)) of
        None \<Rightarrow> None
      | Some (ok, iter1, s1, m1) \<Rightarrow>
          if \<not> ok then Some (iter1, False, s1, m1)
          else
            let atype = PB_ATYPE (f_type (field_of iter1))
            in map_option (\<lambda>r. (iter1, r))
                 (if atype = PB_ATYPE_STATIC then decode_static_field env n noinit wire_type iter1 s1 m1
                  else if atype = PB_ATYPE_POINTER then decode_pointer_field env n noinit wire_type iter1 s1 m1
                  else if atype = PB_ATYPE_CALLBACK then decode_callback_field env wire_type iter1 s1 m1
                  else dec_error ''invalid field type'' s1 m1))"

section \<open>Extensions\<close>

definition default_extension_decoder ::
  "'s pb_env \<Rightarrow> nat \<Rightarrow> 's pb_noinit \<Rightarrow> pb_addr \<Rightarrow> u32 \<Rightarrow> pb_wire_type \<Rightarrow> 's pb_op" where
  "default_extension_decoder env n noinit ext tag wire_type s m =
     (let field = descr env (get_ptr m (get_ptr m ext + 16)) ! 0 in
      if f_tag field \<noteq> tag then Some (True, s, m)
      else map_option snd (decode_field env n noinit wire_type (iter_from_extension env m ext) s (put_bytes m (ext + 24) [1])))"

definition extension_step ::
  "'s pb_env \<Rightarrow> nat \<Rightarrow> 's pb_noinit \<Rightarrow> u32 \<Rightarrow> pb_wire_type \<Rightarrow> nat \<Rightarrow> pb_addr \<times> 's pb_istream \<times> pb_mem \<Rightarrow>
   ((pb_addr \<times> 's pb_istream \<times> pb_mem) + (bool \<times> 's pb_istream \<times> pb_mem)) option" where
  "extension_step env n noinit tag wire_type left st =
     (case st of
        (ext, s, m) \<Rightarrow>
          if ext = 0 \<or> left \<noteq> bytes_left s then Some (Inr (True, s, m))
          else
            let f = get_ptr m (get_ptr m ext)
            in case (if f \<noteq> 0 then call_extension env f ext tag wire_type s m
                     else default_extension_decoder env n noinit ext tag wire_type s m) of
                 None \<Rightarrow> None
               | Some (status, s', m') \<Rightarrow>
                   if status then Some (Inl (get_ptr m' (ext + 16), s', m')) else Some (Inr (False, s', m')))"

definition decode_extension ::
  "'s pb_env \<Rightarrow> nat \<Rightarrow> 's pb_noinit \<Rightarrow> u32 \<Rightarrow> pb_wire_type \<Rightarrow> pb_field_iter \<Rightarrow> 's pb_op" where
  "decode_extension env n noinit tag wire_type iter s m =
     repeat_step (extension_step env n noinit tag wire_type (bytes_left s)) (get_ptr m (pData iter), s, m)"

section \<open>Messages\<close>

text \<open>
  The variables of \<^verbatim>\<open>pb_decode_noinit\<close>. \<^verbatim>\<open>fixed_count_field\<close> is an index into the table;
  \<^verbatim>\<open>fixed_count_size\<close> is in memory, at \<open>fixed_count_at env n\<close>.
\<close>

record 's pb_dstate =
  d_iter :: pb_field_iter
  d_stream :: "'s pb_istream"
  d_mem :: pb_mem
  fields_seen :: "u32 list"
  extension_range_start :: u32
  fixed_count_field :: "nat option"

definition PB_MAX_REQUIRED_FIELDS :: nat where "PB_MAX_REQUIRED_FIELDS = 64"

text \<open>Whether the last fixed count field, if there is one, has all its entries.\<close>

definition fixed_count_full :: "'s pb_env \<Rightarrow> nat \<Rightarrow> 's pb_dstate \<Rightarrow> bool" where
  "fixed_count_full env n d =
     (case fixed_count_field d of
        None \<Rightarrow> True
      | Some p \<Rightarrow> get_size (d_mem d) (fixed_count_at env n) = array_size (it_fields (d_iter d) ! p))"

text \<open>
  An unknown tag: an extension may handle the field, or it is skipped. The result says whether the
  function goes on.
\<close>

definition decode_unknown ::
  "'s pb_env \<Rightarrow> nat \<Rightarrow> 's pb_noinit \<Rightarrow> u32 \<Rightarrow> pb_wire_type \<Rightarrow> 's pb_dstate \<Rightarrow> (bool \<times> 's pb_dstate) option" where
  "decode_unknown env n noinit tag wire_type d =
     (let skip = (\<lambda>d. case pb_skip_field wire_type (d_stream d) of (r, s) \<Rightarrow> Some (r \<noteq> None, d\<lparr>d_stream := s\<rparr>)) in
      if tag \<ge> extension_range_start d then
        case find_extension_field (d_iter d) of
          None \<Rightarrow> None
        | Some (found, iter) \<Rightarrow>
            let range = (if found then f_tag (field_of iter) else - 1);
                d1 = d\<lparr>d_iter := iter, extension_range_start := range\<rparr>
            in if tag \<ge> range then
                 case decode_extension env n noinit tag wire_type iter (d_stream d1) (d_mem d1) of
                   None \<Rightarrow> None
                 | Some (ok, s, m) \<Rightarrow>
                     let d2 = d1\<lparr>d_stream := s, d_mem := m\<rparr>
                     in if \<not> ok then Some (False, d2)
                        else if bytes_left (d_stream d1) \<noteq> bytes_left s then Some (True, d2)
                        else skip d2
               else skip d1
      else skip d)"

text \<open>A known tag: the bookkeeping for fixed count and required fields, then the field.\<close>

definition decode_known ::
  "'s pb_env \<Rightarrow> nat \<Rightarrow> 's pb_noinit \<Rightarrow> pb_wire_type \<Rightarrow> 's pb_dstate \<Rightarrow> (bool \<times> 's pb_dstate) option" where
  "decode_known env n noinit wire_type d =
     (let iter = d_iter d; type = f_type (field_of iter);
          fixed = (PB_HTYPE type = PB_HTYPE_REPEATED \<and> pSize iter = pData iter);
          fresh = (fixed \<and> fixed_count_field d \<noteq> Some (pos iter))
      in if fresh \<and> \<not> fixed_count_full env n d
         then Some (False, d\<lparr>d_stream := in_set_error ''wrong size for fixed count field'' (d_stream d)\<rparr>)
         else
           let d1 = (if fresh then d\<lparr>fixed_count_field := Some (pos iter), d_mem := put_size (d_mem d) (fixed_count_at env n) 0\<rparr> else d);
               iter1 = (if fixed then iter\<lparr>pSize := fixed_count_at env n\<rparr> else iter);
               i = unat (required_field_index iter1);
               seen = (if PB_HTYPE type = PB_HTYPE_REQUIRED \<and> i < PB_MAX_REQUIRED_FIELDS
                       then (fields_seen d1)[i div 32 := fields_seen d1 ! (i div 32) OR push_bit (i mod 32) 1] else fields_seen d1)
           in case decode_field env n noinit wire_type iter1 (d_stream d1) (d_mem d1) of
                None \<Rightarrow> None
              | Some (iter2, ok, s, m) \<Rightarrow> Some (ok, d1\<lparr>d_iter := iter2, d_stream := s, d_mem := m, fields_seen := seen\<rparr>))"

text \<open>One round of the loop over the fields: \<open>Inr (False, d)\<close> returns false, \<open>Inr (True, d)\<close> leaves the loop.\<close>

definition decode_step ::
  "'s pb_env \<Rightarrow> nat \<Rightarrow> 's pb_noinit \<Rightarrow> 's pb_dstate \<Rightarrow> ('s pb_dstate + (bool \<times> 's pb_dstate)) option" where
  "decode_step env n noinit d =
     (if bytes_left (d_stream d) = 0 then Some (Inr (True, d))
      else case pb_decode_tag (d_stream d) of
        (None, eof, s) \<Rightarrow> Some (Inr (eof, d\<lparr>d_stream := s\<rparr>))
      | (Some (wire_type, tag), _, s) \<Rightarrow>
          (case pb_field_iter_find (d_iter d) tag of
             None \<Rightarrow> None
           | Some (found, iter) \<Rightarrow>
               let d1 = d\<lparr>d_stream := s, d_iter := iter\<rparr>
               in case (if found then decode_known env n noinit wire_type d1 else decode_unknown env n noinit tag wire_type d1) of
                    None \<Rightarrow> None
                  | Some (ok, d2) \<Rightarrow> if ok then Some (Inl d2) else Some (Inr (False, d2))))"

text \<open>Seeking the end of the table: the number of required fields before the last field, its type and the iterator.\<close>

definition seek_step :: "pb_field_iter \<Rightarrow> (pb_field_iter + (nat \<times> byte \<times> pb_field_iter)) option" where
  "seek_step iter =
     Some (let (more, iter') = pb_field_iter_next iter
           in if more then Inl iter' else Inr (unat (required_field_index iter), f_type (field_of iter), iter'))"

definition required_fields_seen :: "u32 list \<Rightarrow> nat \<Rightarrow> bool" where
  "required_fields_seen seen count \<longleftrightarrow>
     (\<forall>i<count div 32. seen ! i = - 1) \<and>
     (count mod 32 \<noteq> 0 \<longrightarrow> seen ! (count div 32) = drop_bit (32 - count mod 32) (- 1))"

definition check_required :: "'s pb_dstate \<Rightarrow> bool option" where
  "check_required d =
     (case repeat_step seek_step (d_iter d) of
        None \<Rightarrow> None
      | Some (count, last_type, iter) \<Rightarrow>
          let count1 = (if PB_HTYPE last_type = PB_HTYPE_REQUIRED \<and> f_tag (field_of iter) \<noteq> 0 then count + 1 else count);
              count2 = (if count1 > PB_MAX_REQUIRED_FIELDS then PB_MAX_REQUIRED_FIELDS else count1)
          in Some (count2 > 0 \<longrightarrow> required_fields_seen (fields_seen d) count2))"

definition decode_fields :: "'s pb_env \<Rightarrow> nat \<Rightarrow> 's pb_noinit \<Rightarrow> 's pb_noinit" where
  "decode_fields env n noinit flds dest s m =
     (let d0 = \<lparr>d_iter = snd (pb_field_iter_begin flds dest), d_stream = s, d_mem = put_size m (fixed_count_at env n) 0,
                fields_seen = [0, 0], extension_range_start = 0, fixed_count_field = None\<rparr>
      in case repeat_step (decode_step env n noinit) d0 of
           None \<Rightarrow> None
         | Some (ok, d) \<Rightarrow>
             if \<not> ok then Some (False, d_stream d, d_mem d)
             else if \<not> fixed_count_full env n d then dec_error ''wrong size for fixed count field'' (d_stream d) (d_mem d)
             else case check_required d of
                    None \<Rightarrow> None
                  | Some ok \<Rightarrow> if ok then Some (True, d_stream d, d_mem d) else dec_error ''missing required field'' (d_stream d) (d_mem d))"

primrec pb_decode_noinit :: "'s pb_env \<Rightarrow> nat \<Rightarrow> 's pb_noinit" where
  "pb_decode_noinit env 0 = (\<lambda>_ _ _ _. None)"
| "pb_decode_noinit env (Suc n) = decode_fields env n (pb_decode_noinit env n)"

definition pb_decode :: "'s pb_env \<Rightarrow> nat \<Rightarrow> 's pb_noinit" where
  "pb_decode env n = decode_with env n (pb_decode_noinit env n)"

definition pb_decode_delimited_noinit :: "'s pb_env \<Rightarrow> nat \<Rightarrow> 's pb_noinit" where
  "pb_decode_delimited_noinit env n flds dest =
     dec_read pb_make_string_substream (\<lambda>sub s m.
       case pb_decode_noinit env n flds dest sub m of None \<Rightarrow> None | Some r \<Rightarrow> close_after r s)"

definition pb_decode_delimited :: "'s pb_env \<Rightarrow> nat \<Rightarrow> 's pb_noinit" where
  "pb_decode_delimited env n flds dest =
     dec_read pb_make_string_substream (\<lambda>sub s m.
       case pb_decode env n flds dest sub m of None \<Rightarrow> None | Some r \<Rightarrow> close_after r s)"

definition pb_decode_nullterminated :: "'s pb_env \<Rightarrow> nat \<Rightarrow> 's pb_noinit" where
  "pb_decode_nullterminated = pb_decode"

end
