(* ===== verification/Pb_Layout.thy ===== *)
theory Pb_Layout
  imports Pb_Memory
begin

text \<open>
  Structs of static fields that fit their memory, as the generator of nanopb describes them, and the
  loops over their fields. The decoder and the encoder are proved on these structs.
\<close>

section \<open>Structs that fit\<close>

text \<open>The least size of an item of a type.\<close>

definition least_size :: "pb_ltype \<Rightarrow> nat" where
  "least_size l = (case l of L_BOOL \<Rightarrow> 1 | L_FIXED32 \<Rightarrow> 4 | L_FIXED64 \<Rightarrow> 8 | _ \<Rightarrow> 0)"

text \<open>
  A static field with its \<^verbatim>\<open>has_\<close>, \<^verbatim>\<open>_count\<close> or \<^verbatim>\<open>which_\<close> lies in the \<open>sz\<close> bytes of the struct, and its
  items have the size of what the decoder stores. An array of fixed count has at least four bytes:
  \<^verbatim>\<open>pb_field_set_to_default\<close> stores a count of zero at its start.
\<close>

definition member_fits :: "nat \<Rightarrow> pb_member \<Rightarrow> bool" where
  "member_fits sz m \<longleftrightarrow> m_alloc m = Static \<and> m_ltype m \<noteq> L_EXTENSION \<and> m_offset m + pb_membersize m \<le> sz \<and>
     least_size (m_ltype m) \<le> m_item m \<and>
     (case m_rule m of Optional \<Rightarrow> m_size_at m + 1 \<le> sz | Repeated \<Rightarrow> m_size_at m + 4 \<le> sz | Oneof \<Rightarrow> m_size_at m + 4 \<le> sz
        | Fixed_count \<Rightarrow> 4 \<le> pb_membersize m | _ \<Rightarrow> True)"

text \<open>\<open>tbl p\<close> is the table at \<open>p\<close> and \<open>subs p\<close> the members it describes; \<open>depth\<close> bounds the nesting.\<close>

primrec msg_fits :: "(pb_addr \<Rightarrow> pb_field list) \<Rightarrow> (pb_addr \<Rightarrow> pb_member list) \<Rightarrow> nat \<Rightarrow> pb_member list \<Rightarrow> nat \<Rightarrow> bool" where
  "msg_fits tbl subs 0 ms sz = False"
| "msg_fits tbl subs (Suc depth) ms sz =
     (layout_ok ms \<and> (\<forall>m\<in>set ms. member_fits sz m \<and>
        (m_ltype m = L_SUBMESSAGE \<longrightarrow>
           tbl (m_ptr m) = pb_fields (subs (m_ptr m)) \<and> msg_fits tbl subs depth (subs (m_ptr m)) (m_item m))))"

lemma ltype_codes_used [simp]:
  "ltype_code l = PB_LTYPE_SUBMESSAGE \<longleftrightarrow> l = L_SUBMESSAGE"
  by (cases l) (simp_all add: ltype_code_def PB_LTYPE_SUBMESSAGE_def)

lemma rule_code_Optional [simp]: "rule_code r = PB_HTYPE_OPTIONAL \<longleftrightarrow> r = Optional \<or> r = Singular"
  by (cases r) (simp_all add: rule_code_def pb_type_defs)

lemma PB_FIELD_sizes:
  assumes "member_ok m"
  shows "unat (data_size (PB_FIELD prev m)) = m_item m" "f_ptr (PB_FIELD prev m) = m_ptr m"
    "m_alloc m = Static \<Longrightarrow> m_rule m = Repeated \<or> m_rule m = Fixed_count \<Longrightarrow> unat (array_size (PB_FIELD prev m)) = m_count m"
  using assms by (auto simp: PB_FIELD_def member_ok_def unat_of_nat)

lemma msg_fitsD:
  assumes "msg_fits tbl subs depth ms sz"
  obtains d where "depth = Suc d" "layout_ok ms" "\<And>p. p < length ms \<Longrightarrow> member_fits sz (ms ! p)"
    "\<And>p. p < length ms \<Longrightarrow> m_ltype (ms ! p) = L_SUBMESSAGE \<Longrightarrow>
       tbl (m_ptr (ms ! p)) = pb_fields (subs (m_ptr (ms ! p))) \<and> msg_fits tbl subs d (subs (m_ptr (ms ! p))) (m_item (ms ! p))"
  using assms by (cases depth) auto

section \<open>Numbers\<close>

lemma length_le_bytes [simp]: "length (le_bytes k n) = k"
  by (simp add: le_bytes_def)

lemma length_get_bytes [simp]: "length (get_bytes m a n) = n"
  by (simp add: get_bytes_def)

lemma u32_less: "unat (n :: u32) < 2 ^ 32"
  by (rule order_less_le_trans [OF unsigned_less]) simp

lemma ucast_of_unat: "ucast (w :: u32) = (of_nat (unat w) :: u64)"
  by (simp add: word_unat_eq_iff unat_ucast_up unat_of_nat order_less_trans [OF u32_less])

section \<open>Loops\<close>

lemma iter_each_total:
  assumes l: "layout_ok ms" and p: "p < length ms" and "P x"
    and step: "\<And>q x. q < length ms \<Longrightarrow> P x \<Longrightarrow> \<exists>x'. f (iter_at ms dest q) x = Some x' \<and> P x'"
  shows "\<exists>x'. iter_each f (iter_at ms dest p) x = Some x' \<and> P x'"
  using p \<open>P x\<close>
proof (induction "length ms - p" arbitrary: p x)
  case (Suc d)
  obtain x' where x': "f (iter_at ms dest p) x = Some x'" "P x'" using step [OF Suc.prems] by blast
  note next_eq = pb_field_iter_next_eq [OF l Suc.prems(1), of dest]
  show ?case
  proof (cases "p + 1 < length ms")
    case True
    have "d = length ms - (p + 1)" using Suc.hyps(2) by simp
    then obtain y where "iter_each f (iter_at ms dest (p + 1)) x' = Some y" "P y"
      using Suc.hyps(1) [OF _ True x'(2)] by blast
    then show ?thesis using x'(1) next_eq True by (subst iter_each.simps) simp
  next
    case False
    then show ?thesis using x' next_eq by (subst iter_each.simps) simp
  qed
qed simp

lemma repeat_step_total:
  assumes "P st"
    and step: "\<And>st. P st \<Longrightarrow> (\<exists>st'. f st = Some (Inl st') \<and> P st' \<and> (\<mu> st' :: nat) < \<mu> st) \<or> (\<exists>r. f st = Some (Inr r) \<and> Q r)"
  obtains r where "repeat_step f st = Some r" "Q r"
proof -
  have "\<exists>r. repeat_step f st = Some r \<and> Q r"
    using \<open>P st\<close>
  proof (induction "\<mu> st" arbitrary: st rule: less_induct)
    case less
    then consider st' where "f st = Some (Inl st')" "P st'" "\<mu> st' < \<mu> st" | r where "f st = Some (Inr r)" "Q r"
      using step by blast
    then show ?case by cases (use less.hyps in \<open>(subst repeat_step.simps, simp)+\<close>)
  qed
  then show thesis using that by blast
qed

section \<open>A sample\<close>

text \<open>
  The struct \<^verbatim>\<open>{pb_size_t subs_count; sample subs[2]; char name[16]; uint32_t code[3];}\<close>, whose submessages are
  the struct of \<open>sample_struct\<close>.
\<close>

definition nested_struct :: "pb_member list" where
  "nested_struct =
    [\<lparr>m_tag = 1, m_ltype = L_SUBMESSAGE, m_rule = Repeated, m_alloc = Static, m_place = First, m_offset = 8, m_item = 48, m_count = 2, m_size_at = 0, m_ptr = 0x100\<rparr>,
     \<lparr>m_tag = 2, m_ltype = L_STRING, m_rule = Singular, m_alloc = Static, m_place = Other, m_offset = 104, m_item = 16, m_count = 1, m_size_at = 0, m_ptr = 0\<rparr>,
     \<lparr>m_tag = 3, m_ltype = L_FIXED32, m_rule = Fixed_count, m_alloc = Static, m_place = Other, m_offset = 120, m_item = 4, m_count = 3, m_size_at = 0, m_ptr = 0\<rparr>]"

definition sample_table :: "pb_addr \<Rightarrow> pb_field list" where
  "sample_table p = (if p = 0x100 then pb_fields sample_struct else [])"

lemma sample_struct_fits: "msg_fits tbl subs 1 sample_struct 48"
  by (simp add: sample_struct_ok) (simp add: sample_struct_def member_fits_def pb_membersize_def least_size_def)

lemma nested_struct_fits: "msg_fits sample_table (\<lambda>_. sample_struct) 2 nested_struct 136"
proof -
  have "layout_ok nested_struct"
    unfolding layout_ok_def
  proof (intro conjI allI impI ballI)
    show "follows (nested_struct ! p) (nested_struct ! (p + 1))" if "p + 1 < length nested_struct" for p
    proof -
      have "p \<in> {0, 1}" using that by (auto simp: nested_struct_def)
      then show ?thesis by (auto simp: nested_struct_def follows_def pb_membersize_def)
    qed
  qed (auto simp: nested_struct_def member_ok_def pb_membersize_def)
  moreover have "\<forall>m\<in>set nested_struct. member_fits 136 m"
    by (simp add: nested_struct_def member_fits_def pb_membersize_def least_size_def)
  moreover have "\<forall>m\<in>set nested_struct. m_ltype m = L_SUBMESSAGE \<longrightarrow> m_item m = 48 \<and> sample_table (m_ptr m) = pb_fields sample_struct"
    by (simp add: nested_struct_def sample_table_def)
  ultimately have "msg_fits sample_table (\<lambda>_. sample_struct) (Suc 1) nested_struct 136"
    unfolding msg_fits.simps(2) using sample_struct_fits by metis
  then show ?thesis by (simp only: Suc_1)
qed

end
