(* ===== verification/Pb_Safe.thy ===== *)
theory Pb_Safe
  imports Pb_Message Pb_Props Pb_Layout
begin

text \<open>
  Decoding a message into a struct of static fields ends on every input and stores nothing outside
  the struct: the pieces of memory that operations write to (\<open>window\<close>), operations that are safe for
  such a piece (\<open>safe_op\<close>), and the decoder from its parts up to \<^verbatim>\<open>pb_decode\<close>.
\<close>

section \<open>Pieces of memory\<close>

definition window :: "pb_addr \<Rightarrow> nat \<Rightarrow> pb_addr set" where
  "window a n = {x. unat (x - a) < n}"

definition same_outside :: "pb_addr set \<Rightarrow> pb_mem \<Rightarrow> pb_mem \<Rightarrow> bool" where
  "same_outside R m m' \<longleftrightarrow> (\<forall>x. x \<notin> R \<longrightarrow> m' x = m x)"

lemma same_outside_refl [simp]: "same_outside R m m"
  by (simp add: same_outside_def)

lemma same_outside_trans: "same_outside R m m' \<Longrightarrow> same_outside R m' m'' \<Longrightarrow> same_outside R m m''"
  by (simp add: same_outside_def)

lemma same_outside_mono: "same_outside R m m' \<Longrightarrow> R \<subseteq> R' \<Longrightarrow> same_outside R' m m'"
  by (auto simp: same_outside_def)

lemma same_outside_put: "window a n \<subseteq> R \<Longrightarrow> length bs \<le> n \<Longrightarrow> same_outside R m (put_bytes m a bs)"
  using order_less_le_trans by (fastforce simp: same_outside_def put_bytes_def window_def)

lemma same_outside_put': "same_outside R m m' \<Longrightarrow> window a n \<subseteq> R \<Longrightarrow> length bs \<le> n \<Longrightarrow> same_outside R m (put_bytes m' a bs)"
  using same_outside_put same_outside_trans by blast

lemma window_mono: "n \<le> n' \<Longrightarrow> window a n \<subseteq> window a n'"
  by (auto simp: window_def)

lemma unat_add_le: "unat (u + v) \<le> unat u + unat (v :: pb_addr)"
  by (simp add: unat_word_ariths)

lemma window_part:
  assumes "o1 + n \<le> n'"
  shows "window (a + of_nat o1) n \<subseteq> window a n'"
proof
  fix x
  assume "x \<in> window (a + of_nat o1) n"
  then have x: "unat (x - (a + of_nat o1)) < n" by (simp add: window_def)
  have "unat (x - a) = unat ((x - (a + of_nat o1)) + of_nat o1)" by simp
  also have "\<dots> \<le> unat (x - (a + of_nat o1)) + unat (of_nat o1 :: pb_addr)" by (rule unat_add_le)
  also have "unat (of_nat o1 :: pb_addr) \<le> o1" by (simp add: unat_of_nat)
  finally show "x \<in> window a n'" using x assms by (simp add: window_def)
qed

lemma window_part_of: "window a n' \<subseteq> R \<Longrightarrow> o1 + n \<le> n' \<Longrightarrow> window (a + of_nat o1) n \<subseteq> R"
  using window_part by blast

section \<open>Safe operations\<close>

definition buffered :: "'s pb_istream \<Rightarrow> bool" where
  "buffered s \<longleftrightarrow> (\<exists>bs. in_source s = Buffer bs)"

lemma advances_buffered: "advances s s' \<Longrightarrow> buffered s \<Longrightarrow> buffered s'"
  and advances_left: "advances s s' \<Longrightarrow> buffered s \<Longrightarrow> bytes_left s' \<le> bytes_left s"
  by (auto simp: advances_def buffered_def)

text \<open>The operation ends, changes memory only in \<open>R\<close>, and success means that the stream has advanced (when \<open>strict\<close>, by a byte at least).\<close>

definition safe_op :: "bool \<Rightarrow> pb_addr set \<Rightarrow> 's pb_op \<Rightarrow> bool" where
  "safe_op strict R op \<longleftrightarrow> (\<forall>s m. buffered s \<longrightarrow>
     (\<exists>ok s' m'. op s m = Some (ok, s', m') \<and> same_outside R m m' \<and>
        (ok \<longrightarrow> advances s s' \<and> (strict \<longrightarrow> bytes_left s' < bytes_left s))))"

named_theorems safe

lemma safe_opD:
  assumes "safe_op strict R op" "buffered s"
  obtains ok s' m' where "op s m = Some (ok, s', m')" "same_outside R m m'" "ok \<Longrightarrow> advances s s'" "ok \<Longrightarrow> strict \<Longrightarrow> bytes_left s' < bytes_left s"
  using assms unfolding safe_op_def by blast

lemma safe_op_weaken: "safe_op True R op \<Longrightarrow> safe_op strict R op"
  unfolding safe_op_def by blast

lemma safe_op_mono: "safe_op strict R op \<Longrightarrow> R \<subseteq> R' \<Longrightarrow> safe_op strict R' op"
  unfolding safe_op_def by (metis same_outside_mono)

lemma safe_dec_error [safe]: "safe_op strict R (dec_error msg)"
  by (auto simp: safe_op_def dec_error_def)

lemma safe_store [safe]: "window a n \<subseteq> R \<Longrightarrow> length bs \<le> n \<Longrightarrow> safe_op False R (\<lambda>s m. Some (True, s, put_bytes m a bs))"
  by (auto simp: safe_op_def intro: same_outside_put)

lemma safe_after_store: "safe_op strict R op \<Longrightarrow> window a n \<subseteq> R \<Longrightarrow> length bs \<le> n \<Longrightarrow> safe_op strict R (\<lambda>s m. op s (put_bytes m a bs))"
  unfolding safe_op_def by (meson same_outside_put same_outside_trans)

text \<open>Readers that take a byte at least.\<close>

definition consumes :: "('a, 's) pb_reader \<Rightarrow> bool" where
  "consumes r \<longleftrightarrow> in_window r \<and> (\<forall>s x s'. buffered s \<longrightarrow> r s = (Some x, s') \<longrightarrow> bytes_left s' < bytes_left s)"

lemma consumes_next:
  assumes "consumes r" and "\<And>x. in_window (f x)"
  shows "consumes (next_read r f)"
  unfolding consumes_def
proof (intro conjI allI impI)
  show "in_window (next_read r f)" using assms by (intro in_window_next) (simp_all add: consumes_def)
next
  fix s :: "'a pb_istream" and x s'
  assume b: "buffered s" and n: "next_read r f s = (Some x, s')"
  then obtain y s1 where r: "r s = (Some y, s1)" "f y s1 = (Some x, s')"
    by (auto simp: next_read_def split: prod.splits option.splits)
  have "bytes_left s1 < bytes_left s" using assms(1) b r(1) by (auto simp: consumes_def)
  moreover have "buffered s1" using assms(1) b r(1) by (metis consumes_def in_windowD advances_buffered)
  then have "bytes_left s' \<le> bytes_left s1" using assms(2) r(2) by (metis in_windowD advances_left)
  ultimately show "bytes_left s' < bytes_left s" by simp
qed

lemma safe_dec_read:
  assumes "consumes r" "\<And>x. safe_op False R (f x)"
  shows "safe_op strict R (dec_read r f)"
proof (rule safe_op_weaken, unfold safe_op_def, intro allI impI)
  fix s :: "'a pb_istream" and m
  assume b: "buffered s"
  obtain v s1 where r: "r s = (v, s1)" by fastforce
  have a: "advances s s1" using assms(1) r by (auto simp: consumes_def intro: in_windowD)
  show "\<exists>ok s' m'. dec_read r f s m = Some (ok, s', m') \<and> same_outside R m m' \<and>
      (ok \<longrightarrow> advances s s' \<and> (True \<longrightarrow> bytes_left s' < bytes_left s))"
  proof (cases v)
    case None
    then show ?thesis using r by (auto simp: dec_read_def)
  next
    case (Some x)
    have c: "bytes_left s1 < bytes_left s" using assms(1) b r Some by (auto simp: consumes_def)
    have b1: "buffered s1" using a b by (rule advances_buffered)
    obtain ok s' m' where f: "f x s1 m = Some (ok, s', m')" "same_outside R m m'" "ok \<Longrightarrow> advances s1 s'"
      using safe_opD [OF assms(2) [of x] b1, of m] by metis
    have "bytes_left s' < bytes_left s" if "ok" using advances_left [OF f(3) [OF that] b1] c by simp
    moreover have "advances s s'" if "ok" using advances_trans [OF a f(3) [OF that]] .
    ultimately show ?thesis using f(1,2) r Some by (auto simp: dec_read_def)
  qed
qed

lemma buffered_readbyte: "buffered s \<Longrightarrow> pb_readbyte s = (v, s') \<Longrightarrow> buffered s'"
  by (rule advances_buffered [OF in_windowD [OF in_window_readbyte]])

lemma consumes_varint32_eof:
  assumes "buffered s" "pb_decode_varint32_eof s = (Some x, eof, s')"
  shows "bytes_left s' < bytes_left s"
proof -
  obtain b s1 where b: "pb_readbyte s = (Some b, s1)"
    using assms(2) by (auto simp: pb_decode_varint32_eof_def split: prod.splits option.splits)
  have "bytes_left s' \<le> bytes_left s1"
  proof (cases "b AND 0x80 = 0")
    case True
    then show ?thesis using assms(2) b by (simp add: pb_decode_varint32_eof_def)
  next
    case False
    then obtain w where "varint32_loop (ucast (b AND 0x7f)) 7 s1 = (w, s')"
      using assms(2) b by (auto simp: pb_decode_varint32_eof_def split: prod.splits option.splits if_splits)
    then have "advances s1 s'" using in_window_varint32_loop [of s1 "ucast (b AND 0x7f)" 7] by simp
    then show ?thesis using buffered_readbyte [OF assms(1) b] by (rule advances_left)
  qed
  with pb_readbyte_left [OF b] show ?thesis by simp
qed

lemma consumes_varint32: "consumes pb_decode_varint32"
  unfolding consumes_def
  by (auto simp: pb_decode_varint32_def dest: consumes_varint32_eof split: prod.splits)

lemma consumes_varint: "consumes pb_decode_varint"
  unfolding consumes_def
proof (intro conjI allI impI)
  fix s :: "'a pb_istream" and x s'
  assume s: "buffered s" "pb_decode_varint s = (Some x, s')"
  then obtain b s1 where b: "pb_readbyte s = (Some b, s1)"
    by (auto simp: pb_decode_varint_def varint64_loop.simps [of 0 0] split: prod.splits option.splits)
  have "bytes_left s' \<le> bytes_left s1"
  proof (cases "b AND 0x80 = 0")
    case True
    then show ?thesis using s b by (simp add: pb_decode_varint_def varint64_loop.simps [of 0 0] Let_def)
  next
    case False
    then obtain r where "varint64_loop r 7 s1 = (Some x, s')"
      using s b by (simp add: pb_decode_varint_def varint64_loop.simps [of 0 0] Let_def)
    then have "advances s1 s'" using in_window_varint64_loop [of s1 r 7] by simp
    then show ?thesis using buffered_readbyte [OF s(1) b] by (rule advances_left)
  qed
  with pb_readbyte_left [OF b] show "bytes_left s' < bytes_left s" by simp
qed simp

lemma consumes_read: "0 < n \<Longrightarrow> consumes (pb_read True n)"
  unfolding consumes_def by (auto dest: pb_read_left)

lemma consumes_numbers: "consumes pb_decode_svarint" "consumes pb_decode_fixed32" "consumes pb_decode_fixed64"
  unfolding pb_decode_svarint_def pb_decode_fixed32_def pb_decode_fixed64_def
  by (rule consumes_next [OF consumes_varint], simp) (rule consumes_next [OF consumes_read]; simp)+

lemmas consuming = consumes_varint32 consumes_varint consumes_numbers

section \<open>Values\<close>

lemma pb_read_length: "buffered s \<Longrightarrow> pb_read True n s = (Some d, s') \<Longrightarrow> length d \<le> n"
  by (auto simp: buffered_def pb_read_def pb_read_chunk_def call_source_def buf_read_def split: if_splits)

lemma safe_read_to [safe]:
  assumes "window dest n \<subseteq> R"
  shows "safe_op False R (read_to dest n)"
  unfolding safe_op_def
proof (intro allI impI)
  fix s :: "'a pb_istream" and m
  assume b: "buffered s"
  obtain v s1 where r: "pb_read True n s = (v, s1)" by fastforce
  have a: "advances s s1" by (rule in_windowD [OF in_window_read r])
  show "\<exists>ok s' m'. read_to dest n s m = Some (ok, s', m') \<and> same_outside R m m' \<and>
      (ok \<longrightarrow> advances s s' \<and> (False \<longrightarrow> bytes_left s' < bytes_left s))"
  proof (cases v)
    case (Some d)
    then show ?thesis using r a same_outside_put [OF assms pb_read_length [OF b]] by (auto simp: read_to_def dec_read_def)
  qed (use r in \<open>auto simp: read_to_def dec_read_def\<close>)
qed

lemma safe_put_clamped [safe]:
  assumes "window dest (unat (data_size field)) \<subseteq> R"
  shows "safe_op False R (put_clamped clamp field dest v)"
  unfolding safe_op_def
proof (intro allI impI)
  fix s :: "'a pb_istream" and m
  show "\<exists>ok s' m'. put_clamped clamp field dest v s m = Some (ok, s', m') \<and> same_outside R m m' \<and>
      (ok \<longrightarrow> advances s s' \<and> (False \<longrightarrow> bytes_left s' < bytes_left s))"
    using assms by (auto simp: put_clamped_def Let_def dec_error_def intro!: same_outside_put)
qed

section \<open>Substreams\<close>

lemma close_after_closes:
  assumes s0: "in_source s0 = Buffer bs" and k: "k \<le> bytes_left s0"
    and adv: "ok \<Longrightarrow> advances (s0\<lparr>bytes_left := k\<rparr>) sub'"
  obtains ok' s' where "close_after (ok, sub', m) (s0\<lparr>bytes_left := bytes_left s0 - k\<rparr>) = Some (ok', s', m)"
    "ok' \<Longrightarrow> advances s0 s'"
proof (cases ok)
  case False
  then have "\<exists>s'. close_after (ok, sub', m) (s0\<lparr>bytes_left := bytes_left s0 - k\<rparr>) = Some (False, s', m)"
    by (auto simp: close_after_def split: prod.splits option.splits)
  then show ?thesis using that by blast
next
  case True
  obtain j where j: "j \<le> k" "in_source sub' = Buffer (drop j bs)" "bytes_left sub' = k - j"
    using adv [OF True] s0 by (auto simp: advances_def)
  obtain s' where "close_after (ok, sub', m) (s0\<lparr>bytes_left := bytes_left s0 - k\<rparr>) = Some (True, s', m)"
      "in_source s' = Buffer (drop k bs)" "bytes_left s' = bytes_left s0 - k"
    using j True
    by (cases "j = k") (auto simp: close_after_def pb_close_string_substream_def pb_read_def pb_read_chunk_def call_source_def buf_read_def)
  then show ?thesis using s0 k by (intro that) (auto simp: advances_def)
qed

text \<open>What is done with a substream either fails or ends with closing the substream.\<close>

lemma safe_substream:
  assumes "\<And>sub s m. buffered sub \<Longrightarrow>
      (\<exists>s' m'. body sub s m = Some (False, s', m') \<and> same_outside R m m') \<or>
      (\<exists>ok sub' m'. body sub s m = close_after (ok, sub', m') s \<and> same_outside R m m' \<and> (ok \<longrightarrow> advances sub sub'))"
  shows "safe_op strict R (dec_read pb_make_string_substream body)"
proof (rule safe_op_weaken, unfold safe_op_def, intro allI impI)
  fix s :: "'a pb_istream" and m
  assume b: "buffered s"
  obtain v s0 where v: "pb_decode_varint32 s = (v, s0)" by fastforce
  have a: "advances s s0" by (rule in_windowD [OF in_window_varint32 v])
  obtain bs where bs: "in_source s0 = Buffer bs" using advances_buffered [OF a b] by (auto simp: buffered_def)
  show "\<exists>ok s' m'. dec_read pb_make_string_substream body s m = Some (ok, s', m') \<and> same_outside R m m' \<and>
      (ok \<longrightarrow> advances s s' \<and> (True \<longrightarrow> bytes_left s' < bytes_left s))"
  proof (cases "\<exists>n. v = Some n \<and> unat n \<le> bytes_left s0")
    case False
    then show ?thesis using v
      by (cases v) (auto simp: dec_read_def pb_make_string_substream_def next_read_def)
  next
    case True
    then obtain n where n: "v = Some n" "unat n \<le> bytes_left s0" by blast
    let ?sub = "s0\<lparr>bytes_left := unat n\<rparr>" and ?s = "s0\<lparr>bytes_left := bytes_left s0 - unat n\<rparr>"
    have r: "dec_read pb_make_string_substream body s m = body ?sub ?s m"
      using v n by (simp add: dec_read_def pb_make_string_substream_def next_read_def)
    have left: "bytes_left s0 < bytes_left s" using consumes_varint32 b v n(1) by (auto simp: consumes_def)
    have "buffered ?sub" using bs by (simp add: buffered_def)
    then consider (fails) s' m' where "body ?sub ?s m = Some (False, s', m')" "same_outside R m m'"
      | (closes) ok sub' m' where "body ?sub ?s m = close_after (ok, sub', m') ?s" "same_outside R m m'" "ok \<longrightarrow> advances ?sub sub'"
      using assms [of ?sub ?s m] by blast
    then show ?thesis
    proof cases
      case fails
      then show ?thesis using r by auto
    next
      case closes
      obtain ok' s' where c: "close_after (ok, sub', m') ?s = Some (ok', s', m')" "ok' \<Longrightarrow> advances s0 s'"
        using close_after_closes [OF bs n(2), of ok sub' m'] closes(3) by metis
      have "advances s s'" "bytes_left s' < bytes_left s" if ok'
        using advances_trans [OF a c(2) [OF that]] advances_left [OF c(2) [OF that]] bs left
        by (auto simp: buffered_def)
      then show ?thesis using r c(1) closes(1,2) by auto
    qed
  qed
qed

section \<open>Decoders of values\<close>

text \<open>A decoder is safe for items of \<open>sz\<close> bytes.\<close>

definition item_safe :: "pb_addr set \<Rightarrow> nat \<Rightarrow> 's pb_decoder \<Rightarrow> pb_field \<Rightarrow> bool" where
  "item_safe R sz func field \<longleftrightarrow> (\<forall>a. window a sz \<subseteq> R \<longrightarrow> safe_op True R (func field a))"

lemma item_safeD: "item_safe R sz func field \<Longrightarrow> window a sz \<subseteq> R \<Longrightarrow> safe_op strict R (func field a)"
  unfolding item_safe_def using safe_op_weaken by blast

lemma safe_if [safe]: "(c \<Longrightarrow> safe_op strict R a) \<Longrightarrow> (\<not> c \<Longrightarrow> safe_op strict R b) \<Longrightarrow> safe_op strict R (if c then a else b)"
  by simp

lemma window_le: "window a n' \<subseteq> R \<Longrightarrow> n \<le> n' \<Longrightarrow> window a n \<subseteq> R"
  using window_mono by blast

lemma item_safe_numbers:
  assumes "unat (data_size field) = sz"
  shows "1 \<le> sz \<Longrightarrow> item_safe R sz pb_dec_bool field"
    "item_safe R sz pb_dec_varint field" "item_safe R sz pb_dec_uvarint field" "item_safe R sz pb_dec_svarint field"
    "4 \<le> sz \<Longrightarrow> item_safe R sz pb_dec_fixed32 field" "8 \<le> sz \<Longrightarrow> item_safe R sz pb_dec_fixed64 field"
  using assms unfolding item_safe_def pb_dec_bool_def pb_dec_varint_def pb_dec_uvarint_def pb_dec_svarint_def
    pb_dec_fixed32_def pb_dec_fixed64_def
  by (auto intro!: safe_dec_read consuming safe_put_clamped safe_store elim: window_le)

lemma safe_put_array:
  assumes "window dest n \<subseteq> R" "unat sz + 4 \<le> n"
  shows "safe_op False R (put_array dest sz)"
proof -
  have "window (dest + of_nat 4) (unat sz) \<subseteq> R" using assms by (intro window_part_of [of dest n]) simp_all
  then have "safe_op False R (read_to (dest + 4) (unat sz))" by (intro safe_read_to) simp
  then show ?thesis
    using safe_after_store [of False R "read_to (dest + 4) (unat sz)" dest 4 "le_bytes 4 (unat sz)"] window_le [OF assms(1), of 4] assms(2)
    by (simp add: put_array_def [abs_def])
qed

lemma safe_put_string:
  assumes "window dest n \<subseteq> R" "k + 1 \<le> n"
  shows "safe_op False R (put_string dest k)"
  unfolding safe_op_def
proof (intro allI impI)
  fix s :: "'a pb_istream" and m
  assume "buffered s"
  moreover have "safe_op False R (read_to dest k :: 'a pb_op)" using window_le [OF assms(1), of k] assms(2) by (intro safe_read_to) simp
  ultimately obtain ok s' m' where r: "read_to dest k s m = Some (ok, s', m')" "same_outside R m m'" "ok \<Longrightarrow> advances s s'"
    by (metis safe_opD)
  have "window (dest + of_nat k) 1 \<subseteq> R" using assms by (intro window_part_of [of dest n])
  then show "\<exists>ok s' m'. put_string dest k s m = Some (ok, s', m') \<and> same_outside R m m' \<and>
      (ok \<longrightarrow> advances s s' \<and> (False \<longrightarrow> bytes_left s' < bytes_left s))"
    using r same_outside_put' [OF r(2)] by (auto simp: put_string_def)
qed

lemma item_safe_text:
  assumes "unat (data_size field) = sz" "PB_ATYPE (f_type field) \<noteq> PB_ATYPE_POINTER"
  shows "item_safe R sz (pb_dec_bytes env) field" "item_safe R sz (pb_dec_string env) field"
    "item_safe R sz pb_dec_fixed_length_bytes field"
proof -
  have small: "size_add (unat n) 4 = unat n + 4" for n :: u32
    using u32_less [of n] by (simp add: size_add_def)
  show "item_safe R sz (pb_dec_bytes env) field"
    using assms unfolding item_safe_def pb_dec_bytes_def
    by (auto simp: small Let_def not_less intro!: safe_dec_read consuming safe elim: safe_put_array)
  have string: "unat n + 1 \<le> k" if "\<not> unat (n + 1) < unat n" "\<not> k < unat (n + 1)" for n :: u32 and k
  proof -
    have "unat n < 2 ^ 32" using u32_less [of n] by simp
    then show ?thesis using that by (cases "unat n + 1 = 2 ^ 32") (simp_all add: unat_word_ariths)
  qed
  show "item_safe R sz (pb_dec_string env) field"
    using assms unfolding item_safe_def pb_dec_string_def
    by (auto simp: Let_def intro!: safe_dec_read consuming safe elim: safe_put_string [OF _ string])
  show "item_safe R sz pb_dec_fixed_length_bytes field"
    using assms unfolding item_safe_def pb_dec_fixed_length_bytes_def
    by (auto intro!: safe_dec_read consuming safe)
qed

end
