(* ===== verification/Pb_Decode_Safe.thy ===== *)
theory Pb_Decode_Safe
  imports Pb_Safe
begin

text \<open>
  The message decoder on structs of static fields: which structs fit their memory
  (\<open>msg_fits\<close>), defaults, releasing, the fields, the loop over the message, and \<^verbatim>\<open>pb_decode\<close>.
\<close>

section \<open>Iterators\<close>

lemma field_of_pSize [simp]: "field_of (iter\<lparr>pSize := a\<rparr>) = field_of iter"
  by (simp add: field_of_def)


text \<open>
  The iterator at member \<open>p\<close>. For a repeated field its \<^verbatim>\<open>pSize\<close> may be the address \<open>slot\<close> of the local
  variable \<^verbatim>\<open>fixed_count_size\<close>.
\<close>

definition at_member :: "pb_member list \<Rightarrow> pb_addr \<Rightarrow> pb_addr \<Rightarrow> nat \<Rightarrow> pb_field_iter \<Rightarrow> bool" where
  "at_member ms dest slot p iter \<longleftrightarrow> p < length ms \<and>
     (iter = iter_at ms dest p \<or>
      (m_rule (ms ! p) = Repeated \<or> m_rule (ms ! p) = Fixed_count) \<and> iter = iter_at ms dest p\<lparr>pSize := slot\<rparr>)"

lemma at_member_iter_at [simp]: "p < length ms \<Longrightarrow> at_member ms dest slot p (iter_at ms dest p)"
  by (simp add: at_member_def)

lemma at_memberD:
  assumes "at_member ms dest slot p iter"
  shows "p < length ms" "pos iter = p" "it_fields iter = pb_fields ms" "pData iter = dest + of_nat (m_offset (ms ! p))"
    "field_of iter = PB_FIELD (if p = 0 then None else Some (ms ! (p - 1))) (ms ! p)"
    "pSize iter = dest + of_nat (size_field_at (ms ! p)) \<or>
     (m_rule (ms ! p) = Repeated \<or> m_rule (ms ! p) = Fixed_count) \<and> pSize iter = slot"
proof -
  have f: "field_of iter = field_of (iter_at ms dest p)" using assms by (auto simp: at_member_def)
  then show "p < length ms" "field_of iter = PB_FIELD (if p = 0 then None else Some (ms ! (p - 1))) (ms ! p)"
    using assms field_of_iter_at [of p ms dest] unfolding at_member_def by metis+
qed (use assms in \<open>auto simp: at_member_def iter_at_def\<close>)

lemma next_any_pSize:
  "PB_HTYPE (f_type (field_of iter)) \<noteq> PB_HTYPE_ONEOF \<Longrightarrow> f_tag (field_of iter) \<noteq> 0 \<Longrightarrow>
   pb_field_iter_next (iter\<lparr>pSize := a\<rparr>) = pb_field_iter_next iter"
  by (cases iter) (simp add: pb_field_iter_next_def Let_def field_of_def)

lemma at_member_next:
  assumes "layout_ok ms" "at_member ms dest slot p iter"
  shows "pb_field_iter_next iter = pb_field_iter_next (iter_at ms dest p)"
proof (cases "iter = iter_at ms dest p")
  case False
  then have p: "p < length ms" "iter = iter_at ms dest p\<lparr>pSize := slot\<rparr>" "rule_code (m_rule (ms ! p)) \<noteq> PB_HTYPE_ONEOF"
    using assms(2) by (auto simp: at_member_def)
  have type: "PB_HTYPE (f_type (field_of (iter_at ms dest p))) \<noteq> PB_HTYPE_ONEOF" "f_tag (field_of (iter_at ms dest p)) \<noteq> 0"
    using p(1,3) f_tag_PB_FIELD(1) [OF layout_okD(3) [OF assms(1) p(1)]] by (simp_all add: field_of_iter_at type_of_member)
  show ?thesis unfolding p(2) using type by (rule next_any_pSize)
qed simp

lemma at_member_search:
  assumes "layout_ok ms" "at_member ms dest slot p iter"
  obtains found q iter' where "iter_search wanted p iter = Some (found, iter')" "at_member ms dest slot q iter'"
    "found \<Longrightarrow> wanted (field_of iter')" "(\<And>r. r < length ms \<Longrightarrow> \<not> wanted (field_of (iter_at ms dest r))) \<Longrightarrow> \<not> found"
proof -
  have f: "field_of iter = field_of (iter_at ms dest p)" using at_memberD(1,5) [OF assms(2)] by (simp add: field_of_iter_at)
  show ?thesis
  proof (cases "wanted (field_of iter)")
    case True
    then have "iter_search wanted p iter = Some (True, iter)" by (subst iter_search.simps) simp
    then show ?thesis using assms(2) True f at_memberD(1) [OF assms(2)] by (intro that [of True iter p]) auto
  next
    case False
    then have e: "iter_search wanted p iter = iter_search wanted p (iter_at ms dest p)"
      using at_member_next [OF assms] f by (subst (1 2) iter_search.simps) simp
    obtain found q where "iter_search wanted p (iter_at ms dest p) = Some (found, iter_at ms dest q)" "q < length ms"
        "found \<longleftrightarrow> (\<exists>r<length ms. wanted (field_of (iter_at ms dest r)))"
        "if found then wanted (field_of (iter_at ms dest q)) else q = p"
      using iter_search_ok [OF assms(1) at_memberD(1) [OF assms(2)], of wanted dest] by blast
    then show ?thesis using e by (intro that [of found "iter_at ms dest q" q]) (auto split: if_splits)
  qed
qed

section \<open>The memory of a member\<close>

lemma member_windows:
  assumes at: "at_member ms dest slot p iter" and fits: "member_fits sz (ms ! p)" and R: "window dest sz \<subseteq> R"
    and slot: "iter \<noteq> iter_at ms dest p \<Longrightarrow> window slot 4 \<subseteq> R"
  shows "window (pData iter) (pb_membersize (ms ! p)) \<subseteq> R"
    "m_rule (ms ! p) = Repeated \<or> m_rule (ms ! p) = Fixed_count \<or> m_rule (ms ! p) = Oneof \<Longrightarrow> window (pSize iter) 4 \<subseteq> R"
    "m_rule (ms ! p) = Optional \<Longrightarrow> window (pSize iter) 1 \<subseteq> R"
proof -
  show data: "window (pData iter) (pb_membersize (ms ! p)) \<subseteq> R"
    using at_memberD(4) [OF at] window_part_of [OF R] fits by (simp add: member_fits_def)
  have part: "window (dest + of_nat k) n \<subseteq> R" if "k + n \<le> sz" for k n by (rule window_part_of [OF R that])
  show "window (pSize iter) 4 \<subseteq> R" if "m_rule (ms ! p) = Repeated \<or> m_rule (ms ! p) = Fixed_count \<or> m_rule (ms ! p) = Oneof"
  proof (cases "iter = iter_at ms dest p")
    case True
    have "size_field_at (ms ! p) + 4 \<le> sz" using that fits by (auto simp: size_field_at_def has_size_field_def member_fits_def)
    then show ?thesis using part True by (simp add: iter_at_def)
  next
    case False
    then have "pSize iter = slot" using at by (auto simp: at_member_def)
    then show ?thesis using slot False by simp
  qed
  show "window (pSize iter) 1 \<subseteq> R" if "m_rule (ms ! p) = Optional"
  proof -
    have "iter = iter_at ms dest p" using at that by (simp add: at_member_def)
    moreover have "size_field_at (ms ! p) + 1 \<le> sz" using that fits by (auto simp: size_field_at_def has_size_field_def member_fits_def)
    ultimately show ?thesis using part by (simp add: iter_at_def)
  qed
qed

section \<open>Defaults and releasing\<close>

lemma field_default_safe:
  assumes fits: "member_fits sz (ms ! p)" and ok: "member_ok (ms ! p)" and p: "p < length ms" and R: "window dest sz \<subseteq> R"
    and sub: "\<And>m. m_ltype (ms ! p) = L_SUBMESSAGE \<Longrightarrow> window (dest + of_nat (m_offset (ms ! p))) (m_item (ms ! p)) \<subseteq> R \<Longrightarrow>
      \<exists>m'. pb_message_set_to_defaults env n (descr env (m_ptr (ms ! p))) (dest + of_nat (m_offset (ms ! p))) m = Some m' \<and> same_outside R m m'"
  shows "\<exists>m'. pb_field_set_to_default env (Suc n) (iter_at ms dest p) m = Some m' \<and> same_outside R m m'"
proof -
  let ?i = "iter_at ms dest p" and ?m = "ms ! p"
  have at: "at_member ms dest dest p ?i" using p by simp
  note f = at_memberD(5) [OF at] and d = at_memberD(4) [OF at]
  note w = member_windows [OF at fits R]
  have item: "window (pData ?i) (m_item ?m) \<subseteq> R" if "\<not> (m_rule ?m = Repeated \<or> m_rule ?m = Fixed_count)"
    using w(1) that fits by (simp add: pb_membersize_def member_fits_def split: pb_allocation.splits)
  have static: "m_alloc ?m = Static" "m_ltype ?m \<noteq> L_EXTENSION" using fits by (simp_all add: member_fits_def)
  note simps = f type_of_member static PB_FIELD_sizes [OF ok] Let_def
  show ?thesis
  proof (cases "m_rule ?m = Repeated \<or> m_rule ?m = Fixed_count \<or> m_rule ?m = Oneof")
    case True
    then have "pb_field_set_to_default env (Suc n) ?i m = Some (put_size m (pSize ?i) 0)"
      by (auto simp: simps)
    then show ?thesis using same_outside_put [OF w(2)] True by simp
  next
    case False
    let ?opt = "PB_HTYPE (f_type (field_of ?i)) = PB_HTYPE_OPTIONAL \<and> pSize ?i \<noteq> pData ?i"
    define m1 where "m1 = (if ?opt then put_bytes m (pSize ?i) [0] else m)"
    have "m_rule ?m = Optional" if ?opt
    proof -
      have "m_rule ?m = Optional \<or> m_rule ?m = Singular" using that by (simp add: f type_of_member)
      moreover have "pSize ?i = pData ?i" if "m_rule ?m = Singular"
        using that by (simp add: iter_at_def size_field_at_def has_size_field_def)
      ultimately show ?thesis using that by blast
    qed
    then have m1: "same_outside R m m1" using same_outside_put [OF w(3)] by (simp add: m1_def)
    have "pb_field_set_to_default env (Suc n) ?i m =
        (if m_ltype ?m = L_SUBMESSAGE then pb_message_set_to_defaults env n (descr env (m_ptr ?m)) (pData ?i) m1
         else if m_ptr ?m \<noteq> 0 then Some (put_bytes m1 (pData ?i) (get_bytes m1 (m_ptr ?m) (m_item ?m)))
         else Some (put_bytes m1 (pData ?i) (replicate (m_item ?m) 0)))"
      using False by (auto simp: simps m1_def)
    then show ?thesis
      using sub [of m1] same_outside_trans [OF m1] same_outside_put' [OF m1 item] item False unfolding d by auto
  qed
qed

lemma fuel_two:
  assumes "2 * Suc d \<le> n"
  obtains k where "n = Suc (Suc k)" "2 * d \<le> k"
  using that [of "n - 2"] assms by simp

lemma defaults_safe:
  assumes "msg_fits (descr env) subs depth ms sz" "2 * depth \<le> n" "window dest sz \<subseteq> R"
  shows "\<exists>m'. pb_message_set_to_defaults env n (pb_fields ms) dest m = Some m' \<and> same_outside R m m'"
  using assms
proof (induction depth arbitrary: ms sz n dest m)
  case (Suc d)
  obtain l: "layout_ok ms" and fits: "\<And>p. p < length ms \<Longrightarrow> member_fits sz (ms ! p)"
    and sub: "\<And>p. p < length ms \<Longrightarrow> m_ltype (ms ! p) = L_SUBMESSAGE \<Longrightarrow>
       descr env (m_ptr (ms ! p)) = pb_fields (subs (m_ptr (ms ! p))) \<and> msg_fits (descr env) subs d (subs (m_ptr (ms ! p))) (m_item (ms ! p))"
    using Suc.prems(1) by auto
  obtain k where n: "n = Suc (Suc k)" "2 * d \<le> k" using Suc.prems(2) by (rule fuel_two)
  have step: "\<exists>m''. pb_field_set_to_default env (Suc k) (iter_at ms dest q) m' = Some m'' \<and> same_outside R m m''"
    if q: "q < length ms" and m': "same_outside R m m'" for q m'
  proof -
    have "\<exists>m''. pb_field_set_to_default env (Suc k) (iter_at ms dest q) m' = Some m'' \<and> same_outside R m' m''"
    proof (rule field_default_safe [OF fits [OF q] layout_okD(3) [OF l q] q Suc.prems(3)])
      fix m1
      assume s: "m_ltype (ms ! q) = L_SUBMESSAGE" and w: "window (dest + of_nat (m_offset (ms ! q))) (m_item (ms ! q)) \<subseteq> R"
      show "\<exists>m''. pb_message_set_to_defaults env k (descr env (m_ptr (ms ! q))) (dest + of_nat (m_offset (ms ! q))) m1 = Some m'' \<and>
          same_outside R m1 m''"
        using sub [OF q s] Suc.IH [OF _ n(2) w] by simp
    qed
    then show ?thesis using same_outside_trans [OF m'] by blast
  qed
  have "\<exists>m'. iter_each (pb_field_set_to_default env (Suc k)) (iter_at ms dest 0) m = Some m' \<and> same_outside R m m'"
    by (rule iter_each_total [OF l layout_okD(1) [OF l], of "same_outside R m"]) (use step in auto)
  then show ?case unfolding n by (simp add: pb_field_iter_begin_eq [OF l])
qed simp

lemma each_item_same: "(\<And>a. f a m = Some m) \<Longrightarrow> each_item f sz count item m = Some m"
  by (induction count arbitrary: item) simp_all

text \<open>A static field owns no memory.\<close>

lemma release_field_static:
  assumes fits: "member_fits sz (ms ! p)" and p: "p < length ms"
    and sub: "\<And>a. m_ltype (ms ! p) = L_SUBMESSAGE \<Longrightarrow> pb_release env n (descr env (m_ptr (ms ! p))) a m = Some m"
  shows "pb_release_single_field env (Suc n) (iter_at ms dest p) m = Some m"
proof -
  let ?i = "iter_at ms dest p"
  have static: "m_alloc (ms ! p) = Static" "m_ltype (ms ! p) \<noteq> L_EXTENSION" using fits by (simp_all add: member_fits_def)
  have ptr: "f_ptr (field_of ?i) = m_ptr (ms ! p)" by (simp add: field_of_iter_at [OF p] PB_FIELD_def)
  obtain item count where r: "release_items ?i m = (item, count)" by fastforce
  have types: "PB_LTYPE (f_type (field_of ?i)) = ltype_code (m_ltype (ms ! p))" "PB_ATYPE (f_type (field_of ?i)) = PB_ATYPE_STATIC"
    using static by (simp_all add: field_of_iter_at [OF p] type_of_member alloc_code_def)
  have "each_item (pb_release env n (descr env (m_ptr (ms ! p)))) k (unat count) item m = Some m" if "m_ltype (ms ! p) = L_SUBMESSAGE" for k
    by (rule each_item_same) (rule sub [OF that])
  then show ?thesis using static(2) by (simp add: Let_def types ptr r) (simp add: pb_type_defs)
qed

lemma release_static:
  assumes "msg_fits (descr env) subs depth ms sz" "2 * depth \<le> n"
  shows "pb_release env n (pb_fields ms) dest m = Some m"
  using assms
proof (induction depth arbitrary: ms sz n dest)
  case (Suc d)
  obtain l: "layout_ok ms" and fits: "\<And>p. p < length ms \<Longrightarrow> member_fits sz (ms ! p)"
    and sub: "\<And>p. p < length ms \<Longrightarrow> m_ltype (ms ! p) = L_SUBMESSAGE \<Longrightarrow>
       descr env (m_ptr (ms ! p)) = pb_fields (subs (m_ptr (ms ! p))) \<and> msg_fits (descr env) subs d (subs (m_ptr (ms ! p))) (m_item (ms ! p))"
    using Suc.prems(1) by auto
  obtain k where n: "n = Suc (Suc k)" "2 * d \<le> k" using Suc.prems(2) by (rule fuel_two)
  have step: "pb_release_single_field env (Suc k) (iter_at ms dest q) m = Some m" if q: "q < length ms" for q
  proof (rule release_field_static [OF fits [OF q] q])
    show "pb_release env k (descr env (m_ptr (ms ! q))) a m = Some m" if "m_ltype (ms ! q) = L_SUBMESSAGE" for a
      using sub [OF q that] Suc.IH [OF _ n(2), of _ "m_item (ms ! q)"] by simp
  qed
  have "\<exists>m'. iter_each (pb_release_single_field env (Suc k)) (iter_at ms dest 0) m = Some m' \<and> m' = m"
    by (rule iter_each_total [OF l layout_okD(1) [OF l], of "\<lambda>m'. m' = m"]) (use step in auto)
  then show ?case unfolding n by (simp add: pb_field_iter_begin_eq [OF l])
qed simp

section \<open>Decoders of the items of a member\<close>

lemma decode_with_safe:
  assumes "msg_fits (descr env) subs depth ms sz" "2 * depth \<le> n" "window dest sz \<subseteq> R" "safe_op strict R (noinit (pb_fields ms) dest)"
  shows "safe_op strict R (decode_with env n noinit (pb_fields ms) dest)"
  unfolding safe_op_def
proof (intro allI impI)
  fix s :: "'a pb_istream" and m
  assume b: "buffered s"
  obtain m1 where m1: "pb_message_set_to_defaults env n (pb_fields ms) dest m = Some m1" "same_outside R m m1"
    using defaults_safe [OF assms(1-3)] by blast
  obtain ok s' m2 where d: "noinit (pb_fields ms) dest s m1 = Some (ok, s', m2)" "same_outside R m1 m2"
      "ok \<Longrightarrow> advances s s'" "ok \<Longrightarrow> strict \<Longrightarrow> bytes_left s' < bytes_left s"
    using safe_opD [OF assms(4) b, of m1] by metis
  then show "\<exists>ok s' m'. decode_with env n noinit (pb_fields ms) dest s m = Some (ok, s', m') \<and> same_outside R m m' \<and>
      (ok \<longrightarrow> advances s s' \<and> (strict \<longrightarrow> bytes_left s' < bytes_left s))"
    using m1 same_outside_trans [OF m1(2) d(2)] release_static [OF assms(1,2), of dest m2]
    by (cases ok) (auto simp: decode_with_def)
qed

lemma submessage_safe:
  assumes "\<And>a. window a sz \<subseteq> R \<Longrightarrow> safe_op False R (noinit (descr env (f_ptr field)) a)"
    and "\<And>a. window a sz \<subseteq> R \<Longrightarrow> safe_op False R (decode_with env n noinit (descr env (f_ptr field)) a)"
  shows "item_safe R sz (pb_dec_submessage env n noinit) field"
  unfolding item_safe_def pb_dec_submessage_def
proof (intro allI impI safe_substream)
  fix a :: pb_addr and sub s :: "'a pb_istream" and m
  assume w: "window a sz \<subseteq> R" and b: "buffered sub"
  let ?decode = "if PB_HTYPE (f_type field) = PB_HTYPE_REPEATED then decode_with env n noinit else noinit"
  have "safe_op False R (?decode (descr env (f_ptr field)) a)" using assms w by simp
  then obtain ok sub' m' where d: "?decode (descr env (f_ptr field)) a sub m = Some (ok, sub', m')" "same_outside R m m'"
      "ok \<longrightarrow> advances sub sub'"
    using b by (metis safe_opD)
  show "(\<exists>s' m'. (if f_ptr field = 0 then dec_error ''invalid field descriptor'' s m
          else let decode = ?decode in case decode (descr env (f_ptr field)) a sub m of None \<Rightarrow> None | Some r \<Rightarrow> close_after r s) =
          Some (False, s', m') \<and> same_outside R m m') \<or>
      (\<exists>ok sub' m'. (if f_ptr field = 0 then dec_error ''invalid field descriptor'' s m
          else let decode = ?decode in case decode (descr env (f_ptr field)) a sub m of None \<Rightarrow> None | Some r \<Rightarrow> close_after r s) =
          close_after (ok, sub', m') s \<and> same_outside R m m' \<and> (ok \<longrightarrow> advances sub sub'))"
  proof (cases "f_ptr field = 0")
    case False
    then show ?thesis using d by (intro disjI2 exI [of _ ok] exI [of _ sub'] exI [of _ m']) simp
  qed (simp add: dec_error_def)
qed

lemma decoders_safe:
  assumes ok: "member_ok m" and fits: "member_fits sz m"
    and sub: "\<And>a. m_ltype m = L_SUBMESSAGE \<Longrightarrow> window a (m_item m) \<subseteq> R \<Longrightarrow>
      safe_op False R (noinit (descr env (m_ptr m)) a) \<and> safe_op False R (decode_with env n noinit (descr env (m_ptr m)) a)"
  shows "item_safe R (m_item m) (PB_DECODERS env n noinit (ltype_code (m_ltype m))) (PB_FIELD prev m)"
proof -
  note sizes = PB_FIELD_sizes [OF ok, of prev]
  note numbers = item_safe_numbers [OF sizes(1)]
  have "PB_ATYPE (f_type (PB_FIELD prev m)) \<noteq> PB_ATYPE_POINTER" using fits by (simp add: type_of_member member_fits_def)
  note texts = item_safe_text [OF sizes(1) this]
  have least: "least_size (m_ltype m) \<le> m_item m" "m_ltype m \<noteq> L_EXTENSION" using fits by (simp_all add: member_fits_def)
  show ?thesis
    using least numbers texts submessage_safe [of "m_item m" R noinit env "PB_FIELD prev m" n] sub
    by (cases "m_ltype m") (auto simp: least_size_def ltype_code_def PB_DECODERS_def sizes(2))
qed

section \<open>Static fields\<close>

text \<open>Item \<open>k\<close> of an array lies in the member.\<close>

lemma item_window:
  assumes ok: "member_ok m" and w: "window a (pb_membersize m) \<subseteq> R"
    and array: "m_alloc m = Static" "m_rule m = Repeated \<or> m_rule m = Fixed_count" and k: "count < array_size (PB_FIELD prev m)"
  shows "window (a + ucast (data_size (PB_FIELD prev m) * count)) (m_item m) \<subseteq> R"
proof -
  note sizes = PB_FIELD_sizes [OF ok, of prev]
  have c: "unat count < m_count m" using k sizes(3) [OF array] by (simp add: word_less_nat_alt)
  have size: "pb_membersize m = m_item m * m_count m" "pb_membersize m < 2 ^ 31"
    using array ok by (auto simp: pb_membersize_def member_ok_def)
  have le: "m_item m * unat count + m_item m \<le> m_item m * m_count m"
    using c by (metis Suc_leI add.commute mult_Suc_right mult_le_mono2)
  then have "m_item m * unat count \<le> pb_membersize m" using size(1) by linarith
  also have "\<dots> < 2 ^ 32" using size(2) by simp
  finally have "m_item m * unat count < 2 ^ 32" .
  then have "unat (data_size (PB_FIELD prev m) * count) = m_item m * unat count"
    by (simp add: unat_word_ariths sizes(1))
  then have "ucast (data_size (PB_FIELD prev m) * count) = (of_nat (m_item m * unat count) :: pb_addr)"
    by (metis ucast_of_unat)
  then show ?thesis using window_part_of [OF w, of "m_item m * unat count" "m_item m"] le size(1) by simp
qed

lemma packed_static_safe:
  assumes items: "\<And>count. count < array_size (field_of iter) \<Longrightarrow>
      window (pData iter + ucast (data_size (field_of iter) * count)) sz \<subseteq> R"
    and func: "item_safe R sz func (field_of iter)" and w: "window (pSize iter) 4 \<subseteq> R"
  shows "safe_op strict R (decode_packed_static func iter)"
  unfolding decode_packed_static_def
proof (rule safe_substream)
  fix sub s :: "'a pb_istream" and m
  assume b: "buffered sub"
  let ?step = "packed_static_step func iter"
  define P where "P st \<longleftrightarrow> advances sub (fst st) \<and> same_outside R m (snd st)" for st :: "'a pb_istream \<times> pb_mem"
  define Q where "Q r \<longleftrightarrow> same_outside R m (snd (snd r)) \<and> (fst r \<longrightarrow> advances sub (fst (snd r)))" for r :: "bool \<times> 'a pb_istream \<times> pb_mem"
  have "\<exists>r. repeat_step ?step (sub, m) = Some r \<and> Q r"
  proof (rule repeat_step_total [of P "(sub, m)" ?step "\<lambda>st. bytes_left (fst st)" Q])
    show "P (sub, m)" by (simp add: P_def)
    fix st assume "P st"
    then obtain sub1 m1 where st: "st = (sub1, m1)" "advances sub sub1" "same_outside R m m1" by (cases st) (auto simp: P_def)
    let ?count = "get_size m1 (pSize iter)"
    show "(\<exists>st'. ?step st = Some (Inl st') \<and> P st' \<and> bytes_left (fst st') < bytes_left (fst st)) \<or> (\<exists>r. ?step st = Some (Inr r) \<and> Q r)"
    proof (cases "bytes_left sub1 > 0 \<and> ?count < array_size (field_of iter)")
      case False
      then have "?step st = Some (Inr (True, sub1, m1))" by (auto simp: packed_static_step_def st(1) Let_def)
      then show ?thesis using st by (auto simp: Q_def)
    next
      case True
      have safe: "safe_op True R (func (field_of iter) (pData iter + ucast (data_size (field_of iter) * ?count)))"
        by (rule item_safeD [OF func items]) (use True in simp)
      obtain ok sub2 m2 where d: "func (field_of iter) (pData iter + ucast (data_size (field_of iter) * ?count)) sub1 m1 = Some (ok, sub2, m2)"
          "same_outside R m1 m2" "ok \<Longrightarrow> advances sub1 sub2" "ok \<Longrightarrow> bytes_left sub2 < bytes_left sub1"
        using safe_opD [OF safe advances_buffered [OF st(2) b], of m1] by metis
      have m2: "same_outside R m m2" using st(3) d(2) by (rule same_outside_trans)
      show ?thesis
      proof (cases ok)
        case False
        then have "?step st = Some (Inr (False, sub2, m2))" using True d(1) by (simp add: packed_static_step_def st(1) Let_def)
        then show ?thesis using m2 by (auto simp: Q_def)
      next
        case ok: True
        then have "?step st = Some (Inl (sub2, put_size m2 (pSize iter) (get_size m2 (pSize iter) + 1)))"
          using True d(1) by (simp add: packed_static_step_def st(1) Let_def)
        moreover have "P (sub2, put_size m2 (pSize iter) (get_size m2 (pSize iter) + 1))"
          using advances_trans [OF st(2) d(3) [OF ok]] same_outside_put' [OF m2 w] by (simp add: P_def)
        ultimately show ?thesis using d(4) [OF ok] unfolding st(1) by auto
      qed
    qed
  qed blast
  then obtain ok sub' m' where r: "repeat_step ?step (sub, m) = Some (ok, sub', m')" "same_outside R m m'" "ok \<longrightarrow> advances sub sub'"
    by (auto simp: Q_def)
  show "(\<exists>s' m'. (case repeat_step ?step (sub, m) of None \<Rightarrow> None
        | Some (status, sub', m') \<Rightarrow> if bytes_left sub' \<noteq> 0 then dec_error ''array overflow'' s m' else close_after (status, sub', m') s) =
        Some (False, s', m') \<and> same_outside R m m') \<or>
      (\<exists>ok sub' m'. (case repeat_step ?step (sub, m) of None \<Rightarrow> None
        | Some (status, sub', m') \<Rightarrow> if bytes_left sub' \<noteq> 0 then dec_error ''array overflow'' s m' else close_after (status, sub', m') s) =
        close_after (ok, sub', m') s \<and> same_outside R m m' \<and> (ok \<longrightarrow> advances sub sub'))"
  proof (cases "bytes_left sub' \<noteq> 0")
    case False
    then show ?thesis using r by (intro disjI2 exI [of _ ok] exI [of _ sub'] exI [of _ m']) simp
  qed (use r in \<open>simp add: dec_error_def\<close>)
qed

text \<open>An operation that stores first.\<close>

lemma safe_op_cases:
  assumes "\<And>m. \<exists>op' m1. same_outside R m m1 \<and> safe_op strict R op' \<and> (\<lambda>s. op s m) = (\<lambda>s. op' s m1)"
  shows "safe_op strict R op"
  unfolding safe_op_def
proof (intro allI impI)
  fix s :: "'a pb_istream" and m
  assume b: "buffered s"
  obtain op' m1 where o: "same_outside R m m1" "safe_op strict R op'" "(\<lambda>s. op s m) = (\<lambda>s. op' s m1)" using assms by blast
  then have e: "op s m = op' s m1" by metis
  show "\<exists>ok s' m'. op s m = Some (ok, s', m') \<and> same_outside R m m' \<and>
      (ok \<longrightarrow> advances s s' \<and> (strict \<longrightarrow> bytes_left s' < bytes_left s))"
    unfolding e using safe_opD [OF o(2) b, of m1] same_outside_trans [OF o(1)] by metis
qed

lemma safe_prepared: "(\<And>m. same_outside R m (g m)) \<Longrightarrow> safe_op strict R op \<Longrightarrow> safe_op strict R (\<lambda>s m. op s (g m))"
  by (rule safe_op_cases) blast

lemma optional_step: "(c \<Longrightarrow> \<exists>x'. a = Some x' \<and> P x') \<Longrightarrow> P x \<Longrightarrow> \<exists>x'. (if c then a else Some x) = Some x' \<and> P x'"
  by simp

lemma static_field_safe:
  assumes at: "at_member ms dest slot p iter" and ok: "member_ok (ms ! p)" and fits: "member_fits sz (ms ! p)"
    and R: "window dest sz \<subseteq> R" and slot: "iter \<noteq> iter_at ms dest p \<Longrightarrow> window slot 4 \<subseteq> R"
    and func: "item_safe R (m_item (ms ! p)) (PB_DECODERS env n noinit (ltype_code (m_ltype (ms ! p)))) (field_of iter)"
    and defaults: "\<And>m. m_ltype (ms ! p) = L_SUBMESSAGE \<Longrightarrow> window (pData iter) (m_item (ms ! p)) \<subseteq> R \<Longrightarrow>
      \<exists>m'. pb_message_set_to_defaults env n (descr env (m_ptr (ms ! p))) (pData iter) m = Some m' \<and> same_outside R m m'"
  shows "safe_op False R (decode_static_field env n noinit wire_type iter)"
proof -
  let ?m = "ms ! p" and ?func = "PB_DECODERS env n noinit (ltype_code (m_ltype (ms ! p)))" and ?f = "field_of iter"
  note f = at_memberD(5) [OF at]
  note w = member_windows [OF at fits R slot]
  have static: "m_alloc ?m = Static" using fits by (simp add: member_fits_def)
  have types: "PB_HTYPE (f_type ?f) = rule_code (m_rule ?m)" "PB_LTYPE (f_type ?f) = ltype_code (m_ltype ?m)"
    "unat (data_size ?f) = m_item ?m" "f_ptr ?f = m_ptr ?m"
    using type_of_member PB_FIELD_sizes [OF ok] unfolding f by blast+
  note step = decode_static_field_def [abs_def] Let_def types
  consider (one) "m_rule ?m = Required \<or> m_rule ?m = Optional \<or> m_rule ?m = Singular"
    | (many) "m_rule ?m = Repeated \<or> m_rule ?m = Fixed_count" | (oneof) "m_rule ?m = Oneof"
    by (cases "m_rule ?m") simp_all
  then show ?thesis
  proof cases
    case one
    then have "window (pData iter) (m_item ?m) \<subseteq> R" using w(1) static by (auto simp: pb_membersize_def)
    then have safe: "safe_op False R (?func ?f (pData iter))" by (rule item_safeD [OF func])
    let ?opt = "\<lambda>m. if m_rule ?m \<noteq> Required \<and> pSize iter \<noteq> pData iter then put_bytes m (pSize iter) [1] else m"
    have single: "pSize iter = pData iter" if "m_rule ?m = Singular"
      using at that by (auto simp: at_member_def iter_at_def size_field_at_def has_size_field_def)
    have "same_outside R m (?opt m)" for m
      using one single same_outside_put [OF w(3), of "[1]" m] by auto
    then have "safe_op False R (\<lambda>s m. ?func ?f (pData iter) s (?opt m))" using safe by (rule safe_prepared)
    moreover have "decode_static_field env n noinit wire_type iter = (\<lambda>s m. ?func ?f (pData iter) s (?opt m))"
      using one by (auto simp: step)
    ultimately show ?thesis by simp
  next
    case many
    have items: "window (pData iter + ucast (data_size ?f * count)) (m_item ?m) \<subseteq> R" if "count < array_size ?f" for count
      using item_window [OF ok w(1) static many] that unfolding f by blast
    have s: "window (pSize iter) 4 \<subseteq> R" using w(2) many by blast
    let ?count = "\<lambda>m. get_size m (pSize iter)"
    have count: "same_outside R m (put_size m (pSize iter) k)" for m k using same_outside_put [OF s] by simp
    have item: "safe_op False R (\<lambda>s m. if ?count m \<ge> array_size ?f then dec_error ''array overflow'' s (put_size m (pSize iter) (?count m + 1))
        else ?func ?f (pData iter + ucast (data_size ?f * ?count m)) s (put_size m (pSize iter) (?count m + 1)))"
    proof (rule safe_op_cases)
      fix m
      have "safe_op False R (?func ?f (pData iter + ucast (data_size ?f * ?count m)))" if "\<not> ?count m \<ge> array_size ?f"
        by (rule item_safeD [OF func items]) (use that in simp)
      then show "\<exists>op m1. same_outside R m m1 \<and> safe_op False R op \<and>
          (\<lambda>s. if ?count m \<ge> array_size ?f then dec_error ''array overflow'' s (put_size m (pSize iter) (?count m + 1))
             else ?func ?f (pData iter + ucast (data_size ?f * ?count m)) s (put_size m (pSize iter) (?count m + 1))) = (\<lambda>s. op s m1)"
        using count safe_dec_error by (cases "?count m \<ge> array_size ?f") (simp, blast)+
    qed
    have "decode_static_field env n noinit wire_type iter =
        (if wire_type = PB_WT_STRING \<and> ltype_code (m_ltype ?m) \<le> PB_LTYPE_LAST_PACKABLE then decode_packed_static ?func iter
         else (\<lambda>s m. if ?count m \<ge> array_size ?f then dec_error ''array overflow'' s (put_size m (pSize iter) (?count m + 1))
            else ?func ?f (pData iter + ucast (data_size ?f * ?count m)) s (put_size m (pSize iter) (?count m + 1))))"
      using many unfolding step by auto
    then show ?thesis using packed_static_safe [OF items func s] item by auto
  next
    case oneof
    then have data: "window (pData iter) (m_item ?m) \<subseteq> R" and s: "window (pSize iter) 4 \<subseteq> R"
      using w(1,2) static by (auto simp: pb_membersize_def)
    then have safe: "safe_op False R (?func ?f (pData iter))" using item_safeD [OF func] by blast
    show ?thesis
    proof (rule safe_op_cases)
      fix m
      let ?zeroed = "put_bytes m (pData iter) (replicate (m_item ?m) 0)"
      have "same_outside R m ?zeroed" using same_outside_put [OF data] by simp
      then have "\<exists>m1. (if m_ltype ?m = L_SUBMESSAGE \<and> get_size m (pSize iter) \<noteq> f_tag ?f
            then pb_message_set_to_defaults env n (descr env (m_ptr ?m)) (pData iter) ?zeroed else Some m) = Some m1 \<and> same_outside R m m1"
        using defaults [OF _ data, of ?zeroed] same_outside_trans [of R m ?zeroed] by (intro optional_step) auto
      then obtain m1 where "(if m_ltype ?m = L_SUBMESSAGE \<and> get_size m (pSize iter) \<noteq> f_tag ?f
            then pb_message_set_to_defaults env n (descr env (m_ptr ?m)) (pData iter) ?zeroed else Some m) = Some m1" "same_outside R m m1"
        by blast
      note m1 = this
      then have "decode_static_field env n noinit wire_type iter s m = ?func ?f (pData iter) s (put_size m1 (pSize iter) (f_tag ?f))" for s
        unfolding step ltype_codes_used unfolding m1(1) using oneof by simp
      moreover have "same_outside R m (put_size m1 (pSize iter) (f_tag ?f))"
        using same_outside_put' [OF \<open>same_outside R m m1\<close> s] by simp
      ultimately show "\<exists>op m1. same_outside R m m1 \<and> safe_op False R op \<and>
          (\<lambda>s. decode_static_field env n noinit wire_type iter s m) = (\<lambda>s. op s m1)"
        using safe by blast
    qed
  qed
qed

section \<open>Any field\<close>

text \<open>What holds of one level of the message: \<open>noinit\<close> decodes the level below, \<open>slot\<close> is \<^verbatim>\<open>fixed_count_size\<close>.\<close>

definition level_safe ::
  "'s pb_env \<Rightarrow> nat \<Rightarrow> 's pb_noinit \<Rightarrow> pb_member list \<Rightarrow> pb_addr \<Rightarrow> nat \<Rightarrow> pb_addr \<Rightarrow> pb_addr set \<Rightarrow> bool" where
  "level_safe env n noinit ms dest sz slot R \<longleftrightarrow>
     layout_ok ms \<and> window dest sz \<subseteq> R \<and> window slot 4 \<subseteq> R \<and>
     (\<forall>p<length ms. member_fits sz (ms ! p) \<and>
        (\<forall>prev. item_safe R (m_item (ms ! p)) (PB_DECODERS env n noinit (ltype_code (m_ltype (ms ! p)))) (PB_FIELD prev (ms ! p))) \<and>
        (\<forall>a m. m_ltype (ms ! p) = L_SUBMESSAGE \<longrightarrow> window a (m_item (ms ! p)) \<subseteq> R \<longrightarrow>
           (\<exists>m'. pb_message_set_to_defaults env n (descr env (m_ptr (ms ! p))) a m = Some m' \<and> same_outside R m m')) \<and>
        (\<forall>m. pb_release_single_field env n (iter_at ms dest p) m = Some m))"

lemma level_static_field:
  assumes "level_safe env n noinit ms dest sz slot R" "at_member ms dest slot p iter"
  shows "safe_op False R (decode_static_field env n noinit wire_type iter)"
proof (rule static_field_safe [OF assms(2), where sz = sz])
  have p: "p < length ms" by (rule at_memberD(1) [OF assms(2)])
  show "member_ok (ms ! p)" using assms(1) p layout_okD(3) by (auto simp: level_safe_def)
  show "item_safe R (m_item (ms ! p)) (PB_DECODERS env n noinit (ltype_code (m_ltype (ms ! p)))) (field_of iter)"
    using assms(1) p unfolding at_memberD(5) [OF assms(2)] level_safe_def by blast
qed (use assms at_memberD(1) [OF assms(2)] in \<open>simp_all add: level_safe_def\<close>)

lemma find_iter_at:
  assumes "layout_ok ms" "p < length ms"
  obtains found q where "pb_field_iter_find (iter_at ms dest p) tag = Some (found, iter_at ms dest q)" "q < length ms"
  using iter_search_ok [OF assms, of "\<lambda>f. f_tag f = tag \<and> PB_LTYPE (f_type f) \<noteq> PB_LTYPE_EXTENSION" dest]
  by (auto simp: pb_field_iter_find_def)

lemma level_release_union:
  assumes level: "level_safe env n noinit ms dest sz slot R" and p: "p < length ms"
  obtains ok q s' where "pb_release_union_field env n (iter_at ms dest p) s m = Some (ok, iter_at ms dest q, s', m)" "q < length ms"
    "ok \<Longrightarrow> s' = s"
proof -
  let ?i = "iter_at ms dest p"
  have l: "layout_ok ms" using level by (simp add: level_safe_def)
  obtain f1 q1 where f1: "pb_field_iter_find ?i (get_size m (pSize ?i)) = Some (f1, iter_at ms dest q1)" "q1 < length ms"
    by (rule find_iter_at [OF l p])
  obtain f2 q2 where f2: "pb_field_iter_find (iter_at ms dest q1) (f_tag (field_of ?i)) = Some (f2, iter_at ms dest q2)" "q2 < length ms"
    by (rule find_iter_at [OF l f1(2)])
  have r: "pb_release_single_field env n (iter_at ms dest q1) m = Some m" using level f1(2) by (simp add: level_safe_def)
  consider (same) "get_size m (pSize ?i) = 0 \<or> get_size m (pSize ?i) = f_tag (field_of ?i)"
    | (other) "\<not> (get_size m (pSize ?i) = 0 \<or> get_size m (pSize ?i) = f_tag (field_of ?i))" by blast
  then show thesis
  proof cases
    case same
    then show ?thesis using that [of True p s] p by (simp add: pb_release_union_field_def Let_def)
  next
    case other
    then show ?thesis
      using that [of False q1 "in_set_error ''invalid union tag'' s"] that [of True q2 s] that [of False q2 "in_set_error ''iterator error'' s"]
        f1 f2 r by (cases f1; cases f2) (simp_all add: pb_release_union_field_def Let_def)
  qed
qed

lemma level_decode_field:
  assumes level: "level_safe env n noinit ms dest sz slot R" and at: "at_member ms dest slot p iter" and b: "buffered s"
  obtains q iter' ok s' m' where "decode_field env n noinit wire_type iter s m = Some (iter', ok, s', m')" "at_member ms dest slot q iter'"
    "same_outside R m m'" "ok \<Longrightarrow> advances s s'"
proof -
  have p: "p < length ms" by (rule at_memberD(1) [OF at])
  let ?union = "if PB_HTYPE (f_type (field_of iter)) = PB_HTYPE_ONEOF then pb_release_union_field env n iter s m else Some (True, iter, s, m)"
  have "\<exists>ok q iter1 s1. ?union = Some (ok, iter1, s1, m) \<and> at_member ms dest slot q iter1 \<and> (ok \<longrightarrow> s1 = s)"
  proof (cases "PB_HTYPE (f_type (field_of iter)) = PB_HTYPE_ONEOF")
    case True
    then have "m_rule (ms ! p) = Oneof" by (simp add: at_memberD(5) [OF at] type_of_member)
    then have "iter = iter_at ms dest p" using at by (simp add: at_member_def)
    then show ?thesis using level_release_union [OF level p, of s m] True by (metis at_member_iter_at)
  qed (use at in auto)
  then obtain ok q iter1 s1 where u: "?union = Some (ok, iter1, s1, m)" "at_member ms dest slot q iter1" "ok \<Longrightarrow> s1 = s" by blast
  show thesis
  proof (cases ok)
    case False
    then have "decode_field env n noinit wire_type iter s m = Some (iter1, False, s1, m)"
      unfolding decode_field_def u(1) by simp
    then show ?thesis by (rule that [OF _ u(2)]) simp_all
  next
    case True
    have "m_alloc (ms ! q) = Static" using level at_memberD(1) [OF u(2)] by (simp add: level_safe_def member_fits_def)
    then have "PB_ATYPE (f_type (field_of iter1)) = PB_ATYPE_STATIC" by (simp add: at_memberD(5) [OF u(2)] type_of_member)
    then have d: "decode_field env n noinit wire_type iter s m = map_option (\<lambda>r. (iter1, r)) (decode_static_field env n noinit wire_type iter1 s m)"
      unfolding decode_field_def u(1) using True u(3) by simp
    obtain ok' s' m' where "decode_static_field env n noinit wire_type iter1 s m = Some (ok', s', m')" "same_outside R m m'" "ok' \<Longrightarrow> advances s s'"
      using safe_opD [OF level_static_field [OF level u(2)] b, of wire_type m] by metis
    then show ?thesis using d that [OF _ u(2)] by simp
  qed
qed

section \<open>The loop over a message\<close>

text \<open>The state of the loop: the stream has advanced from \<open>s\<close>, and memory is that of \<open>m\<close> outside \<open>R\<close>.\<close>

definition loop_ok :: "pb_member list \<Rightarrow> pb_addr \<Rightarrow> pb_addr \<Rightarrow> pb_addr set \<Rightarrow> 's pb_istream \<Rightarrow> pb_mem \<Rightarrow> 's pb_dstate \<Rightarrow> bool" where
  "loop_ok ms dest slot R s m d \<longleftrightarrow>
     (\<exists>p. at_member ms dest slot p (d_iter d)) \<and> advances s (d_stream d) \<and> same_outside R m (d_mem d) \<and>
     (extension_range_start d = 0 \<or> extension_range_start d = - 1)"

lemma level_decode_known:
  assumes level: "level_safe env n noinit ms dest sz (fixed_count_at env n) R" and ok: "loop_ok ms dest (fixed_count_at env n) R s m d" and b: "buffered s"
  shows "\<exists>ok d'. decode_known env n noinit wire_type d = Some (ok, d') \<and> same_outside R m (d_mem d') \<and>
    (ok \<longrightarrow> loop_ok ms dest (fixed_count_at env n) R s m d' \<and> bytes_left (d_stream d') \<le> bytes_left (d_stream d))"
proof -
  let ?slot = "fixed_count_at env n" and ?iter = "d_iter d"
  let ?type = "f_type (field_of ?iter)"
  let ?fixed = "PB_HTYPE ?type = PB_HTYPE_REPEATED \<and> pSize ?iter = pData ?iter"
  let ?fresh = "?fixed \<and> fixed_count_field d \<noteq> Some (pos ?iter)"
  obtain p where at: "at_member ms dest ?slot p ?iter" using ok by (auto simp: loop_ok_def)
  have adv: "advances s (d_stream d)" and mem: "same_outside R m (d_mem d)" using ok by (simp_all add: loop_ok_def)
  define iter1 where "iter1 = (if ?fixed then ?iter\<lparr>pSize := ?slot\<rparr> else ?iter)"
  define d1 where "d1 = (if ?fresh then d\<lparr>fixed_count_field := Some (pos ?iter), d_mem := put_size (d_mem d) ?slot 0\<rparr> else d)"
  have at1: "at_member ms dest ?slot p iter1"
    using at by (auto simp: iter1_def at_memberD(5) [OF at] type_of_member) (auto simp: at_member_def)
  have d1: "d_stream d1 = d_stream d" "extension_range_start d1 = extension_range_start d" by (simp_all add: d1_def)
  have "window ?slot 4 \<subseteq> R" using level by (simp add: level_safe_def)
  then have m1: "same_outside R m (d_mem d1)" using mem by (simp add: d1_def same_outside_put')
  have bd: "buffered (d_stream d)" by (rule advances_buffered [OF adv b])
  obtain q iter2 ok' s' m' where f: "decode_field env n noinit wire_type iter1 (d_stream d) (d_mem d1) = Some (iter2, ok', s', m')"
      "at_member ms dest ?slot q iter2" "same_outside R (d_mem d1) m'" "ok' \<Longrightarrow> advances (d_stream d) s'"
    using level_decode_field [OF level at1 bd, of wire_type "d_mem d1"] by metis
  show ?thesis
  proof (cases "?fresh \<and> \<not> fixed_count_full env n d")
    case True
    then have "decode_known env n noinit wire_type d =
        Some (False, d\<lparr>d_stream := in_set_error ''wrong size for fixed count field'' (d_stream d)\<rparr>)"
      by (simp add: decode_known_def Let_def)
    then show ?thesis using mem by auto
  next
    case False
    obtain seen where k: "decode_known env n noinit wire_type d = Some (ok', d1\<lparr>d_iter := iter2, d_stream := s', d_mem := m', fields_seen := seen\<rparr>)"
      unfolding decode_known_def Let_def if_not_P [OF False] unfolding iter1_def [symmetric] d1_def [symmetric] d1(1) f(1) by simp
    have "same_outside R m m'" using m1 f(3) by (rule same_outside_trans)
    moreover have "loop_ok ms dest ?slot R s m (d1\<lparr>d_iter := iter2, d_stream := s', d_mem := m', fields_seen := seen\<rparr>)" if ok'
      using ok d1(2) f(2) \<open>same_outside R m m'\<close> advances_trans [OF adv f(4) [OF that]] by (auto simp: loop_ok_def)
    ultimately show ?thesis using k advances_left [OF f(4) bd] by simp
  qed
qed

text \<open>A tag has 29 bits, so no tag is in the range that begins at \<open>- 1\<close>: without an extension field, an unknown field is skipped.\<close>

lemma decode_tag_success:
  assumes "pb_decode_tag s = (Some (wire_type, tag), eof, s')" "buffered s"
  shows "advances s s'" "bytes_left s' < bytes_left s" "tag < - 1"
proof -
  obtain temp where t: "pb_decode_varint32_eof s = (Some temp, eof, s')" "tag = drop_bit 3 temp"
    using assms(1) by (auto simp: pb_decode_tag_def split: prod.splits option.splits if_splits)
  show "advances s s'" using in_window_varint32_eof [of s] t(1) by simp
  show "bytes_left s' < bytes_left s" by (rule consumes_varint32_eof [OF assms(2) t(1)])
  have "unat tag < 2 ^ 29" using u32_less [of temp] by (simp add: t(2) unat_drop_bit drop_bit_eq_div unat_div)
  then show "tag < - 1" by (simp add: word_less_nat_alt unsigned_minus_1_eq_mask mask_eq_exp_minus_1)
qed

lemma level_decode_unknown:
  assumes level: "level_safe env n noinit ms dest sz slot R" and ok: "loop_ok ms dest slot R s m d" and b: "buffered s" and tag: "tag < - 1"
  shows "\<exists>ok d'. decode_unknown env n noinit tag wire_type d = Some (ok, d') \<and> same_outside R m (d_mem d') \<and>
    (ok \<longrightarrow> loop_ok ms dest slot R s m d' \<and> bytes_left (d_stream d') \<le> bytes_left (d_stream d))"
proof -
  obtain p where at: "at_member ms dest slot p (d_iter d)" using ok by (auto simp: loop_ok_def)
  have l: "layout_ok ms" using level by (simp add: level_safe_def)
  have adv: "advances s (d_stream d)" using ok by (simp add: loop_ok_def)
  have bd: "buffered (d_stream d)" by (rule advances_buffered [OF adv b])
  obtain r s' where skip: "pb_skip_field wire_type (d_stream d) = (r, s')" by fastforce
  have a: "advances (d_stream d) s'" by (rule in_windowD [OF in_window_skip_field skip])
  have "\<not> PB_LTYPE (f_type (field_of (iter_at ms dest q))) = PB_LTYPE_EXTENSION" if "q < length ms" for q
    using level that wanted_iff(2) [OF l that] by (simp add: level_safe_def member_fits_def)
  then obtain q iter' where ext: "find_extension_field (d_iter d) = Some (False, iter')" "at_member ms dest slot q iter'"
    using at_member_search [OF l at, of "\<lambda>f. PB_LTYPE (f_type f) = PB_LTYPE_EXTENSION"] at_memberD(2) [OF at]
    unfolding find_extension_field_def by metis
  define d1 where "d1 = (if tag \<ge> extension_range_start d then d\<lparr>d_iter := iter', extension_range_start := - 1\<rparr> else d)"
  have "decode_unknown env n noinit tag wire_type d = Some (r \<noteq> None, d1\<lparr>d_stream := s'\<rparr>)"
    using tag ext(1) skip by (auto simp: decode_unknown_def d1_def Let_def not_le [symmetric])
  moreover have "loop_ok ms dest slot R s m (d1\<lparr>d_stream := s'\<rparr>)" "same_outside R m (d_mem d1)"
    using ok ext(2) advances_trans [OF adv a] by (auto simp: d1_def loop_ok_def)
  ultimately show ?thesis using advances_left [OF a bd] by simp
qed


lemma level_decode_step:
  assumes level: "level_safe env n noinit ms dest sz (fixed_count_at env n) R" and ok: "loop_ok ms dest (fixed_count_at env n) R s m d" and b: "buffered s"
  shows "(\<exists>d'. decode_step env n noinit d = Some (Inl d') \<and> loop_ok ms dest (fixed_count_at env n) R s m d' \<and>
            bytes_left (d_stream d') < bytes_left (d_stream d)) \<or>
    (\<exists>r. decode_step env n noinit d = Some (Inr r) \<and> same_outside R m (d_mem (snd r)) \<and>
            (fst r \<longrightarrow> loop_ok ms dest (fixed_count_at env n) R s m (snd r)))"
proof -
  let ?slot = "fixed_count_at env n"
  obtain p where at: "at_member ms dest ?slot p (d_iter d)" using ok by (auto simp: loop_ok_def)
  have adv: "advances s (d_stream d)" and mem: "same_outside R m (d_mem d)" using ok by (simp_all add: loop_ok_def)
  have bd: "buffered (d_stream d)" by (rule advances_buffered [OF adv b])
  have l: "layout_ok ms" using level by (simp add: level_safe_def)
  obtain v eof s' where t: "pb_decode_tag (d_stream d) = (v, eof, s')" using prod_cases3 by blast
  show ?thesis
  proof (cases "bytes_left (d_stream d) = 0")
    case True
    then have "decode_step env n noinit d = Some (Inr (True, d))" by (simp add: decode_step_def)
    then show ?thesis using ok mem by auto
  next
    case left: False
    show ?thesis
    proof (cases v)
      case None
      have "advances (d_stream d) s'"
        using in_window_varint32_eof [of "d_stream d"] t None by (auto simp: pb_decode_tag_def split: prod.splits option.splits if_splits)
      then have "loop_ok ms dest ?slot R s m (d\<lparr>d_stream := s'\<rparr>)" using ok advances_trans [OF adv] by (auto simp: loop_ok_def)
      moreover have "decode_step env n noinit d = Some (Inr (eof, d\<lparr>d_stream := s'\<rparr>))" using left t None by (simp add: decode_step_def)
      ultimately show ?thesis using mem by auto
    next
      case (Some x)
      obtain wire_type tag where x: "x = (wire_type, tag)" by fastforce
      note success = decode_tag_success [OF t [unfolded Some x] bd]
      obtain found q iter' where f: "pb_field_iter_find (d_iter d) tag = Some (found, iter')" "at_member ms dest ?slot q iter'"
        unfolding pb_field_iter_find_def at_memberD(2) [OF at]
        by (rule at_member_search [OF l at, where wanted = "\<lambda>f. f_tag f = tag \<and> PB_LTYPE (f_type f) \<noteq> PB_LTYPE_EXTENSION"]) blast
      let ?d1 = "d\<lparr>d_stream := s', d_iter := iter'\<rparr>"
      have ok1: "loop_ok ms dest ?slot R s m ?d1" using ok f(2) advances_trans [OF adv success(1)] by (auto simp: loop_ok_def)
      have "\<exists>ok' d2. (if found then decode_known env n noinit wire_type ?d1 else decode_unknown env n noinit tag wire_type ?d1) = Some (ok', d2) \<and>
          same_outside R m (d_mem d2) \<and> (ok' \<longrightarrow> loop_ok ms dest ?slot R s m d2 \<and> bytes_left (d_stream d2) \<le> bytes_left (d_stream ?d1))"
      proof (cases found)
        case True
        then show ?thesis using level_decode_known [OF level ok1 b, of wire_type] by (simp only: if_True)
      next
        case False
        then show ?thesis using level_decode_unknown [OF level ok1 b success(3), of wire_type] by (simp only: if_False)
      qed
      then obtain ok' d2 where k: "(if found then decode_known env n noinit wire_type ?d1 else decode_unknown env n noinit tag wire_type ?d1) = Some (ok', d2)"
          "same_outside R m (d_mem d2)" "ok' \<Longrightarrow> loop_ok ms dest ?slot R s m d2" "ok' \<Longrightarrow> bytes_left (d_stream d2) \<le> bytes_left s'"
        by auto
      have "decode_step env n noinit d = Some (if ok' then Inl d2 else Inr (False, d2))"
        unfolding decode_step_def t Some x using left f(1) k(1) by simp
      then show ?thesis using k success(2) by (cases ok') auto
    qed
  qed
qed

lemma level_check_required:
  assumes l: "layout_ok ms" and at: "at_member ms dest slot p (d_iter d)"
  obtains ok where "check_required d = Some ok"
proof -
  have "(\<exists>iter'. seek_step iter = Some (Inl iter') \<and> (\<exists>p. at_member ms dest slot p iter') \<and> length ms - pos iter' < length ms - pos iter) \<or>
      (\<exists>r. seek_step iter = Some (Inr r) \<and> True)" if some: "\<exists>p. at_member ms dest slot p iter" for iter
  proof -
    obtain p where at: "at_member ms dest slot p iter" using some by blast
    note next_eq = at_member_next [OF l at] pb_field_iter_next_eq [OF l at_memberD(1) [OF at], of dest]
    show ?thesis
    proof (cases "p + 1 < length ms")
      case True
      then have "seek_step iter = Some (Inl (iter_at ms dest (p + 1)))" using next_eq by (simp add: seek_step_def)
      then show ?thesis using True at_memberD(2) [OF at] by (auto intro!: exI [of _ "p + 1"])
    qed (use next_eq in \<open>auto simp: seek_step_def\<close>)
  qed
  then obtain r where "repeat_step seek_step (d_iter d) = Some r"
    using repeat_step_total [of "\<lambda>iter. \<exists>p. at_member ms dest slot p iter" "d_iter d" seek_step "\<lambda>iter. length ms - pos iter" "\<lambda>_. True"] at by blast
  then show thesis using that by (cases r) (simp add: check_required_def Let_def)
qed

lemma level_decode_fields:
  assumes level: "level_safe env n noinit ms dest sz (fixed_count_at env n) R"
  shows "safe_op False R (decode_fields env n noinit (pb_fields ms) dest)"
  unfolding safe_op_def
proof (intro allI impI)
  fix s :: "'a pb_istream" and m
  assume b: "buffered s"
  let ?slot = "fixed_count_at env n"
  have l: "layout_ok ms" using level by (simp add: level_safe_def)
  define d0 where "d0 = \<lparr>d_iter = snd (pb_field_iter_begin (pb_fields ms) dest), d_stream = s, d_mem = put_size m ?slot 0,
      fields_seen = [0, 0], extension_range_start = 0, fixed_count_field = None\<rparr>"
  have "window ?slot 4 \<subseteq> R" using level by (simp add: level_safe_def)
  then have "loop_ok ms dest ?slot R s m d0"
    using same_outside_put [of ?slot 4 R] at_member_iter_at [OF layout_okD(1) [OF l], of dest ?slot]
    unfolding loop_ok_def d0_def pb_field_iter_begin_eq [OF l] by (intro conjI exI [of _ 0]) simp_all
  then obtain r where r: "repeat_step (decode_step env n noinit) d0 = Some r" "same_outside R m (d_mem (snd r))"
      "fst r \<Longrightarrow> loop_ok ms dest ?slot R s m (snd r)"
    using repeat_step_total [of "loop_ok ms dest ?slot R s m" d0 "decode_step env n noinit" "\<lambda>d. bytes_left (d_stream d)"
        "\<lambda>r. same_outside R m (d_mem (snd r)) \<and> (fst r \<longrightarrow> loop_ok ms dest ?slot R s m (snd r))"] level_decode_step [OF level _ b]
    by metis
  obtain ok d where rd: "r = (ok, d)" by fastforce
  have e: "decode_fields env n noinit (pb_fields ms) dest s m =
      (if \<not> ok then Some (False, d_stream d, d_mem d)
       else if \<not> fixed_count_full env n d then dec_error ''wrong size for fixed count field'' (d_stream d) (d_mem d)
       else case check_required d of
              None \<Rightarrow> None
            | Some ok \<Rightarrow> if ok then Some (True, d_stream d, d_mem d) else dec_error ''missing required field'' (d_stream d) (d_mem d))"
    unfolding decode_fields_def Let_def d0_def [symmetric] r(1) rd by simp
  show "\<exists>ok s' m'. decode_fields env n noinit (pb_fields ms) dest s m = Some (ok, s', m') \<and> same_outside R m m' \<and>
      (ok \<longrightarrow> advances s s' \<and> (False \<longrightarrow> bytes_left s' < bytes_left s))"
  proof (cases ok)
    case True
    then have d: "loop_ok ms dest ?slot R s m d" using r(3) rd by simp
    then obtain p where "at_member ms dest ?slot p (d_iter d)" by (auto simp: loop_ok_def)
    then obtain ok' where "check_required d = Some ok'" by (rule level_check_required [OF l])
    then show ?thesis using e True d r(2) rd by (cases ok') (auto simp: dec_error_def loop_ok_def)
  qed (use e r(2) rd in auto)
qed


section \<open>Whole messages\<close>

text \<open>The local variables \<^verbatim>\<open>fixed_count_size\<close> of \<open>n\<close> nested calls.\<close>

definition slots :: "'s pb_env \<Rightarrow> nat \<Rightarrow> pb_addr set" where
  "slots env n = (\<Union>k<n. window (fixed_count_at env k) 4)"

lemma slots_mono: "k \<le> n \<Longrightarrow> slots env k \<subseteq> slots env n"
  by (force simp: slots_def)

lemma release_level:
  assumes "msg_fits (descr env) subs depth ms sz" "2 * depth \<le> Suc n" "p < length ms"
  shows "pb_release_single_field env n (iter_at ms dest p) m = Some m"
proof -
  obtain d where d: "depth = Suc d" "\<And>p. p < length ms \<Longrightarrow> member_fits sz (ms ! p)"
      "\<And>p. p < length ms \<Longrightarrow> m_ltype (ms ! p) = L_SUBMESSAGE \<Longrightarrow>
       descr env (m_ptr (ms ! p)) = pb_fields (subs (m_ptr (ms ! p))) \<and> msg_fits (descr env) subs d (subs (m_ptr (ms ! p))) (m_item (ms ! p))"
    using msg_fitsD [OF assms(1)] by metis
  obtain k where k: "n = Suc k" "2 * d \<le> k" using assms(2) d(1) by (cases n) auto
  show ?thesis
    unfolding k(1)
  proof (rule release_field_static [OF d(2) [OF assms(3)] assms(3)])
    show "pb_release env k (descr env (m_ptr (ms ! p))) a m = Some m" if "m_ltype (ms ! p) = L_SUBMESSAGE" for a
      using d(3) [OF assms(3) that] release_static [OF _ k(2)] by metis
  qed
qed

lemma decode_noinit_safe:
  fixes env :: "'s pb_env"
  assumes "msg_fits (descr env) subs depth ms sz" "2 * depth \<le> n" "window dest sz \<subseteq> R" "slots env n \<subseteq> R"
  shows "safe_op False R (pb_decode_noinit env n (pb_fields ms) dest)"
  using assms
proof (induction depth arbitrary: ms sz n dest)
  case (Suc d)
  obtain l: "layout_ok ms" and fits: "\<And>p. p < length ms \<Longrightarrow> member_fits sz (ms ! p)"
    and sub: "\<And>p. p < length ms \<Longrightarrow> m_ltype (ms ! p) = L_SUBMESSAGE \<Longrightarrow>
       descr env (m_ptr (ms ! p)) = pb_fields (subs (m_ptr (ms ! p))) \<and> msg_fits (descr env) subs d (subs (m_ptr (ms ! p))) (m_item (ms ! p))"
    using Suc.prems(1) by auto
  obtain k where n: "n = Suc k" "2 * d \<le> k" using Suc.prems(2) by (cases n) auto
  have below: "slots env k \<subseteq> R" using slots_mono [of k n env] Suc.prems(4) n(1) by auto
  have slot: "window (fixed_count_at env k) 4 \<subseteq> R" using Suc.prems(4) n(1) by (force simp: slots_def)
  have "level_safe env k (pb_decode_noinit env k) ms dest sz (fixed_count_at env k) R"
    unfolding level_safe_def
  proof (intro conjI allI impI)
    fix p assume p: "p < length ms"
    show "member_fits sz (ms ! p)" by (rule fits [OF p])
    show "\<exists>m'. pb_message_set_to_defaults env k (descr env (m_ptr (ms ! p))) a m = Some m' \<and> same_outside R m m'"
      if "m_ltype (ms ! p) = L_SUBMESSAGE" "window a (m_item (ms ! p)) \<subseteq> R" for a m
      using sub [OF p that(1)] defaults_safe [OF _ n(2) that(2)] by metis
    show "pb_release_single_field env k (iter_at ms dest p) m = Some m" for m
      using release_level [OF Suc.prems(1) _ p] Suc.prems(2) n(1) by simp
    show "item_safe R (m_item (ms ! p)) (PB_DECODERS env k (pb_decode_noinit env k) (ltype_code (m_ltype (ms ! p)))) (PB_FIELD prev (ms ! p))" for prev
    proof (rule decoders_safe [OF layout_okD(3) [OF l p] fits [OF p]])
      fix a
      assume s: "m_ltype (ms ! p) = L_SUBMESSAGE" and w: "window a (m_item (ms ! p)) \<subseteq> R"
      note fits' = sub [OF p s, THEN conjunct2]
      have "safe_op False R (pb_decode_noinit env k (pb_fields (subs (m_ptr (ms ! p)))) a)"
        by (rule Suc.IH [OF fits' n(2) w below])
      then show "safe_op False R (pb_decode_noinit env k (descr env (m_ptr (ms ! p))) a) \<and>
          safe_op False R (decode_with env k (pb_decode_noinit env k) (descr env (m_ptr (ms ! p))) a)"
        using decode_with_safe [OF fits' n(2) w] sub [OF p s, THEN conjunct1] by simp
    qed
  qed (use l Suc.prems(3) slot in auto)
  then show ?case unfolding n(1) pb_decode_noinit.simps by (rule level_decode_fields)
qed simp

text \<open>
  C4. Decoding a message of any bytes from a buffer into a struct of static fields that lie in it, nested to any
  fixed depth, in which every array of fixed count has at least four bytes (\<open>msg_fits\<close>), returns, and whatever the input
  is it stores only into the bytes of the struct and the local counters: field lengths, array counts, packed arrays,
  oneofs, repeated and unknown fields of a hostile message never write past the struct. After success the stream has
  advanced in its buffer. Into a smaller array of fixed count the defaults are written out of bounds
  (\<open>fixed_count_default_overruns\<close> below).
\<close>

theorem pb_decode_memory_safe:
  assumes "msg_fits (descr env) subs depth ms sz" and "2 * depth \<le> n" and "in_source s = Buffer bs"
  shows "\<exists>ok s' m'. pb_decode env n (pb_fields ms) dest s m = Some (ok, s', m') \<and>
    (\<forall>x. sz \<le> unat (x - dest) \<longrightarrow> (\<forall>k<n. 4 \<le> unat (x - fixed_count_at env k)) \<longrightarrow> m' x = m x) \<and>
    (ok \<longrightarrow> (\<exists>j \<le> bytes_left s. in_source s' = Buffer (drop j bs) \<and> bytes_left s' = bytes_left s - j))"
proof -
  let ?R = "window dest sz \<union> slots env n"
  have "safe_op False ?R (pb_decode env n (pb_fields ms) dest)"
    unfolding pb_decode_def using assms(1,2)
    by (intro decode_with_safe [OF assms(1,2)] decode_noinit_safe [OF assms(1,2)]) auto
  moreover have "buffered s" using assms(3) by (simp add: buffered_def)
  ultimately obtain ok s' m' where d: "pb_decode env n (pb_fields ms) dest s m = Some (ok, s', m')" "same_outside ?R m m'" "ok \<Longrightarrow> advances s s'"
    by (metis safe_opD)
  have "m' x = m x" if "sz \<le> unat (x - dest)" "\<forall>k<n. 4 \<le> unat (x - fixed_count_at env k)" for x
  proof -
    have "x \<notin> ?R" using that by (auto simp: window_def slots_def not_less)
    then show ?thesis using d(2) by (simp add: same_outside_def)
  qed
  then show ?thesis using d(1,3) assms(3) by (auto simp: advances_def)
qed


text \<open>A message that announces 127 bytes of a submessage but ends after two.\<close>

definition sample_env :: "unit pb_env" where
  "sample_env = \<lparr>descr = sample_table, pb_realloc = (\<lambda>_ _ m. (0, m)), pb_free = (\<lambda>_ m. m),
     call_decode = (\<lambda>_ _ _ s m. Some (False, s, m)), call_extension = (\<lambda>_ _ _ _ s m. Some (False, s, m)),
     fixed_count_at = (\<lambda>n. 0x9000 + 16 * of_nat n)\<rparr>"

lemma nested_struct_fits_env: "msg_fits (descr sample_env) (\<lambda>_. sample_struct) 2 nested_struct 136"
  using nested_struct_fits by (simp add: sample_env_def)

lemma pb_decode_memory_safe_witness:
  "\<exists>ok s' m'. pb_decode sample_env 4 (pb_fields nested_struct) 0x1000 (pb_istream_from_buffer [0x0a, 0x7f, 1, 2] 4) (\<lambda>_. 7) = Some (ok, s', m') \<and>
     m' 0x1088 = 7 \<and> m' 0x0fff = 7"
proof -
  have s: "in_source (pb_istream_from_buffer [0x0a, 0x7f, 1, 2] 4 :: unit pb_istream) = Buffer [0x0a, 0x7f, 1, 2]"
    by (simp add: pb_istream_from_buffer_def)
  obtain ok s' m' where d: "pb_decode sample_env 4 (pb_fields nested_struct) 0x1000 (pb_istream_from_buffer [0x0a, 0x7f, 1, 2] 4) (\<lambda>_. 7) = Some (ok, s', m')"
      "\<forall>x. 136 \<le> unat (x - 0x1000) \<longrightarrow> (\<forall>k<4. 4 \<le> unat (x - fixed_count_at sample_env k)) \<longrightarrow> m' x = 7"
    using pb_decode_memory_safe [OF nested_struct_fits_env _ s, of 4 "0x1000" "\<lambda>_. 7"] by auto
  have "4 \<le> unat (0x1088 - fixed_count_at sample_env k) \<and> 4 \<le> unat (0x0fff - fixed_count_at sample_env k)" if "k < 4" for k
  proof -
    have "k = 0 \<or> k = 1 \<or> k = 2 \<or> k = 3" using that by arith
    then show ?thesis by (elim disjE) (simp_all add: sample_env_def)
  qed
  then show ?thesis using d(1) d(2) [rule_format, of "0x1088"] d(2) [rule_format, of "0x0fff"] by (auto simp: unsigned_minus_1_eq_mask mask_eq_exp_minus_1)
qed


section \<open>An array that is smaller than its count\<close>

text \<open>The struct \<^verbatim>\<open>{bool flag[1];}\<close> with an array of fixed count. It has one byte.\<close>

definition fixed_flag :: "pb_member list" where
  "fixed_flag = [\<lparr>m_tag = 1, m_ltype = L_BOOL, m_rule = Fixed_count, m_alloc = Static, m_place = First, m_offset = 0, m_item = 1,
     m_count = 1, m_size_at = 0, m_ptr = 0\<rparr>]"

lemma Suc_4: "Suc (Suc (Suc (Suc 0))) = 4"
  by simp

lemma fixed_flag_ok: "layout_ok fixed_flag"
  by (simp add: layout_ok_def fixed_flag_def member_ok_def pb_membersize_def has_size_field_def)

text \<open>
  C40. Filling in the defaults of a struct whose only member is an array of one \<^verbatim>\<open>bool\<close> of fixed count
  stores a zero count of four bytes over the array, so the three bytes behind the struct are cleared.
\<close>

theorem fixed_count_default_overruns:
  "pb_membersize (hd fixed_flag) = 1 \<and>
   pb_message_set_to_defaults env 2 (pb_fields fixed_flag) dest m = Some (put_bytes m dest [0, 0, 0, 0]) \<and>
   put_bytes m dest [0, 0, 0, 0] (dest + 1) = 0"
proof -
  have "be_bytes (Suc (Suc (Suc (Suc 0)))) 0 = [0, 0, 0, 0]" by simp
  then have "be_bytes 4 0 = [0, 0, 0, 0]" unfolding Suc_4 .
  then have zero: "le_bytes 4 0 = [0, 0, 0, 0]" by (simp add: le_bytes_def)
  have "pb_field_set_to_default env (Suc 0) (iter_at fixed_flag dest 0) m = Some (put_bytes m dest [0, 0, 0, 0])"
    by (simp add: field_of_iter_at fixed_flag_def type_of_member Let_def zero)
      (simp add: iter_at_def size_field_at_def has_size_field_def)
  moreover have "\<not> fst (pb_field_iter_next (iter_at fixed_flag dest 0))"
    using pb_field_iter_next_eq [OF fixed_flag_ok, of 0 dest] by (simp add: fixed_flag_def)
  ultimately have "pb_message_set_to_defaults env (Suc (Suc 0)) (pb_fields fixed_flag) dest m = Some (put_bytes m dest [0, 0, 0, 0])"
    by (simp add: pb_field_iter_begin_eq [OF fixed_flag_ok]) (subst iter_each.simps, simp)
  then show ?thesis by (simp add: numeral_2_eq_2 fixed_flag_def pb_membersize_def put_bytes_def)
qed

end
