(* ===== verification/Pb_Encode.thy ===== *)
theory Pb_Encode
  imports Pb_Memory Pb_Codec
begin

text \<open>
  The message level of \<^verbatim>\<open>pb_encode.c\<close>. The encoder reads a struct in memory through its table of fields
  and does not change memory; the client's functions are taken to leave it alone too. As in theory
  \<open>Pb_Memory\<close>, \<open>None\<close> is a call that has not returned: the fuel for nested messages is used up, a linked
  list does not end, or a \<^verbatim>\<open>NULL\<close> function or a variable that was never set is used.
\<close>

section \<open>Operations\<close>

type_synonym 's pb_wop = "'s pb_ostream \<Rightarrow> (bool \<times> 's pb_ostream) option"

text \<open>The tables at addresses, and the functions that pointers in callback fields and extensions lead to.\<close>

record 's pb_out_env =
  out_descr :: "pb_addr \<Rightarrow> pb_field list"
  call_encode :: "pb_addr \<Rightarrow> pb_field \<Rightarrow> pb_addr \<Rightarrow> pb_mem \<Rightarrow> 's pb_wop"
  call_encode_extension :: "pb_addr \<Rightarrow> pb_addr \<Rightarrow> pb_mem \<Rightarrow> 's pb_wop"

definition enc_write :: "'s pb_writer \<Rightarrow> 's pb_wop" where
  "enc_write w s = Some (w s)"

definition enc_error :: "string \<Rightarrow> 's pb_wop" where
  "enc_error msg s = Some (False, out_set_error msg s)"

definition enc_ok :: "'s pb_wop" where
  "enc_ok s = Some (True, s)"

definition then_write :: "'s pb_wop \<Rightarrow> 's pb_wop \<Rightarrow> 's pb_wop" where
  "then_write a b s = (case a s of None \<Rightarrow> None | Some (ok, s') \<Rightarrow> if ok then b s' else Some (False, s'))"

text \<open>\<^verbatim>\<open>for (i = 0; i < count; i++) { if (!f(p)) return false; p += size; }\<close>\<close>

primrec each_entry :: "(pb_addr \<Rightarrow> 's pb_wop) \<Rightarrow> pb_addr \<Rightarrow> nat \<Rightarrow> pb_addr \<Rightarrow> 's pb_wop" where
  "each_entry f sz 0 p = enc_ok"
| "each_entry f sz (Suc count) p = then_write (f p) (each_entry f sz count (p + sz))"

type_synonym 's pb_encoder = "pb_field \<Rightarrow> pb_addr \<Rightarrow> 's pb_wop"
type_synonym 's pb_enc = "pb_field list \<Rightarrow> pb_addr \<Rightarrow> 's pb_wop"

section \<open>Values\<close>

definition safe_read_bool :: "pb_mem \<Rightarrow> pb_addr \<Rightarrow> bool" where
  "safe_read_bool m p \<longleftrightarrow> (\<exists>b\<in>set (get_bytes m p 1). b \<noteq> 0)"

definition pb_encode_tag_for_field :: "pb_field \<Rightarrow> 's pb_wop" where
  "pb_encode_tag_for_field field =
     (let l = PB_LTYPE (f_type field) in
      if l = 0 \<or> l = 1 \<or> l = 2 \<or> l = 3 then enc_write (pb_encode_tag PB_WT_VARINT (f_tag field))
      else if l = 4 then enc_write (pb_encode_tag PB_WT_32BIT (f_tag field))
      else if l = 5 then enc_write (pb_encode_tag PB_WT_64BIT (f_tag field))
      else if l = 6 \<or> l = 7 \<or> l = 8 \<or> l = 10 then enc_write (pb_encode_tag PB_WT_STRING (f_tag field))
      else enc_error ''invalid field type'')"

definition pb_enc_bool :: "pb_mem \<Rightarrow> 's pb_encoder" where
  "pb_enc_bool m field src = enc_write (pb_encode_varint (if safe_read_bool m src then 1 else 0))"

text \<open>An integer of \<open>k\<close> bytes, with or without sign.\<close>

definition get_signed :: "pb_mem \<Rightarrow> pb_addr \<Rightarrow> nat \<Rightarrow> u64" where
  "get_signed m p k =
     (let v = le_val (get_bytes m p k) in
      if k = 1 then scast (of_nat v :: byte) else if k = 2 then scast (of_nat v :: u16)
      else if k = 4 then scast (of_nat v :: u32) else of_nat v)"

definition get_unsigned :: "pb_mem \<Rightarrow> pb_addr \<Rightarrow> nat \<Rightarrow> u64" where
  "get_unsigned m p k = of_nat (le_val (get_bytes m p k))"

definition sized_number :: "(nat \<Rightarrow> u64) \<Rightarrow> (u64 \<Rightarrow> 's pb_writer) \<Rightarrow> pb_field \<Rightarrow> 's pb_wop" where
  "sized_number val encode field =
     (let k = unat (data_size field) in
      if k = 1 \<or> k = 2 \<or> k = 4 \<or> k = 8 then enc_write (encode (val k)) else enc_error ''invalid data_size'')"

definition pb_enc_varint :: "pb_mem \<Rightarrow> 's pb_encoder" where
  "pb_enc_varint m field src = sized_number (get_signed m src) pb_encode_varint field"

definition pb_enc_uvarint :: "pb_mem \<Rightarrow> 's pb_encoder" where
  "pb_enc_uvarint m field src = sized_number (get_unsigned m src) pb_encode_varint field"

definition pb_enc_svarint :: "pb_mem \<Rightarrow> 's pb_encoder" where
  "pb_enc_svarint m field src = sized_number (get_signed m src) pb_encode_svarint field"

definition pb_enc_fixed32 :: "pb_mem \<Rightarrow> 's pb_encoder" where
  "pb_enc_fixed32 m field src = enc_write (pb_encode_fixed32 (of_nat (le_val (get_bytes m src 4))))"

definition pb_enc_fixed64 :: "pb_mem \<Rightarrow> 's pb_encoder" where
  "pb_enc_fixed64 m field src = enc_write (pb_encode_fixed64 (of_nat (le_val (get_bytes m src 8))))"

definition pb_enc_bytes :: "pb_mem \<Rightarrow> 's pb_encoder" where
  "pb_enc_bytes m field src =
     (if src = 0 then enc_write (pb_encode_string [] 0)
      else
        let n = unat (get_size m src); allocsize = size_add n 4 in
        if allocsize < n \<or> (PB_ATYPE (f_type field) = PB_ATYPE_STATIC \<and> allocsize > unat (data_size field))
        then enc_error ''bytes size exceeded''
        else enc_write (pb_encode_string (get_bytes m (src + 4) n) n))"

text \<open>The loop over the characters, at most \<open>limit\<close> of them.\<close>

primrec string_size :: "pb_mem \<Rightarrow> nat \<Rightarrow> pb_addr \<Rightarrow> nat" where
  "string_size m 0 p = 0"
| "string_size m (Suc limit) p = (if m p \<noteq> 0 then Suc (string_size m limit (p + 1)) else 0)"

definition pb_enc_string :: "pb_mem \<Rightarrow> 's pb_encoder" where
  "pb_enc_string m field src =
     (let limit = (if PB_ATYPE (f_type field) = PB_ATYPE_POINTER then size_max else unat (data_size field));
          n = (if src = 0 then 0 else string_size m limit src)
      in enc_write (pb_encode_string (get_bytes m src n) n))"

definition pb_enc_fixed_length_bytes :: "pb_mem \<Rightarrow> 's pb_encoder" where
  "pb_enc_fixed_length_bytes m field src =
     (let n = unat (data_size field) in enc_write (pb_encode_string (get_bytes m src n) n))"

section \<open>Submessages\<close>

text \<open>\<open>enc\<close> is \<^verbatim>\<open>pb_encode\<close> for the nested message: it runs once to count and once to write.\<close>

definition pb_encode_submessage :: "'s pb_enc \<Rightarrow> 's pb_enc" where
  "pb_encode_submessage enc flds src s =
     (case enc flds src PB_OSTREAM_SIZING of
        None \<Rightarrow> None
      | Some (ok, sub) \<Rightarrow>
          if \<not> ok then Some (False, s\<lparr>out_errmsg := out_errmsg sub\<rparr>)
          else
            let sz = bytes_written sub in
            (case pb_encode_varint (of_nat sz) s of
               (False, s1) \<Rightarrow> Some (False, s1)
             | (True, s1) \<Rightarrow>
                 if (case out_sink s1 of Sizing \<Rightarrow> True | _ \<Rightarrow> False) then Some (pb_write [] sz s1)
                 else if size_add (bytes_written s1) sz > max_size s1 then enc_error ''stream full'' s1
                 else
                   (case enc flds src \<lparr>out_sink = out_sink s1, max_size = sz, bytes_written = 0, out_errmsg = None\<rparr> of
                      None \<Rightarrow> None
                    | Some (status, sub1) \<Rightarrow>
                        let s2 = s1\<lparr>bytes_written := size_add (bytes_written s1) (bytes_written sub1), out_sink := out_sink sub1,
                                    out_errmsg := out_errmsg sub1\<rparr>
                        in if bytes_written sub1 \<noteq> sz then enc_error ''submsg size changed'' s2 else Some (status, s2))))"

definition pb_enc_submessage :: "'s pb_out_env \<Rightarrow> 's pb_enc \<Rightarrow> 's pb_encoder" where
  "pb_enc_submessage env enc field src =
     (if f_ptr field = 0 then enc_error ''invalid field descriptor'' else pb_encode_submessage enc (out_descr env (f_ptr field)) src)"

definition PB_ENCODERS :: "'s pb_out_env \<Rightarrow> 's pb_enc \<Rightarrow> pb_mem \<Rightarrow> byte \<Rightarrow> 's pb_encoder" where
  "PB_ENCODERS env enc m ltype =
     (if ltype = 0 then pb_enc_bool m
      else if ltype = 1 then pb_enc_varint m
      else if ltype = 2 then pb_enc_uvarint m
      else if ltype = 3 then pb_enc_svarint m
      else if ltype = 4 then pb_enc_fixed32 m
      else if ltype = 5 then pb_enc_fixed64 m
      else if ltype = 6 then pb_enc_bytes m
      else if ltype = 7 then pb_enc_string m
      else if ltype = 8 then pb_enc_submessage env enc
      else if ltype = 10 then pb_enc_fixed_length_bytes m
      else (\<lambda>_ _ _. None))"

section \<open>Arrays\<close>

text \<open>The size of a packed array; \<open>Some None\<close> is the failure of an entry.\<close>

definition packed_size :: "pb_field \<Rightarrow> pb_addr \<Rightarrow> nat \<Rightarrow> 's pb_encoder \<Rightarrow> nat option option" where
  "packed_size field pd count func =
     (let l = PB_LTYPE (f_type field) in
      if l = 4 then Some (Some (size_mul 4 count))
      else if l = 5 then Some (Some (size_mul 8 count))
      else map_option (\<lambda>(ok, sizestream). if ok then Some (bytes_written sizestream) else None)
             (each_entry (func field) (ucast (data_size field)) count pd PB_OSTREAM_SIZING))"

definition write_packed :: "pb_field \<Rightarrow> pb_addr \<Rightarrow> nat \<Rightarrow> 's pb_encoder \<Rightarrow> nat \<Rightarrow> 's pb_wop" where
  "write_packed field pd count func sz =
     then_write (enc_write (pb_encode_varint (of_nat sz)))
       (\<lambda>s. if (case out_sink s of Sizing \<Rightarrow> True | _ \<Rightarrow> False) then Some (pb_write [] sz s)
            else each_entry (func field) (ucast (data_size field)) count pd s)"

definition encode_array :: "pb_mem \<Rightarrow> pb_field \<Rightarrow> pb_addr \<Rightarrow> nat \<Rightarrow> 's pb_encoder \<Rightarrow> 's pb_wop" where
  "encode_array m field pd count func =
     (if count = 0 then enc_ok
      else if PB_ATYPE (f_type field) \<noteq> PB_ATYPE_POINTER \<and> count > unat (array_size field) then enc_error ''array max size exceeded''
      else if PB_LTYPE (f_type field) \<le> PB_LTYPE_LAST_PACKABLE then
        then_write (enc_write (pb_encode_tag PB_WT_STRING (f_tag field)))
          (\<lambda>s. case packed_size field pd count func of
                 None \<Rightarrow> None
               | Some None \<Rightarrow> Some (False, s)
               | Some (Some sz) \<Rightarrow> write_packed field pd count func sz s)
      else
        each_entry
          (\<lambda>p. then_write (pb_encode_tag_for_field field)
                 (func field
                    (if PB_ATYPE (f_type field) = PB_ATYPE_POINTER \<and>
                        (PB_LTYPE (f_type field) = PB_LTYPE_STRING \<or> PB_LTYPE (f_type field) = PB_LTYPE_BYTES)
                     then get_ptr m p else p)))
          (ucast (data_size field)) count pd)"

section \<open>The zero values of proto3\<close>

text \<open>One round of the loop over a submessage: \<open>Inr\<close> is the value of the function.\<close>

definition proto3_step :: "(pb_field \<Rightarrow> pb_addr \<Rightarrow> bool option) \<Rightarrow> pb_field_iter \<Rightarrow> (pb_field_iter + bool) option" where
  "proto3_step check iter =
     (case check (field_of iter) (pData iter) of
        None \<Rightarrow> None
      | Some False \<Rightarrow> Some (Inr False)
      | Some True \<Rightarrow> Some (let (more, iter') = pb_field_iter_next iter in if more then Inl iter' else Inr True))"

text \<open>The part for singular fields of proto3. \<open>check\<close> is the function itself, one level down.\<close>

definition singular_is_zero :: "'s pb_out_env \<Rightarrow> pb_mem \<Rightarrow> (pb_field \<Rightarrow> pb_addr \<Rightarrow> bool option) \<Rightarrow> pb_field \<Rightarrow> pb_addr \<Rightarrow> bool option" where
  "singular_is_zero env m check field pd =
     (let type = f_type field; l = PB_LTYPE type; static = (PB_ATYPE type = PB_ATYPE_STATIC) in
      if static \<and> l = PB_LTYPE_BYTES then Some (get_size m pd = 0)
      else if static \<and> l = PB_LTYPE_STRING then Some (m pd = 0)
      else if static \<and> l = 10 then Some (data_size field = 0)
      else if static \<and> l = PB_LTYPE_SUBMESSAGE then
        (case pb_field_iter_begin (out_descr env (f_ptr field)) pd of
           (False, _) \<Rightarrow> Some True
         | (True, iter) \<Rightarrow> repeat_step (proto3_step check) iter)
      else if PB_ATYPE type = PB_ATYPE_POINTER \<and> l > PB_LTYPE_LAST_PACKABLE then Some (get_ptr m pd = 0)
      else Some (\<forall>b\<in>set (get_bytes m pd (unat (data_size field))). b = 0))"

primrec pb_check_proto3_default_value :: "'s pb_out_env \<Rightarrow> nat \<Rightarrow> pb_mem \<Rightarrow> pb_field \<Rightarrow> pb_addr \<Rightarrow> bool option" where
  "pb_check_proto3_default_value env 0 m field pd = None"
| "pb_check_proto3_default_value env (Suc n) m field pd =
     (let type = f_type field; ps = pd + scast (size_offset field);
          rest = singular_is_zero env m (pb_check_proto3_default_value env n m) field pd in
      if PB_HTYPE type = PB_HTYPE_REQUIRED then Some False
      else if PB_HTYPE type = PB_HTYPE_REPEATED then
        if size_offset field \<noteq> 0 then Some (get_size m ps = 0)
        else if PB_ATYPE type = PB_ATYPE_STATIC then Some False
        else rest
      else if PB_HTYPE type = PB_HTYPE_ONEOF then Some (get_size m ps = 0)
      else if size_offset field \<noteq> 0 then Some (\<not> safe_read_bool m ps)
      else rest)"

section \<open>Fields\<close>

text \<open>
  The value that \<^verbatim>\<open>pSize\<close> leads to: \<open>present\<close> is a \<^verbatim>\<open>bool\<close>, in the struct or the local variable
  \<^verbatim>\<open>implicit_has\<close>. Without a \<^verbatim>\<open>which_\<close> field \<^verbatim>\<open>PB_HTYPE_ONEOF\<close> would read beyond that variable.
\<close>

definition encode_basic_field :: "'s pb_out_env \<Rightarrow> nat \<Rightarrow> 's pb_enc \<Rightarrow> pb_mem \<Rightarrow> 's pb_encoder" where
  "encode_basic_field env n enc m field pd s =
     (let type = f_type field; func = PB_ENCODERS env enc m (PB_LTYPE type); so = size_offset field; ps = pd + scast so;
          data = (if PB_ATYPE type = PB_ATYPE_POINTER then get_ptr m pd else pd);
          write = then_write (pb_encode_tag_for_field field) (func field data)
      in case (if so = 0 \<and> PB_HTYPE type = PB_HTYPE_OPTIONAL then map_option Not (pb_check_proto3_default_value env n m field pd)
               else Some True) of
           None \<Rightarrow> None
         | Some has \<Rightarrow>
             let implicit_has = (if PB_ATYPE type = PB_ATYPE_POINTER then data \<noteq> 0 else has);
                 present = (if so \<noteq> 0 then safe_read_bool m ps else implicit_has)
             in if PB_HTYPE type = PB_HTYPE_REQUIRED then
                  if data = 0 then enc_error ''missing required field'' s else write s
                else if PB_HTYPE type = PB_HTYPE_OPTIONAL then if present then write s else enc_ok s
                else if PB_HTYPE type = PB_HTYPE_REPEATED then
                  encode_array m field data (if so \<noteq> 0 then unat (get_size m ps) else unat (array_size field)) func s
                else if so = 0 then None
                else if get_size m ps = f_tag field then write s else enc_ok s)"

definition encode_callback_field :: "'s pb_out_env \<Rightarrow> pb_mem \<Rightarrow> 's pb_encoder" where
  "encode_callback_field env m field pd s =
     (let f = get_ptr m pd in
      if f \<noteq> 0 then
        (case call_encode env f field (pd + 8) m s of
           None \<Rightarrow> None
         | Some (ok, s') \<Rightarrow> if ok then Some (True, s') else enc_error ''callback error'' s')
      else enc_ok s)"

definition encode_field :: "'s pb_out_env \<Rightarrow> nat \<Rightarrow> 's pb_enc \<Rightarrow> pb_mem \<Rightarrow> 's pb_encoder" where
  "encode_field env n enc m field pd =
     (let atype = PB_ATYPE (f_type field) in
      if atype = PB_ATYPE_STATIC \<or> atype = PB_ATYPE_POINTER then encode_basic_field env n enc m field pd
      else if atype = PB_ATYPE_CALLBACK then encode_callback_field env m field pd
      else enc_error ''invalid field type'')"

definition default_extension_encoder :: "'s pb_out_env \<Rightarrow> nat \<Rightarrow> 's pb_enc \<Rightarrow> pb_mem \<Rightarrow> pb_addr \<Rightarrow> 's pb_wop" where
  "default_extension_encoder env n enc m ext =
     (let field = out_descr env (get_ptr m (get_ptr m ext + 16)) ! 0 in
      if PB_ATYPE (f_type field) = PB_ATYPE_POINTER then encode_field env n enc m field (ext + 8)
      else encode_field env n enc m field (get_ptr m (ext + 8)))"

definition extension_enc_step ::
  "'s pb_out_env \<Rightarrow> nat \<Rightarrow> 's pb_enc \<Rightarrow> pb_mem \<Rightarrow> pb_addr \<times> 's pb_ostream \<Rightarrow> ((pb_addr \<times> 's pb_ostream) + (bool \<times> 's pb_ostream)) option" where
  "extension_enc_step env n enc m st =
     (case st of
        (ext, s) \<Rightarrow>
          if ext = 0 then Some (Inr (True, s))
          else
            let f = get_ptr m (get_ptr m ext + 8)
            in case (if f \<noteq> 0 then call_encode_extension env f ext m s else default_extension_encoder env n enc m ext s) of
                 None \<Rightarrow> None
               | Some (status, s') \<Rightarrow> if status then Some (Inl (get_ptr m (ext + 16), s')) else Some (Inr (False, s')))"

definition encode_extension_field :: "'s pb_out_env \<Rightarrow> nat \<Rightarrow> 's pb_enc \<Rightarrow> pb_mem \<Rightarrow> 's pb_encoder" where
  "encode_extension_field env n enc m field pd s = repeat_step (extension_enc_step env n enc m) (get_ptr m pd, s)"

section \<open>Messages\<close>

definition encode_step ::
  "'s pb_out_env \<Rightarrow> nat \<Rightarrow> 's pb_enc \<Rightarrow> pb_mem \<Rightarrow> pb_field_iter \<times> 's pb_ostream \<Rightarrow>
   ((pb_field_iter \<times> 's pb_ostream) + (bool \<times> 's pb_ostream)) option" where
  "encode_step env n enc m st =
     (case st of
        (iter, s) \<Rightarrow>
          let field = field_of iter
          in case (if PB_LTYPE (f_type field) = PB_LTYPE_EXTENSION then encode_extension_field env n enc m field (pData iter) s
                   else encode_field env n enc m field (pData iter) s) of
               None \<Rightarrow> None
             | Some (ok, s') \<Rightarrow>
                 if \<not> ok then Some (Inr (False, s'))
                 else Some (let (more, iter') = pb_field_iter_next iter in if more then Inl (iter', s') else Inr (True, s')))"

primrec pb_encode :: "'s pb_out_env \<Rightarrow> nat \<Rightarrow> pb_mem \<Rightarrow> 's pb_enc" where
  "pb_encode env 0 m = (\<lambda>_ _ _. None)"
| "pb_encode env (Suc n) m = (\<lambda>flds src s.
     case pb_field_iter_begin flds src of
       (False, _) \<Rightarrow> Some (True, s)
     | (True, iter) \<Rightarrow> repeat_step (encode_step env n (pb_encode env n m) m) (iter, s))"

definition pb_encode_delimited :: "'s pb_out_env \<Rightarrow> nat \<Rightarrow> pb_mem \<Rightarrow> 's pb_enc" where
  "pb_encode_delimited env n m = pb_encode_submessage (pb_encode env n m)"

definition pb_encode_nullterminated :: "'s pb_out_env \<Rightarrow> nat \<Rightarrow> pb_mem \<Rightarrow> 's pb_enc" where
  "pb_encode_nullterminated env n m flds src = then_write (pb_encode env n m flds src) (enc_write (pb_write [0] 1))"

text \<open>\<open>Some None\<close> is the failure of the function.\<close>

definition pb_get_encoded_size :: "'s pb_out_env \<Rightarrow> nat \<Rightarrow> pb_mem \<Rightarrow> pb_field list \<Rightarrow> pb_addr \<Rightarrow> nat option option" where
  "pb_get_encoded_size env n m flds src =
     map_option (\<lambda>(ok, s). if ok then Some (bytes_written s) else None) (pb_encode env n m flds src PB_OSTREAM_SIZING)"

end
