(* ===== verification/Pb_Wire.thy ===== *)
theory Pb_Wire
  imports Pb_Layout Pb_Encode
begin

text \<open>
  The wire format of protocol buffers for a struct of static fields, as a function of the struct in
  memory, and the rules for operations of the encoder that write given bytes.
\<close>

section \<open>The format\<close>

text \<open>\<open>None\<close> is a struct that has no encoding, such as one with a count beyond its array.\<close>

definition concat_all :: "bytes option list \<Rightarrow> bytes option" where
  "concat_all xs = map_option concat (those xs)"

definition wire_of :: "pb_ltype \<Rightarrow> pb_wire_type" where
  "wire_of l = (case l of L_BOOL \<Rightarrow> PB_WT_VARINT | L_VARINT \<Rightarrow> PB_WT_VARINT | L_UVARINT \<Rightarrow> PB_WT_VARINT | L_SVARINT \<Rightarrow> PB_WT_VARINT
     | L_FIXED32 \<Rightarrow> PB_WT_32BIT | L_FIXED64 \<Rightarrow> PB_WT_64BIT | _ \<Rightarrow> PB_WT_STRING)"

definition wire_tag :: "pb_member \<Rightarrow> pb_wire_type \<Rightarrow> bytes" where
  "wire_tag m wt = varint (m_tag m * 8 + unat (wire_number wt))"

definition prefixed :: "bytes \<Rightarrow> bytes" where
  "prefixed bs = varint (length bs) @ bs"

definition number_size :: "nat \<Rightarrow> bool" where
  "number_size k \<longleftrightarrow> k = 1 \<or> k = 2 \<or> k = 4 \<or> k = 8"

text \<open>The value of the member \<open>mb\<close> at address \<open>a\<close>; \<open>sub\<close> encodes the struct described at an address.\<close>

definition wire_value :: "(pb_addr \<Rightarrow> pb_addr \<Rightarrow> bytes option) \<Rightarrow> pb_mem \<Rightarrow> pb_member \<Rightarrow> pb_addr \<Rightarrow> bytes option" where
  "wire_value sub m mb a =
     (let k = m_item mb in
      case m_ltype mb of
        L_BOOL \<Rightarrow> Some (varint (if m a \<noteq> 0 then 1 else 0))
      | L_VARINT \<Rightarrow> if number_size k then Some (varint (unat (get_signed m a k))) else None
      | L_UVARINT \<Rightarrow> if number_size k then Some (varint (le_val (get_bytes m a k))) else None
      | L_SVARINT \<Rightarrow> if number_size k then Some (varint (unat (zigzag (get_signed m a k)))) else None
      | L_FIXED32 \<Rightarrow> Some (get_bytes m a 4)
      | L_FIXED64 \<Rightarrow> Some (get_bytes m a 8)
      | L_BYTES \<Rightarrow> let n = le_val (get_bytes m a 4) in if n + 4 \<le> k then Some (prefixed (get_bytes m (a + 4) n)) else None
      | L_STRING \<Rightarrow> Some (prefixed (takeWhile (\<lambda>b. b \<noteq> 0) (get_bytes m a k)))
      | L_SUBMESSAGE \<Rightarrow> if m_ptr mb = 0 then None else map_option prefixed (sub (m_ptr mb) a)
      | L_FIXED_LENGTH_BYTES \<Rightarrow> Some (prefixed (get_bytes m a k))
      | L_EXTENSION \<Rightarrow> None)"

definition packable :: "pb_ltype \<Rightarrow> bool" where
  "packable l \<longleftrightarrow> l \<in> {L_BOOL, L_VARINT, L_UVARINT, L_SVARINT, L_FIXED32, L_FIXED64}"

definition wire_array :: "(pb_addr \<Rightarrow> bytes option) \<Rightarrow> pb_member \<Rightarrow> pb_addr \<Rightarrow> nat \<Rightarrow> bytes option" where
  "wire_array value mb a n =
     (if n = 0 then Some []
      else if n > m_count mb then None
      else if packable (m_ltype mb) then
        map_option (\<lambda>bs. wire_tag mb PB_WT_STRING @ prefixed bs) (concat_all (map (\<lambda>i. value (a + of_nat i * of_nat (m_item mb))) [0..<n]))
      else
        concat_all (map (\<lambda>i. map_option (\<lambda>bs. wire_tag mb (wire_of (m_ltype mb)) @ bs) (value (a + of_nat i * of_nat (m_item mb)))) [0..<n]))"

text \<open>Whether a member of the struct at \<open>src\<close> has the value zero of proto3.\<close>

primrec member_zero :: "(pb_addr \<Rightarrow> pb_member list) \<Rightarrow> nat \<Rightarrow> pb_mem \<Rightarrow> pb_member \<Rightarrow> pb_addr \<Rightarrow> bool" where
  "member_zero subs 0 m mb src = False"
| "member_zero subs (Suc d) m mb src =
     (let a = src + of_nat (m_offset mb); at = src + of_nat (m_size_at mb) in
      case m_rule mb of
        Required \<Rightarrow> False
      | Fixed_count \<Rightarrow> False
      | Repeated \<Rightarrow> get_size m at = 0
      | Oneof \<Rightarrow> get_size m at = 0
      | Optional \<Rightarrow> m at = 0
      | Singular \<Rightarrow>
          (case m_ltype mb of
             L_BYTES \<Rightarrow> get_size m a = 0
           | L_STRING \<Rightarrow> m a = 0
           | L_FIXED_LENGTH_BYTES \<Rightarrow> m_item mb = 0
           | L_SUBMESSAGE \<Rightarrow> (\<forall>mb'\<in>set (subs (m_ptr mb)). member_zero subs d m mb' a)
           | _ \<Rightarrow> (\<forall>b\<in>set (get_bytes m a (m_item mb)). b = 0)))"

definition wire_member :: "(pb_addr \<Rightarrow> pb_member list) \<Rightarrow> nat \<Rightarrow> (pb_addr \<Rightarrow> pb_addr \<Rightarrow> bytes option) \<Rightarrow> pb_mem \<Rightarrow> pb_addr \<Rightarrow> pb_member \<Rightarrow> bytes option" where
  "wire_member subs d sub m src mb =
     (let a = src + of_nat (m_offset mb); at = src + of_nat (m_size_at mb); value = wire_value sub m mb;
          tagged = map_option (\<lambda>bs. wire_tag mb (wire_of (m_ltype mb)) @ bs) (value a)
      in case m_rule mb of
           Required \<Rightarrow> tagged
         | Optional \<Rightarrow> if m at \<noteq> 0 then tagged else Some []
         | Singular \<Rightarrow> if member_zero subs d m mb src then Some [] else tagged
         | Oneof \<Rightarrow> if unat (get_size m at) = m_tag mb then tagged else Some []
         | Repeated \<Rightarrow> wire_array value mb a (unat (get_size m at))
         | Fixed_count \<Rightarrow> wire_array value mb a (m_count mb))"

text \<open>The members in their order; \<open>subs\<close> gives the members of nested structs, \<open>d\<close> bounds the nesting.\<close>

primrec wire_message :: "(pb_addr \<Rightarrow> pb_member list) \<Rightarrow> nat \<Rightarrow> pb_mem \<Rightarrow> pb_member list \<Rightarrow> pb_addr \<Rightarrow> bytes option" where
  "wire_message subs 0 m ms src = None"
| "wire_message subs (Suc d) m ms src =
     concat_all (map (wire_member subs (Suc d) (\<lambda>p a. wire_message subs d m (subs p) a) m src) ms)"

section \<open>Operations that write given bytes\<close>

text \<open>
  On a counting stream or on one over a buffer, without an error so far, \<open>w\<close> writes \<open>bs\<close>, or fails when
  the buffer is too small. Sizes are below $2^{63}$.
\<close>

definition puts :: "'s pb_wop \<Rightarrow> bytes \<Rightarrow> bool" where
  "puts w bs \<longleftrightarrow> (\<forall>s. out_errmsg s = None \<longrightarrow>
     (out_sink s = Sizing \<longrightarrow> bytes_written s + length bs < 2 ^ 63 \<longrightarrow>
        w s = Some (True, s\<lparr>bytes_written := bytes_written s + length bs\<rparr>)) \<and>
     (\<forall>ds. out_sink s = Written ds \<longrightarrow> bytes_written s \<le> max_size s \<longrightarrow> max_size s < 2 ^ 63 \<longrightarrow>
        (if bytes_written s + length bs \<le> max_size s
         then w s = Some (True, s\<lparr>out_sink := Written (ds @ bs), bytes_written := bytes_written s + length bs\<rparr>)
         else \<exists>s'. w s = Some (False, s'))))"

text \<open>\<open>w\<close> returns, and it writes what \<open>r\<close> says; without an encoding it fails on every stream.\<close>

definition writes :: "'s pb_wop \<Rightarrow> bytes option \<Rightarrow> bool" where
  "writes w r \<longleftrightarrow> (\<forall>s. \<exists>ok s'. w s = Some (ok, s')) \<and>
     (case r of None \<Rightarrow> \<forall>s. \<exists>s'. w s = Some (False, s') | Some bs \<Rightarrow> length bs < 2 ^ 63 \<longrightarrow> puts w bs)"

named_theorems writing

lemma writes_returns: "writes w r \<Longrightarrow> \<exists>ok s'. w s = Some (ok, s')"
  by (simp add: writes_def)

lemma writes_fails: "writes w None \<Longrightarrow> \<exists>s'. w s = Some (False, s')"
  by (simp add: writes_def)

lemma putsD_sizing:
  "puts w bs \<Longrightarrow> out_errmsg s = None \<Longrightarrow> out_sink s = Sizing \<Longrightarrow> bytes_written s + length bs < 2 ^ 63 \<Longrightarrow>
     w s = Some (True, s\<lparr>bytes_written := bytes_written s + length bs\<rparr>)"
  by (simp add: puts_def)

lemma putsD_written:
  "puts w bs \<Longrightarrow> out_errmsg s = None \<Longrightarrow> out_sink s = Written ds \<Longrightarrow> bytes_written s + length bs \<le> max_size s \<Longrightarrow> max_size s < 2 ^ 63 \<Longrightarrow>
     w s = Some (True, s\<lparr>out_sink := Written (ds @ bs), bytes_written := bytes_written s + length bs\<rparr>)"
  unfolding puts_def by (metis add_leE)

lemma putsD_full:
  "puts w bs \<Longrightarrow> out_errmsg s = None \<Longrightarrow> out_sink s = Written ds \<Longrightarrow> bytes_written s \<le> max_size s \<Longrightarrow> max_size s < bytes_written s + length bs \<Longrightarrow>
     max_size s < 2 ^ 63 \<Longrightarrow> \<exists>s'. w s = Some (False, s')"
  unfolding puts_def by (metis not_less)

lemma putsI:
  assumes "\<And>s. out_errmsg s = None \<Longrightarrow> out_sink s = Sizing \<Longrightarrow> bytes_written s + length bs < 2 ^ 63 \<Longrightarrow>
      w s = Some (True, s\<lparr>bytes_written := bytes_written s + length bs\<rparr>)"
    and "\<And>s ds. out_errmsg s = None \<Longrightarrow> out_sink s = Written ds \<Longrightarrow> bytes_written s + length bs \<le> max_size s \<Longrightarrow> max_size s < 2 ^ 63 \<Longrightarrow>
      w s = Some (True, s\<lparr>out_sink := Written (ds @ bs), bytes_written := bytes_written s + length bs\<rparr>)"
    and "\<And>s ds. out_errmsg s = None \<Longrightarrow> out_sink s = Written ds \<Longrightarrow> bytes_written s \<le> max_size s \<Longrightarrow> max_size s < bytes_written s + length bs \<Longrightarrow>
      max_size s < 2 ^ 63 \<Longrightarrow> \<exists>s'. w s = Some (False, s')"
  shows "puts w bs"
  unfolding puts_def using assms by (simp add: not_le)

lemma puts_emits:
  assumes "emits w bs" "length bs < 2 ^ 63"
  shows "puts (enc_write w) bs"
proof (rule putsI)
  fix s :: "'a pb_ostream" and ds
  assume "out_sink s = Written ds" "bytes_written s \<le> max_size s" "max_size s < bytes_written s + length bs" "max_size s < 2 ^ 63"
  then have "\<not> fst (w s)" using assms(2) by (intro emits_full [OF assms(1)]) auto
  then show "\<exists>s'. enc_write w s = Some (False, s')" by (cases "w s") (simp add: enc_write_def)
qed (use emits_sizing [OF assms(1)] emits_written [OF assms(1)] in \<open>auto simp: enc_write_def\<close>)

lemma writes_emits [writing]: "emits w bs \<Longrightarrow> writes (enc_write w) (Some bs)"
  by (auto simp: writes_def puts_emits) (simp add: enc_write_def prod_eq_iff)

lemma writes_error [writing]: "writes (enc_error msg) None"
  by (auto simp: writes_def enc_error_def)

lemma writes_ok [writing]: "writes enc_ok (Some [])"
  by (auto simp: writes_def enc_ok_def puts_def)

text \<open>One after the other.\<close>

definition append_opt :: "bytes option \<Rightarrow> bytes option \<Rightarrow> bytes option" where
  "append_opt r q = (case r of None \<Rightarrow> None | Some bs \<Rightarrow> map_option (\<lambda>cs. bs @ cs) q)"

lemma append_opt_simps [simp]:
  "append_opt None q = None" "append_opt r None = None" "append_opt (Some bs) (Some cs) = Some (bs @ cs)" "append_opt r (Some []) = r"
  by (simp_all add: append_opt_def split: option.splits)

lemma puts_then:
  assumes "puts a bs" and "puts b cs"
  shows "puts (then_write a b) (bs @ cs)"
proof (rule putsI)
  fix s :: "'a pb_ostream"
  assume s: "out_errmsg s = None" "out_sink s = Sizing" "bytes_written s + length (bs @ cs) < 2 ^ 63"
  then show "then_write a b s = Some (True, s\<lparr>bytes_written := bytes_written s + length (bs @ cs)\<rparr>)"
    using putsD_sizing [OF assms(1), of s] putsD_sizing [OF assms(2), of "s\<lparr>bytes_written := bytes_written s + length bs\<rparr>"]
    by (simp add: then_write_def add.assoc)
next
  fix s :: "'a pb_ostream" and ds
  assume s: "out_errmsg s = None" "out_sink s = Written ds" "bytes_written s + length (bs @ cs) \<le> max_size s" "max_size s < 2 ^ 63"
  then show "then_write a b s = Some (True, s\<lparr>out_sink := Written (ds @ bs @ cs), bytes_written := bytes_written s + length (bs @ cs)\<rparr>)"
    using putsD_written [OF assms(1), of s ds]
      putsD_written [OF assms(2), of "s\<lparr>out_sink := Written (ds @ bs), bytes_written := bytes_written s + length bs\<rparr>"]
    by (simp add: then_write_def add.assoc)
next
  fix s :: "'a pb_ostream" and ds
  assume s: "out_errmsg s = None" "out_sink s = Written ds" "bytes_written s \<le> max_size s" "max_size s < bytes_written s + length (bs @ cs)" "max_size s < 2 ^ 63"
  show "\<exists>s'. then_write a b s = Some (False, s')"
  proof (cases "bytes_written s + length bs \<le> max_size s")
    case True
    then show ?thesis
      using s putsD_written [OF assms(1), of s ds]
        putsD_full [OF assms(2), of "s\<lparr>out_sink := Written (ds @ bs), bytes_written := bytes_written s + length bs\<rparr>"]
      by (simp add: then_write_def add.assoc)
  next
    case False
    then show ?thesis using s putsD_full [OF assms(1), of s ds] by (auto simp: then_write_def)
  qed
qed

lemma writes_then [writing]:
  assumes "writes a r" and "writes b q"
  shows "writes (then_write a b) (append_opt r q)"
proof -
  have ret: "\<exists>ok s'. then_write a b s = Some (ok, s')" for s
  proof -
    obtain ok s1 where "a s = Some (ok, s1)" using writes_returns [OF assms(1)] by blast
    then show ?thesis using writes_returns [OF assms(2), of s1] by (cases ok) (auto simp: then_write_def)
  qed
  have "\<exists>s'. then_write a b s = Some (False, s')" if none: "r = None \<or> q = None" for s
  proof -
    obtain ok s1 where a: "a s = Some (ok, s1)" using writes_returns [OF assms(1)] by blast
    show ?thesis
    proof (cases ok)
      case True
      then have "r \<noteq> None" using writes_fails [of a s] assms(1) a by (cases r) auto
      then show ?thesis using none writes_fails [of b s1] assms(2) a True by (cases q) (auto simp: then_write_def)
    qed (use a in \<open>simp add: then_write_def\<close>)
  qed
  moreover have "puts (then_write a b) (bs @ cs)" if "r = Some bs" "q = Some cs" "length (bs @ cs) < 2 ^ 63" for bs cs
    using that assms by (intro puts_then) (simp_all add: writes_def)
  ultimately show ?thesis using ret by (cases r; cases q) (simp_all add: writes_def)
qed

lemma concat_all_simps [simp]:
  "concat_all [] = Some []" "concat_all (x # xs) = append_opt x (concat_all xs)"
  by (auto simp: concat_all_def append_opt_def option.map_comp o_def split: option.splits)

lemma writes_each_entry:
  assumes "\<And>i. i < count \<Longrightarrow> writes (f (p + of_nat i * sz)) (g (p + of_nat i * sz))"
  shows "writes (each_entry f sz count p) (concat_all (map (\<lambda>i. g (p + of_nat i * sz)) [0..<count]))"
  using assms
proof (induction count arbitrary: p)
  case (Suc count)
  have "writes (f (p + sz + of_nat i * sz)) (g (p + sz + of_nat i * sz))" if "i < count" for i
    using Suc.prems [of "Suc i"] that by (simp add: algebra_simps)
  then have "writes (each_entry f sz count (p + sz)) (concat_all (map (\<lambda>i. g (p + sz + of_nat i * sz)) [0..<count]))" by (rule Suc.IH)
  moreover have "map (\<lambda>i. g (p + of_nat i * sz)) [0..<Suc count] = g p # map (\<lambda>i. g (p + sz + of_nat i * sz)) [0..<count]"
    unfolding map_upt_Suc by (simp add: algebra_simps)
  moreover have "writes (f p) (g p)" using Suc.prems [of 0] by simp
  ultimately show ?case by (simp add: writes_then del: upt_Suc)
qed (simp add: writes_ok)


text \<open>What is counted first and then written.\<close>

lemma unat_of_nat_length: "length bs < 2 ^ 63 \<Longrightarrow> unat (of_nat (length bs) :: u64) = length bs"
  by (simp add: unat_of_nat take_bit_nat_eq_self)

lemma puts_counted:
  assumes sizing: "\<And>s :: 's pb_ostream. out_errmsg s = None \<Longrightarrow> out_sink s = Sizing \<Longrightarrow> w s = Some (pb_write [] (length bs) s)"
    and written: "\<And>s ds. out_errmsg s = None \<Longrightarrow> out_sink s = Written ds \<Longrightarrow> bytes_written s + length bs \<le> max_size s \<Longrightarrow> max_size s < 2 ^ 63 \<Longrightarrow>
      w s = Some (True, s\<lparr>out_sink := Written (ds @ bs), bytes_written := bytes_written s + length bs\<rparr>)"
    and full: "\<And>s ds. out_errmsg s = None \<Longrightarrow> out_sink s = Written ds \<Longrightarrow> bytes_written s \<le> max_size s \<Longrightarrow> max_size s < bytes_written s + length bs \<Longrightarrow>
      max_size s < 2 ^ 63 \<Longrightarrow> \<exists>s'. w s = Some (False, s')"
  shows "puts w bs"
  using written full by (intro putsI) (simp_all add: sizing pb_write_def size_add_def)

lemma emits_length: "length bs < 2 ^ 63 \<Longrightarrow> emits (pb_encode_varint (of_nat (length bs))) (varint (length bs))"
  using emits_varint [of "of_nat (length bs)"] by (simp add: unat_of_nat_length)

text \<open>A submessage is encoded twice and prefixed with its length.\<close>

lemma submessage_sizing:
  assumes "writes (enc flds src) (Some bs)" "length bs < 2 ^ 63"
  shows "enc flds src PB_OSTREAM_SIZING = Some (True, PB_OSTREAM_SIZING\<lparr>bytes_written := length bs\<rparr>)"
  using assms putsD_sizing [of "enc flds src" bs PB_OSTREAM_SIZING] by (simp add: writes_def PB_OSTREAM_SIZING_def)

definition submessage_body :: "'s pb_enc \<Rightarrow> pb_field list \<Rightarrow> pb_addr \<Rightarrow> nat \<Rightarrow> 's pb_wop" where
  "submessage_body enc flds src sz s1 =
     (if (case out_sink s1 of Sizing \<Rightarrow> True | _ \<Rightarrow> False) then Some (pb_write [] sz s1)
      else if size_add (bytes_written s1) sz > max_size s1 then enc_error ''stream full'' s1
      else
        (case enc flds src \<lparr>out_sink = out_sink s1, max_size = sz, bytes_written = 0, out_errmsg = None\<rparr> of
           None \<Rightarrow> None
         | Some (status, sub1) \<Rightarrow>
             let s2 = s1\<lparr>bytes_written := size_add (bytes_written s1) (bytes_written sub1), out_sink := out_sink sub1,
                         out_errmsg := out_errmsg sub1\<rparr>
             in if bytes_written sub1 \<noteq> sz then enc_error ''submsg size changed'' s2 else Some (status, s2)))"

lemma pb_encode_submessage_eq:
  "pb_encode_submessage enc flds src s =
     (case enc flds src PB_OSTREAM_SIZING of
        None \<Rightarrow> None
      | Some (ok, sub) \<Rightarrow>
          if \<not> ok then Some (False, s\<lparr>out_errmsg := out_errmsg sub\<rparr>)
          else then_write (enc_write (pb_encode_varint (of_nat (bytes_written sub)))) (submessage_body enc flds src (bytes_written sub)) s)"
  by (simp add: pb_encode_submessage_def submessage_body_def then_write_def enc_write_def Let_def split: option.split prod.split bool.split)

lemma puts_body:
  fixes enc :: "'s pb_enc"
  assumes enc: "writes (enc flds src) (Some bs)" and short: "length bs < 2 ^ 63"
  shows "puts (submessage_body enc flds src (length bs)) bs"
proof (rule puts_counted)
  fix s :: "'s pb_ostream" and ds
  assume s: "out_errmsg s = None" "out_sink s = Written ds" "bytes_written s + length bs \<le> max_size s" "max_size s < 2 ^ 63"
  have p: "puts (enc flds src) bs" using enc short by (simp add: writes_def)
  have e: "enc flds src \<lparr>out_sink = Written ds, max_size = length bs, bytes_written = 0, out_errmsg = None\<rparr>
      = Some (True, \<lparr>out_sink = Written (ds @ bs), max_size = length bs, bytes_written = length bs, out_errmsg = None\<rparr>)"
    using putsD_written [OF p, of "\<lparr>out_sink = Written ds, max_size = length bs, bytes_written = 0, out_errmsg = None\<rparr>" ds] short by simp
  have "size_add (bytes_written s) (length bs) = bytes_written s + length bs" using s by (simp add: size_add_def)
  then show "submessage_body enc flds src (length bs) s =
      Some (True, s\<lparr>out_sink := Written (ds @ bs), bytes_written := bytes_written s + length bs\<rparr>)"
    using s e by (simp add: submessage_body_def Let_def)
next
  fix s :: "'s pb_ostream" and ds
  assume s: "out_errmsg s = None" "out_sink s = Written ds" "bytes_written s \<le> max_size s" "max_size s < bytes_written s + length bs" "max_size s < 2 ^ 63"
  then have "size_add (bytes_written s) (length bs) = bytes_written s + length bs" using short by (simp add: size_add_def)
  then show "\<exists>s'. submessage_body enc flds src (length bs) s = Some (False, s')" using s by (simp add: submessage_body_def enc_error_def)
qed (simp add: submessage_body_def)

lemma body_returns:
  assumes "\<And>s. \<exists>ok s'. enc flds src s = Some (ok, s')"
  shows "\<exists>ok s'. submessage_body enc flds src sz s = Some (ok, s')"
proof -
  obtain ok s' where "enc flds src \<lparr>out_sink = out_sink s, max_size = sz, bytes_written = 0, out_errmsg = None\<rparr> = Some (ok, s')"
    using assms by blast
  then show ?thesis by (auto simp: submessage_body_def Let_def enc_error_def prod_eq_iff)
qed

lemma writes_submessage [writing]:
  assumes "writes (enc flds src) r"
  shows "writes (pb_encode_submessage enc flds src) (map_option prefixed r)"
proof -
  have ret: "\<exists>ok s'. pb_encode_submessage enc flds src s = Some (ok, s')" for s
  proof -
    obtain ok sub where e: "enc flds src PB_OSTREAM_SIZING = Some (ok, sub)" using writes_returns [OF assms] by blast
    obtain ok1 s1 where v: "pb_encode_varint (of_nat (bytes_written sub)) s = (ok1, s1)" by fastforce
    have "\<exists>ok s'. submessage_body enc flds src (bytes_written sub) s1 = Some (ok, s')"
      by (rule body_returns) (rule writes_returns [OF assms])
    then show ?thesis using e v by (cases ok; cases ok1) (auto simp: pb_encode_submessage_eq then_write_def enc_write_def)
  qed
  show ?thesis
  proof (cases r)
    case None
    have "\<exists>s'. pb_encode_submessage enc flds src s = Some (False, s')" for s
      using writes_fails [of "enc flds src" PB_OSTREAM_SIZING] assms None by (auto simp: pb_encode_submessage_eq)
    then show ?thesis using ret None by (simp add: writes_def)
  next
    case (Some bs)
    have "puts (pb_encode_submessage enc flds src) (prefixed bs)" if "length (prefixed bs) < 2 ^ 63"
    proof -
      have short: "length bs < 2 ^ 63" "length (varint (length bs)) < 2 ^ 63" using that by (simp_all add: prefixed_def)
      note enc = assms [unfolded Some]
      have "pb_encode_submessage enc flds src =
          then_write (enc_write (pb_encode_varint (of_nat (length bs)))) (submessage_body enc flds src (length bs))"
        by (rule ext) (simp add: pb_encode_submessage_eq submessage_sizing [of enc flds src, OF enc short(1)])
      then show ?thesis
        using puts_then [OF puts_emits [OF emits_length [OF short(1)] short(2)] puts_body [of enc flds src, OF enc short(1)]] by (simp add: prefixed_def)
    qed
    then show ?thesis using ret Some by (simp add: writes_def)
  qed
qed

section \<open>Values\<close>

lemma get_bytes_Suc: "get_bytes m p (Suc n) = m p # get_bytes m (p + 1) n"
  unfolding get_bytes_def map_upt_Suc by (simp add: algebra_simps)

lemma get_bytes_0 [simp]: "get_bytes m p 0 = []"
  by (simp add: get_bytes_def)

lemma get_bytes_1: "get_bytes m p 1 = [m p]"
  by (simp add: get_bytes_def)

lemma safe_read_bool_iff: "safe_read_bool m p \<longleftrightarrow> m p \<noteq> 0"
  by (simp add: safe_read_bool_def get_bytes_def)

lemma string_bytes: "get_bytes m p (string_size m n p) = takeWhile (\<lambda>b. b \<noteq> 0) (get_bytes m p n)"
  by (induction n arbitrary: p) (simp_all add: get_bytes_Suc)

lemma le_val_less: "le_val bs < 256 ^ length bs"
  using be_val_less [of "rev bs"] by (simp add: le_val_def)

lemma le_bytes_le_val: "length bs = n \<Longrightarrow> le_bytes n (le_val bs) = bs"
  using be_bytes_unique [of "rev bs" n "le_val bs"] by (simp add: le_bytes_def le_val_def)

lemma writes_string [writing]: "length bs = n \<Longrightarrow> writes (enc_write (pb_encode_string bs n)) (Some (prefixed bs))"
proof -
  assume n: "length bs = n"
  have "emits (pb_encode_string bs n) (prefixed bs)" if "length bs < 2 ^ 63"
    unfolding prefixed_def pb_encode_string_def
    using emits_next [OF emits_length [OF that] emits_pb_write [of bs]] n by simp
  then show ?thesis
    by (auto simp: writes_def prefixed_def intro!: puts_emits) (simp add: enc_write_def prod_eq_iff)
qed

lemma le_bytes_eq: "le_bytes k n = map (\<lambda>i. of_nat (n div 256 ^ i)) [0..<k]"
  by (induction k) (simp_all add: le_bytes_def)

lemma byte_of_word: "ucast (drop_bit (8 * i) v AND 0xff) = (of_nat (unat v div 256 ^ i) :: byte)" for v :: "'a::len word"
proof -
  let ?x = "drop_bit (8 * i) v"
  have "ucast (?x AND 0xff) = (ucast ?x :: byte)"
    by (rule bit_word_eqI) (simp only: bit_ucast_iff bit_and_iff bit_ff, auto dest: bit_imp_le_length)
  also have "\<dots> = of_nat (unat ?x)" by (simp add: word_unat_eq_iff unsigned_ucast_eq)
  also have "unat ?x = unat v div 256 ^ i" by (simp add: unat_drop_bit power_mult)
  finally show ?thesis .
qed

lemma fixed_bytes_eq: "fixed32_bytes v = le_bytes 4 (unat v)" "fixed64_bytes w = le_bytes 8 (unat w)"
  unfolding fixed32_bytes_def fixed64_bytes_def le_bytes_eq byte_of_word by (rule refl)+

lemma unat_le_val:
  "length bs = 4 \<Longrightarrow> unat (of_nat (le_val bs) :: u32) = le_val bs" "length bs = 8 \<Longrightarrow> unat (of_nat (le_val bs) :: u64) = le_val bs"
  using le_val_less [of bs] by (auto simp: unat_of_nat take_bit_nat_eq_self)

lemma fixed_bytes_of_memory:
  "fixed32_bytes (of_nat (le_val (get_bytes m a 4))) = get_bytes m a 4"
  "fixed64_bytes (of_nat (le_val (get_bytes m a 8))) = get_bytes m a 8"
  by (simp_all add: fixed_bytes_eq unat_le_val le_bytes_le_val length_get_bytes)

end
