(* ===== verification/Pb_Encode_Wire.thy ===== *)
theory Pb_Encode_Wire
  imports Pb_Wire
begin

text \<open>
  The encoder of \<^verbatim>\<open>pb_encode.c\<close> writes the wire format of theory \<open>Pb_Wire\<close>: values, tags, arrays, the
  zero values of proto3, fields, messages.
\<close>

section \<open>Values and tags\<close>

lemma unat_number: "number_size k \<Longrightarrow> unat (of_nat (le_val (get_bytes m a k)) :: u64) = le_val (get_bytes m a k)"
proof -
  assume k: "number_size k"
  have "le_val (get_bytes m a k) < 256 ^ k" using le_val_less [of "get_bytes m a k"] by simp
  also have "(256 :: nat) ^ k \<le> 256 ^ 8" using k by (intro power_increasing) (auto simp: number_size_def)
  finally show ?thesis by (simp add: unat_of_nat take_bit_nat_eq_self)
qed

lemma sized_number_eq:
  "sized_number val encode field =
     (let k = unat (data_size field) in if number_size k then enc_write (encode (val k)) else enc_error ''invalid data_size'')"
  by (simp add: sized_number_def number_size_def)

lemma encoders_write:
  fixes env :: "'s pb_out_env"
  assumes ok: "member_ok mb" and fits: "member_fits sz mb" and a: "a \<noteq> 0"
    and sub: "m_ltype mb = L_SUBMESSAGE \<Longrightarrow> writes (enc (out_descr env (m_ptr mb)) a) (sub (m_ptr mb) a)"
  shows "writes (PB_ENCODERS env enc m (ltype_code (m_ltype mb)) (PB_FIELD prev mb) a) (wire_value sub m mb a)"
proof -
  note sizes = PB_FIELD_sizes [OF ok, of prev]
  have static: "PB_ATYPE (f_type (PB_FIELD prev mb)) = PB_ATYPE_STATIC" "PB_ATYPE_STATIC \<noteq> PB_ATYPE_POINTER"
    using fits by (simp_all add: type_of_member member_fits_def alloc_code_def) (simp add: pb_type_defs)
  note defs = PB_ENCODERS_def ltype_code_def wire_value_def Let_def sized_number_eq sizes
  show ?thesis
  proof (cases "m_ltype mb")
    case L_BOOL
    have "writes (enc_write (pb_encode_varint v)) (Some (varint (unat v)))" for v by (rule writes_emits [OF emits_varint])
    from this [of "if m a \<noteq> 0 then 1 else 0"] show ?thesis using L_BOOL
      by (simp add: defs pb_enc_bool_def safe_read_bool_iff split: if_splits)
  next
    case L_VARINT
    then show ?thesis by (simp add: defs pb_enc_varint_def writes_emits [OF emits_varint] writes_error)
  next
    case L_UVARINT
    have "writes (enc_write (pb_encode_varint (get_unsigned m a (m_item mb))) :: 's pb_wop) (Some (varint (le_val (get_bytes m a (m_item mb)))))"
      if "number_size (m_item mb)"
      using writes_emits [OF emits_varint [of "get_unsigned m a (m_item mb)"]] by (simp add: get_unsigned_def unat_number [OF that])
    then show ?thesis by (simp add: L_UVARINT defs pb_enc_uvarint_def writes_error)
  next
    case L_SVARINT
    then show ?thesis by (simp add: defs pb_enc_svarint_def writes_emits [OF emits_svarint] writes_error)
  next
    case L_FIXED32
    have "writes (enc_write (pb_encode_fixed32 (of_nat (le_val (get_bytes m a 4))))) (Some (get_bytes m a 4))"
      using writes_emits [OF emits_fixed32 [of "of_nat (le_val (get_bytes m a 4))"]] by (simp only: fixed_bytes_of_memory)
    then show ?thesis using L_FIXED32 by (simp add: defs pb_enc_fixed32_def)
  next
    case L_FIXED64
    have "writes (enc_write (pb_encode_fixed64 (of_nat (le_val (get_bytes m a 8))))) (Some (get_bytes m a 8))"
      using writes_emits [OF emits_fixed64 [of "of_nat (le_val (get_bytes m a 8))"]] by (simp only: fixed_bytes_of_memory)
    then show ?thesis using L_FIXED64 by (simp add: defs pb_enc_fixed64_def)
  next
    case L_BYTES
    let ?n = "le_val (get_bytes m a 4)"
    have n: "unat (get_size m a) = ?n" by (rule unat_le_val(1)) simp
    have "?n < 2 ^ 32" using le_val_less [of "get_bytes m a 4"] by simp
    then have "size_add ?n 4 = ?n + 4" by (simp add: size_add_def)
    then show ?thesis
      using L_BYTES a static by (simp add: defs pb_enc_bytes_def n not_less writes_string writes_error)
  next
    case L_STRING
    let ?n = "string_size m (m_item mb) a"
    have "writes (enc_write (pb_encode_string (get_bytes m a ?n) ?n) :: 's pb_wop) (Some (prefixed (get_bytes m a ?n)))"
      by (rule writes_string) simp
    then show ?thesis using L_STRING a static by (simp add: defs pb_enc_string_def string_bytes)
  next
    case L_SUBMESSAGE
    then show ?thesis by (simp add: defs pb_enc_submessage_def writes_submessage [of enc, OF sub] writes_error)
  next
    case L_FIXED_LENGTH_BYTES
    then show ?thesis using writes_string [of "get_bytes m a (m_item mb)" "m_item mb"] by (simp add: defs pb_enc_fixed_length_bytes_def)
  qed (use fits in \<open>simp add: member_fits_def\<close>)
qed

lemma emits_field_tag: "member_ok mb \<Longrightarrow> wire_ok wt \<Longrightarrow> emits (pb_encode_tag wt (f_tag (PB_FIELD prev mb))) (wire_tag mb wt)"
  using emits_tag [of wt "f_tag (PB_FIELD prev mb)"]
  by (simp add: tag_ok_def tag_number_def f_tag_PB_FIELD(2) wire_tag_def) (simp add: member_ok_def)

lemma tag_for_field:
  assumes "member_ok mb" "m_ltype mb \<noteq> L_EXTENSION"
  shows "writes (pb_encode_tag_for_field (PB_FIELD prev mb)) (Some (wire_tag mb (wire_of (m_ltype mb))))"
  using assms(2)
  by (cases "m_ltype mb")
    (simp_all add: pb_encode_tag_for_field_def type_of_member ltype_code_def wire_of_def wire_ok_def
      writes_emits [OF emits_field_tag [OF assms(1)]])

lemma append_opt_Some: "append_opt (Some bs) q = map_option (\<lambda>cs. bs @ cs) q"
  by (simp add: append_opt_def)

lemma tagged_write:
  assumes "member_ok mb" "m_ltype mb \<noteq> L_EXTENSION" "writes w r"
  shows "writes (then_write (pb_encode_tag_for_field (PB_FIELD prev mb)) w) (map_option (\<lambda>bs. wire_tag mb (wire_of (m_ltype mb)) @ bs) r)"
  using writes_then [OF tag_for_field [OF assms(1,2)] assms(3)] by (simp add: append_opt_Some)

section \<open>Arrays\<close>

lemma packable_code: "ltype_code l \<le> PB_LTYPE_LAST_PACKABLE \<longleftrightarrow> packable l"
  by (cases l) (simp_all add: ltype_code_def PB_LTYPE_LAST_PACKABLE_def packable_def)

lemma packed_size_ok:
  fixes func :: "'s pb_encoder"
  assumes each: "writes (each_entry (func F) (ucast (data_size F)) n a) r" and n: "n < 2 ^ 32"
    and fixed: "PB_LTYPE (f_type F) = 4 \<Longrightarrow> \<exists>bs. r = Some bs \<and> length bs = 4 * n"
      "PB_LTYPE (f_type F) = 5 \<Longrightarrow> \<exists>bs. r = Some bs \<and> length bs = 8 * n"
  shows "\<exists>q. packed_size F a n func = Some q \<and> (case r of None \<Rightarrow> q = None | Some bs \<Rightarrow> length bs < 2 ^ 63 \<longrightarrow> q = Some (length bs))"
proof -
  consider "PB_LTYPE (f_type F) = 4" | "PB_LTYPE (f_type F) = 5" | "PB_LTYPE (f_type F) \<noteq> 4" "PB_LTYPE (f_type F) \<noteq> 5" by blast
  then show ?thesis
  proof cases
    case 3
    obtain ok s' where e: "each_entry (func F) (ucast (data_size F)) n a PB_OSTREAM_SIZING = Some (ok, s')"
      using writes_returns [OF each] by blast
    have "\<not> ok" if "r = None" using writes_fails [OF each [unfolded that], of PB_OSTREAM_SIZING] e by auto
    moreover have "ok \<and> bytes_written s' = length bs" if "r = Some bs" "length bs < 2 ^ 63" for bs
      using each that e putsD_sizing [of "each_entry (func F) (ucast (data_size F)) n a" bs PB_OSTREAM_SIZING]
      by (simp add: writes_def PB_OSTREAM_SIZING_def)
    ultimately show ?thesis using 3 e by (cases r) (auto simp: packed_size_def Let_def)
  qed (use fixed n in \<open>auto simp: packed_size_def size_mul_def Let_def\<close>)
qed

lemma writes_packed:
  fixes func :: "'s pb_encoder"
  assumes each: "writes (each_entry (func F) (ucast (data_size F)) n a) r"
    and size: "\<exists>q. packed_size F a n func = Some q \<and> (case r of None \<Rightarrow> q = None | Some bs \<Rightarrow> length bs < 2 ^ 63 \<longrightarrow> q = Some (length bs))"
  shows "writes (\<lambda>s. case packed_size F a n func of None \<Rightarrow> None | Some None \<Rightarrow> Some (False, s) | Some (Some sz) \<Rightarrow> write_packed F a n func sz s)
    (map_option prefixed r)"
proof -
  let ?body = "\<lambda>sz s. if (case out_sink s of Sizing \<Rightarrow> True | _ \<Rightarrow> False) then Some (pb_write [] sz s)
     else each_entry (func F) (ucast (data_size F)) n a s"
  have ret: "\<exists>ok s'. write_packed F a n func sz s = Some (ok, s')" for sz s
  proof -
    obtain ok s1 where "pb_encode_varint (of_nat sz) s = (ok, s1)" by fastforce
    moreover obtain ok2 s2 where "each_entry (func F) (ucast (data_size F)) n a s1 = Some (ok2, s2)"
      using writes_returns [OF each] by blast
    ultimately show ?thesis by (cases ok; cases "pb_write [] sz s1") (auto simp: write_packed_def then_write_def enc_write_def)
  qed
  obtain q where q: "packed_size F a n func = Some q"
    "case r of None \<Rightarrow> q = None | Some bs \<Rightarrow> length bs < 2 ^ 63 \<longrightarrow> q = Some (length bs)" using size by blast
  have "puts (write_packed F a n func (length bs)) (prefixed bs)" if r: "r = Some bs" and l: "length (prefixed bs) < 2 ^ 63" for bs
  proof -
    have short: "length bs < 2 ^ 63" "length (varint (length bs)) < 2 ^ 63" using l by (simp_all add: prefixed_def)
    have p: "puts (each_entry (func F) (ucast (data_size F)) n a) bs" using each short r by (simp add: writes_def)
    have "puts (?body (length bs)) bs"
      by (rule puts_counted) (simp_all add: putsD_written [OF p] putsD_full [OF p])
    then show ?thesis unfolding write_packed_def prefixed_def by (intro puts_then puts_emits emits_length short)
  qed
  then show ?thesis using q ret by (cases q; cases r) (auto simp: writes_def prefixed_def)
qed

lemma concat_all_length:
  assumes "\<And>x. \<exists>bs. g x = Some bs \<and> length bs = k"
  shows "\<exists>bs. concat_all (map g xs) = Some bs \<and> length bs = k * length xs"
proof (induction xs)
  case (Cons x xs)
  obtain bs where "g x = Some bs" "length bs = k" using assms by blast
  then show ?case using Cons.IH by auto
qed simp

lemma fixed_codes: "ltype_code l = 4 \<longleftrightarrow> l = L_FIXED32" "ltype_code l = 5 \<longleftrightarrow> l = L_FIXED64"
  by (cases l; simp add: ltype_code_def)+

lemma data_size_step: "member_ok mb \<Longrightarrow> ucast (data_size (PB_FIELD prev mb)) = (of_nat (m_item mb) :: u64)"
  by (simp add: ucast_of_unat PB_FIELD_sizes)

lemma array_write:
  fixes func :: "'s pb_encoder"
  assumes ok: "member_ok mb" "m_alloc mb = Static" "m_ltype mb \<noteq> L_EXTENSION" "m_rule mb = Repeated \<or> m_rule mb = Fixed_count"
    and func: "\<And>i. n \<le> m_count mb \<Longrightarrow> i < n \<Longrightarrow>
      writes (func (PB_FIELD prev mb) (a + of_nat i * of_nat (m_item mb))) (value (a + of_nat i * of_nat (m_item mb)))"
    and fixed: "\<And>x. m_ltype mb = L_FIXED32 \<Longrightarrow> \<exists>bs. value x = Some bs \<and> length bs = 4"
      "\<And>x. m_ltype mb = L_FIXED64 \<Longrightarrow> \<exists>bs. value x = Some bs \<and> length bs = 8"
  shows "writes (encode_array m (PB_FIELD prev mb) a n func) (wire_array value mb a n)"
proof -
  let ?F = "PB_FIELD prev mb" and ?k = "of_nat (m_item mb) :: u64"
  let ?tagged = "\<lambda>p. map_option (\<lambda>bs. wire_tag mb (wire_of (m_ltype mb)) @ bs) (value p)"
  have F: "unat (array_size ?F) = m_count mb" "ucast (data_size ?F) = ?k" "PB_ATYPE (f_type ?F) \<noteq> PB_ATYPE_POINTER"
    "PB_LTYPE (f_type ?F) = ltype_code (m_ltype mb)"
    using ok by (simp_all add: PB_FIELD_sizes data_size_step type_of_member)
  have count: "m_count mb < 2 ^ 32" using ok by (simp add: member_ok_def)
  consider "n = 0" | "n > m_count mb" | "0 < n" "n \<le> m_count mb" "packable (m_ltype mb)" | "0 < n" "n \<le> m_count mb" "\<not> packable (m_ltype mb)"
    by linarith
  then show ?thesis
  proof cases
    case 1
    then show ?thesis by (simp add: encode_array_def wire_array_def writes_ok)
  next
    case 2
    then show ?thesis by (simp add: encode_array_def wire_array_def writes_error F)
  next
    case 3
    let ?r = "concat_all (map (\<lambda>i. value (a + of_nat i * ?k)) [0..<n])"
    have each: "writes (each_entry (func ?F) (ucast (data_size ?F)) n a) ?r"
      unfolding F by (rule writes_each_entry) (rule func [OF 3(2)])
    have "n < 2 ^ 32" using 3 count by linarith
    then have size: "\<exists>q. packed_size ?F a n func = Some q \<and> (case ?r of None \<Rightarrow> q = None | Some bs \<Rightarrow> length bs < 2 ^ 63 \<longrightarrow> q = Some (length bs))"
      by (intro packed_size_ok [of func, OF each])
        (use concat_all_length [of "\<lambda>i. value (a + of_nat i * ?k)" _ "[0..<n]"] fixed in \<open>auto simp: F fixed_codes\<close>)
    have "writes (enc_write (pb_encode_tag PB_WT_STRING (f_tag ?F)) :: 's pb_wop) (Some (wire_tag mb PB_WT_STRING))"
      by (rule writes_emits [OF emits_field_tag [OF ok(1)]]) (simp add: wire_ok_def)
    note writes_then [OF this writes_packed [of func, OF each size]]
    then show ?thesis
      using 3 by (simp add: encode_array_def wire_array_def F packable_code append_opt_Some option.map_comp o_def)
  next
    case 4
    have "writes (each_entry (\<lambda>p. then_write (pb_encode_tag_for_field ?F) (func ?F p)) ?k n a) (concat_all (map (\<lambda>i. ?tagged (a + of_nat i * ?k)) [0..<n]))"
      by (rule writes_each_entry) (rule tagged_write [of mb "func ?F p" for p, OF ok(1,3) func [OF 4(2)]])
    then show ?thesis using 4 F by (simp add: encode_array_def wire_array_def packable_code)
  qed
qed

section \<open>The zero values of proto3\<close>

lemma size_offset_zero: "member_ok mb \<Longrightarrow> size_offset (PB_FIELD prev mb) = 0 \<longleftrightarrow> \<not> has_size_field mb"
proof (cases "has_size_field mb")
  case True
  assume ok: "member_ok mb"
  let ?k = "int (m_size_at mb) - int (m_offset mb)"
  have "- (2 ^ 31) \<le> ?k" "?k < 2 ^ 31" using ok by (simp_all add: member_ok_def)
  then have "sint (of_int ?k :: u32) = ?k" by (simp add: sint_sbintrunc' signed_take_bit_int_eq_self_iff del: of_int_diff)
  moreover have "?k \<noteq> 0" using ok True by (simp add: member_ok_def)
  ultimately have "(of_int ?k :: u32) \<noteq> 0" by (metis signed_0)
  then show ?thesis using True by (simp add: PB_FIELD_def)
qed (simp add: PB_FIELD_def)

lemma proto3_loop:
  assumes l: "layout_ok ms" and p: "p < length ms"
    and check: "\<And>mb prev. mb \<in> set ms \<Longrightarrow> check (PB_FIELD prev mb) (src + of_nat (m_offset mb)) = Some (z mb)"
  shows "repeat_step (proto3_step check) (iter_at ms src p) = Some (\<forall>mb\<in>set (drop p ms). z mb)"
  using p
proof (induction "length ms - p" arbitrary: p)
  case (Suc d)
  note p = Suc.prems
  have data: "pData (iter_at ms src p) = src + of_nat (m_offset (ms ! p))" by (simp add: iter_at_def)
  have here: "check (field_of (iter_at ms src p)) (pData (iter_at ms src p)) = Some (z (ms ! p))"
    unfolding data field_of_iter_at [OF p] by (rule check) (simp add: p)
  have rest: "set (drop p ms) = insert (ms ! p) (set (drop (p + 1) ms))"
    using Cons_nth_drop_Suc [OF p] by (metis Suc_eq_plus1 list.simps(15))
  show ?case
  proof (cases "z (ms ! p) \<and> p + 1 < length ms")
    case True
    then have "repeat_step (proto3_step check) (iter_at ms src (p + 1)) = Some (\<forall>mb\<in>set (drop (p + 1) ms). z mb)"
      using Suc.hyps by simp
    then show ?thesis using True here rest pb_field_iter_next_eq [OF l p, of src]
      by (subst repeat_step.simps) (simp add: proto3_step_def)
  next
    case False
    then show ?thesis using here rest p pb_field_iter_next_eq [OF l p, of src]
      by (subst repeat_step.simps) (cases "z (ms ! p)"; simp add: proto3_step_def)
  qed
qed simp

text \<open>A field whose submessage, if it has one, nests at most \<open>d\<close> deep.\<close>

definition nests :: "'s pb_out_env \<Rightarrow> (pb_addr \<Rightarrow> pb_member list) \<Rightarrow> nat \<Rightarrow> nat \<Rightarrow> pb_member \<Rightarrow> bool" where
  "nests env subs d sz mb \<longleftrightarrow> member_ok mb \<and> member_fits sz mb \<and> (m_ltype mb = L_SUBMESSAGE \<longrightarrow>
     out_descr env (m_ptr mb) = pb_fields (subs (m_ptr mb)) \<and> msg_fits (out_descr env) subs d (subs (m_ptr mb)) (m_item mb))"

lemma nests_members:
  assumes "msg_fits (out_descr env) subs depth ms sz"
  obtains d where "depth = Suc d" "layout_ok ms" "\<And>mb. mb \<in> set ms \<Longrightarrow> nests env subs d sz mb"
proof (cases depth)
  case (Suc d)
  then have "layout_ok ms" "\<And>mb. mb \<in> set ms \<Longrightarrow> nests env subs d sz mb"
    using assms by (auto simp: nests_def layout_ok_def)
  then show thesis using that Suc by blast
qed (use assms in simp)

lemma size_at:
  assumes "member_ok mb" "has_size_field mb"
  shows "src + of_nat (m_offset mb) + scast (size_offset (PB_FIELD prev mb)) = (src + of_nat (m_size_at mb) :: pb_addr)"
  using size_offset_ok [OF assms(1), of src prev] assms(2) by (simp add: size_field_at_def)

lemma data_size_zero: "member_ok mb \<Longrightarrow> data_size (PB_FIELD prev mb) = 0 \<longleftrightarrow> m_item mb = 0"
  using PB_FIELD_sizes(1) [of mb prev] by (simp add: word_unat_eq_iff)

lemma proto3_zero:
  assumes "nests env subs d sz mb" "d < n"
  shows "pb_check_proto3_default_value env n m (PB_FIELD prev mb) (src + of_nat (m_offset mb)) = Some (member_zero subs (Suc d) m mb src)"
  using assms
proof (induction d arbitrary: sz mb prev n src rule: less_induct)
  case (less d)
  note nests = less.prems(1) [unfolded nests_def]
  let ?a = "src + of_nat (m_offset mb)" and ?F = "PB_FIELD prev mb"
  obtain k where n: "n = Suc k" using less.prems(2) by (cases n) simp_all
  have ok: "member_ok mb" and st: "m_alloc mb = Static" "m_ltype mb \<noteq> L_EXTENSION" using nests by (simp_all add: member_fits_def)
  have sub: "(case pb_field_iter_begin (out_descr env (f_ptr ?F)) ?a of (False, _) \<Rightarrow> Some True
       | (True, iter) \<Rightarrow> repeat_step (proto3_step (pb_check_proto3_default_value env k m)) iter)
     = Some (\<forall>mb'\<in>set (subs (m_ptr mb)). member_zero subs d m mb' ?a)" if "m_ltype mb = L_SUBMESSAGE"
  proof -
    have fits: "msg_fits (out_descr env) subs d (subs (m_ptr mb)) (m_item mb)"
      and descr: "out_descr env (f_ptr ?F) = pb_fields (subs (m_ptr mb))" using nests that by (simp_all add: PB_FIELD_sizes [OF ok])
    from fits obtain e where e: "d = Suc e" "layout_ok (subs (m_ptr mb))" "\<And>mb'. mb' \<in> set (subs (m_ptr mb)) \<Longrightarrow> nests env subs e (m_item mb) mb'"
      by (rule nests_members) blast
    have "e < k" using e(1) less.prems(2) n by simp
    then have "pb_check_proto3_default_value env k m (PB_FIELD prev' mb') (?a + of_nat (m_offset mb')) = Some (member_zero subs d m mb' ?a)"
      if "mb' \<in> set (subs (m_ptr mb))" for mb' prev'
      using less.IH [OF _ e(3) [OF that]] unfolding e(1) by simp
    then show ?thesis
      using proto3_loop [OF e(2) layout_okD(1) [OF e(2)], of "pb_check_proto3_default_value env k m" ?a]
      by (simp add: descr pb_field_iter_begin_eq [OF e(2)])
  qed
  have rest: "singular_is_zero env m (pb_check_proto3_default_value env k m) ?F ?a = Some (member_zero subs (Suc d) m mb src)"
    if "m_rule mb = Singular"
    using st that sub
    by (cases "m_ltype mb")
      (simp_all add: singular_is_zero_def type_of_member ltype_code_def PB_FIELD_sizes [OF ok] data_size_zero [OF ok]
        PB_LTYPE_BYTES_def PB_LTYPE_STRING_def PB_LTYPE_SUBMESSAGE_def Let_def)
  show ?case
  proof (cases "m_rule mb")
    case Singular
    then show ?thesis using rest unfolding n
      by (simp add: type_of_member size_offset_zero [OF ok] has_size_field_def Let_def)
  qed (use st in \<open>simp add: n type_of_member size_offset_zero [OF ok] has_size_field_def Let_def
      size_at [OF ok] safe_read_bool_iff\<close>)+
qed

section \<open>Fields\<close>

text \<open>A struct at an address that is not \<^verbatim>\<open>NULL\<close> and that does not wrap around.\<close>

definition placed :: "pb_addr \<Rightarrow> nat \<Rightarrow> bool" where
  "placed a sz \<longleftrightarrow> a \<noteq> 0 \<and> unat a + sz < 2 ^ 64"

lemma placed_offset:
  assumes "placed a sz" "k + sz' \<le> sz"
  shows "placed (a + of_nat k) sz'"
proof -
  have k: "unat (of_nat k :: u64) = k" using assms by (simp add: placed_def unat_of_nat take_bit_nat_eq_self)
  have "unat (a + of_nat k) = unat a + k"
    using assms by (subst unat_add_lem [THEN iffD1]) (simp_all add: k placed_def)
  then show ?thesis using assms unfolding placed_def word_unat_eq_iff by simp
qed

lemma placed_item:
  assumes "placed src sz" "m_offset mb + m_item mb * n \<le> sz" "i < n"
  shows "placed (src + of_nat (m_offset mb) + of_nat i * of_nat (m_item mb)) (m_item mb)"
proof -
  have "m_item mb * Suc i \<le> m_item mb * n" using assms(3) by (intro mult_le_mono) simp_all
  then have "m_offset mb + i * m_item mb + m_item mb \<le> sz" using assms(2) by (simp add: algebra_simps)
  then show ?thesis using placed_offset [OF assms(1), of "m_offset mb + i * m_item mb" "m_item mb"] by (simp add: add.assoc)
qed

lemma fixed_value_length:
  "m_ltype mb = L_FIXED32 \<Longrightarrow> \<exists>bs. wire_value sub m mb x = Some bs \<and> length bs = 4"
  "m_ltype mb = L_FIXED64 \<Longrightarrow> \<exists>bs. wire_value sub m mb x = Some bs \<and> length bs = 8"
  by (simp_all add: wire_value_def)

lemma field_writes:
  fixes enc :: "'s pb_enc"
  assumes nested: "nests env subs d sz mb" and "d < n" and src: "placed src sz"
    and enc: "\<And>a. m_ltype mb = L_SUBMESSAGE \<Longrightarrow> placed a (m_item mb) \<Longrightarrow> writes (enc (out_descr env (m_ptr mb)) a) (sub (m_ptr mb) a)"
  shows "writes (encode_field env n enc m (PB_FIELD prev mb) (src + of_nat (m_offset mb))) (wire_member subs (Suc d) sub m src mb)"
proof -
  let ?F = "PB_FIELD prev mb" and ?a = "src + of_nat (m_offset mb)" and ?val = "wire_value sub m mb"
  let ?func = "PB_ENCODERS env enc m (ltype_code (m_ltype mb))"
  let ?put = "then_write (pb_encode_tag_for_field ?F) (?func ?F ?a)"
  have ok: "member_ok mb" and fits: "member_fits sz mb" using nested by (simp_all add: nests_def)
  then have st: "m_alloc mb = Static" "m_ltype mb \<noteq> L_EXTENSION" and size: "m_offset mb + pb_membersize mb \<le> sz"
    by (simp_all add: member_fits_def)
  have val: "writes (?func ?F a) (?val a)" if "placed a (m_item mb)" for a
    using that enc by (intro encoders_write [OF ok fits]) (simp_all add: placed_def)
  have array: "writes (encode_array m ?F ?a k ?func) (wire_array ?val mb ?a k)" if r: "m_rule mb = Repeated \<or> m_rule mb = Fixed_count" for k
  proof (rule array_write [OF ok st r])
    fix i
    assume k: "k \<le> m_count mb" "i < k"
    have "m_offset mb + m_item mb * m_count mb \<le> sz" using size st r by (auto simp: pb_membersize_def)
    moreover have "m_item mb * k \<le> m_item mb * m_count mb" using k(1) by simp
    ultimately have "m_offset mb + m_item mb * k \<le> sz" by linarith
    then show "writes (?func ?F (?a + of_nat i * of_nat (m_item mb))) (?val (?a + of_nat i * of_nat (m_item mb)))"
      using k by (intro val placed_item [OF src]) simp_all
  qed (rule fixed_value_length, assumption)+
  have tagged: "writes ?put (map_option (\<lambda>bs. wire_tag mb (wire_of (m_ltype mb)) @ bs) (?val ?a))"
    if r: "m_rule mb \<noteq> Repeated" "m_rule mb \<noteq> Fixed_count"
    using size st r by (intro tagged_write [OF ok st(2)] val placed_offset [OF src]) (simp add: pb_membersize_def)
  have "placed ?a 0" using size by (intro placed_offset [OF src]) simp
  then have a: "?a \<noteq> 0" by (simp add: placed_def)
  have sizes: "unat (array_size ?F) = m_count mb" if "m_rule mb = Repeated \<or> m_rule mb = Fixed_count"
    using that by (simp add: PB_FIELD_sizes [OF ok] st)
  note defs = encode_field_def encode_basic_field_def Let_def type_of_member st size_offset_zero [OF ok] has_size_field_def
    size_at [OF ok] wire_member_def safe_read_bool_iff
  show ?thesis
  proof (cases "m_rule mb")
    case Required
    then have "encode_field env n enc m ?F ?a = ?put" using a by (intro ext) (simp add: defs)
    then show ?thesis using tagged Required by (simp add: wire_member_def Let_def)
  next
    case Optional
    then have "encode_field env n enc m ?F ?a = (if m (src + of_nat (m_size_at mb)) \<noteq> 0 then ?put else enc_ok)"
      by (intro ext) (simp add: defs)
    then show ?thesis using tagged Optional by (simp add: wire_member_def Let_def writes_ok)
  next
    case Singular
    then have "encode_field env n enc m ?F ?a = (if member_zero subs (Suc d) m mb src then enc_ok else ?put)"
      using proto3_zero [OF nested \<open>d < n\<close>] by (intro ext) (simp add: defs del: member_zero.simps)
    then show ?thesis using tagged Singular by (simp add: wire_member_def Let_def writes_ok del: member_zero.simps)
  next
    case Oneof
    have "get_size m x = f_tag ?F \<longleftrightarrow> unat (get_size m x) = m_tag mb" for x
      using f_tag_PB_FIELD(2) [OF ok] by (simp add: word_unat_eq_iff)
    then have "encode_field env n enc m ?F ?a = (if unat (get_size m (src + of_nat (m_size_at mb))) = m_tag mb then ?put else enc_ok)"
      using Oneof by (intro ext) (simp add: defs)
    then show ?thesis using tagged Oneof by (simp add: wire_member_def Let_def writes_ok)
  next
    case Repeated
    then have "encode_field env n enc m ?F ?a = encode_array m ?F ?a (unat (get_size m (src + of_nat (m_size_at mb)))) ?func"
      by (intro ext) (simp add: defs)
    then show ?thesis using array Repeated by (simp add: wire_member_def Let_def)
  next
    case Fixed_count
    then have "encode_field env n enc m ?F ?a = encode_array m ?F ?a (m_count mb) ?func"
      using sizes by (intro ext) (simp add: defs)
    then show ?thesis using array Fixed_count by (simp add: wire_member_def Let_def)
  qed
qed

section \<open>Messages\<close>

lemma encode_loop:
  fixes enc :: "'s pb_enc"
  assumes l: "layout_ok ms" and p: "p < length ms"
    and field: "\<And>mb prev. mb \<in> set ms \<Longrightarrow> writes (encode_field env n enc m (PB_FIELD prev mb) (src + of_nat (m_offset mb))) (w mb)"
    and plain: "\<And>mb. mb \<in> set ms \<Longrightarrow> m_ltype mb \<noteq> L_EXTENSION"
  shows "writes (\<lambda>s. repeat_step (encode_step env n enc m) (iter_at ms src p, s)) (concat_all (map w (drop p ms)))"
  using p
proof (induction "length ms - p" arbitrary: p)
  case (Suc d)
  note p = Suc.prems
  let ?F = "field_of (iter_at ms src p)" and ?rest = "if p + 1 < length ms then \<lambda>s. repeat_step (encode_step env n enc m) (iter_at ms src (p + 1), s) else enc_ok"
  have data: "pData (iter_at ms src p) = src + of_nat (m_offset (ms ! p))" by (simp add: iter_at_def)
  have ext: "PB_LTYPE (f_type ?F) \<noteq> PB_LTYPE_EXTENSION" using plain [of "ms ! p"] p by (simp add: wanted_iff(2) [OF l p])
  have here: "writes (encode_field env n enc m ?F (pData (iter_at ms src p))) (w (ms ! p))"
    unfolding data field_of_iter_at [OF p] by (rule field) (simp add: p)
  have "d = length ms - (p + 1)" using Suc.hyps(2) by simp
  then have rest: "writes ?rest (concat_all (map w (drop (p + 1) ms)))" using Suc.hyps(1) by (simp add: writes_ok)
  have "repeat_step (encode_step env n enc m) (iter_at ms src p, s) = then_write (encode_field env n enc m ?F (pData (iter_at ms src p))) ?rest s" for s
    using ext pb_field_iter_next_eq [OF l p, of src]
    by (subst repeat_step.simps) (simp add: encode_step_def then_write_def enc_ok_def split: option.split)
  moreover have "map w (drop p ms) = w (ms ! p) # map w (drop (p + 1) ms)"
    using Cons_nth_drop_Suc [OF p] by (metis Suc_eq_plus1 list.simps(9))
  ultimately show ?case using writes_then [OF here rest] by simp
qed simp

lemma message_writes:
  fixes env :: "'s pb_out_env"
  assumes "msg_fits (out_descr env) subs depth ms sz" and "depth < n" and "placed src sz"
  shows "writes (pb_encode env n m (pb_fields ms) src) (wire_message subs depth m ms src)"
  using assms
proof (induction depth arbitrary: n ms sz src)
  case (Suc d)
  obtain k where k: "n = Suc k" "d < k" using Suc.prems(2) by (cases n) simp_all
  obtain l: "layout_ok ms" and nests: "\<And>mb. mb \<in> set ms \<Longrightarrow> nests env subs d sz mb"
    using Suc.prems(1) by (rule nests_members) blast
  have sub: "writes (pb_encode env k m (out_descr env (m_ptr mb)) a) (wire_message subs d m (subs (m_ptr mb)) a)"
    if "mb \<in> set ms" "m_ltype mb = L_SUBMESSAGE" "placed a (m_item mb)" for mb a
    using nests [OF that(1)] that(2,3) Suc.IH [of "subs (m_ptr mb)" "m_item mb" k a] k(2) by (simp add: nests_def)
  let ?w = "wire_member subs (Suc d) (\<lambda>p a. wire_message subs d m (subs p) a) m src"
  have "writes (\<lambda>s. repeat_step (encode_step env k (pb_encode env k m) m) (iter_at ms src 0, s)) (concat_all (map ?w (drop 0 ms)))"
  proof (rule encode_loop [OF l layout_okD(1) [OF l]])
    fix mb prev
    assume mb: "mb \<in> set ms"
    show "writes (encode_field env k (pb_encode env k m) m (PB_FIELD prev mb) (src + of_nat (m_offset mb))) (?w mb)"
      by (rule field_writes [OF nests [OF mb] k(2) Suc.prems(3)]) (rule sub [OF mb])
    show "m_ltype mb \<noteq> L_EXTENSION" using nests [OF mb] by (simp add: nests_def member_fits_def)
  qed
  moreover have "pb_encode env n m (pb_fields ms) src = (\<lambda>s. repeat_step (encode_step env k (pb_encode env k m) m) (iter_at ms src 0, s))"
    by (simp add: k(1) pb_field_iter_begin_eq [OF l])
  ultimately show ?case by simp
qed simp

section \<open>The property\<close>

lemma writes_to_buffer:
  assumes "writes w (Some bs)" "length bs < 2 ^ 63" "cap < 2 ^ 63"
  shows "if length bs \<le> cap then w (pb_ostream_from_buffer cap) = Some (True, (pb_ostream_from_buffer cap)\<lparr>out_sink := Written bs, bytes_written := length bs\<rparr>)
    else \<exists>s'. w (pb_ostream_from_buffer cap) = Some (False, s')"
  using assms putsD_written [of w bs "pb_ostream_from_buffer cap" "[]"] putsD_full [of w bs "pb_ostream_from_buffer cap" "[]"]
  by (simp add: writes_def pb_ostream_from_buffer_def not_le)

text \<open>
  C5. A struct of static fields (numbers, strings, byte arrays, nested structs; required, optional and
  singular fields, packed and unpacked arrays, unions) is encoded into a buffer as exactly the bytes of the
  wire format, member by member in the order of the table: the fields of proto3 that are zero are left
  out, a submessage has its length before it. A buffer that is too small is an error, \<^verbatim>\<open>pb_get_encoded_size\<close>
  gives the exact size, and a struct that has no encoding, such as one with a count beyond its array, is refused.
\<close>

theorem pb_encode_writes_wire_format:
  fixes env :: "'s pb_out_env"
  assumes "msg_fits (out_descr env) subs depth ms sz" and "depth < n" and "src \<noteq> 0" and "unat src + sz < 2 ^ 64" and "cap < 2 ^ 63"
  shows "case wire_message subs depth m ms src of
      None \<Rightarrow> pb_get_encoded_size env n m (pb_fields ms) src = Some None \<and>
        (\<exists>s'. pb_encode env n m (pb_fields ms) src (pb_ostream_from_buffer cap) = Some (False, s'))
    | Some bs \<Rightarrow> length bs < 2 ^ 63 \<longrightarrow>
        pb_get_encoded_size env n m (pb_fields ms) src = Some (Some (length bs)) \<and>
        (if length bs \<le> cap
         then pb_encode env n m (pb_fields ms) src (pb_ostream_from_buffer cap) =
           Some (True, (pb_ostream_from_buffer cap)\<lparr>out_sink := Written bs, bytes_written := length bs\<rparr>)
         else \<exists>s'. pb_encode env n m (pb_fields ms) src (pb_ostream_from_buffer cap) = Some (False, s'))"
proof -
  let ?w = "pb_encode env n m (pb_fields ms) src"
  have "placed src sz" using assms by (simp add: placed_def)
  then have w: "writes ?w (wire_message subs depth m ms src)" by (rule message_writes [OF assms(1,2)])
  show ?thesis
  proof (cases "wire_message subs depth m ms src")
    case None
    then have "\<exists>s'. ?w s = Some (False, s')" for s using w writes_fails [of ?w s] by simp
    from this [of PB_OSTREAM_SIZING] this [of "pb_ostream_from_buffer cap"] show ?thesis
      using None by (auto simp: pb_get_encoded_size_def)
  next
    case (Some bs)
    note w = w [unfolded Some]
    have "pb_get_encoded_size env n m (pb_fields ms) src = Some (Some (length bs))" if "length bs < 2 ^ 63"
      using w that putsD_sizing [of ?w bs PB_OSTREAM_SIZING]
      by (simp add: pb_get_encoded_size_def writes_def PB_OSTREAM_SIZING_def)
    then show ?thesis using Some writes_to_buffer [OF w _ assms(5)] by simp
  qed
qed

text \<open>
  One submessage with \<^verbatim>\<open>a = 300\<close>, \<^verbatim>\<open>xs = {5, 7}\<close>, the union with \<^verbatim>\<open>c\<close> and \<^verbatim>\<open>r = true\<close>; the name \<^verbatim>\<open>"hi"\<close>; the codes 1, 2, 3.
\<close>

definition sample_out_env :: "'s pb_out_env" where
  "sample_out_env = \<lparr>out_descr = sample_table, call_encode = (\<lambda>_ _ _ _ s. Some (False, s)), call_encode_extension = (\<lambda>_ _ _ s. Some (False, s))\<rparr>"

definition sample_memory :: pb_mem where
  "sample_memory x =
     (case map_of [(0x1000, 1), (0x1008, 1), (0x100c, 44), (0x100d, 1), (0x1010, 2), (0x1014, 5), (0x1018, 7), (0x1020, 4), (0x1028, 1),
        (0x1029, 2), (0x102a, 3), (0x102b, 4), (0x1030, 1), (0x1068, 104), (0x1069, 105), (0x1078, 1), (0x107c, 2), (0x1080, 3)] x
      of None \<Rightarrow> 0 | Some b \<Rightarrow> b)"

lemma get_bytes_4: "get_bytes m p 4 = [m p, m (p + 1), m (p + 2), m (p + 3)]"
  by (simp add: get_bytes_def numeral_eq_Suc)

lemma sample_numbers:
  "varint 300 = [0xac, 2]" "le_val [44, 1, 0, 0] = 300" "\<And>b. le_val [b, 0, 0, 0] = unat b"
  by (simp_all add: varint_small varint_large le_val_def)

lemma sample_reads:
  "get_bytes sample_memory 0x1000 4 = [1, 0, 0, 0]" "get_bytes sample_memory 0x100c 4 = [44, 1, 0, 0]"
  "get_bytes sample_memory 0x1010 4 = [2, 0, 0, 0]" "get_bytes sample_memory 0x1014 4 = [5, 0, 0, 0]"
  "get_bytes sample_memory 0x1018 4 = [7, 0, 0, 0]" "get_bytes sample_memory 0x1020 4 = [4, 0, 0, 0]"
  "get_bytes sample_memory 0x1028 4 = [1, 2, 3, 4]" "get_bytes sample_memory 0x1078 4 = [1, 0, 0, 0]"
  "get_bytes sample_memory 0x107c 4 = [2, 0, 0, 0]" "get_bytes sample_memory 0x1080 4 = [3, 0, 0, 0]"
  "sample_memory 0x1008 = 1" "sample_memory 0x1030 = 1" "sample_memory 0x1068 = 104" "sample_memory 0x1069 = 105" "sample_memory 0x106a = 0"
  by (simp_all add: get_bytes_4 sample_memory_def)

lemma sample_name: "takeWhile (\<lambda>b. b \<noteq> 0) (get_bytes sample_memory 0x1068 16) = [104, 105]"
  by (simp add: get_bytes_def upt_rec [of _ 16] sample_memory_def)

lemmas wire_eval = wire_member_def wire_value_def wire_tag_def wire_array_def packable_def wire_of_def wire_number_def number_size_def prefixed_def
  varint_small Let_def

lemma sample_sub:
  "wire_message subs (Suc 0) sample_memory sample_struct 0x1008 =
     Some [0x08, 0xac, 0x02, 0x12, 2, 5, 7, 0x25, 1, 2, 3, 4, 0x28, 1]"
proof -
  have "wire_member subs (Suc 0) w sample_memory 0x1008 (sample_struct ! 0) = Some [0x08, 0xac, 0x02]"
    "wire_member subs (Suc 0) w sample_memory 0x1008 (sample_struct ! 1) = Some [0x12, 2, 5, 7]"
    "wire_member subs (Suc 0) w sample_memory 0x1008 (sample_struct ! 2) = Some []"
    "wire_member subs (Suc 0) w sample_memory 0x1008 (sample_struct ! 3) = Some [0x25, 1, 2, 3, 4]"
    "wire_member subs (Suc 0) w sample_memory 0x1008 (sample_struct ! 4) = Some [0x28, 1]" for w
    by (simp_all add: sample_struct_def wire_eval sample_reads sample_numbers upt_rec)
  then show ?thesis by (simp add: sample_struct_def)
qed

lemma sample_wire_message:
  "wire_message (\<lambda>_. sample_struct) 2 sample_memory nested_struct 0x1000 =
     Some [0x0a, 14, 0x08, 0xac, 0x02, 0x12, 2, 5, 7, 0x25, 1, 2, 3, 4, 0x28, 1, 0x12, 2, 104, 105, 0x1a, 12, 1, 0, 0, 0, 2, 0, 0, 0, 3, 0, 0, 0]"
proof -
  let ?w = "\<lambda>p a. wire_message (\<lambda>_. sample_struct) (Suc 0) sample_memory sample_struct a"
  let ?member = "wire_member (\<lambda>_. sample_struct) (Suc (Suc 0)) ?w sample_memory 0x1000"
  have "?member (nested_struct ! 0) = Some [0x0a, 14, 0x08, 0xac, 0x02, 0x12, 2, 5, 7, 0x25, 1, 2, 3, 4, 0x28, 1]"
    "?member (nested_struct ! 1) = Some [0x12, 2, 104, 105]"
    "?member (nested_struct ! 2) = Some [0x1a, 12, 1, 0, 0, 0, 2, 0, 0, 0, 3, 0, 0, 0]"
    by (simp_all add: nested_struct_def wire_eval sample_reads sample_numbers sample_name sample_sub upt_rec del: wire_message.simps)
  then show ?thesis unfolding numeral_2_eq_2 wire_message.simps(2) [of _ "Suc 0"] by (simp add: nested_struct_def del: wire_message.simps)
qed

lemma pb_encode_writes_wire_format_witness:
  "pb_get_encoded_size (sample_out_env :: unit pb_out_env) 4 sample_memory (pb_fields nested_struct) 0x1000 = Some (Some 34) \<and>
   pb_encode (sample_out_env :: unit pb_out_env) 4 sample_memory (pb_fields nested_struct) 0x1000 (pb_ostream_from_buffer 40) =
     Some (True, (pb_ostream_from_buffer 40)\<lparr>bytes_written := 34, out_sink :=
       Written [0x0a, 14, 0x08, 0xac, 0x02, 0x12, 2, 5, 7, 0x25, 1, 2, 3, 4, 0x28, 1, 0x12, 2, 104, 105, 0x1a, 12, 1, 0, 0, 0, 2, 0, 0, 0, 3, 0, 0, 0]\<rparr>) \<and>
   (\<exists>s'. pb_encode (sample_out_env :: unit pb_out_env) 4 sample_memory (pb_fields nested_struct) 0x1000 (pb_ostream_from_buffer 33) = Some (False, s'))"
proof -
  have fits: "msg_fits (out_descr (sample_out_env :: unit pb_out_env)) (\<lambda>_. sample_struct) 2 nested_struct 136"
    using nested_struct_fits by (simp add: sample_out_env_def)
  show ?thesis
    using pb_encode_writes_wire_format [OF fits, of 4 "0x1000" 40 sample_memory] pb_encode_writes_wire_format [OF fits, of 4 "0x1000" 33 sample_memory]
    unfolding sample_wire_message by simp
qed

end
