(* ===== verification/Cbb_Set_Of.thy ===== *)
theory Cbb_Set_Of
  imports Cbb_Props
begin

text \<open>
  \<^verbatim>\<open>CBB_flush_asn1_set_of\<close>: the comparison of the elements is the lexicographic order of byte
  strings, which DER asks for in a SET OF, and a flush rewrites the contents of the object with the
  same elements in this order.
\<close>

section \<open>The order\<close>

lemma compare_set_of_element_simps [simp]:
  "compare_set_of_element [] [] = 0"
  "compare_set_of_element [] (b # bs) = -1"
  "compare_set_of_element (a # as) [] = 1"
  "compare_set_of_element (a # as) (b # bs) = (if a = b then compare_set_of_element as bs else uint a - uint b)"
  by (auto simp: compare_set_of_element_def Let_def uint_word_arith_bintrs word_uint_eq_iff)

lemma compare_set_of_element_le: "compare_set_of_element a b \<le> 0 \<longleftrightarrow> ord_class.lexordp_eq a b"
proof (induction a arbitrary: b)
  case Nil
  then show ?case by (cases b) simp_all
next
  case (Cons x a)
  show ?case
  proof (cases b)
    case (Cons y bs)
    have "uint x - uint y \<le> 0 \<longleftrightarrow> x < y" if "x \<noteq> y"
      using that by (auto simp: word_less_def word_uint_eq_iff)
    then show ?thesis using Cons.IH [of bs] Cons by auto
  qed simp
qed

lemma compare_set_of_element_swap: "sgn (compare_set_of_element b a) = - sgn (compare_set_of_element a b)"
proof (induction a arbitrary: b)
  case Nil
  then show ?case by (cases b) simp_all
next
  case (Cons x a)
  show ?case
  proof (cases b)
    case (Cons y bs)
    have "uint x - uint y = - (uint y - uint x)" by simp
    then have "sgn (uint y - uint x) = - sgn (uint x - uint y)" by (metis sgn_minus minus_minus)
    then show ?thesis using Cons.IH [of bs] Cons by simp
  qed simp
qed

interpretation set_of: comparator compare_set_of_element
proof
  show "compare_set_of_element x z \<le> 0" if "compare_set_of_element x y \<le> 0" "compare_set_of_element y z \<le> 0" for x y z
    using that unfolding compare_set_of_element_le by (rule lexordp_eq_trans)
qed (rule compare_set_of_element_swap)

lemma sorted_elements: "sorted_wrt ord_class.lexordp_eq (qsort compare_set_of_element xs)"
  using qsort.sorts [OF set_of.comparator_axioms, of xs] by (simp add: ordered_def compare_set_of_element_le)

section \<open>Parsing the contents\<close>

definition is_element :: "bytes \<Rightarrow> bool" where
  "is_element e \<longleftrightarrow> (\<exists>tag body. length body < 2 ^ 32 \<and> e = der_element tag body)"

lemma get_element:
  assumes "is_element e"
  shows "\<exists>tag h. CBS_get_any_asn1_element (e @ r) = (Some (e, tag, h), r)"
  using assms cbs_get_any_asn1_element_der by (auto simp: is_element_def CBS_get_any_asn1_element_def)

lemma count_children_elements: "\<forall>e\<in>set es. is_element e \<Longrightarrow> count_children (concat es) = Some (length es)"
proof (induction es)
  case (Cons e es)
  obtain tag h where g: "CBS_get_any_asn1_element (e @ concat es) = (Some (e, tag, h), concat es)"
    using get_element [of e "concat es"] Cons.prems by auto
  have "e \<noteq> []" using Cons.prems by (auto simp: is_element_def)
  then show ?case using Cons g by (subst count_children.simps) simp
qed (simp add: count_children.simps)

lemma get_children_elements: "\<forall>e\<in>set es. is_element e \<Longrightarrow> get_children (length es) (concat es) = Some es"
proof (induction es)
  case (Cons e es)
  obtain tag h where "CBS_get_any_asn1_element (e @ concat es) = (Some (e, tag, h), concat es)"
    using get_element [of e "concat es"] Cons.prems by auto
  then show ?case using Cons by simp
qed simp

section \<open>Writing them back\<close>

lemma appender_add_children:
  assumes "\<forall>x\<in>set xs. length x < 2 ^ 64" and "xs \<noteq> []"
  shows "appender d (length (concat xs)) (concat xs) (add_children d xs)"
  using assms
proof (induction xs)
  case (Cons x xs)
  have add: "add_children d (x # xs) = and_then (CBB_add_bytes d x) (add_children d xs)"
    by (rule ext) (simp add: and_then_def)
  have x: "appender d (length x) x (CBB_add_bytes d x)" using Cons.prems by (intro appender_add_bytes) simp
  show ?case
  proof (cases "xs = []")
    case True
    have "add_children d [x] = CBB_add_bytes d x" by (auto simp: fun_eq_iff split: prod.splits bool.splits)
    then show ?thesis using x True by simp
  next
    case False
    then show ?thesis using appender_and_then [OF x Cons.IH] Cons.prems(1) by (simp add: add)
  qed
qed simp

text \<open>The contents of the last object are what was added to it since it started.\<close>

definition rewound :: "nat \<Rightarrow> cbb_buffer \<Rightarrow> cbb \<Rightarrow> cbb" where
  "rewound d base c = c\<lparr>cbb_base := Some (base\<lparr>bb_len := frame_start c d\<rparr>)\<rparr>"

lemma rewound_ok:
  assumes ok: "cbb_ok c" and base: "cbb_base c = Some base" and d: "length (cbb_chain c) = d"
  shows "cbb_ok (rewound d base c)" "cbb_abs c = append_last (CBB_data d c) (cbb_abs (rewound d base c))"
    "frame_start c d + length (CBB_data d c) = bb_len base"
proof -
  have b: "buffer_ok base" "frames_ok 0 (cbb_chain c) (bb_len base)" using ok base by (simp_all add: cbb_ok_def)
  have le: "frame_start c d \<le> bb_len base"
    using frames_ok_drop [OF b(2), of d] d by (simp add: frame_start_at)
  have fr: "frames_ok 0 (cbb_chain c) (frame_start c d)"
    using frames_ok_replace [OF b(2), of d "[]" "frame_start c d"] d by (simp add: frame_start_at)
  have "cbb_inv None (rewound d base c)"
    unfolding rewound_def by (rule keeps_rewind [OF _ base d]) (simp add: cbb_inv_def ok split: option.splits)
  then show "cbb_ok (rewound d base c)" by (simp add: cbb_inv_def)
  let ?r = "take (frame_start c d) (contents base)"
  have "contents (base\<lparr>bb_len := frame_start c d\<rparr>) = ?r" using le by (simp add: contents_def min_absorb1)
  then have abs: "cbb_abs (rewound d base c) = (segment ?r 0 (cbb_chain c), segments ?r (cbb_chain c))"
    by (simp add: rewound_def cbb_abs_def)
  have data: "CBB_data d c = drop (frame_start c d) (contents base)" by (simp add: CBB_data_def base contents_def)
  have len: "length ?r = frame_start c d" using le b(1) by simp
  have "cbb_abs c = (segment (?r @ CBB_data d c) 0 (cbb_chain c), segments (?r @ CBB_data d c) (cbb_chain c))"
    unfolding data append_take_drop_id by (simp add: cbb_abs_def base)
  then show "cbb_abs c = append_last (CBB_data d c) (cbb_abs (rewound d base c))"
    unfolding abs using segment_append [of 0 "cbb_chain c" ?r "CBB_data d c"] fr len by simp
  show "frame_start c d + length (CBB_data d c) = bb_len base" unfolding data using le b(1) by simp
qed

fun last_part :: "builder \<Rightarrow> bytes" where
  "last_part (t, ch) = (if ch = [] then t else snd (last ch))"

lemma last_part_append: "last_part (append_last xs a) = last_part a @ xs"
proof (induction xs a rule: append_last.induct)
  case (2 xs t k b ch)
  obtain b' ch' where r: "append_last xs (b, ch) = (b', ch')" by fastforce
  then have "ch' = [] \<longleftrightarrow> ch = []" using length_append_last [of xs "(b, ch)"] by auto
  then show ?case using 2 r by (cases "ch = []") simp_all
qed simp

lemma last_segments: "fs \<noteq> [] \<Longrightarrow> snd (last (segments s fs)) = drop (frame_end (last fs)) s"
proof (induction fs)
  case (Cons f fs)
  have "segments s fs = [] \<longleftrightarrow> fs = []" by (cases fs) simp_all
  then show ?case using Cons by simp
qed simp

lemma last_part_data:
  assumes "cbb_base c = Some base" "length (cbb_chain c) = d"
  shows "last_part (cbb_abs c) = CBB_data d c"
proof (cases "cbb_chain c = []")
  case True
  then show ?thesis using assms by (auto simp: cbb_abs_def CBB_data_def contents_def frame_start_def)
next
  case False
  then have "segments (contents base) (cbb_chain c) \<noteq> []" "0 < d" using assms(2) by (cases "cbb_chain c"; simp)+
  moreover have "cbb_chain c ! (d - 1) = last (cbb_chain c)" using False assms(2) by (simp add: last_conv_nth)
  ultimately show ?thesis using assms(1) last_segments [OF False, of "contents base"]
    by (simp add: cbb_abs_def CBB_data_def contents_def frame_start_def frame_end_def Let_def)
qed

section \<open>Flushing a SET OF\<close>

text \<open>Two or more elements: they are sorted and written over the old contents.\<close>

lemma set_of_rewrites:
  assumes ok: "cbb_ok c" "healthy c" "length (cbb_chain c) = d" and base: "cbb_base c = Some base" "\<not> bb_error base"
    and data: "CBB_data d c = concat es" and m: "mset ss = mset es" and ne: "es \<noteq> []"
  shows "\<exists>c'. add_children d ss (rewound d base c) = (True, c') \<and> CBB_data d c' = concat ss \<and>
    cbb_abs c' = append_last (concat ss) (cbb_abs (rewound d base c))"
proof -
  let ?r = "rewound d base c"
  note r = rewound_ok [OF ok(1) base(1) ok(3)]
  have len: "length (concat ss) = length (concat es)" using m by (metis length_concat mset_map sum_mset_sum_list)
  have short: "length (concat es) < 2 ^ 64" using r(3) ok(1) base(1) data by (auto simp: cbb_ok_def buffer_ok_def)
  have "length e \<le> length (concat es)" if "e \<in> set es" for e
    using that by (auto simp: length_concat intro: member_le_sum_list)
  then have "\<forall>e\<in>set ss. length e < 2 ^ 64" using short mset_eq_setD [OF m] by fastforce
  moreover have "ss \<noteq> []" using ne m by auto
  ultimately have app: "appender d (length (concat ss)) (concat ss) (add_children d ss)" by (rule appender_add_children)
  have "has_room (base\<lparr>bb_len := frame_start c d\<rparr>) (length (concat ss))"
    using r(3) ok(1) base(1) data len by (auto simp: has_room_def cbb_ok_def buffer_ok_def)
  then have room: "room d (length (concat ss) + 0) ?r"
    using base(2) ok(3) collapse_at_last [of "cbb_abs ?r" d] by (simp add: room_def rewound_def cbb_abs_def)
  obtain c' where c': "add_children d ss ?r = (True, c')" by (rule appender.succeeds [OF app r(1) room])
  have "collapse_at d (cbb_abs ?r) = Some (cbb_abs ?r)"
    using ok(3) by (intro collapse_at_last) (simp add: rewound_def cbb_abs_def)
  then have abs: "cbb_abs c' = append_last (concat ss) (cbb_abs ?r)" "length (cbb_chain c') = d" "healthy c'"
    using appender.effect [OF app r(1) c'] by auto
  have "last_part (cbb_abs ?r) = []"
    using last_part_data [of ?r "base\<lparr>bb_len := frame_start c d\<rparr>" d] ok(3)
    by (simp add: rewound_def CBB_data_def frame_start_def)
  then have "last_part (cbb_abs c') = concat ss" unfolding abs(1) last_part_append by simp
  then have "CBB_data d c' = concat ss" using last_part_data [OF _ abs(2)] abs(3) by (auto simp: healthy_def)
  then show ?thesis using c' abs(1) by blast
qed

text \<open>
  C39. When memory does not run out, \<^verbatim>\<open>CBB_flush_asn1_set_of\<close> on an object whose contents are a
  sequence of elements succeeds, leaves the bytes before the object alone, and reorders the elements
  into the lexicographic order of their encodings.
\<close>

theorem CBB_flush_asn1_set_of_sorts:
  assumes "cbb_inv fixed c" and fl: "CBB_flush d c = (True, c1)" and es: "CBB_data d c1 = concat es" "\<forall>e\<in>set es. is_element e"
    and n: "length es \<le> size_max div 16" and a: "\<forall>base m. cbb_base c1 = Some base \<longrightarrow> bb_alloc base m"
  shows "\<exists>c' before sorted_es. CBB_flush_asn1_set_of d c = (True, c') \<and> CBB_data d c' = concat sorted_es \<and>
    mset sorted_es = mset es \<and> sorted_wrt ord_class.lexordp_eq sorted_es \<and>
    cbb_abs c1 = append_last (concat es) before \<and> cbb_abs c' = append_last (concat sorted_es) before"
proof -
  have ok: "cbb_ok c1" "healthy c1" "length (cbb_chain c1) = d"
    using CBB_flush_cases [OF _ fl] assms(1) by (simp_all add: cbb_inv_def)
  then obtain base where base: "cbb_base c1 = Some base" "\<not> bb_error base" by (auto simp: healthy_def)
  have al: "bb_alloc base m" for m using a base(1) by simp
  note count = count_children_elements [OF es(2)] and get = get_children_elements [OF es(2)]
  have abs: "cbb_abs c1 = append_last (concat es) (cbb_abs (rewound d base c1))"
    using rewound_ok(2) [OF ok(1) base(1) ok(3)] es(1) by simp
  show ?thesis
  proof (cases "length es < 2")
    case True
    have "CBB_flush_asn1_set_of d c = (True, c1)" using True fl base count es(1) by (simp add: CBB_flush_asn1_set_of_def)
    moreover have "sorted_wrt ord_class.lexordp_eq es" using True by (cases es; cases "tl es") simp_all
    ultimately show ?thesis using abs es(1) by metis
  next
    case False
    define ss where "ss = qsort compare_set_of_element es"
    have ss: "mset ss = mset es" "sorted_wrt ord_class.lexordp_eq ss" by (simp_all add: ss_def qsort.perm sorted_elements)
    have ne: "es \<noteq> []" "\<exists>e\<in>set es. e \<noteq> []" using False es(2) by (cases es; auto simp: is_element_def)+
    obtain c' where c': "add_children d ss (rewound d base c1) = (True, c')" "CBB_data d c' = concat ss"
        "cbb_abs c' = append_last (concat ss) (cbb_abs (rewound d base c1))"
      using set_of_rewrites [OF ok base es(1) ss(1) ne(1)] by blast
    have "CBB_flush_asn1_set_of d c = (True, c')"
      using False fl base count get es(1) ne(2) n al c'(1)
      by (simp add: CBB_flush_asn1_set_of_def OPENSSL_memdup_def ss_def rewound_def)
    then show ?thesis using ss abs c'(2,3) by metis
  qed
qed

lemma CBB_flush_asn1_set_of_sorts_witness:
  "\<exists>c'. CBB_flush_asn1_set_of 0
      \<lparr>cbb_base = Some \<lparr>bb_buf = [2, 1, 2, 2, 1, 1], bb_len = 6, bb_cap = 6, bb_can_resize = False, bb_error = False,
         bb_alloc = (\<lambda>_. True), bb_fresh = 0\<rparr>, cbb_chain = []\<rparr> = (True, c') \<and> CBB_data 0 c' = [2, 1, 1, 2, 1, 2]"
proof -
  let ?c = "\<lparr>cbb_base = Some \<lparr>bb_buf = [2, 1, 2, 2, 1, 1], bb_len = 6, bb_cap = 6, bb_can_resize = False, bb_error = False,
         bb_alloc = (\<lambda>_. True), bb_fresh = 0\<rparr>, cbb_chain = []\<rparr>"
  have "[2, 1, 2] = der_element CBS_ASN1_INTEGER [2]" "[2, 1, 1] = der_element CBS_ASN1_INTEGER [1]"
    by (simp_all add: der_element_def der_header_def der_length_def)
  then have es: "\<forall>e\<in>set [[2, 1, 2], [2, 1, 1]]. is_element e"
    unfolding is_element_def by (metis empty_iff empty_set length_Cons list.size(3) one_less_numeral_iff one_less_power set_ConsD zero_less_numeral semiring_norm(76) One_nat_def)
  have inv: "cbb_inv None ?c" by (simp add: cbb_inv_def cbb_ok_def buffer_ok_def)
  have fl: "CBB_flush 0 ?c = (True, ?c)" by (simp add: CBB_flush_def)
  have d: "CBB_data 0 ?c = concat [[2, 1, 2], [2, 1, 1]]" by (simp add: CBB_data_def frame_start_def)
  obtain c' ss where s: "CBB_flush_asn1_set_of 0 ?c = (True, c')" "CBB_data 0 c' = concat ss"
      "mset ss = mset [[2, 1, 2], [2, 1, 1]]" "sorted_wrt ord_class.lexordp_eq ss"
    using CBB_flush_asn1_set_of_sorts [OF inv fl d es] by (auto simp: size_max_def)
  have "length ss = 2" using s(3) by (metis length_Cons list.size(3) numeral_2_eq_2 size_mset)
  then obtain x y where xy: "ss = [x, y]" by (auto simp: numeral_2_eq_2 length_Suc_conv)
  then have "ss = [[2, 1, 1], [2, 1, 2]]" using s(3,4) by (auto simp: add_eq_conv_ex)
  then show ?thesis using s(1,2) by simp
qed

end
