(* ===== verification/Ber.thy ===== *)
theory Ber
  imports Cbb_Props
begin

text \<open>
  \<^verbatim>\<open>crypto/bytestring/ber.c\<close>: converting BER to DER. The reader is that of theory \<open>Cbs_Asn1\<close> with BER
  allowed, which accepts the indefinite length next to DER; what is converted is written through a
  \<^verbatim>\<open>CBB\<close>. \<open>None\<close> from a converting function is a call that does not return.
\<close>

section \<open>The code\<close>

definition kMaxDepth :: nat where "kMaxDepth = 2048"

definition is_string_type :: "u32 \<Rightarrow> bool" where
  "is_string_type tag \<longleftrightarrow>
     tag AND NOT CBS_ASN1_CONSTRUCTED \<in> {0x3, 0x4, 0xc, 0x12, 0x13, 0x14, 0x15, 0x16, 0x19, 0x1a, 0x1b, 0x1c, 0x1e}"

text \<open>The test for an element of indefinite length, on the element with its header.\<close>

definition is_indefinite :: "nat \<Rightarrow> bytes \<Rightarrow> bool" where
  "is_indefinite header_len element \<longleftrightarrow>
     length element = header_len \<and> header_len > 0 \<and> element ! (header_len - 1) = 0x80"

definition is_eoc :: "nat \<Rightarrow> bytes \<Rightarrow> bool" where
  "is_eoc header_len element \<longleftrightarrow> header_len = 2 \<and> length element = 2 \<and> element = [0, 0]"

subsection \<open>Elements with BER allowed\<close>

lemma length_byte_0x80: "(b :: byte) AND 0x80 \<noteq> 0 \<and> unat (b AND 0x7f) = 0 \<longleftrightarrow> b = 0x80"
  by (rule byte_exhaust [of "\<lambda>b. b AND 0x80 \<noteq> 0 \<and> unat (b AND 0x7f) = 0 \<longleftrightarrow> b = 0x80"]) code_simp

lemma ber_element_eq:
  "CBS_get_any_ber_asn1_element s =
     (case parse_asn1_tag s of
        (Some tag, b # r) \<Rightarrow>
          if b = 0x80 \<and> tag AND CBS_ASN1_CONSTRUCTED \<noteq> 0 then get_element tag (length s - length r) (length s - length r) s
          else CBS_get_any_asn1_element s
      | _ \<Rightarrow> (None, s))"
  using length_byte_0x80
  by (auto simp: CBS_get_any_ber_asn1_element_def CBS_get_any_asn1_element_def cbs_get_any_asn1_element_def CBS_get_u8_Nil
      Let_def split: prod.splits option.splits list.splits)

lemma ber_element_Some:
  "CBS_get_any_ber_asn1_element s = (Some (out, tag, h), r) \<longleftrightarrow>
     s = out @ r \<and>
     ((\<exists>body. length body < 2 ^ 32 \<and> out = der_element tag body \<and> h = length (der_header tag (length body))) \<or>
      tag AND CBS_ASN1_CONSTRUCTED \<noteq> 0 \<and> out = der_tag tag @ [0x80] \<and> h = length out)"
proof
  assume get: "CBS_get_any_ber_asn1_element s = (Some (out, tag, h), r)"
  then obtain tag' b s' where p: "parse_asn1_tag s = (Some tag', b # s')"
    by (auto simp: ber_element_eq split: prod.splits option.splits list.splits)
  then have s: "s = der_tag tag' @ b # s'" by (rule parse_asn1_tag_sound)
  show "s = out @ r \<and>
     ((\<exists>body. length body < 2 ^ 32 \<and> out = der_element tag body \<and> h = length (der_header tag (length body))) \<or>
      tag AND CBS_ASN1_CONSTRUCTED \<noteq> 0 \<and> out = der_tag tag @ [0x80] \<and> h = length out)"
  proof (cases "b = 0x80 \<and> tag' AND CBS_ASN1_CONSTRUCTED \<noteq> 0")
    case True
    then have g: "s = out @ r" "length out = length (der_tag tag' @ [b])" "tag = tag'" "h = length out"
      using get p s by (auto simp: ber_element_eq get_element_Some)
    have "s = (der_tag tag' @ [b]) @ s'" using s by simp
    then have "out = der_tag tag' @ [b]" using g(1,2) by (metis append_eq_append_conv)
    then show ?thesis using True g by simp
  next
    case False
    then show ?thesis using get p CBS_get_any_asn1_element_sound [of s out tag h r] by (auto simp: ber_element_eq)
  qed
next
  assume "s = out @ r \<and>
     ((\<exists>body. length body < 2 ^ 32 \<and> out = der_element tag body \<and> h = length (der_header tag (length body))) \<or>
      tag AND CBS_ASN1_CONSTRUCTED \<noteq> 0 \<and> out = der_tag tag @ [0x80] \<and> h = length out)"
  then consider body where "s = out @ r" "length body < 2 ^ 32" "out = der_element tag body" "h = length (der_header tag (length body))"
    | "s = out @ r" "tag AND CBS_ASN1_CONSTRUCTED \<noteq> 0" "out = der_tag tag @ [0x80]" "h = length out" by blast
  then show "CBS_get_any_ber_asn1_element s = (Some (out, tag, h), r)"
  proof cases
    case 1
    then show ?thesis by (simp add: CBS_get_any_ber_asn1_element_def cbs_get_any_asn1_element_der)
  next
    case 2
    then show ?thesis using parse_asn1_tag_der_tag [of tag "0x80 # r"] by (auto simp: ber_element_eq get_element_Some)
  qed
qed

lemma der_header_nonempty [simp]: "der_header tag n \<noteq> []"
  using der_header_length(1) [of tag n] by auto

lemma ber_element_shorter:
  assumes "CBS_get_any_ber_asn1_element s = (Some (out, tag, h), r)"
  shows "length r < length s" "CBS_skip h out = (True, body) \<Longrightarrow> length body < length s"
  using assms by (auto simp: ber_element_Some der_element_def CBS_skip_append CBS_skip_eq split: if_splits)

lemma ber_element_shorter':
  assumes "(Some (out, tag, h), r) = CBS_get_any_ber_asn1_element s"
  shows "length r < length s" "(True, body) = CBS_skip h out \<Longrightarrow> Suc (2 * length body) < 2 * length s"
  using ber_element_shorter [OF assms [symmetric]] by (auto dest!: sym [of "(True, body)"])

subsection \<open>Looking for BER\<close>

text \<open>
  \<open>None\<close> is a failure, \<open>Some found\<close> a success with \<^verbatim>\<open>*ber_found = found\<close>. The call for the contents of an
  element starts with \<^verbatim>\<open>*ber_found = 0\<close> on the same variable, and the loop goes on after it.
\<close>

function cbs_find_ber :: "nat \<Rightarrow> bytes \<Rightarrow> bool option"
  and find_ber_loop :: "nat \<Rightarrow> bool \<Rightarrow> bytes \<Rightarrow> bool option" where
  "cbs_find_ber depth orig_in = (if depth > kMaxDepth then None else find_ber_loop depth False orig_in)"
| "find_ber_loop depth ber_found inp =
     (if inp = [] then Some ber_found
      else case CBS_get_any_ber_asn1_element inp of
        (None, _) \<Rightarrow> None
      | (Some (element, tag, header_len), inp') \<Rightarrow>
          if is_indefinite header_len element then Some True
          else if tag AND CBS_ASN1_CONSTRUCTED \<noteq> 0 then
            if is_string_type tag then Some True
            else (case CBS_skip header_len element of
                    (False, _) \<Rightarrow> None
                  | (True, body) \<Rightarrow>
                      (case cbs_find_ber (depth + 1) body of None \<Rightarrow> None | Some found \<Rightarrow> find_ber_loop depth found inp'))
          else find_ber_loop depth ber_found inp')"
  by pat_completeness auto
termination
  by (relation "measure (\<lambda>x. case x of Inl (_, s) \<Rightarrow> 2 * length s + 1 | Inr (_, _, s) \<Rightarrow> 2 * length s)")
    (auto dest: ber_element_shorter')

declare cbs_find_ber.simps [simp del] find_ber_loop.simps [simp del]

subsection \<open>Converting\<close>

text \<open>
  Where the contents of an element go: to \<open>out\<close> itself within a constructed string, otherwise to a new
  child of it. The result is the depth of \<^verbatim>\<open>out_contents\<close> and \<^verbatim>\<open>child_string_tag\<close>.
\<close>

definition child_tag :: "u32 \<Rightarrow> u32 \<Rightarrow> u32" where
  "child_tag string_tag tag =
     (if string_tag = 0 \<and> tag AND CBS_ASN1_CONSTRUCTED \<noteq> 0 \<and> is_string_type tag then tag AND NOT CBS_ASN1_CONSTRUCTED
      else string_tag)"

definition start_element :: "nat \<Rightarrow> u32 \<Rightarrow> u32 \<Rightarrow> cbb \<Rightarrow> bool \<times> cbb" where
  "start_element out string_tag tag c =
     (if string_tag \<noteq> 0 then (tag AND NOT CBS_ASN1_CONSTRUCTED = string_tag, c)
      else
        let out_tag = (if tag AND CBS_ASN1_CONSTRUCTED \<noteq> 0 \<and> is_string_type tag then tag AND NOT CBS_ASN1_CONSTRUCTED else tag)
        in CBB_add_asn1 out out_tag c)"

text \<open>The result is the success, the new \<^verbatim>\<open>in\<close> and the builder.\<close>

partial_function (option) cbs_convert_ber ::
  "nat \<Rightarrow> u32 \<Rightarrow> bool \<Rightarrow> nat \<Rightarrow> bytes \<Rightarrow> cbb \<Rightarrow> (bool \<times> bytes \<times> cbb) option" where
  "cbs_convert_ber out string_tag looking_for_eoc depth inp c =
     (if depth > kMaxDepth then Some (False, inp, c)
      else if inp = [] then Some (\<not> looking_for_eoc, inp, c)
      else case CBS_get_any_ber_asn1_element inp of
        (None, inp') \<Rightarrow> Some (False, inp', c)
      | (Some (element, tag, header_len), inp') \<Rightarrow>
          if is_eoc header_len element then Some (looking_for_eoc, inp', c)
          else case start_element out string_tag tag c of
            (started, c') \<Rightarrow>
              if \<not> started then Some (False, inp', c')
              else Option.bind
                (if is_indefinite header_len element
                 then cbs_convert_ber (if string_tag \<noteq> 0 then out else out + 1) (child_tag string_tag tag) True (depth + 1) inp' c'
                 else case CBS_skip header_len element of
                   (skipped, body) \<Rightarrow>
                     if \<not> skipped then Some (False, inp', c')
                     else if tag AND CBS_ASN1_CONSTRUCTED \<noteq> 0
                     then Option.bind
                            (cbs_convert_ber (if string_tag \<noteq> 0 then out else out + 1) (child_tag string_tag tag) False (depth + 1) body c')
                            (\<lambda>(ok, _, c''). Some (ok, inp', c''))
                     else (case CBB_add_bytes (if string_tag \<noteq> 0 then out else out + 1) body c' of (ok, c'') \<Rightarrow> Some (ok, inp', c'')))
                (\<lambda>(ok, inp'', c'').
                   if \<not> ok then Some (False, inp'', c'')
                   else case CBB_flush out c'' of
                     (flushed, c3) \<Rightarrow>
                       if flushed then cbs_convert_ber out string_tag looking_for_eoc depth inp'' c3 else Some (False, inp'', c3)))"

text \<open>
  The result is the new \<^verbatim>\<open>in\<close> and, on success, \<^verbatim>\<open>out\<close> with whether it lies in a new buffer.
\<close>

definition CBS_asn1_ber_to_der :: "(nat \<Rightarrow> bool) \<Rightarrow> byte \<Rightarrow> bytes \<Rightarrow> ((bytes \<times> bool) option \<times> bytes) option" where
  "CBS_asn1_ber_to_der alloc fresh inp =
     (case cbs_find_ber 0 inp of
        None \<Rightarrow> Some (None, inp)
      | Some False \<Rightarrow>
          (case CBS_get_any_asn1_element inp of
             (None, inp') \<Rightarrow> Some (None, inp')
           | (Some (out, _, _), inp') \<Rightarrow> Some (Some (out, False), inp'))
      | Some True \<Rightarrow>
          (case CBB_init alloc fresh (length inp) of
             (False, _) \<Rightarrow> Some (None, inp)
           | (True, c) \<Rightarrow>
               (case cbs_convert_ber 0 0 False 0 inp c of
                  None \<Rightarrow> None
                | Some (ok, inp', c') \<Rightarrow>
                    if \<not> ok then Some (None, inp')
                    else (case CBB_finish 0 True True c' of
                            (True, Some out, _, _) \<Rightarrow> Some (Some (out, True), inp')
                          | _ \<Rightarrow> Some (None, inp')))))"

text \<open>The loop over the chunks of a constructed string.\<close>

function implicit_chunks :: "u32 \<Rightarrow> bytes \<Rightarrow> cbb \<Rightarrow> bool \<times> cbb" where
  "implicit_chunks inner_tag child c =
     (if child = [] then (True, c)
      else case CBS_get_asn1 inner_tag child of
        (None, _) \<Rightarrow> (False, c)
      | (Some chunk, child') \<Rightarrow>
          (case CBB_add_bytes 0 chunk c of
             (False, c') \<Rightarrow> (False, c')
           | (True, c') \<Rightarrow> implicit_chunks inner_tag child' c'))"
  by pat_completeness auto
termination
  by (relation "measure (\<lambda>(_, s, _). length s)") (auto simp: CBS_get_asn1_Some dest!: sym [of "(Some _, _)"])

declare implicit_chunks.simps [simp del]

definition CBS_get_asn1_implicit_string ::
  "(nat \<Rightarrow> bool) \<Rightarrow> byte \<Rightarrow> u32 \<Rightarrow> u32 \<Rightarrow> bytes \<Rightarrow> (bytes \<times> bool) option \<times> bytes" where
  "CBS_get_asn1_implicit_string alloc fresh outer_tag inner_tag inp =
     (if CBS_peek_asn1_tag inp outer_tag then
        (case CBS_get_asn1 outer_tag inp of
           (None, inp') \<Rightarrow> (None, inp')
         | (Some out, inp') \<Rightarrow> (Some (out, False), inp'))
      else
        (case CBB_init alloc fresh (length inp) of
           (False, _) \<Rightarrow> (None, inp)
         | (True, result) \<Rightarrow>
             (case CBS_get_asn1 (outer_tag OR CBS_ASN1_CONSTRUCTED) inp of
                (None, inp') \<Rightarrow> (None, inp')
              | (Some child, inp') \<Rightarrow>
                  (case implicit_chunks inner_tag child result of
                     (False, _) \<Rightarrow> (None, inp')
                   | (True, result') \<Rightarrow>
                       (case CBB_finish 0 True True result' of
                          (True, Some out, _, _) \<Rightarrow> (Some (out, True), inp')
                        | _ \<Rightarrow> (None, inp'))))))"

end
