(* ===== verification/Ber_Convert.thy ===== *)
theory Ber_Convert
  imports Ber
begin

text \<open>
  The BER that is accepted as trees of elements, what \<^verbatim>\<open>cbs_convert_ber\<close> makes of them, and the proof that it accepts exactly
  the encodings of these trees.
\<close>

section \<open>Trees of elements\<close>

text \<open>
  The part of BER that the reader of \<^verbatim>\<open>ber.c\<close> accepts: tags and definite lengths are minimal, and a constructed
  element may have the indefinite length, which two zero bytes end. BER also has definite lengths that are not
  minimal; these are refused.
\<close>

datatype ber = Primitive u32 bytes | Constructed bool u32 "ber list"

fun ber_bytes :: "ber \<Rightarrow> bytes" where
  "ber_bytes (Primitive tag body) = der_element tag body"
| "ber_bytes (Constructed indefinite tag es) =
     (let body = concat (map ber_bytes es) in if indefinite then der_tag tag @ [0x80] @ body @ [0, 0] else der_element tag body)"

abbreviation constructed :: "u32 \<Rightarrow> bool" where
  "constructed tag \<equiv> tag AND CBS_ASN1_CONSTRUCTED \<noteq> 0"

abbreviation primitive_tag :: "u32 \<Rightarrow> u32" where
  "primitive_tag tag \<equiv> tag AND NOT CBS_ASN1_CONSTRUCTED"

text \<open>
  Within a constructed string with tag \<open>st\<close> (zero outside) all elements have this tag. The end of
  contents is no element. \<open>depth\<close> counts the nesting from outside. This is what the code accepts, not all of BER.
\<close>

fun ber_valid :: "u32 \<Rightarrow> nat \<Rightarrow> ber \<Rightarrow> bool" where
  "ber_valid st depth (Primitive tag body) \<longleftrightarrow>
     \<not> constructed tag \<and> length body < 2 ^ 32 \<and> \<not> (tag = 0 \<and> body = []) \<and> (st \<noteq> 0 \<longrightarrow> tag = st)"
| "ber_valid st depth (Constructed indefinite tag es) \<longleftrightarrow>
     constructed tag \<and> depth < kMaxDepth \<and> (indefinite \<or> length (concat (map ber_bytes es)) < 2 ^ 32) \<and>
     (st \<noteq> 0 \<longrightarrow> primitive_tag tag = st) \<and> (\<forall>e\<in>set es. ber_valid (child_tag st tag) (depth + 1) e)"

text \<open>DER: definite lengths, and a constructed string becomes one string with the pieces put together.\<close>

definition out_tag :: "u32 \<Rightarrow> u32" where
  "out_tag tag = (if constructed tag \<and> is_string_type tag then primitive_tag tag else tag)"

definition written :: "u32 \<Rightarrow> u32 \<Rightarrow> bytes \<Rightarrow> bytes" where
  "written st tag body = (if st \<noteq> 0 then body else der_element (out_tag tag) body)"

fun ber_der :: "u32 \<Rightarrow> ber \<Rightarrow> bytes" where
  "ber_der st (Primitive tag body) = written st tag body"
| "ber_der st (Constructed indefinite tag es) = written st tag (concat (map (ber_der (child_tag st tag)) es))"

abbreviation bers_bytes :: "ber list \<Rightarrow> bytes" where
  "bers_bytes es \<equiv> concat (map ber_bytes es)"

abbreviation bers_der :: "u32 \<Rightarrow> ber list \<Rightarrow> bytes" where
  "bers_der st es \<equiv> concat (map (ber_der st) es)"

section \<open>Reading the elements\<close>

lemma der_length_0 [simp]: "der_length 0 = [0]"
  by (simp add: der_length_def)

lemma definite_not_indefinite: "\<not> is_indefinite (length (der_header tag (length body))) (der_element tag body)"
proof
  assume i: "is_indefinite (length (der_header tag (length body))) (der_element tag body)"
  then have "body = []" by (simp add: is_indefinite_def der_element_def)
  then have "der_element tag body = der_tag tag @ [0]" "length (der_header tag (length body)) = Suc (length (der_tag tag))"
    by (simp_all add: der_element_def der_header_def)
  then show False using i by (simp add: is_indefinite_def nth_append)
qed

lemma indefinite_header: "is_indefinite (length (der_tag tag @ [0x80])) (der_tag tag @ [0x80])" "\<not> is_eoc h (der_tag tag @ [0x80])"
  by (auto simp: is_indefinite_def is_eoc_def nth_append append_eq_Cons_conv)

lemma der_tag_zero: "der_tag tag = [0] \<longleftrightarrow> tag = 0"
proof
  assume "der_tag tag = [0]"
  then have "parse_asn1_tag (der_tag tag @ []) = parse_asn1_tag (der_tag 0 @ [])" by (simp add: der_tag_def)
  then show "tag = 0" unfolding parse_asn1_tag_der_tag by simp
qed (simp add: der_tag_def)

lemma eoc_iff: "is_eoc (length (der_header tag (length body))) (der_element tag body) \<longleftrightarrow> tag = 0 \<and> body = []"
proof
  assume e: "is_eoc (length (der_header tag (length body))) (der_element tag body)"
  then have "body = []" by (auto simp: is_eoc_def der_element_def)
  moreover from this have "der_tag tag = [0]" using e der_tag_length(1) [of tag]
    by (auto simp: is_eoc_def der_element_def der_header_def append_eq_Cons_conv)
  ultimately show "tag = 0 \<and> body = []" by (simp add: der_tag_zero)
qed (simp add: is_eoc_def der_element_def der_header_def der_tag_def)

lemma primitive_tag_simps [simp]:
  "primitive_tag (primitive_tag tag) = primitive_tag tag" "\<not> constructed (primitive_tag tag)"
  "is_string_type (primitive_tag tag) = is_string_type tag"
  by (simp_all add: is_string_type_def and.assoc)

lemma primitive_tag_id: "\<not> constructed tag \<Longrightarrow> primitive_tag tag = tag"
proof -
  assume "\<not> constructed tag"
  moreover have "tag = (tag AND CBS_ASN1_CONSTRUCTED) OR (tag AND NOT CBS_ASN1_CONSTRUCTED)" by (simp flip: bit.conj_disj_distrib)
  ultimately show ?thesis by simp
qed

lemma string_tag_nonzero: "is_string_type tag \<Longrightarrow> primitive_tag tag \<noteq> 0"
  by (auto simp: is_string_type_def)

section \<open>Starting and ending an element\<close>

text \<open>The object at depth \<open>d\<close> is the last of the chain.\<close>

definition open_at :: "nat \<Rightarrow> cbb \<Rightarrow> bool" where
  "open_at d c \<longleftrightarrow> cbb_ok c \<and> length (snd (cbb_abs c)) = d"

definition contents_depth :: "nat \<Rightarrow> u32 \<Rightarrow> nat" where
  "contents_depth d st = (if st \<noteq> 0 then d else d + 1)"

lemma snd_push_last [simp]: "length (snd (push_last k a)) = Suc (length (snd a))"
  by (cases a) simp

lemma collapse_at_child_None:
  "close k body = None \<Longrightarrow> collapse_at (length (snd a)) (append_last body (push_last k a)) = None"
proof (induction body a rule: append_last.induct)
  case (2 xs t k' b ch)
  then show ?case by (auto split: prod.splits)
qed simp

lemma start_element_effect:
  assumes c: "open_at d c" and start: "start_element d st tag c = (True, c1)"
  shows "open_at (contents_depth d st) c1" "st \<noteq> 0 \<Longrightarrow> primitive_tag tag = st"
    "cbb_abs c1 = (if st \<noteq> 0 then cbb_abs c else push_last Asn1 (append_last (der_tag (out_tag tag)) (cbb_abs c)))"
proof -
  have "open_at (contents_depth d st) c1 \<and>
    cbb_abs c1 = (if st \<noteq> 0 then cbb_abs c else push_last Asn1 (append_last (der_tag (out_tag tag)) (cbb_abs c)))"
  proof (cases "st = 0")
    case True
    have ok: "cbb_ok c" "length (snd (cbb_abs c)) = d" using c by (simp_all add: open_at_def)
    have add: "CBB_add_asn1 d (out_tag tag) c = (True, c1)" using start True by (simp add: start_element_def out_tag_def)
    have "collapse_at d (cbb_abs c) = Some (cbb_abs c)" by (rule collapse_at_last [OF ok(2)])
    then have "cbb_abs c1 = push_last Asn1 (append_last (der_tag (out_tag tag)) (cbb_abs c))"
      using asn1_child.effect [OF ok(1) add] by simp
    then show ?thesis using True ok asn1_child.keeps_ok [OF ok(1) add] by (simp add: open_at_def contents_depth_def)
  qed (use assms in \<open>simp add: start_element_def contents_depth_def\<close>)
  then show "open_at (contents_depth d st) c1"
    "cbb_abs c1 = (if st \<noteq> 0 then cbb_abs c else push_last Asn1 (append_last (der_tag (out_tag tag)) (cbb_abs c)))" by blast+
  show "primitive_tag tag = st" if "st \<noteq> 0" using start that by (simp add: start_element_def)
qed

lemma collapse_element:
  assumes "open_at d c" "open_at (contents_depth d st) c2"
    and "cbb_abs c2 = append_last body (if st \<noteq> 0 then cbb_abs c else push_last Asn1 (append_last (der_tag (out_tag tag)) (cbb_abs c)))"
  shows "collapse_at d (cbb_abs c2) =
    (if st \<noteq> 0 \<or> length body \<le> 0xfffffffe then Some (append_last (written st tag body) (cbb_abs c)) else None)"
proof (cases "st = 0")
  case True
  let ?a = "append_last (der_tag (out_tag tag)) (cbb_abs c)"
  have d: "length (snd ?a) = d" using assms(1) by (simp add: open_at_def)
  show ?thesis
  proof (cases "length body \<le> 0xfffffffe")
    case True2: True
    then have "close Asn1 body = Some (der_length (length body) @ body)" by simp
    from collapse_at_child [OF this, of ?a] show ?thesis using True True2 assms(3)
      unfolding d by (simp add: written_def der_element_def der_header_def append_last_append)
  next
    case False
    then show ?thesis using True assms(3) collapse_at_child_None [of Asn1 body ?a] unfolding d by simp
  qed
next
  case False
  then have "length (snd (cbb_abs c2)) = d" using assms(2) by (simp add: open_at_def contents_depth_def)
  from collapse_at_last [OF this] show ?thesis using False assms(3) by (simp add: written_def)
qed

lemma end_element_effect:
  assumes "open_at d c" "start_element d st tag c = (True, c1)" "open_at (contents_depth d st) c2"
    and abs: "cbb_abs c2 = append_last body (cbb_abs c1)" and flush: "CBB_flush d c2 = (True, c3)"
  shows "open_at d c3" "cbb_abs c3 = append_last (written st tag body) (cbb_abs c)"
proof -
  have ok: "cbb_ok c2" using assms(3) by (simp add: open_at_def)
  have f: "cbb_ok c3" "collapse_at d (cbb_abs c2) = Some (cbb_abs c3)" using CBB_flush_cases [OF ok flush] by simp_all
  have "collapse_at d (cbb_abs c2) =
      (if st \<noteq> 0 \<or> length body \<le> 0xfffffffe then Some (append_last (written st tag body) (cbb_abs c)) else None)"
    using abs start_element_effect(3) [OF assms(1,2)] by (intro collapse_element [OF assms(1,3)]) simp
  then show "cbb_abs c3 = append_last (written st tag body) (cbb_abs c)" using f(2) by (simp split: if_splits)
  then show "open_at d c3" using f(1) assms(1) by (simp add: open_at_def)
qed

section \<open>What is converted has the form\<close>

text \<open>The part of the loop body that deals with the contents of an element.\<close>

definition convert_contents ::
  "nat \<Rightarrow> u32 \<Rightarrow> nat \<Rightarrow> bytes \<Rightarrow> u32 \<Rightarrow> nat \<Rightarrow> bytes \<Rightarrow> cbb \<Rightarrow> (bool \<times> bytes \<times> cbb) option" where
  "convert_contents out st depth element tag header_len inp' c' =
     (if is_indefinite header_len element
      then cbs_convert_ber (contents_depth out st) (child_tag st tag) True (depth + 1) inp' c'
      else case CBS_skip header_len element of
        (skipped, body) \<Rightarrow>
          if \<not> skipped then Some (False, inp', c')
          else if constructed tag
          then Option.bind (cbs_convert_ber (contents_depth out st) (child_tag st tag) False (depth + 1) body c')
                 (\<lambda>(ok, _, c''). Some (ok, inp', c''))
          else (case CBB_add_bytes (contents_depth out st) body c' of (ok, c'') \<Rightarrow> Some (ok, inp', c'')))"

lemma convert_step:
  "cbs_convert_ber out st eoc depth inp c =
     (if depth > kMaxDepth then Some (False, inp, c)
      else if inp = [] then Some (\<not> eoc, inp, c)
      else case CBS_get_any_ber_asn1_element inp of
        (None, inp') \<Rightarrow> Some (False, inp', c)
      | (Some (element, tag, header_len), inp') \<Rightarrow>
          if is_eoc header_len element then Some (eoc, inp', c)
          else case start_element out st tag c of
            (started, c') \<Rightarrow>
              if \<not> started then Some (False, inp', c')
              else Option.bind (convert_contents out st depth element tag header_len inp' c')
                (\<lambda>(ok, inp'', c'').
                   if \<not> ok then Some (False, inp'', c'')
                   else case CBB_flush out c'' of
                     (flushed, c3) \<Rightarrow>
                       if flushed then cbs_convert_ber out st eoc depth inp'' c3 else Some (False, inp'', c3)))"
  unfolding convert_contents_def contents_depth_def by (rule cbs_convert_ber.simps)

text \<open>What a call gives: it returns, and a success has converted some trees.\<close>

definition converts :: "nat \<Rightarrow> u32 \<Rightarrow> bool \<Rightarrow> nat \<Rightarrow> bytes \<Rightarrow> cbb \<Rightarrow> (bool \<times> bytes \<times> cbb) option \<Rightarrow> bool" where
  "converts d st eoc depth inp c res \<longleftrightarrow>
     (\<exists>ok r c'. res = Some (ok, r, c') \<and> length r \<le> length inp \<and>
        (ok \<longrightarrow> open_at d c' \<and> depth \<le> kMaxDepth \<and> (eoc \<or> r = []) \<and>
           (\<exists>es. inp = bers_bytes es @ (if eoc then [0, 0] else []) @ r \<and> (\<forall>e\<in>set es. ber_valid st depth e) \<and>
              cbb_abs c' = append_last (bers_der st es) (cbb_abs c))))"

lemma add_bytes_effect:
  assumes "open_at d c" "length body < 2 ^ 64" "CBB_add_bytes d body c = (True, c')"
  shows "open_at d c'" "cbb_abs c' = append_last body (cbb_abs c)"
proof -
  have ok: "cbb_ok c" "length (snd (cbb_abs c)) = d" using assms(1) by (simp_all add: open_at_def)
  note col = collapse_at_last [OF ok(2)]
  note a = appender_add_bytes [OF assms(2), of d]
  show "cbb_abs c' = append_last body (cbb_abs c)" using appender.effect [OF a ok(1) assms(3)] col by simp
  then show "open_at d c'" using assms(1) appender.keeps_ok [OF a ok(1) assms(3)] by (simp add: open_at_def)
qed

text \<open>One element: \<open>IH\<close> is the claim for shorter inputs.\<close>

lemma contents_sound:
  assumes IH: "\<And>y d st eoc depth c. length y < length inp \<Longrightarrow> open_at d c \<Longrightarrow> converts d st eoc depth y c (cbs_convert_ber d st eoc depth y c)"
    and get: "CBS_get_any_ber_asn1_element inp = (Some (element, tag, h), inp')" and "\<not> is_eoc h element" and depth: "depth \<le> kMaxDepth"
    and start: "start_element d st tag c = (True, c1)" and c: "open_at d c"
  shows "\<exists>ok inp'' c2. convert_contents d st depth element tag h inp' c1 = Some (ok, inp'', c2) \<and> length inp'' \<le> length inp' \<and>
    (ok \<longrightarrow> (\<exists>e body. inp = ber_bytes e @ inp'' \<and> ber_valid st depth e \<and> ber_der st e = written st tag body \<and>
       open_at (contents_depth d st) c2 \<and> cbb_abs c2 = append_last body (cbb_abs c1)))"
proof -
  note c1 = start_element_effect [OF c start]
  have shorter: "length inp' < length inp" using ber_element_shorter(1) [OF get] .
  consider body where "inp = element @ inp'" "length body < 2 ^ 32" "element = der_element tag body" "h = length (der_header tag (length body))"
    | "inp = element @ inp'" "constructed tag" "element = der_tag tag @ [0x80]" "h = length element"
    using get by (auto simp: ber_element_Some)
  then show ?thesis
  proof cases
    case (1 body)
    have skip: "CBS_skip h element = (True, body)" "\<not> is_indefinite h element" using 1(3,4) definite_not_indefinite by simp_all
    show ?thesis
    proof (cases "constructed tag")
      case True
      have "converts (contents_depth d st) (child_tag st tag) False (depth + 1) body c1
          (cbs_convert_ber (contents_depth d st) (child_tag st tag) False (depth + 1) body c1)"
        using ber_element_shorter(2) [OF get skip(1)] c1(1) by (rule IH)
      then obtain ok r c2 where r: "cbs_convert_ber (contents_depth d st) (child_tag st tag) False (depth + 1) body c1 = Some (ok, r, c2)"
        and raw: "ok \<longrightarrow> open_at (contents_depth d st) c2 \<and> depth + 1 \<le> kMaxDepth \<and> (False \<or> r = []) \<and>
          (\<exists>es. body = bers_bytes es @ (if False then [0, 0] else []) @ r \<and> (\<forall>e\<in>set es. ber_valid (child_tag st tag) (depth + 1) e) \<and>
             cbb_abs c2 = append_last (bers_der (child_tag st tag) es) (cbb_abs c1))"
        unfolding converts_def by blast
      then have ok: "ok \<longrightarrow> open_at (contents_depth d st) c2 \<and> depth < kMaxDepth \<and> (\<exists>es. body = bers_bytes es \<and>
          (\<forall>e\<in>set es. ber_valid (child_tag st tag) (depth + 1) e) \<and> cbb_abs c2 = append_last (bers_der (child_tag st tag) es) (cbb_abs c1))"
        by auto
      have "\<exists>e body. inp = ber_bytes e @ inp' \<and> ber_valid st depth e \<and> ber_der st e = written st tag body \<and>
          cbb_abs c2 = append_last body (cbb_abs c1)" if good: "ok"
      proof -
        obtain es where "body = bers_bytes es" "\<forall>e\<in>set es. ber_valid (child_tag st tag) (depth + 1) e"
          "cbb_abs c2 = append_last (bers_der (child_tag st tag) es) (cbb_abs c1)" using ok good by blast
        then show ?thesis using 1 True good ok c1(2)
          by (intro exI [of _ "Constructed False tag es"] exI [of _ "bers_der (child_tag st tag) es"]) simp
      qed
      then show ?thesis using skip r ok True by (simp add: convert_contents_def)
    next
      case False
      obtain ok c2 where add: "CBB_add_bytes (contents_depth d st) body c1 = (ok, c2)" by fastforce
      have "\<not> (tag = 0 \<and> body = [])" using assms(3) 1 eoc_iff [of tag body] by simp
      then have "inp = ber_bytes (Primitive tag body) @ inp' \<and> ber_valid st depth (Primitive tag body) \<and>
          open_at (contents_depth d st) c2 \<and> cbb_abs c2 = append_last body (cbb_abs c1)" if "ok"
        using that add_bytes_effect [OF c1(1), of body c2] add 1 False c1(2) by (simp add: primitive_tag_id)
      then have "\<exists>e body. inp = ber_bytes e @ inp' \<and> ber_valid st depth e \<and> ber_der st e = written st tag body \<and>
          open_at (contents_depth d st) c2 \<and> cbb_abs c2 = append_last body (cbb_abs c1)" if "ok"
        using that by (intro exI [of _ "Primitive tag body"] exI [of _ body]) simp
      then show ?thesis using skip add False by (simp add: convert_contents_def)
    qed
  next
    case 2
    have "converts (contents_depth d st) (child_tag st tag) True (depth + 1) inp' c1
        (cbs_convert_ber (contents_depth d st) (child_tag st tag) True (depth + 1) inp' c1)"
      using shorter c1(1) by (rule IH)
    then obtain ok r c2 where r: "cbs_convert_ber (contents_depth d st) (child_tag st tag) True (depth + 1) inp' c1 = Some (ok, r, c2)" "length r \<le> length inp'"
      and raw: "ok \<longrightarrow> open_at (contents_depth d st) c2 \<and> depth + 1 \<le> kMaxDepth \<and> (True \<or> r = []) \<and>
        (\<exists>es. inp' = bers_bytes es @ (if True then [0, 0] else []) @ r \<and> (\<forall>e\<in>set es. ber_valid (child_tag st tag) (depth + 1) e) \<and>
           cbb_abs c2 = append_last (bers_der (child_tag st tag) es) (cbb_abs c1))"
      unfolding converts_def by blast
    then have ok: "ok \<longrightarrow> open_at (contents_depth d st) c2 \<and> depth < kMaxDepth \<and> (\<exists>es. inp' = bers_bytes es @ [0, 0] @ r \<and>
        (\<forall>e\<in>set es. ber_valid (child_tag st tag) (depth + 1) e) \<and> cbb_abs c2 = append_last (bers_der (child_tag st tag) es) (cbb_abs c1))"
      by auto
    have "\<exists>e body. inp = ber_bytes e @ r \<and> ber_valid st depth e \<and> ber_der st e = written st tag body \<and>
        cbb_abs c2 = append_last body (cbb_abs c1)" if good: "ok"
    proof -
      obtain es where "inp' = bers_bytes es @ [0, 0] @ r" "\<forall>e\<in>set es. ber_valid (child_tag st tag) (depth + 1) e"
        "cbb_abs c2 = append_last (bers_der (child_tag st tag) es) (cbb_abs c1)" using ok good by blast
      then show ?thesis using 2 good ok c1(2)
        by (intro exI [of _ "Constructed True tag es"] exI [of _ "bers_der (child_tag st tag) es"]) simp
    qed
    then show ?thesis using 2 r ok indefinite_header(1) [of tag] by (simp add: convert_contents_def)
  qed
qed

lemma converts_failed: "length r \<le> length inp \<Longrightarrow> converts d st eoc depth inp c (Some (False, r, c'))"
  by (auto simp: converts_def)

lemma ber_element_None: "CBS_get_any_ber_asn1_element s = (None, r) \<Longrightarrow> r = s"
  by (auto simp: CBS_get_any_ber_asn1_element_def cbs_get_any_asn1_element_def get_element_def CBS_get_bytes_eq cbs_get_None Let_def
      split: prod.splits option.splits if_splits)

lemma convert_sound:
  assumes "open_at d c"
  shows "converts d st eoc depth inp c (cbs_convert_ber d st eoc depth inp c)"
  using assms
proof (induction inp arbitrary: d st eoc depth c rule: measure_induct_rule [of length])
  case (less inp)
  show ?case
  proof (cases "depth > kMaxDepth \<or> inp = []")
    case True
    then show ?thesis using less.prems by (subst convert_step) (auto simp: converts_def intro!: exI [of _ "[]"])
  next
    case False
    then have depth: "depth \<le> kMaxDepth" by simp
    show ?thesis
    proof (cases "CBS_get_any_ber_asn1_element inp")
      case (Pair res inp')
      show ?thesis
      proof (cases res)
        case None
        then have "length inp' \<le> length inp" using Pair ber_element_None [of inp inp'] by simp
        then show ?thesis using False Pair None by (subst convert_step) (simp add: converts_failed)
      next
        case (Some t)
        obtain element tag h where t: "t = (element, tag, h)" by (cases t)
        note get = Pair [unfolded Some t]
        note shorter = ber_element_shorter(1) [OF get]
        show ?thesis
        proof (cases "is_eoc h element")
          case True
          then have "element = [0, 0]" by (simp add: is_eoc_def)
          moreover have "inp = element @ inp'" using get by (simp add: ber_element_Some)
          ultimately show ?thesis using False depth get True less.prems
            by (subst convert_step) (auto simp: converts_def intro!: exI [of _ "[]"])
        next
          case eoc: False
          obtain started c1 where start: "start_element d st tag c = (started, c1)" by fastforce
          show ?thesis
          proof (cases started)
            case True
            then have start: "start_element d st tag c = (True, c1)" using start by simp
            obtain ok r c2 where cc: "convert_contents d st depth element tag h inp' c1 = Some (ok, r, c2)" "length r \<le> length inp'"
              and good: "ok \<Longrightarrow> \<exists>e body. inp = ber_bytes e @ r \<and> ber_valid st depth e \<and> ber_der st e = written st tag body \<and>
                open_at (contents_depth d st) c2 \<and> cbb_abs c2 = append_last body (cbb_abs c1)"
              using contents_sound [OF less.IH get eoc depth start less.prems] by blast
            obtain flushed c3 where flush: "CBB_flush d c2 = (flushed, c3)" by fastforce
            note step = convert_step [of d st eoc depth inp c]
            have eq: "cbs_convert_ber d st eoc depth inp c =
                (if \<not> ok then Some (False, r, c2) else if flushed then cbs_convert_ber d st eoc depth r c3 else Some (False, r, c3))"
              unfolding step using False get eoc start cc flush by simp
            show ?thesis
            proof (cases "ok \<and> flushed")
              case True
              then obtain e body where e: "inp = ber_bytes e @ r" "ber_valid st depth e" "ber_der st e = written st tag body"
                "open_at (contents_depth d st) c2" "cbb_abs c2 = append_last body (cbb_abs c1)" using good by blast
              have "CBB_flush d c2 = (True, c3)" using flush True by simp
              note c3 = end_element_effect [OF less.prems start e(4,5) this]
              have "length r < length inp" using shorter cc(2) by simp
              then have "converts d st eoc depth r c3 (cbs_convert_ber d st eoc depth r c3)" using c3(1) by (rule less.IH)
              then obtain ok2 r2 c4 where rest: "cbs_convert_ber d st eoc depth r c3 = Some (ok2, r2, c4)" "length r2 \<le> length r"
                "ok2 \<longrightarrow> open_at d c4 \<and> depth \<le> kMaxDepth \<and> (eoc \<or> r2 = []) \<and>
                   (\<exists>es. r = bers_bytes es @ (if eoc then [0, 0] else []) @ r2 \<and> (\<forall>e\<in>set es. ber_valid st depth e) \<and>
                      cbb_abs c4 = append_last (bers_der st es) (cbb_abs c3))" unfolding converts_def by blast
              have "\<exists>es. inp = bers_bytes es @ (if eoc then [0, 0] else []) @ r2 \<and> (\<forall>e\<in>set es. ber_valid st depth e) \<and>
                  cbb_abs c4 = append_last (bers_der st es) (cbb_abs c)" if good2: "ok2"
              proof -
                obtain es where es: "r = bers_bytes es @ (if eoc then [0, 0] else []) @ r2" "\<forall>e\<in>set es. ber_valid st depth e"
                  "cbb_abs c4 = append_last (bers_der st es) (cbb_abs c3)" using rest(3) good2 by blast
                then show ?thesis using e c3(2) by (intro exI [of _ "e # es"]) (simp add: append_last_append)
              qed
              then show ?thesis using eq True rest \<open>length r < length inp\<close> by (simp add: converts_def)
            qed (use eq cc(2) shorter in \<open>auto simp: converts_failed\<close>)
          next
            case no: False
            then show ?thesis using False get eoc start shorter by (subst convert_step) (simp add: converts_failed)
          qed
        qed
      qed
    qed
  qed
qed

section \<open>What has the form is converted\<close>

text \<open>The room that writing takes: an identifier and a length of at most five bytes for an element.\<close>

definition overhead :: "u32 \<Rightarrow> u32 \<Rightarrow> nat" where
  "overhead st tag = (if st \<noteq> 0 then 0 else length (der_tag (out_tag tag)) + 5)"

fun ber_need :: "u32 \<Rightarrow> ber \<Rightarrow> nat" where
  "ber_need st (Primitive tag body) = overhead st tag + length body"
| "ber_need st (Constructed indefinite tag es) = overhead st tag + sum_list (map (ber_need (child_tag st tag)) es)"

abbreviation bers_need :: "u32 \<Rightarrow> ber list \<Rightarrow> nat" where
  "bers_need st es \<equiv> sum_list (map (ber_need st) es)"

lemma length_written: "length (written st tag body) \<le> overhead st tag + length body"
  using der_length_length(2) [of "length body"] by (simp add: written_def overhead_def der_element_def der_header_def)

lemma length_ber_der: "length (ber_der st e) \<le> ber_need st e"
proof (induction e arbitrary: st)
  case (Constructed indefinite tag es)
  have "length (bers_der (child_tag st tag) es) \<le> bers_need (child_tag st tag) es"
    using Constructed.IH by (auto simp: length_concat intro!: sum_list_mono)
  then show ?case using length_written [of st tag "bers_der (child_tag st tag) es"] by simp
qed (use length_written in simp)

lemma length_bers_der: "length (bers_der st es) \<le> bers_need st es"
  using length_ber_der by (auto simp: length_concat intro!: sum_list_mono)

lemma start_element_room:
  assumes c: "open_at d c" and room: "room d (overhead st tag + n) c" and tag: "st \<noteq> 0 \<Longrightarrow> primitive_tag tag = st"
  shows "\<exists>c1. start_element d st tag c = (True, c1) \<and> room (contents_depth d st) (n + (if st \<noteq> 0 then 0 else 4)) c1"
proof (cases "st = 0")
  case True
  let ?need = "length (der_tag (out_tag tag)) + 1"
  have ok: "cbb_ok c" using c by (simp add: open_at_def)
  have r: "room d (?need + (n + 4)) c" using room True by (simp add: overhead_def algebra_simps)
  obtain c1 where c1: "CBB_add_asn1 d (out_tag tag) c = (True, c1)"
    using asn1_child.progress [OF ok room_mono [OF r, of ?need]] by (cases "CBB_add_asn1 d (out_tag tag) c") auto
  then show ?thesis using asn1_child.keeps_room [OF ok c1 r] True by (simp add: start_element_def out_tag_def contents_depth_def)
qed (use assms in \<open>simp add: start_element_def contents_depth_def overhead_def\<close>)

lemma end_element_room:
  assumes "open_at d c" "start_element d st tag c = (True, c1)" "open_at (contents_depth d st) c2"
    and abs: "cbb_abs c2 = append_last body (cbb_abs c1)" and short: "length body \<le> 0xfffffffe"
    and room: "room (contents_depth d st) (n + (if st \<noteq> 0 then 0 else 4)) c2"
  shows "\<exists>c3. CBB_flush d c2 = (True, c3) \<and> room d n c3"
proof -
  have ok: "cbb_ok c2" using assms(3) by (simp add: open_at_def)
  have "collapse_at d (cbb_abs c2) =
      (if st \<noteq> 0 \<or> length body \<le> 0xfffffffe then Some (append_last (written st tag body) (cbb_abs c)) else None)"
    using abs start_element_effect(3) [OF assms(1,2)] by (intro collapse_element [OF assms(1,3)]) simp
  then have "collapse_at d (cbb_abs c2) \<noteq> None" using short by simp
  then have r: "room d n c2" using room room_parent [of d n c2] by (cases "st = 0") (simp_all add: contents_depth_def add.commute)
  obtain f c3 where f: "CBB_flush d c2 = (f, c3)" by fastforce
  from CBB_flush_cases [OF ok f] r show ?thesis using f by (cases f) auto
qed

text \<open>One element: \<open>IH\<close> is the claim for its children.\<close>

definition complete :: "ber list \<Rightarrow> bool" where
  "complete es \<longleftrightarrow> (\<forall>d st eoc depth r c n.
     (\<forall>e\<in>set es. ber_valid st depth e) \<longrightarrow> depth \<le> kMaxDepth \<longrightarrow> open_at d c \<longrightarrow> bers_need st es \<le> 0xfffffffe \<longrightarrow>
     room d (bers_need st es + n) c \<longrightarrow> (eoc \<or> r = []) \<longrightarrow>
     (\<exists>c'. cbs_convert_ber d st eoc depth (bers_bytes es @ (if eoc then [0, 0] else []) @ r) c = Some (True, r, c') \<and>
        open_at d c' \<and> room d n c' \<and> cbb_abs c' = append_last (bers_der st es) (cbb_abs c)))"

lemma element_complete:
  assumes valid: "ber_valid st depth e" and need: "ber_need st e \<le> 0xfffffffe"
    and children: "\<And>indefinite tag es. e = Constructed indefinite tag es \<Longrightarrow> complete es"
  obtains element tag h inp' body need where
    "CBS_get_any_ber_asn1_element (ber_bytes e @ rest) = (Some (element, tag, h), inp')" "\<not> is_eoc h element"
    "ber_der st e = written st tag body" "ber_need st e = overhead st tag + need" "length body \<le> need"
    "st \<noteq> 0 \<Longrightarrow> primitive_tag tag = st"
    "\<And>c1 n. open_at (contents_depth d st) c1 \<Longrightarrow> room (contents_depth d st) (need + n) c1 \<Longrightarrow>
       \<exists>c2. convert_contents d st depth element tag h inp' c1 = Some (True, rest, c2) \<and> open_at (contents_depth d st) c2 \<and>
         room (contents_depth d st) n c2 \<and> cbb_abs c2 = append_last body (cbb_abs c1)"
proof (cases e)
  case (Primitive tag body)
  let ?h = "length (der_header tag (length body))"
  show thesis
  proof (rule that [of "der_element tag body" tag ?h rest body "length body"])
    show "CBS_get_any_ber_asn1_element (ber_bytes e @ rest) = (Some (der_element tag body, tag, ?h), rest)"
      using Primitive valid by (auto simp: ber_element_Some)
    show "\<not> is_eoc ?h (der_element tag body)" using Primitive valid by (simp add: eoc_iff)
    show "primitive_tag tag = st" if "st \<noteq> 0" using Primitive valid that primitive_tag_id [of tag] by auto
    show "\<exists>c2. convert_contents d st depth (der_element tag body) tag ?h rest c1 = Some (True, rest, c2) \<and> open_at (contents_depth d st) c2 \<and>
         room (contents_depth d st) n c2 \<and> cbb_abs c2 = append_last body (cbb_abs c1)"
      if c1: "open_at (contents_depth d st) c1" and room: "room (contents_depth d st) (length body + n) c1" for c1 n
    proof -
      have len: "length body < 2 ^ 64" using Primitive valid by simp
      have ok: "cbb_ok c1" using c1 by (simp add: open_at_def)
      obtain c2 where c2: "CBB_add_bytes (contents_depth d st) body c1 = (True, c2)" "room (contents_depth d st) n c2"
        using appender.succeeds [OF appender_add_bytes [OF len] ok room] by blast
      then show ?thesis using add_bytes_effect [OF c1 len c2(1)] Primitive valid definite_not_indefinite
        by (simp add: convert_contents_def)
    qed
  qed (use Primitive in simp_all)
next
  case (Constructed indefinite tag es)
  let ?st = "child_tag st tag" and ?d = "contents_depth d st"
  have v: "constructed tag" "depth < kMaxDepth" "indefinite \<or> length (bers_bytes es) < 2 ^ 32" "\<forall>e\<in>set es. ber_valid ?st (depth + 1) e"
    using valid Constructed by simp_all
  have n: "bers_need ?st es \<le> 0xfffffffe" using need Constructed by simp
  have run: "\<exists>c2. cbs_convert_ber ?d ?st eoc (depth + 1) (bers_bytes es @ (if eoc then [0, 0] else []) @ r) c1 = Some (True, r, c2) \<and>
      open_at ?d c2 \<and> room ?d n c2 \<and> cbb_abs c2 = append_last (bers_der ?st es) (cbb_abs c1)"
    if "open_at ?d c1" "room ?d (bers_need ?st es + n) c1" "eoc \<or> r = []" for eoc r c1 n
    using children [OF Constructed, unfolded complete_def, rule_format, of ?st "depth + 1" ?d c1 n eoc r] v n that by simp
  show thesis
  proof (cases indefinite)
    case True
    show thesis
    proof (rule that [of "der_tag tag @ [0x80]" tag "length (der_tag tag @ [0x80])" "bers_bytes es @ [0, 0] @ rest"
          "bers_der ?st es" "bers_need ?st es"])
      show "CBS_get_any_ber_asn1_element (ber_bytes e @ rest) =
          (Some (der_tag tag @ [0x80], tag, length (der_tag tag @ [0x80])), bers_bytes es @ [0, 0] @ rest)"
        using Constructed True v by (simp add: ber_element_Some)
      show "\<exists>c2. convert_contents d st depth (der_tag tag @ [0x80]) tag (length (der_tag tag @ [0x80])) (bers_bytes es @ [0, 0] @ rest) c1 =
          Some (True, rest, c2) \<and> open_at ?d c2 \<and> room ?d n c2 \<and> cbb_abs c2 = append_last (bers_der ?st es) (cbb_abs c1)"
        if "open_at ?d c1" "room ?d (bers_need ?st es + n) c1" for c1 n
        using run [OF that, of True rest] indefinite_header(1) [of tag] by (simp add: convert_contents_def)
    qed (use Constructed valid indefinite_header(2) length_bers_der in simp_all)
  next
    case False
    let ?element = "der_element tag (bers_bytes es)" and ?h = "length (der_header tag (length (bers_bytes es)))"
    show thesis
    proof (rule that [of ?element tag ?h rest "bers_der ?st es" "bers_need ?st es"])
      show "CBS_get_any_ber_asn1_element (ber_bytes e @ rest) = (Some (?element, tag, ?h), rest)"
        using Constructed False v by (auto simp: ber_element_Some)
      have "tag \<noteq> 0" using v(1) by auto
      then show "\<not> is_eoc ?h ?element" by (simp add: eoc_iff)
      show "\<exists>c2. convert_contents d st depth ?element tag ?h rest c1 = Some (True, rest, c2) \<and> open_at ?d c2 \<and> room ?d n c2 \<and>
          cbb_abs c2 = append_last (bers_der ?st es) (cbb_abs c1)"
        if "open_at ?d c1" "room ?d (bers_need ?st es + n) c1" for c1 n
        using run [OF that, of False "[]"] v(1) definite_not_indefinite [of tag "bers_bytes es"] by (auto simp: convert_contents_def)
    qed (use Constructed valid length_bers_der in simp_all)
  qed
qed

lemma ber_bytes_nonempty [simp]: "ber_bytes e \<noteq> []"
  by (cases e) (auto simp: Let_def)

lemma eoc_element: "CBS_get_any_ber_asn1_element (0 # 0 # r) = (Some ([0, 0], 0, 2), r)"
proof -
  have "[0, 0] = der_element 0 []" "2 = length (der_header 0 (length ([] :: bytes)))"
    by (simp_all add: der_element_def der_header_def der_tag_def)
  then show ?thesis by (subst ber_element_Some) (auto intro!: exI [of _ "[]"])
qed

lemma convert_complete: "complete es"
proof (induction es rule: measure_induct_rule [of "\<lambda>es. length (bers_bytes es)"])
  case (less es)
  show ?case
    unfolding complete_def
  proof (intro allI impI)
    fix d st eoc depth c n
    fix r :: bytes
    assume valid: "\<forall>e\<in>set es. ber_valid st depth e" and depth: "depth \<le> kMaxDepth" and c: "open_at d c"
      and need: "bers_need st es \<le> 0xfffffffe" and room: "room d (bers_need st es + n) c" and eoc: "eoc \<or> r = []"
    let ?tail = "(if eoc then [0, 0] else []) @ r"
    show "\<exists>c'. cbs_convert_ber d st eoc depth (bers_bytes es @ ?tail) c = Some (True, r, c') \<and>
        open_at d c' \<and> room d n c' \<and> cbb_abs c' = append_last (bers_der st es) (cbb_abs c)"
    proof (cases es)
      case Nil
      have "cbs_convert_ber d st eoc depth ?tail c = Some (True, r, c)"
        using depth eoc by (subst convert_step) (auto simp: eoc_element is_eoc_def)
      then show ?thesis using Nil c room by simp
    next
      case (Cons e es')
      have e: "ber_valid st depth e" "ber_need st e \<le> 0xfffffffe" using valid need Cons by simp_all
      have children: "complete es1" if "e = Constructed indefinite tag es1" for indefinite tag es1
        using that Cons by (intro less.IH) (auto simp: Let_def der_element_def)
      obtain element tag h inp' body need' where get:
        "CBS_get_any_ber_asn1_element (ber_bytes e @ (bers_bytes es' @ ?tail)) = (Some (element, tag, h), inp')" "\<not> is_eoc h element"
        and der: "ber_der st e = written st tag body" "ber_need st e = overhead st tag + need'" "length body \<le> need'"
          "st \<noteq> 0 \<Longrightarrow> primitive_tag tag = st"
        and run: "\<And>c1 n. open_at (contents_depth d st) c1 \<Longrightarrow> room (contents_depth d st) (need' + n) c1 \<Longrightarrow>
         \<exists>c2. convert_contents d st depth element tag h inp' c1 = Some (True, bers_bytes es' @ ?tail, c2) \<and> open_at (contents_depth d st) c2 \<and>
           room (contents_depth d st) n c2 \<and> cbb_abs c2 = append_last body (cbb_abs c1)"
        by (rule element_complete [where rest = "bers_bytes es' @ ?tail" and d = d, OF e children]) blast+
      let ?n = "bers_need st es' + n" and ?k = "if st \<noteq> 0 then 0 else 4 :: nat"
      have "room d (overhead st tag + (need' + ?n)) c" using room Cons der(2) by (simp add: add.assoc)
      from start_element_room [OF c this der(4)] obtain c1 where c1: "start_element d st tag c = (True, c1)"
        "room (contents_depth d st) (need' + (?n + ?k)) c1" by (auto simp: add.assoc)
      note open1 = start_element_effect(1) [OF c c1(1)]
      from run [OF open1 c1(2)] obtain c2 where c2: "convert_contents d st depth element tag h inp' c1 = Some (True, bers_bytes es' @ ?tail, c2)"
        "open_at (contents_depth d st) c2" "room (contents_depth d st) (?n + ?k) c2" "cbb_abs c2 = append_last body (cbb_abs c1)" by blast
      have "length body \<le> 0xfffffffe" using der(2,3) e(2) by simp
      from end_element_room [OF c c1(1) c2(2,4) this c2(3)] obtain c3 where c3: "CBB_flush d c2 = (True, c3)" "room d ?n c3" by blast
      note end3 = end_element_effect [OF c c1(1) c2(2,4) c3(1)]
      have "complete es'" using Cons by (intro less.IH) simp
      note rest = this [unfolded complete_def, rule_format, of st depth d c3 n eoc r]
      obtain c' where c': "cbs_convert_ber d st eoc depth (bers_bytes es' @ ?tail) c3 = Some (True, r, c')"
        "open_at d c'" "room d n c'" "cbb_abs c' = append_last (bers_der st es') (cbb_abs c3)"
        using rest valid depth end3(1) need c3(2) eoc Cons by auto
      have "cbs_convert_ber d st eoc depth (bers_bytes es @ ?tail) c = Some (True, r, c')"
        using Cons depth get c1 c2(1) c3(1) c'(1) by (subst convert_step) simp
      moreover have "cbb_abs c' = append_last (bers_der st es) (cbb_abs c)"
        using Cons der(1) end3(2) c'(4) by (simp add: append_last_append)
      ultimately show ?thesis using c'(2,3) by blast
    qed
  qed
qed

end
