(* ===== verification/Ber_Props.thy ===== *)
theory Ber_Props
  imports Ber_Convert
begin

text \<open>
  The properties of \<^verbatim>\<open>CBS_asn1_ber_to_der\<close> and \<^verbatim>\<open>CBS_get_asn1_implicit_string\<close>, and two kinds of input on
  which the first does not do what it means to.
\<close>

section \<open>Room\<close>

lemma overhead_le: "overhead st tag + n \<le> 4 * length (der_tag tag) + 4 + n"
proof -
  have "length (der_tag (out_tag tag)) \<le> length (der_tag tag)"
  proof (cases "constructed tag \<and> is_string_type tag")
    case True
    then have "primitive_tag tag \<in> {0x3, 0x4, 0xc, 0x12, 0x13, 0x14, 0x15, 0x16, 0x19, 0x1a, 0x1b, 0x1c, 0x1e}"
      by (simp add: is_string_type_def)
    then have "length (der_tag (primitive_tag tag)) = 1" by (auto simp: der_tag_def)
    then show ?thesis using True der_tag_length(1) [of tag] by (simp add: out_tag_def)
  qed (auto simp: out_tag_def)
  then show ?thesis using der_tag_length(1) [of tag] by (simp add: overhead_def)
qed

lemma ber_need_le: "ber_need st e \<le> 4 * length (ber_bytes e)"
proof (induction e arbitrary: st)
  case (Primitive tag body)
  then show ?case using overhead_le [of st tag "length body"] der_length_length(1) [of "length body"]
    by (simp add: der_element_def der_header_def)
next
  case (Constructed indefinite tag es)
  have "bers_need (child_tag st tag) es \<le> sum_list (map (\<lambda>e. 4 * length (ber_bytes e)) es)"
    using Constructed.IH by (intro sum_list_mono)
  also have "\<dots> = 4 * length (bers_bytes es)" by (induction es) simp_all
  finally show ?case
    using overhead_le [of st tag "bers_need (child_tag st tag) es"] der_length_length(1) [of "length (bers_bytes es)"]
    by (simp add: Let_def der_element_def der_header_def)
qed

lemma bers_need_le: "bers_need st es \<le> 4 * length (bers_bytes es)"
proof (induction es)
  case (Cons e es)
  then show ?case using ber_need_le [of st e] by simp
qed simp

section \<open>Looking for BER\<close>

text \<open>Trees without indefinite lengths and constructed strings.\<close>

fun ber_plain :: "ber \<Rightarrow> bool" where
  "ber_plain (Primitive tag body) = True"
| "ber_plain (Constructed indefinite tag es) \<longleftrightarrow> \<not> indefinite \<and> \<not> is_string_type tag \<and> (\<forall>e\<in>set es. ber_plain e)"

lemma child_tag_plain: "\<not> is_string_type tag \<Longrightarrow> child_tag 0 tag = 0"
  by (simp add: child_tag_def)

lemma find_ber_constructed:
  assumes "constructed tag" "\<not> is_string_type tag" "length body < 2 ^ 32"
  shows "find_ber_loop depth found (der_element tag body @ rest) =
    Option.bind (cbs_find_ber (depth + 1) body) (\<lambda>found. find_ber_loop depth found rest)"
proof -
  have "CBS_get_any_ber_asn1_element (der_element tag body @ rest) =
      (Some (der_element tag body, tag, length (der_header tag (length body))), rest)"
    using assms(3) by (auto simp: ber_element_Some)
  then show ?thesis using assms definite_not_indefinite by (subst find_ber_loop.simps) (simp split: option.split)
qed

lemma find_ber_string:
  assumes "constructed tag" "is_string_type tag" "length (bers_bytes es) < 2 ^ 32"
  shows "find_ber_loop depth found (ber_bytes (Constructed indefinite tag es)) = Some True"
proof -
  let ?inp = "ber_bytes (Constructed indefinite tag es)"
  have "\<exists>element h r. CBS_get_any_ber_asn1_element ?inp = (Some (element, tag, h), r)"
  proof (cases indefinite)
    case True
    then have "CBS_get_any_ber_asn1_element ?inp = (Some (der_tag tag @ [0x80], tag, length (der_tag tag @ [0x80])), bers_bytes es @ [0, 0])"
      using assms by (simp add: ber_element_Some)
    then show ?thesis by blast
  next
    case False
    then have "CBS_get_any_ber_asn1_element ?inp = (Some (?inp, tag, length (der_header tag (length (bers_bytes es)))), [])"
      using assms by (auto simp: ber_element_Some)
    then show ?thesis by blast
  qed
  moreover have "?inp \<noteq> []" by (cases indefinite) (auto simp: der_element_def Let_def)
  ultimately show ?thesis using assms by (subst find_ber_loop.simps) auto
qed

lemma find_ber_plain:
  "(\<forall>e\<in>set es. ber_plain e \<and> ber_valid 0 depth e) \<Longrightarrow> find_ber_loop depth False (bers_bytes es) = Some False"
proof (induction es arbitrary: depth rule: measure_induct_rule [of "\<lambda>es. length (bers_bytes es)"])
  case (less es)
  show ?case
  proof (cases es)
    case Nil
    then show ?thesis by (simp add: find_ber_loop.simps)
  next
    case (Cons e es')
    have rest: "find_ber_loop depth False (bers_bytes es') = Some False" using less Cons by simp
    have e: "ber_plain e" "ber_valid 0 depth e" using less.prems Cons by simp_all
    show ?thesis
    proof (cases e)
      case (Primitive tag body)
      have "CBS_get_any_ber_asn1_element (bers_bytes es) = (Some (der_element tag body, tag, length (der_header tag (length body))), bers_bytes es')"
        using e Primitive Cons by (auto simp: ber_element_Some)
      then show ?thesis using rest e Primitive Cons definite_not_indefinite by (subst find_ber_loop.simps) simp
    next
      case (Constructed indefinite tag es1)
      have f: "\<not> indefinite" "\<not> is_string_type tag" "constructed tag" "depth < kMaxDepth" "length (bers_bytes es1) < 2 ^ 32"
        "\<forall>e\<in>set es1. ber_plain e \<and> ber_valid 0 (depth + 1) e" using e Constructed child_tag_plain [of tag] by auto
      have "length (bers_bytes es1) < length (bers_bytes es)"
        using f(1) Constructed Cons der_header_length(1) [of tag "length (bers_bytes es1)"] by (simp add: der_element_def Let_def)
      then have "find_ber_loop (depth + 1) False (bers_bytes es1) = Some False" using f(6) by (rule less.IH)
      then have "cbs_find_ber (depth + 1) (bers_bytes es1) = Some False" using f(4) by (simp add: cbs_find_ber.simps)
      then show ?thesis using rest f Constructed Cons find_ber_constructed [OF f(3,2,5)] by simp
    qed
  qed
qed

section \<open>The whole conversion\<close>

lemma finish_out:
  assumes "open_at 0 c" "cbb_abs c = append_last xs ([], [])" "CBB_finish 0 True True c = (True, out, n, c')"
  shows "out = Some xs"
  using assms CBB_finish_True [of c out n c'] by (auto simp: open_at_def)

lemma new_open:
  assumes "CBB_init alloc fresh cap = (True, c)" "cap < 2 ^ 64"
  shows "open_at 0 c" "cbb_abs c = ([], [])"
  using CBB_init_ok [OF assms] by (simp_all add: open_at_def cbb_inv_def)

lemma convert_trees:
  assumes alloc: "\<forall>k. alloc k" and len: "length (bers_bytes es) < 2 ^ 30" and valid: "\<forall>e\<in>set es. ber_valid 0 0 e"
    and found: "cbs_find_ber 0 (bers_bytes es) = Some True"
  shows "CBS_asn1_ber_to_der alloc fresh (bers_bytes es) = Some (Some (bers_der 0 es, True), [])"
proof -
  obtain c where i: "CBB_init alloc fresh (length (bers_bytes es)) = (True, c)" using alloc by (simp add: CBB_init_def cbb_init_def)
  have "bers_need 0 es \<le> 0xfffffffe" using bers_need_le [of 0 es] len by simp
  moreover from this have "room 0 (bers_need 0 es + 0) c" using CBB_init_ok(3) [OF i] alloc len by simp
  ultimately obtain c' where c': "cbs_convert_ber 0 0 False 0 (bers_bytes es) c = Some (True, [], c')" "open_at 0 c'" "room 0 0 c'"
      "cbb_abs c' = append_last (bers_der 0 es) ([], [])"
    using convert_complete [of es, unfolded complete_def, rule_format, of 0 0 0 c 0 False "[]"] valid new_open [OF i] len by auto
  obtain out n c2 where f: "CBB_finish 0 True True c' = (True, out, n, c2)"
    using CBB_finish_success [of c'] c'(2,3) by (cases "CBB_finish 0 True True c'") (auto simp: open_at_def)
  show ?thesis using found i c'(1) f finish_out [OF c'(2,4) f] by (simp add: CBS_asn1_ber_to_der_def)
qed

lemma converted_trees:
  assumes "cbs_find_ber 0 inp = Some True" and len: "length inp < 2 ^ 64"
  shows "\<exists>res inp'. CBS_asn1_ber_to_der alloc fresh inp = Some (res, inp') \<and>
    (\<forall>out st. res = Some (out, st) \<longrightarrow> st \<and> inp' = [] \<and>
       (\<exists>es. inp = bers_bytes es \<and> (\<forall>e\<in>set es. ber_valid 0 0 e) \<and> out = bers_der 0 es))"
proof -
  obtain started c where i: "CBB_init alloc fresh (length inp) = (started, c)" by fastforce
  show ?thesis
  proof (cases started)
    case True
    then have i: "CBB_init alloc fresh (length inp) = (True, c)" using i by simp
    note new = new_open [OF i len]
    obtain ok r c' where r: "cbs_convert_ber 0 0 False 0 inp c = Some (ok, r, c')"
      "ok \<longrightarrow> open_at 0 c' \<and> 0 \<le> kMaxDepth \<and> (False \<or> r = []) \<and> (\<exists>es. inp = bers_bytes es @ (if False then [0, 0] else []) @ r \<and>
         (\<forall>e\<in>set es. ber_valid 0 0 e) \<and> cbb_abs c' = append_last (bers_der 0 es) (cbb_abs c))"
      using convert_sound [OF new(1), of 0 False 0 inp] unfolding converts_def by blast
    obtain fin out n c2 where f: "CBB_finish 0 True True c' = (fin, out, n, c2)" by (cases "CBB_finish 0 True True c'")
    show ?thesis
    proof (cases "ok \<and> fin")
      case True
      then obtain es where es: "inp = bers_bytes es" "\<forall>e\<in>set es. ber_valid 0 0 e" "cbb_abs c' = append_last (bers_der 0 es) ([], [])"
        "open_at 0 c'" "r = []" using r(2) new(2) by auto
      have "out = Some (bers_der 0 es)" using finish_out [OF es(4,3)] f True by simp
      then show ?thesis using assms(1) i r(1) f True es by (auto simp: CBS_asn1_ber_to_der_def)
    qed (use assms(1) i r(1) f in \<open>auto simp: CBS_asn1_ber_to_der_def\<close>)
  qed (use assms(1) i in \<open>simp add: CBS_asn1_ber_to_der_def\<close>)
qed

section \<open>The result is DER\<close>

text \<open>The tree that is written.\<close>

fun ber_norm :: "ber \<Rightarrow> ber" where
  "ber_norm (Primitive tag body) = Primitive tag body"
| "ber_norm (Constructed indefinite tag es) =
     (if is_string_type tag then Primitive (primitive_tag tag) (bers_der (primitive_tag tag) es)
      else Constructed False tag (map ber_norm es))"

lemma ber_norm_bytes:
  assumes "ber_valid 0 depth e" "4 * length (ber_bytes e) < 2 ^ 32"
  shows "ber_bytes (ber_norm e) = ber_der 0 e" "ber_plain (ber_norm e)" "ber_valid 0 depth (ber_norm e)"
proof -
  have "ber_bytes (ber_norm e) = ber_der 0 e \<and> ber_plain (ber_norm e) \<and> ber_valid 0 depth (ber_norm e)"
    using assms
  proof (induction e arbitrary: depth)
    case (Primitive tag body)
    then show ?case by (simp add: written_def out_tag_def)
  next
    case (Constructed indefinite tag es)
    let ?e = "Constructed indefinite tag es"
    have v: "constructed tag" "\<forall>e\<in>set es. ber_valid (child_tag 0 tag) (depth + 1) e" "depth < kMaxDepth" using Constructed.prems by simp_all
    have "length (bers_der (child_tag 0 tag) es) \<le> ber_need 0 ?e" using length_bers_der [of "child_tag 0 tag" es] by simp
    also have "\<dots> \<le> 4 * length (ber_bytes ?e)" by (rule ber_need_le)
    finally have len: "length (bers_der (child_tag 0 tag) es) < 2 ^ 32" using Constructed.prems(2) by linarith
    show ?case
    proof (cases "is_string_type tag")
      case True
      then have "child_tag 0 tag = primitive_tag tag" "out_tag tag = primitive_tag tag" using v by (simp_all add: child_tag_def out_tag_def)
      then show ?thesis using True len string_tag_nonzero [OF True] by (simp add: written_def)
    next
      case False
      note child = child_tag_plain [OF False]
      have ih: "ber_bytes (ber_norm e) = ber_der 0 e \<and> ber_plain (ber_norm e) \<and> ber_valid 0 (depth + 1) (ber_norm e)" if "e \<in> set es" for e
      proof (rule Constructed.IH [OF that])
        show "ber_valid 0 (depth + 1) e" using v(2) child that by simp
        have "length (ber_bytes e) \<le> length (bers_bytes es)" using that by (auto simp: length_concat intro!: member_le_sum_list)
        also have "\<dots> \<le> length (ber_bytes ?e)" by (simp add: Let_def der_element_def)
        finally show "4 * length (ber_bytes e) < 2 ^ 32" using Constructed.prems(2) by linarith
      qed
      then have "map ber_bytes (map ber_norm es) = map (ber_der 0) es" by simp
      then have "bers_bytes (map ber_norm es) = bers_der 0 es" by metis
      then show ?thesis using False ih v len child by (simp add: written_def out_tag_def)
    qed
  qed
  then show "ber_bytes (ber_norm e) = ber_der 0 e" "ber_plain (ber_norm e)" "ber_valid 0 depth (ber_norm e)" by blast+
qed

lemma bers_norm:
  assumes valid: "\<forall>e\<in>set es. ber_valid 0 0 e" and len: "4 * length (bers_bytes es) < 2 ^ 32"
  shows "bers_bytes (map ber_norm es) = bers_der 0 es" "\<forall>e\<in>set (map ber_norm es). ber_plain e \<and> ber_valid 0 0 e"
proof -
  have each: "ber_bytes (ber_norm e) = ber_der 0 e \<and> ber_plain (ber_norm e) \<and> ber_valid 0 0 (ber_norm e)" if "e \<in> set es" for e
  proof -
    have "length (ber_bytes e) \<le> length (bers_bytes es)" using that by (auto simp: length_concat intro!: member_le_sum_list)
    then have "4 * length (ber_bytes e) < 2 ^ 32" using len by linarith
    then show ?thesis using ber_norm_bytes [of 0 e] valid that by blast
  qed
  then have "map ber_bytes (map ber_norm es) = map (ber_der 0) es" by simp
  then show "bers_bytes (map ber_norm es) = bers_der 0 es" by metis
  show "\<forall>e\<in>set (map ber_norm es). ber_plain e \<and> ber_valid 0 0 e" using each by auto
qed

lemma plain_first_element:
  assumes "ber_plain e" "ber_valid 0 depth e"
  shows "\<exists>tag h. CBS_get_any_asn1_element (ber_bytes e @ r) = (Some (ber_bytes e, tag, h), r)"
  using assms by (cases e) (auto simp: CBS_get_any_asn1_element_def cbs_get_any_asn1_element_der)

text \<open>
  Bytes that are DER as far as identifiers and lengths go, to any depth: elements with a minimal tag and a
  minimal definite length, one after the other, the contents of a constructed one again of this form, and no
  string constructed.
\<close>

inductive der_framed :: "bytes \<Rightarrow> bool" where
  framed_end: "der_framed []"
| framed_primitive: "\<lbrakk>\<not> constructed tag; length body < 2 ^ 32; der_framed rest\<rbrakk> \<Longrightarrow> der_framed (der_element tag body @ rest)"
| framed_constructed:
    "\<lbrakk>constructed tag; \<not> is_string_type tag; length body < 2 ^ 32; der_framed body; der_framed rest\<rbrakk> \<Longrightarrow>
     der_framed (der_element tag body @ rest)"

lemma plain_framed: "(\<forall>e\<in>set es. ber_plain e \<and> ber_valid 0 depth e) \<Longrightarrow> der_framed (bers_bytes es)"
proof (induction es arbitrary: depth rule: measure_induct_rule [of "\<lambda>es. length (bers_bytes es)"])
  case (less es)
  show ?case
  proof (cases es)
    case (Cons e es')
    have "length (bers_bytes es') < length (bers_bytes es)" using Cons by simp
    then have rest: "der_framed (bers_bytes es')" by (rule less.IH) (use less.prems Cons in auto)
    show ?thesis
    proof (cases e)
      case (Primitive tag body)
      then show ?thesis using rest less.prems Cons by (simp add: framed_primitive)
    next
      case (Constructed indefinite tag es1)
      then have f: "\<not> indefinite" "\<not> is_string_type tag" "constructed tag" "length (bers_bytes es1) < 2 ^ 32"
        "\<forall>e\<in>set es1. ber_plain e \<and> ber_valid 0 (depth + 1) e" using less.prems Cons child_tag_plain [of tag] by auto
      have "length (bers_bytes es1) < length (bers_bytes es)"
        using f(1) Constructed Cons der_header_length(1) [of tag "length (bers_bytes es1)"] by (simp add: der_element_def Let_def)
      then have "der_framed (bers_bytes es1)" using f(5) by (rule less.IH)
      then show ?thesis using f rest Constructed Cons by (simp add: framed_constructed)
    qed
  qed (simp add: framed_end)
qed

section \<open>Implicitly tagged strings\<close>

lemma chunks_sound:
  "implicit_chunks inner child c = (True, c') \<Longrightarrow> open_at 0 c \<Longrightarrow>
   \<exists>chunks. child = concat (map (der_element inner) chunks) \<and> (\<forall>chunk\<in>set chunks. length chunk < 2 ^ 32) \<and>
     open_at 0 c' \<and> cbb_abs c' = append_last (concat chunks) (cbb_abs c)"
proof (induction inner child c rule: implicit_chunks.induct)
  case (1 inner child c)
  show ?case
  proof (cases "child = []")
    case True
    then show ?thesis using "1.prems" by (intro exI [of _ "[]"]) (simp add: implicit_chunks.simps)
  next
    case False
    then obtain chunk child' c1 where e: "CBS_get_asn1 inner child = (Some chunk, child')" "CBB_add_bytes 0 chunk c = (True, c1)"
      "implicit_chunks inner child' c1 = (True, c')"
      using "1.prems"(1) by (subst (asm) implicit_chunks.simps) (auto split: prod.splits option.splits bool.splits)
    then have d: "child = der_element inner chunk @ child'" "length chunk < 2 ^ 32" by (simp_all add: CBS_get_asn1_Some)
    then have "length chunk < 2 ^ 64" by simp
    note a = add_bytes_effect [OF "1.prems"(2) this e(2)]
    obtain chunks where "child' = concat (map (der_element inner) chunks)" "\<forall>chunk\<in>set chunks. length chunk < 2 ^ 32" "open_at 0 c'"
      "cbb_abs c' = append_last (concat chunks) (cbb_abs c1)"
      using "1.IH" [OF False e(1) [symmetric] refl e(2) [symmetric] refl e(3) a(1)] by auto
    then show ?thesis using d a(2) by (intro exI [of _ "chunk # chunks"]) (simp add: append_last_append)
  qed
qed

lemma chunks_complete:
  assumes "\<forall>chunk\<in>set chunks. length chunk < 2 ^ 32" "open_at 0 c" "room 0 (length (concat chunks) + n) c"
  shows "\<exists>c'. implicit_chunks inner (concat (map (der_element inner) chunks)) c = (True, c') \<and> open_at 0 c' \<and> room 0 n c' \<and>
    cbb_abs c' = append_last (concat chunks) (cbb_abs c)"
  using assms
proof (induction chunks arbitrary: c)
  case Nil
  then show ?case by (simp add: implicit_chunks.simps)
next
  case (Cons chunk chunks)
  have len: "length chunk < 2 ^ 32" "length chunk < 2 ^ 64" using Cons.prems(1) by simp_all
  have ok: "cbb_ok c" using Cons.prems(2) by (simp add: open_at_def)
  have r: "room 0 (length chunk + (length (concat chunks) + n)) c" using Cons.prems(3) by (simp add: add.assoc)
  obtain c1 where c1: "CBB_add_bytes 0 chunk c = (True, c1)" "room 0 (length (concat chunks) + n) c1"
    using appender.succeeds [OF appender_add_bytes [OF len(2)] ok r] by blast
  note a = add_bytes_effect [OF Cons.prems(2) len(2) c1(1)]
  have g: "CBS_get_asn1 inner (der_element inner chunk @ concat (map (der_element inner) chunks)) =
      (Some chunk, concat (map (der_element inner) chunks))" using len(1) by (rule CBS_get_asn1_der)
  obtain c' where "implicit_chunks inner (concat (map (der_element inner) chunks)) c1 = (True, c')" "open_at 0 c'" "room 0 n c'"
      "cbb_abs c' = append_last (concat chunks) (cbb_abs c1)"
    using Cons.IH [OF _ a(1) c1(2)] Cons.prems(1) by auto
  then show ?case using c1(1) g a(2) by (subst implicit_chunks.simps) (simp add: append_last_append)
qed

section \<open>Properties\<close>

text \<open>
  C8. When \<^verbatim>\<open>cbs_find_ber\<close> reports BER in an input of less than 2^30 bytes and no allocation fails, \<^verbatim>\<open>CBS_asn1_ber_to_der\<close>
  returns, and it succeeds exactly on the concatenations of elements with minimal tags and with lengths that are
  indefinite (constructed elements only) or definite and minimal, nested at most 2048 deep, in which the pieces of a
  constructed string have its tag (\<open>ber_valid\<close>). This is not all of BER: an element with a definite length that is not
  minimal is refused. On success it consumes all of the input and gives the same elements with definite lengths,
  and every constructed string as one string with its pieces put together.
\<close>

theorem ber_to_der_converts:
  assumes "\<forall>k. alloc k" and "length inp < 2 ^ 30" and "cbs_find_ber 0 inp = Some True"
  shows "\<exists>res inp'. CBS_asn1_ber_to_der alloc fresh inp = Some (res, inp') \<and>
    (res = Some (out, in_buffer) \<longleftrightarrow>
       in_buffer \<and> (\<exists>es. inp = bers_bytes es \<and> (\<forall>e\<in>set es. ber_valid 0 0 e) \<and> out = bers_der 0 es)) \<and>
    (res \<noteq> None \<longrightarrow> inp' = [])"
proof -
  have "length inp < 2 ^ 64" using assms(2) by simp
  then obtain res inp' where r: "CBS_asn1_ber_to_der alloc fresh inp = Some (res, inp')"
    and s: "\<forall>out st. res = Some (out, st) \<longrightarrow> st \<and> inp' = [] \<and> (\<exists>es. inp = bers_bytes es \<and> (\<forall>e\<in>set es. ber_valid 0 0 e) \<and> out = bers_der 0 es)"
    using converted_trees [OF assms(3)] by blast
  have "res = Some (out, True)" if "inp = bers_bytes es" "\<forall>e\<in>set es. ber_valid 0 0 e" "out = bers_der 0 es" for es
    using convert_trees [OF assms(1), of es fresh] assms(2,3) that r by simp
  then have "res = Some (out, in_buffer) \<longleftrightarrow>
      in_buffer \<and> (\<exists>es. inp = bers_bytes es \<and> (\<forall>e\<in>set es. ber_valid 0 0 e) \<and> out = bers_der 0 es)"
    using s by (cases in_buffer) (simp, blast, blast)
  moreover have "res \<noteq> None \<longrightarrow> inp' = []" using s by (cases res) auto
  ultimately show ?thesis using r by blast
qed

text \<open>
  C9. What \<^verbatim>\<open>CBS_asn1_ber_to_der\<close> has converted, from less than 2^30 bytes, has the framing of DER to every depth: each
  element has a minimal tag and a minimal definite length and no string is constructed. So no BER is found in it,
  the strict reader accepts it, and converting it again gives its first element unchanged, without a new buffer.
  The contents of primitive elements are not looked at.
\<close>

theorem ber_to_der_idempotent:
  assumes "CBS_asn1_ber_to_der alloc fresh inp = Some (Some (out, True), inp')" and "length inp < 2 ^ 30"
  shows "der_framed out \<and> cbs_find_ber 0 out = Some False \<and>
    (\<exists>first rest tag h. out = first @ rest \<and> CBS_get_any_asn1_element out = (Some (first, tag, h), rest) \<and>
       CBS_asn1_ber_to_der alloc' fresh' out = Some (Some (first, False), rest))"
proof -
  have found: "cbs_find_ber 0 inp = Some True"
    using assms(1) by (auto simp: CBS_asn1_ber_to_der_def split: option.splits bool.splits prod.splits)
  have "length inp < 2 ^ 64" using assms(2) by simp
  then obtain es where es: "inp = bers_bytes es" "\<forall>e\<in>set es. ber_valid 0 0 e" "out = bers_der 0 es"
    using converted_trees [OF found, of alloc fresh] assms(1) by auto
  have "4 * length (bers_bytes es) < 2 ^ 32" using assms(2) es(1) by simp
  note norm = bers_norm [OF es(2) this]
  have framed: "der_framed out" using plain_framed [OF norm(2)] unfolding norm(1) es(3) .
  have "find_ber_loop 0 False (bers_bytes (map ber_norm es)) = Some False" using norm(2) by (rule find_ber_plain)
  then have none: "cbs_find_ber 0 out = Some False" unfolding norm(1) es(3) by (simp add: cbs_find_ber.simps kMaxDepth_def)
  have "es \<noteq> []" using found es(1) by (auto simp: cbs_find_ber.simps find_ber_loop.simps split: if_splits)
  then obtain e es' where e: "es = e # es'" by (cases es) auto
  let ?first = "ber_bytes (ber_norm e)" and ?rest = "bers_bytes (map ber_norm es')"
  have out: "out = ?first @ ?rest" using es(3) norm(1) [symmetric] by (simp only: e list.map concat.simps)
  moreover obtain tag h where "CBS_get_any_asn1_element out = (Some (?first, tag, h), ?rest)"
    unfolding out using plain_first_element [of "ber_norm e" 0 ?rest] norm(2) e by auto
  ultimately show ?thesis using framed none by (auto simp: CBS_asn1_ber_to_der_def)
qed

lemmas read_eval = ber_element_eq parse_asn1_tag_def Let_def get_element_def CBS_get_bytes_eq cbs_get_def size_add_def CBS_ASN1_TAG_SHIFT_def
  CBS_ASN1_CONSTRUCTED_def CBS_get_any_asn1_element_def cbs_get_any_asn1_element_def

lemma sample_tags: "\<not> is_string_type 0x20000010" "is_string_type 0x20000004" "is_string_type 0x20000003"
  by (simp_all add: is_string_type_def CBS_ASN1_CONSTRUCTED_def)

lemmas der_eval = der_element_def der_header_def der_tag_def der_length_def Let_def written_def child_tag_def out_tag_def sample_tags
  CBS_ASN1_CONSTRUCTED_def kMaxDepth_def

text \<open>An OCTET STRING of indefinite length in two pieces.\<close>

definition string_pieces :: "ber list" where
  "string_pieces = [Constructed True 0x20000004 [Primitive 4 [0x41], Primitive 4 [0x42]]]"

lemma ber_to_der_converts_witness:
  "CBS_asn1_ber_to_der (\<lambda>_. True) 0 [0x24, 0x80, 4, 1, 0x41, 4, 1, 0x42, 0, 0] = Some (Some ([4, 2, 0x41, 0x42], True), [])"
proof -
  let ?inp = "[0x24, 0x80, 4, 1, 0x41, 4, 1, 0x42, 0, 0] :: bytes"
  have "?inp = bers_bytes string_pieces" "[4, 2, 0x41, 0x42] = bers_der 0 string_pieces"
    by (simp_all add: string_pieces_def der_eval)
  moreover have "\<forall>e\<in>set string_pieces. ber_valid 0 0 e" by (simp add: string_pieces_def der_eval)
  moreover have "cbs_find_ber 0 ?inp = Some True"
    by (simp add: cbs_find_ber.simps find_ber_loop.simps [of _ _ ?inp] read_eval is_indefinite_def kMaxDepth_def)
  moreover from calculation have "\<exists>es. ?inp = bers_bytes es \<and> (\<forall>e\<in>set es. ber_valid 0 0 e) \<and> [4, 2, 0x41, 0x42] = bers_der 0 es" by blast
  moreover have "length ?inp < 2 ^ 30" by simp
  ultimately obtain res inp' where "CBS_asn1_ber_to_der (\<lambda>_. True) 0 ?inp = Some (res, inp')" "res = Some ([4, 2, 0x41, 0x42], True)" "inp' = []"
    using ber_to_der_converts [of "\<lambda>_. True" ?inp 0 "[4, 2, 0x41, 0x42]" True] by (metis option.distinct(1))
  then show ?thesis by simp
qed

lemma ber_to_der_idempotent_witness: "der_framed [4, 2, 0x41, 0x42] \<and> cbs_find_ber 0 [4, 2, 0x41, 0x42] = Some False"
proof -
  let ?inp = "[0x24, 0x80, 4, 1, 0x41, 4, 1, 0x42, 0, 0] :: bytes"
  have inp: "bers_bytes string_pieces = ?inp" and out: "bers_der 0 string_pieces = [4, 2, 0x41, 0x42]"
    and valid: "\<forall>e\<in>set string_pieces. ber_valid 0 0 e" by (simp_all add: string_pieces_def der_eval)
  have "cbs_find_ber 0 ?inp = Some True"
    by (simp add: cbs_find_ber.simps find_ber_loop.simps [of _ _ ?inp] read_eval is_indefinite_def kMaxDepth_def)
  then have "CBS_asn1_ber_to_der (\<lambda>_. True) 0 (bers_bytes string_pieces) = Some (Some (bers_der 0 string_pieces, True), [])"
    by (intro convert_trees [OF _ _ valid]) (simp_all only: inp, simp_all)
  then show ?thesis unfolding inp out using ber_to_der_idempotent by fastforce
qed

text \<open>
  C11. In a constructed element that holds two constructed elements, all with definite lengths and none with the tag
  of a string, what is found in the contents of the first does not count: the call for the second one resets
  \<^verbatim>\<open>*ber_found\<close>. When there is BER in the contents of the first and none in those of the second,
  \<^verbatim>\<open>CBS_asn1_ber_to_der\<close> returns the whole element as it is, as if it were DER, although BER is found in the first
  element alone.
\<close>

theorem ber_hidden_by_sibling:
  assumes tags: "\<forall>t\<in>{tag, tag1, tag2}. constructed t \<and> \<not> is_string_type t"
    and body: "cbs_find_ber 2 body1 = Some True" "cbs_find_ber 2 body2 = Some False"
    and len: "length (der_element tag1 body1 @ der_element tag2 body2) < 2 ^ 32"
  shows "cbs_find_ber 1 (der_element tag1 body1) = Some True \<and>
    cbs_find_ber 0 (der_element tag (der_element tag1 body1 @ der_element tag2 body2)) = Some False \<and>
    CBS_asn1_ber_to_der alloc fresh (der_element tag (der_element tag1 body1 @ der_element tag2 body2)) =
      Some (Some (der_element tag (der_element tag1 body1 @ der_element tag2 body2), False), [])"
proof -
  let ?both = "der_element tag1 body1 @ der_element tag2 body2"
  have "length body1 < 2 ^ 32" "length body2 < 2 ^ 32" using len by (simp_all add: der_element_def)
  note loop = find_ber_constructed [of tag1, OF _ _ this(1)] find_ber_constructed [of tag2, OF _ _ this(2)]
    find_ber_constructed [of tag, OF _ _ len] find_ber_loop.simps [of _ _ "[]"]
  have find: "cbs_find_ber d inp = find_ber_loop d False inp" if "d \<in> {0, 1}" for d inp
    using that by (auto simp: cbs_find_ber.simps kMaxDepth_def)
  have first: "find_ber_loop 1 b (der_element tag1 body1) = Some True" for b
    using loop(1) [of 1 b "[]"] tags body(1) by (simp add: loop(4) numeral_2_eq_2)
  have "find_ber_loop 1 False (?both @ []) = Some False"
    using loop(1) [of 1 False "der_element tag2 body2"] loop(2) [of 1 True "[]"] tags body by (simp add: loop(4) numeral_2_eq_2)
  then have "find_ber_loop 0 False (der_element tag ?both @ []) = Some False"
    using tags by (subst loop(3)) (simp_all add: find loop(4))
  then have none: "cbs_find_ber 0 (der_element tag ?both) = Some False" by (simp add: find)
  have "CBS_get_any_asn1_element (der_element tag ?both @ []) = (Some (der_element tag ?both, tag, length (der_header tag (length ?both))), [])"
    using len unfolding CBS_get_any_asn1_element_def by (rule cbs_get_any_asn1_element_der)
  then show ?thesis using none first by (simp add: find CBS_asn1_ber_to_der_def)
qed

text \<open>A SEQUENCE of two SEQUENCEs, of which the first holds an OCTET STRING of indefinite length.\<close>

lemma ber_hidden_by_sibling_witness:
  "CBS_asn1_ber_to_der (\<lambda>_. True) 0 [0x30, 0x0b, 0x30, 7, 0x24, 0x80, 4, 1, 0x41, 0, 0, 0x30, 0] =
     Some (Some ([0x30, 0x0b, 0x30, 7, 0x24, 0x80, 4, 1, 0x41, 0, 0, 0x30, 0], False), [])"
proof -
  let ?string = "[0x24, 0x80, 4, 1, 0x41, 0, 0] :: bytes" and ?seq = "0x20000010 :: u32"
  have string: "cbs_find_ber 2 ?string = Some True"
    by (simp add: cbs_find_ber.simps find_ber_loop.simps [of _ _ ?string] read_eval is_indefinite_def kMaxDepth_def)
  have empty: "cbs_find_ber 2 [] = Some False" by (simp add: cbs_find_ber.simps find_ber_loop.simps kMaxDepth_def)
  have both: "der_element ?seq (der_element ?seq ?string @ der_element ?seq []) =
      [0x30, 0x0b, 0x30, 7, 0x24, 0x80, 4, 1, 0x41, 0, 0, 0x30, 0]" by (simp add: der_eval)
  have tags: "\<forall>t\<in>{?seq, ?seq, ?seq}. constructed t \<and> \<not> is_string_type t" by (simp add: der_eval)
  have "length (der_element ?seq ?string @ der_element ?seq []) < 2 ^ 32" by (simp add: der_eval)
  from ber_hidden_by_sibling [OF tags string empty this, of "\<lambda>_. True" 0] show ?thesis unfolding both by blast
qed

text \<open>
  C12. The pieces of a constructed BIT STRING are put together with the octet in front of each that counts its
  unused bits, whatever the pieces are: when no allocation fails and the encoding is shorter than 2^30 bytes, the
  contents of the BIT STRING that is written are the contents of all pieces, counts included, one after the other. Unless
  there is exactly one piece, these are not one count followed by the octets of the pieces: the counts of the later
  pieces are between their octets, and a string without pieces is left without a count.
\<close>

theorem bit_string_pieces_keep_counts:
  fixes pieces :: "(byte \<times> bytes) list"
  assumes alloc: "\<forall>k. alloc k"
    and len: "length (ber_bytes (Constructed indefinite 0x20000003 (map (\<lambda>(n, bits). Primitive 3 (n # bits)) pieces))) < 2 ^ 30"
  shows "CBS_asn1_ber_to_der alloc fresh (ber_bytes (Constructed indefinite 0x20000003 (map (\<lambda>(n, bits). Primitive 3 (n # bits)) pieces))) =
      Some (Some (der_element 3 (concat (map (\<lambda>(n, bits). n # bits) pieces)), True), []) \<and>
    (length pieces \<noteq> 1 \<longrightarrow> (\<forall>count. concat (map (\<lambda>(n, bits). n # bits) pieces) \<noteq> count # concat (map snd pieces)))"
proof -
  let ?es = "map (\<lambda>(n, bits). Primitive 3 (n # bits)) pieces" and ?contents = "concat (map (\<lambda>(n, bits). n # bits) pieces)"
  let ?e = "Constructed indefinite 0x20000003 ?es"
  have body: "length (bers_bytes ?es) < 2 ^ 30" using len by (simp add: Let_def der_element_def split: if_splits)
  have each: "length (n # bits) < 2 ^ 32" if "(n, bits) \<in> set pieces" for n bits
  proof -
    have "length (ber_bytes (Primitive 3 (n # bits))) \<le> length (bers_bytes ?es)"
      using that by (induction pieces) auto
    then show ?thesis using body by (simp add: der_element_def)
  qed
  have "ber_valid 0 0 ?e" using body each by (auto simp: sample_tags child_tag_def CBS_ASN1_CONSTRUCTED_def kMaxDepth_def)
  then have valid: "\<forall>e\<in>set [?e]. ber_valid 0 0 e" by simp
  have "length (bers_bytes ?es) < 2 ^ 32" using body by simp
  then have "find_ber_loop 0 False (ber_bytes ?e) = Some True"
    by (intro find_ber_string) (simp_all add: sample_tags CBS_ASN1_CONSTRUCTED_def)
  then have "cbs_find_ber 0 (bers_bytes [?e]) = Some True" by (simp add: cbs_find_ber.simps)
  with convert_trees [OF alloc _ valid] len
  have "CBS_asn1_ber_to_der alloc fresh (bers_bytes [?e]) = Some (Some (bers_der 0 [?e], True), [])" by simp
  moreover have "bers_der 3 ?es = ?contents" by (induction pieces) (auto simp: written_def)
  then have "bers_der 0 [?e] = der_element 3 ?contents" by (simp add: written_def child_tag_def out_tag_def sample_tags CBS_ASN1_CONSTRUCTED_def)
  moreover have "length ?contents = length pieces + length (concat (map snd pieces))" by (induction pieces) auto
  then have "length pieces \<noteq> 1 \<longrightarrow> (\<forall>count. ?contents \<noteq> count # concat (map snd pieces))"
    by (metis One_nat_def add.commute add_left_cancel length_Cons plus_1_eq_Suc)
  ultimately show ?thesis by simp
qed

text \<open>A string of the 16 bits aa bb in two pieces becomes the string of the 24 bits aa 00 bb.\<close>

lemma bit_string_pieces_keep_counts_witness:
  "CBS_asn1_ber_to_der (\<lambda>_. True) 0 [0x23, 0x80, 3, 2, 0, 0xaa, 3, 2, 0, 0xbb, 0, 0] = Some (Some ([3, 4, 0, 0xaa, 0, 0xbb], True), [])"
proof -
  let ?inp = "[0x23, 0x80, 3, 2, 0, 0xaa, 3, 2, 0, 0xbb, 0, 0] :: bytes" and ?pieces = "[(0, [0xaa]), (0, [0xbb])] :: (byte \<times> bytes) list"
  have e: "ber_bytes (Constructed True 0x20000003 (map (\<lambda>(n, bits). Primitive 3 (n # bits)) ?pieces)) = ?inp"
    and d: "der_element 3 (concat (map (\<lambda>(n, bits). n # bits) ?pieces)) = [3, 4, 0, 0xaa, 0, 0xbb]" by (simp_all add: der_eval)
  have "length (ber_bytes (Constructed True 0x20000003 (map (\<lambda>(n, bits). Primitive 3 (n # bits)) ?pieces))) < 2 ^ 30"
    unfolding e by simp
  from bit_string_pieces_keep_counts [OF _ this, of "\<lambda>_. True" 0] show ?thesis unfolding e d by simp
qed

text \<open>
  C10. When memory does not run out, \<^verbatim>\<open>CBS_get_asn1_implicit_string\<close> reads exactly two forms: a string with the
  outer tag, which it gives as it is, and a constructed element with the outer tag whose pieces are strings with
  the inner tag, of which it gives the contents put together in a new buffer.
\<close>

theorem CBS_get_asn1_implicit_string_reads:
  assumes "\<forall>k. alloc k" and "length inp < 2 ^ 63" and "\<not> constructed outer_tag"
  shows "CBS_get_asn1_implicit_string alloc fresh outer_tag inner_tag inp = (Some (out, in_buffer), r) \<longleftrightarrow>
    (if in_buffer
     then \<exists>chunks. inp = der_element (outer_tag OR CBS_ASN1_CONSTRUCTED) (concat (map (der_element inner_tag) chunks)) @ r \<and>
       length (concat (map (der_element inner_tag) chunks)) < 2 ^ 32 \<and> out = concat chunks
     else inp = der_element outer_tag out @ r \<and> length out < 2 ^ 32)"
proof -
  let ?outer = "outer_tag OR CBS_ASN1_CONSTRUCTED"
  have differ: "?outer \<noteq> outer_tag"
  proof
    assume "?outer = outer_tag"
    then have "(outer_tag OR CBS_ASN1_CONSTRUCTED) AND CBS_ASN1_CONSTRUCTED = outer_tag AND CBS_ASN1_CONSTRUCTED" by simp
    then show False using assms(3) by (simp add: bit.conj_disj_distrib2 CBS_ASN1_CONSTRUCTED_def)
  qed
  obtain c where i: "CBB_init alloc fresh (length inp) = (True, c)" using assms(1) by (simp add: CBB_init_def cbb_init_def)
  have len: "length inp < 2 ^ 64" using assms(2) by simp
  note new = new_open [OF i len]
  let ?f = "CBS_get_asn1_implicit_string alloc fresh outer_tag inner_tag inp"
  show ?thesis
  proof (cases "CBS_peek_asn1_tag inp outer_tag")
    case True
    then have f: "?f = (Some (out, in_buffer), r) \<longleftrightarrow> \<not> in_buffer \<and> CBS_get_asn1 outer_tag inp = (Some out, r)"
      by (auto simp: CBS_get_asn1_implicit_string_def split: prod.splits option.splits)
    have "inp \<noteq> der_element ?outer body @ r" for body using True differ CBS_peek_asn1_tag_der [of ?outer body r outer_tag] by auto
    then show ?thesis unfolding f CBS_get_asn1_Some by auto
  next
    case False
    then have no: "inp \<noteq> der_element outer_tag body @ r" for body using CBS_peek_asn1_tag_der [of outer_tag body r outer_tag] by auto
    have sound: "in_buffer \<and> (\<exists>chunks. inp = der_element ?outer (concat (map (der_element inner_tag) chunks)) @ r \<and>
        length (concat (map (der_element inner_tag) chunks)) < 2 ^ 32 \<and> out = concat chunks)" if "?f = (Some (out, in_buffer), r)"
    proof -
      from that obtain child c' n c2 where s: "CBS_get_asn1 ?outer inp = (Some child, r)" "implicit_chunks inner_tag child c = (True, c')"
        "CBB_finish 0 True True c' = (True, Some out, n, c2)" "in_buffer"
        using False i by (auto simp: CBS_get_asn1_implicit_string_def split: prod.splits option.splits bool.splits)
      obtain chunks where ch: "child = concat (map (der_element inner_tag) chunks)" "open_at 0 c'" "cbb_abs c' = append_last (concat chunks) ([], [])"
        using chunks_sound [OF s(2) new(1)] new(2) by auto
      show ?thesis using s(1,4) ch(1) finish_out [OF ch(2,3) s(3)] by (auto simp: CBS_get_asn1_Some)
    qed
    have complete: "?f = (Some (concat chunks, True), r)"
      if inp: "inp = der_element ?outer (concat (map (der_element inner_tag) chunks)) @ r"
        and short: "length (concat (map (der_element inner_tag) chunks)) < 2 ^ 32" for chunks
    proof -
      have each: "length chunk < 2 ^ 32" if "chunk \<in> set chunks" for chunk
      proof -
        have "length chunk \<le> length (der_element inner_tag chunk)" by (simp add: der_element_def)
        also have "\<dots> \<le> length (concat (map (der_element inner_tag) chunks))"
          using that by (auto simp: length_concat intro!: member_le_sum_list)
        finally show ?thesis using short by linarith
      qed
      have "length (concat chunks) \<le> length (concat (map (der_element inner_tag) chunks))"
        by (auto simp: length_concat der_element_def intro!: sum_list_mono)
      then have "length (concat chunks) + 0 < 2 ^ 64" using short by simp
      then have "room 0 (length (concat chunks) + 0) c" using CBB_init_ok(3) [OF i len] assms(1) by blast
      then obtain c' where c': "implicit_chunks inner_tag (concat (map (der_element inner_tag) chunks)) c = (True, c')" "open_at 0 c'" "room 0 0 c'"
          "cbb_abs c' = append_last (concat chunks) ([], [])"
        using chunks_complete [of chunks c 0 inner_tag] each new by auto
      obtain o' n c2 where f: "CBB_finish 0 True True c' = (True, o', n, c2)"
        using CBB_finish_success [of c'] c'(2,3) by (cases "CBB_finish 0 True True c'") (auto simp: open_at_def)
      have "CBS_get_asn1 ?outer inp = (Some (concat (map (der_element inner_tag) chunks)), r)"
        unfolding inp using short by (rule CBS_get_asn1_der)
      then show ?thesis using False i c'(1) f finish_out [OF c'(2,4) f] by (simp add: CBS_get_asn1_implicit_string_def)
    qed
    show ?thesis using sound complete no by (cases in_buffer) auto
  qed
qed

lemma CBS_get_asn1_implicit_string_reads_witness:
  "CBS_get_asn1_implicit_string (\<lambda>_. True) 0 0x80000001 4 [0xa1, 6, 4, 1, 0x41, 4, 1, 0x42, 9] = (Some ([0x41, 0x42], True), [9])"
proof -
  let ?inp = "[0xa1, 6, 4, 1, 0x41, 4, 1, 0x42, 9] :: bytes"
  have "?inp = der_element (0x80000001 OR CBS_ASN1_CONSTRUCTED) (concat (map (der_element 4) [[0x41], [0x42]])) @ [9]"
    by (simp add: der_eval)
  moreover have "length (concat (map (der_element 4) [[0x41], [0x42 :: byte]])) < 2 ^ 32" "[0x41, 0x42 :: byte] = concat [[0x41], [0x42]]"
    by (simp_all add: der_eval)
  ultimately have "\<exists>chunks. ?inp = der_element (0x80000001 OR CBS_ASN1_CONSTRUCTED) (concat (map (der_element 4) chunks)) @ [9] \<and>
      length (concat (map (der_element 4) chunks)) < 2 ^ 32 \<and> [0x41, 0x42] = concat chunks" by blast
  moreover have "CBS_get_asn1_implicit_string (\<lambda>_. True) 0 0x80000001 4 ?inp = (Some ([0x41, 0x42], True), [9]) \<longleftrightarrow>
    (if True then \<exists>chunks. ?inp = der_element (0x80000001 OR CBS_ASN1_CONSTRUCTED) (concat (map (der_element 4) chunks)) @ [9] \<and>
       length (concat (map (der_element 4) chunks)) < 2 ^ 32 \<and> [0x41, 0x42] = concat chunks
     else ?inp = der_element 0x80000001 [0x41, 0x42] @ [9] \<and> length ([0x41, 0x42] :: bytes) < 2 ^ 32)"
    by (rule CBS_get_asn1_implicit_string_reads) (simp_all add: CBS_ASN1_CONSTRUCTED_def)
  ultimately show ?thesis by (simp only: if_True)
qed

end
