(* ===== verification/Spec2Isabelle.thy ===== *)
theory Spec2Isabelle
  imports Unicode Stack Base64 Bio_Pair Pb_Props Modes_Props Modes_Cbc Lhash_Dict Pb_Decode_Safe Pb_Encode_Wire Cbb_Set_Of Ber_Props
begin

text \<open>
  \<^bold>\<open>The program.\<close> Tinkoff-chat is an iOS application. Its own code is Swift; its C code is the libraries
  that the pods under \<^verbatim>\<open>src/TinkoffChat/Pods\<close> compile into it. Firestore talks to its server through
  gRPC: the messages are encoded by nanopb (\<^verbatim>\<open>Pods/nanopb\<close>), the connection is protected by BoringSSL
  (\<^verbatim>\<open>Pods/BoringSSL-GRPC/src/crypto\<close>), whose TLS and X.509 code parses and builds everything through
  byte strings (CBS and CBB), passes records through BIOs, and keeps its objects in stacks and hash
  tables. The development models this layer: what is read from the network and what is written to it.

  \<^bold>\<open>Conventions.\<close> The targets are 64-bit, little-endian. A C function is a HOL function of its arguments
  and the state it changes; it returns the new state next to its result. \<^verbatim>\<open>size_t\<close> values are naturals
  whose sums and products wrap at $2^{64}$ (\<open>size_add\<close>, \<open>size_mul\<close>); other integers are words of
  their width. A failure is \<open>None\<close> or \<open>False\<close> as in the code; where a definition documents it, \<open>None\<close>
  is instead a call that does not return or would fail an assertion, and that this does not happen is
  then a theorem. What lies outside the repository is an argument: the allocator (\<open>alloc n\<close> says whether
  \<open>n\<close> bytes can be had; \<open>pb_realloc\<close>), the contents of fresh memory, comparison, hash and free
  functions, the block cipher under its key, callbacks, \<^verbatim>\<open>qsort\<close> (by its contract, the locale \<open>sorter\<close>).

  \<^bold>\<open>Prelude and shared theories.\<close> \<open>Prelude\<close> holds the machine types, the big-endian byte strings
  (\<open>be_bytes\<close>, \<open>be_val\<close>), copying into a buffer and the collections of lemmas. \<open>Codec\<close> has the locales
  \<open>codec\<close> and \<open>canonical_codec\<close> (a reader undoes an encoding; it accepts nothing else), which the
  integers, the length-prefixed strings, DER elements and tags, base-128 integers and code points
  interpret. \<open>Sorting\<close> has the contracts of comparison functions and of \<^verbatim>\<open>qsort\<close>.

  \<^bold>\<open>Byte strings, \<^verbatim>\<open>crypto/bytestring\<close>.\<close>
  \<^item> \<open>Cbs\<close>, \<open>Cbs_Asn1\<close>: \<^verbatim>\<open>cbs.c\<close>. A \<^verbatim>\<open>CBS\<close> is the list of bytes it spans. \<open>Der\<close> states DER and shows
    that the readers accept exactly it.
  \<^item> \<open>Cbb\<close>, \<open>Cbb_Asn1\<close>: \<^verbatim>\<open>cbb.c\<close>. The state is the buffer and the chain of pending children, a list of
    frames; a \<^verbatim>\<open>CBB *\<close> is a depth in the chain. \<open>Cbb_Refine\<close> and \<open>Cbb_Ops\<close> relate it to an abstract
    builder (the byte string so far, cut at the pending children) through the locales \<open>appender\<close> and
    \<open>opener\<close>; \<open>Der_Builder\<close> and \<open>Der_Integers\<close> show which bytes each function appends; \<open>Cbb_Steps\<close> is
    the state machine of all calls in any order, with its invariant; \<open>Cbb_Props\<close> has the properties;
    \<open>Cbb_Set_Of\<close> is the sorting of a SET OF.
  \<^item> \<open>Ber\<close>: \<^verbatim>\<open>ber.c\<close>, which reads through a CBS with BER allowed and writes DER through a CBB.
    \<open>Ber_Convert\<close> has the elements of BER that are accepted (minimal definite or indefinite lengths, at most
    2048 deep) as trees, what is written for them, and the proof that exactly their encodings are converted;
    \<open>Ber_Props\<close> has the properties and two kinds of input that are not converted as they should be.
  \<^item> \<open>Unicode\<close>: \<^verbatim>\<open>unicode.c\<close>, reading through a CBS and writing through a CBB.

  \<^bold>\<open>Containers and helpers.\<close>
  \<^item> \<open>Stack\<close>: \<^verbatim>\<open>stack/stack.c\<close>, an array with a capacity, a comparison function and a sorted flag; its
    calls refine a list and the searches agree with their specification while the flag is true, which
    \<^verbatim>\<open>sk_set\<close> and \<^verbatim>\<open>sk_deep_copy\<close> do not see to (\<open>stack_run\<close> follows this).
  \<^item> \<open>Lhash\<close>, \<open>Lhash_Dict\<close>: \<^verbatim>\<open>lhash/lhash.c\<close>, a chained hash table that resizes itself; any sequence of
    calls answers like a map (locale \<open>dictionary\<close>).
  \<^item> \<open>Const_Time\<close>: the comparisons without branches of \<^verbatim>\<open>internal.h\<close>. \<open>Base64\<close>: \<^verbatim>\<open>base64/base64.c\<close>, in
    one block and as a stream, which uses them.
  \<^item> \<open>Bio_Pair\<close>: \<^verbatim>\<open>bio/pair.c\<close> with the calls of \<^verbatim>\<open>bio.c\<close> that reach it: two ring buffers in a heap of
    BIOs that point at each other; a step relation of calls refines two queues.

  \<^bold>\<open>Block cipher modes, \<^verbatim>\<open>crypto/fipsmodule/modes\<close>.\<close> \<open>Modes\<close> has \<^verbatim>\<open>ctr.c\<close>, \<^verbatim>\<open>ofb.c\<close> and \<^verbatim>\<open>cfb.c\<close> with
  their loops by bytes, words and blocks; \<open>Modes_Streams\<close> the locales for modes that cut a stream in any
  way (\<open>stream_mode\<close>, \<open>invertible_mode\<close>, \<open>keystream\<close>), interpreted in \<open>Modes_Cfb\<close> and \<open>Modes_Props\<close>;
  \<open>Modes_Ctr32\<close> the counter mode with a 32-bit counter function; \<open>Modes_Cbc\<close> has \<^verbatim>\<open>cbc.c\<close>, on a memory
  in which input and output may overlap.

  \<^bold>\<open>nanopb.\<close>
  \<^item> \<open>Pb_Stream\<close>: the streams of \<^verbatim>\<open>pb_decode.c\<close> and \<^verbatim>\<open>pb_encode.c\<close>; \<open>Pb_Codec\<close> and \<open>Pb_Props\<close> show that
    what is written is read back and that neither side leaves its buffer.
  \<^item> \<open>Pb_Iter\<close>: \<^verbatim>\<open>pb_common.c\<close>, the iterator over a table of fields, and the macros of \<^verbatim>\<open>pb.h\<close> that make
    such a table of a C struct (\<open>PB_FIELD\<close>); \<open>layout_ok\<close> says when the members describe a struct.
  \<^item> \<open>Pb_Memory\<close>, \<open>Pb_Message\<close>: the message level of \<^verbatim>\<open>pb_decode.c\<close> on a memory of bytes: defaults,
    releasing, a decoder per type, static, pointer and callback fields, extensions, and the loop over a
    message. The recursion over nested messages has fuel; two units per level are enough.
  \<^item> \<open>Pb_Layout\<close> says when a struct of static fields fits its memory, nested to any depth; arrays of fixed
    count must have four bytes there, and \<open>Pb_Decode_Safe\<close> shows that the defaults overrun a smaller one.
    \<open>Pb_Safe\<close>, \<open>Pb_Decode_Safe\<close>: decoding any input into such a struct returns and stores nothing outside it.
  \<^item> \<open>Pb_Encode\<close>: the message level of \<^verbatim>\<open>pb_encode.c\<close>, reading the same memory. \<open>Pb_Wire\<close> states the wire
    format of such a struct as a function of memory (\<open>wire_message\<close>) and has the rules for operations that
    write given bytes (\<open>writes\<close>); \<open>Pb_Encode_Wire\<close> shows that the encoder writes exactly the wire format,
    with one unit of fuel per level and one more.

  \<^bold>\<open>Termination.\<close> Loops that end on every state are total functions. The others are \<open>partial_function\<close>s
  (\<open>iter_search\<close>, \<open>iter_each\<close>, \<open>repeat_step\<close>, the copying loops of \<open>Bio_Pair\<close>) or have fuel, and the
  theorems about them state that they return.

  \<^bold>\<open>Not modelled.\<close> Of BoringSSL: GCM and polyval, the ciphers and hashes themselves, big numbers, elliptic
  curves, X.509, EVP and PEM, object identifiers (generated tables), TLS (C++), and the BIOs over files and
  sockets. The rest of the pods is C++, Objective-C or
  generated data, and the application itself is Swift. Reference counts, locks and cleansing of memory
  before it is freed have no effect on the results and are left out.
\<close>

end
